(* ===== verification/Beeper_Prelude.thy ===== *)
theory Beeper_Prelude
  imports Main "HOL-Library.Word" "HOL-Library.AList"
begin

unbundle bit_operations_syntax

section \<open>Shared vocabulary of the development\<close>

text \<open>
  What every component of the model uses: the machine integer types of the Rust code,
  the result type of code that may fail, hash maps as association lists, and the ASCII
  case functions of the Rust standard library.

  A Rust \<open>HashMap\<close> is an association list: \<open>map_of\<close> is \<open>get\<close> and \<open>AList.update\<close> is
  \<open>insert\<close>. The order in which a hash map iterates is not determined by the code, so
  whatever iterates over one takes the order as an argument.
\<close>

subsection \<open>Machine integers\<close>

type_synonym u8 = "8 word"
type_synonym u16 = "16 word"
type_synonym u32 = "32 word"

text \<open>The bytes of a message, of a header name or of a Rust string.\<close>

type_synonym bytes = "u8 list"

named_theorems res_simps \<open>evaluation and inversion of computations that may fail\<close>
named_theorems dfa_intros \<open>facts that survive when a DFA grows\<close>

subsection \<open>Computations that may fail\<close>

text \<open>
  \<open>Inl\<close> carries the failure (a Rust panic or an \<open>Err\<close>), \<open>Inr\<close> the result.
  \<open>bind_res\<close> sequences two computations, the second runs only if the first one did not
  fail; \<open>fold_res\<close> is a \<open>for\<close> loop whose body may fail.
\<close>

definition bind_res :: "'e + 'a \<Rightarrow> ('a \<Rightarrow> 'e + 'b) \<Rightarrow> 'e + 'b" where
  "bind_res m f = (case m of Inl e \<Rightarrow> Inl e | Inr x \<Rightarrow> f x)"

lemma bind_res_Inl [simp]: "bind_res (Inl e) f = Inl e"
  by (simp add: bind_res_def)

lemma bind_res_Inr [simp]: "bind_res (Inr x) f = f x"
  by (simp add: bind_res_def)

lemma bind_res_eq_Inr [res_simps]:
  "bind_res m f = Inr y \<longleftrightarrow> (\<exists>x. m = Inr x \<and> f x = Inr y)"
  by (cases m) simp_all

lemma bind_res_eq_Inl [res_simps]:
  "bind_res m f = Inl e \<longleftrightarrow> m = Inl e \<or> (\<exists>x. m = Inr x \<and> f x = Inl e)"
  by (cases m) simp_all

lemma bind_res_InrE:
  assumes "bind_res m f = Inr y"
  obtains x where "m = Inr x" and "f x = Inr y"
  using assms by (auto simp: bind_res_eq_Inr)

lemma bind_res_Inr_pairE:
  assumes "bind_res m (\<lambda>(a, b). f a b) = Inr y"
  obtains a b where "m = Inr (a, b)" and "f a b = Inr y"
  using assms by (auto simp: bind_res_eq_Inr)

lemma bind_res_assoc: "bind_res (bind_res m f) g = bind_res m (\<lambda>x. bind_res (f x) g)"
  by (cases m) simp_all

lemma bind_res_right_id [simp]: "bind_res m Inr = m"
  by (cases m) simp_all

lemma bind_res_cong [fundef_cong]:
  "m = m' \<Longrightarrow> (\<And>x. m' = Inr x \<Longrightarrow> f x = f' x) \<Longrightarrow> bind_res m f = bind_res m' f'"
  by (cases m') simp_all

primrec fold_res :: "('x \<Rightarrow> 's \<Rightarrow> 'e + 's) \<Rightarrow> 'x list \<Rightarrow> 's \<Rightarrow> 'e + 's" where
  "fold_res f [] s = Inr s"
| "fold_res f (x # xs) s = bind_res (f x s) (fold_res f xs)"

lemma fold_res_append:
  "fold_res f (xs @ ys) s = bind_res (fold_res f xs s) (fold_res f ys)"
proof (induction xs arbitrary: s)
  case Nil
  show ?case by simp
next
  case (Cons x xs)
  then show ?case by (cases "f x s") simp_all
qed

text \<open>The same equations without the state, to rewrite a loop inside of a sequence.\<close>

lemma fold_res_fun:
  "fold_res f [] = Inr"
  "fold_res f (x # xs) = (\<lambda>s. bind_res (f x s) (fold_res f xs))"
  "fold_res f (xs @ ys) = (\<lambda>s. bind_res (fold_res f xs s) (fold_res f ys))"
  by (simp_all add: fun_eq_iff fold_res_append)

lemma bind_res_fold_Nil [simp]: "bind_res m (fold_res f []) = m"
  by (simp add: fold_res_fun)

lemma fold_res_map: "fold_res f (map g xs) = fold_res (\<lambda>x. f (g x)) xs"
  by (induction xs) (simp_all add: fold_res_fun)

lemma fold_res_concat: "fold_res f (concat xss) = fold_res (\<lambda>xs. fold_res f xs) xss"
  by (induction xss) (simp_all add: fold_res_fun)

lemma fold_res_total:
  "(\<And>x s. x \<in> set xs \<Longrightarrow> P s \<Longrightarrow> \<exists>s'. f x s = Inr s' \<and> P s') \<Longrightarrow> P s \<Longrightarrow>
     \<exists>s'. fold_res f xs s = Inr s' \<and> P s'"
proof (induction xs arbitrary: s)
  case Nil
  then show ?case by simp
next
  case (Cons x xs)
  then obtain s1 where s1: "f x s = Inr s1" "P s1"
    by (meson list.set_intros(1))
  with Cons.IH [of s1] Cons.prems(1) show ?case by simp
qed

subsection \<open>Operations that keep an invariant and only ever grow their state\<close>

text \<open>
  The DFA, its builder and the parsers share one contract: every operation keeps the
  invariant of its state, and leads to a state that extends the one before. The loops of
  the code inherit the contract from their bodies.
\<close>

locale growing =
  fixes inv :: "'s \<Rightarrow> bool"
    and le :: "'s \<Rightarrow> 's \<Rightarrow> bool"
  assumes le_refl: "le s s"
    and le_trans: "le s t \<Longrightarrow> le t u \<Longrightarrow> le s u"
begin

lemma loop_pre:
  assumes "fold_res f xs s = Inr s'" and "inv s" and "\<And>x. x \<in> set xs \<Longrightarrow> pre x s"
    and mono: "\<And>x s t. pre x s \<Longrightarrow> le s t \<Longrightarrow> pre x t"
    and step: "\<And>x s s'. x \<in> set xs \<Longrightarrow> f x s = Inr s' \<Longrightarrow> inv s \<Longrightarrow> pre x s \<Longrightarrow> inv s' \<and> le s s'"
  shows "inv s' \<and> le s s'"
  using assms(1,2,3) step
proof (induction xs arbitrary: s)
  case Nil
  then show ?case by (simp add: le_refl)
next
  case (Cons x xs)
  from Cons.prems(1) obtain t where t: "f x s = Inr t" "fold_res f xs t = Inr s'"
    by (auto simp: res_simps)
  have st: "inv t \<and> le s t"
    using Cons.prems(4) [OF list.set_intros(1) t(1)] Cons.prems(2,3) by simp
  have "inv s' \<and> le t s'"
    using Cons.prems(3,4) [OF list.set_intros(2)] st mono by (intro Cons.IH [OF t(2)]) blast+
  with st show ?case by (blast intro: le_trans)
qed

lemma loop:
  assumes "fold_res f xs s = Inr s'" and "inv s"
    and "\<And>x s s'. x \<in> set xs \<Longrightarrow> f x s = Inr s' \<Longrightarrow> inv s \<Longrightarrow> inv s' \<and> le s s'"
  shows "inv s' \<and> le s s'"
  using assms(1,2) by (rule loop_pre [where pre = "\<lambda>_ _. True"]) (use assms(3) in blast)+

lemma chain:
  assumes "inv s \<Longrightarrow> inv t \<and> le s t" and "inv t \<Longrightarrow> inv u \<and> le t u" and "inv s"
  shows "inv u \<and> le s u"
  using assms by (blast intro: le_trans)

end

subsection \<open>Hash maps\<close>

lemma map_of_update: "map_of (AList.update k v al) = (map_of al)(k \<mapsto> v)"
  by (rule update_conv')

lemma map_of_update_apply [simp]:
  "map_of (AList.update k v al) k' = (if k' = k then Some v else map_of al k')"
  by (simp add: update_conv')

subsection \<open>Words\<close>

lemma u16_less_Suc: "n \<noteq> 0xFFFF \<Longrightarrow> (n::u16) < n + 1"
  by unat_arith simp

text \<open>A property of bytes can be checked byte by byte.\<close>

lemma all_u8: "(\<forall>b::u8. P b) \<longleftrightarrow> list_all P (map word_of_nat [0..<256])"
proof
  assume P: "list_all P (map word_of_nat [0..<256])"
  show "\<forall>b. P b"
  proof
    fix b :: u8
    have "unat b < 256" using unsigned_less [of b, where ?'a = nat] by simp
    moreover have "word_of_nat (unat b) = b" by (simp add: of_nat_unat)
    ultimately show "P b" using P by (metis (no_types) imageI atLeastLessThan_iff list.set_map
          list_all_iff set_upt zero_le)
  qed
qed (simp add: list_all_iff)

end
