(* ===== verification/Lib_Types.thy ===== *)
theory Lib_Types
  imports Beeper_Prelude
begin

section \<open>The types of the crate root (\<open>beeper/src/lib.rs\<close>)\<close>

text \<open>
  The identifiers the parsers share, the errors of the public interface with their
  display, and the names of the pseudo-headers. \<open>StateId(u16)\<close> and \<open>MatchId(u8)\<close> are
  newtypes around a word; a value of the crates \<open>httlib_huffman\<close>, \<open>libbpf_rs\<close> and
  \<open>plain\<close> that an error carries along is of a type of its own, and its display is a
  parameter.
\<close>

type_synonym state_id = u16

datatype match_id = MatchId (match_idx: u8)

definition u8_of_match_id :: "match_id \<Rightarrow> u8" where
  "u8_of_match_id mid = match_idx mid"

datatype message_buffer = Skb | Msg

datatype ('enc, 'bpf, 'plain) beeper_error =
    MatchLimitExceeded nat
  | InvalidEncoding 'enc
  | ParserExceedsStateLimit
  | Bpf 'bpf
  | MalformedTableEntry 'plain

subsection \<open>\<open>impl std::error::Error for Error\<close>\<close>

datatype ('enc, 'bpf) error_source = EncoderSource 'enc | BpfSource 'bpf

definition error_source :: "('enc, 'bpf, 'plain) beeper_error \<Rightarrow> ('enc, 'bpf) error_source option" where
  "error_source err = (case err of
       InvalidEncoding e \<Rightarrow> Some (EncoderSource e)
     | Bpf e \<Rightarrow> Some (BpfSource e)
     | MatchLimitExceeded _ \<Rightarrow> None
     | ParserExceedsStateLimit \<Rightarrow> None
     | MalformedTableEntry _ \<Rightarrow> None)"

definition error_from_encoder :: "'enc \<Rightarrow> ('enc, 'bpf, 'plain) beeper_error" where
  "error_from_encoder e = InvalidEncoding e"

definition error_from_bpf :: "'bpf \<Rightarrow> ('enc, 'bpf, 'plain) beeper_error" where
  "error_from_bpf e = Bpf e"

definition error_from_plain :: "'plain \<Rightarrow> ('enc, 'bpf, 'plain) beeper_error" where
  "error_from_plain e = MalformedTableEntry e"

subsection \<open>\<open>impl Display for Error\<close>\<close>

text \<open>The decimal digits of a number, as \<open>Display\<close> of \<open>usize\<close> writes them.\<close>

definition digit_char :: "nat \<Rightarrow> char" where
  "digit_char n = char_of (48 + n)"

fun show_nat :: "nat \<Rightarrow> string" where
  "show_nat n = (if n < 10 then [digit_char n] else show_nat (n div 10) @ [digit_char (n mod 10)])"

declare show_nat.simps [simp del]

definition fmt_error ::
  "('enc \<Rightarrow> string) \<Rightarrow> ('bpf \<Rightarrow> string) \<Rightarrow> ('plain \<Rightarrow> string) \<Rightarrow>
     ('enc, 'bpf, 'plain) beeper_error \<Rightarrow> string" where
  "fmt_error show_enc show_bpf debug_plain err = (case err of
       MatchLimitExceeded limit \<Rightarrow> ''a parser captures at most '' @ show_nat limit @ '' ranges''
     | InvalidEncoding e \<Rightarrow> ''the header name cannot be Huffman encoded: '' @ show_enc e
     | ParserExceedsStateLimit \<Rightarrow> ''the patterns do not fit into the parser program''
     | Bpf e \<Rightarrow> ''the parser program cannot be loaded: '' @ show_bpf e
     | MalformedTableEntry e \<Rightarrow> ''the parser wrote a table entry back malformed: '' @ debug_plain e)"

subsection \<open>Pseudo-headers\<close>

text \<open>
  A \<open>PseudoHeaderName\<close> wraps a static string; both its \<open>AsRef\<close> implementations and
  \<open>as_str\<close> hand out that string, here as its bytes.
\<close>

definition bytes_of :: "string \<Rightarrow> bytes" where
  "bytes_of s = map of_char s"

datatype pseudo_header_name = PseudoHeaderName (as_str: string)

definition METHOD :: pseudo_header_name where "METHOD = PseudoHeaderName '':method''"
definition PATH :: pseudo_header_name where "PATH = PseudoHeaderName '':path''"
definition STATUS :: pseudo_header_name where "STATUS = PseudoHeaderName '':status''"
definition AUTHORITY :: pseudo_header_name where "AUTHORITY = PseudoHeaderName '':authority''"
definition SCHEME :: pseudo_header_name where "SCHEME = PseudoHeaderName '':scheme''"

definition as_ref :: "pseudo_header_name \<Rightarrow> bytes" where
  "as_ref p = bytes_of (as_str p)"

lemmas pseudo_header_defs = METHOD_def PATH_def STATUS_def AUTHORITY_def SCHEME_def

subsection \<open>Panics\<close>

text \<open>
  The panics of the crate's own code, one constructor per \<open>panic!\<close>, \<open>assert!\<close> or
  checked operation that can fire, with what its message carries.
\<close>

datatype 'a panic =
    StateOverflow                              \<comment> \<open>\<open>strict_add\<close> on the number of states\<close>
  | TransitionConflict state_id state_id state_id  \<comment> \<open>from, the old and the new target\<close>
  | ActionConflict 'a 'a                       \<comment> \<open>the new and the old action\<close>
  | StateNotFound
  | EdgeNotFound
  | EmptyRange
  | EmptyOption
  | UnsupportedHeader bytes
  | IndexOutOfBounds
  | Ipv6Address                                \<comment> \<open>\<open>ip4_addr\<close> of an IPv6 address\<close>

end
