(* ===== verification/Dfa.thy ===== *)
theory Dfa
  imports Lib_Types
begin

section \<open>The DFA (\<open>beeper/src/dfa.rs\<close>, \<open>Dfa\<close>)\<close>

text \<open>
  The state of the DFA, its operations, the invariant they keep and the order in which a
  DFA grows. A panic is \<open>Inl\<close>. The hash maps of the code are association lists, so
  \<open>iter_transitions\<close> lists the transitions in one of the orders a hash map may yield.
\<close>

subsection \<open>Constants and state\<close>

definition INIT_STATE :: state_id where "INIT_STATE = 0"
definition ANY_STATE :: state_id where "ANY_STATE = 1"

type_synonym input = u16

definition ANY_INPUT :: input where "ANY_INPUT = 0x100"

record 'a edge =
  edge_to :: state_id
  edge_action :: "'a option"

type_synonym 'a edge_map = "(state_id \<times> (input \<times> 'a edge) list) list"

record 'a dfa =
  num_states :: u16
  edges :: "'a edge_map"

subsection \<open>Operations\<close>

definition with_reserved_states :: "u16 \<Rightarrow> 'a dfa" where
  "with_reserved_states reserved = \<lparr>num_states = max reserved 2, edges = []\<rparr>"

definition dfa_new :: "'a dfa" where
  "dfa_new = with_reserved_states 2"

definition dfa_num_states :: "'a dfa \<Rightarrow> u16" where
  "dfa_num_states d = num_states d"

text \<open>\<open>self.edges.get(from).and_then(|es| es.get(input))\<close>\<close>

definition dfa_edge :: "'a dfa \<Rightarrow> state_id \<Rightarrow> input \<Rightarrow> 'a edge option" where
  "dfa_edge d from input =
     (case map_of (edges d) from of None \<Rightarrow> None | Some es \<Rightarrow> map_of es input)"

definition new_state :: "'a dfa \<Rightarrow> 'a panic + state_id \<times> 'a dfa" where
  "new_state d =
     (if num_states d = 0xFFFF then Inl StateOverflow
      else Inr (num_states d, d\<lparr>num_states := num_states d + 1\<rparr>))"

definition next_state :: "'a dfa \<Rightarrow> state_id \<Rightarrow> input \<Rightarrow> 'a panic + state_id \<times> 'a dfa" where
  "next_state d from input =
     (case dfa_edge d from input of
        Some e \<Rightarrow> Inr (edge_to e, d)
      | None \<Rightarrow> new_state d)"

definition dfa_row :: "'a dfa \<Rightarrow> state_id \<Rightarrow> (input \<times> 'a edge) list" where
  "dfa_row d from = (case map_of (edges d) from of None \<Rightarrow> [] | Some es \<Rightarrow> es)"

definition set_edge :: "'a dfa \<Rightarrow> state_id \<Rightarrow> input \<Rightarrow> 'a edge \<Rightarrow> 'a dfa" where
  "set_edge d from input e =
     d\<lparr>edges := AList.update from (AList.update input e (dfa_row d from)) (edges d)\<rparr>"

definition insert_edge ::
  "'a dfa \<Rightarrow> state_id \<Rightarrow> input \<Rightarrow> state_id \<Rightarrow> 'a option \<Rightarrow> 'a panic + 'a dfa" where
  "insert_edge d from input to action =
     (case map_of (dfa_row d from) input of
        None \<Rightarrow> Inr (set_edge d from input \<lparr>edge_to = to, edge_action = action\<rparr>)
      | Some old \<Rightarrow>
          if edge_to old \<noteq> to then Inl (TransitionConflict from (edge_to old) to)
          else (case (edge_action old, action) of
              (_, None) \<Rightarrow> Inr d
            | (None, Some a) \<Rightarrow> Inr (set_edge d from input (old\<lparr>edge_action := Some a\<rparr>))
            | (Some old_action, Some a) \<Rightarrow>
                if old_action = a then Inr d else Inl (ActionConflict a old_action)))"

definition add_action :: "'a dfa \<Rightarrow> state_id \<Rightarrow> input \<Rightarrow> 'a \<Rightarrow> 'a panic + 'a dfa" where
  "add_action d from input action =
     (case map_of (edges d) from of
        None \<Rightarrow> Inl StateNotFound
      | Some es \<Rightarrow>
          (case map_of es input of
             None \<Rightarrow> Inl EdgeNotFound
           | Some e \<Rightarrow>
               (case edge_action e of
                  Some old_action \<Rightarrow>
                    if old_action \<noteq> action then Inl (ActionConflict action old_action)
                    else Inr (set_edge d from input (e\<lparr>edge_action := Some action\<rparr>))
                | None \<Rightarrow> Inr (set_edge d from input (e\<lparr>edge_action := Some action\<rparr>)))))"

definition iter_transitions :: "'a dfa \<Rightarrow> (state_id \<times> input \<times> state_id \<times> 'a option) list" where
  "iter_transitions d =
     concat (map (\<lambda>(from, es). map (\<lambda>(input, e). (from, input, edge_to e, edge_action e)) es) (edges d))"

subsection \<open>What the operations do to the edges\<close>

lemma dfa_edge_row: "dfa_edge d s i = map_of (dfa_row d s) i"
  by (simp add: dfa_edge_def dfa_row_def split: option.split)

lemma dfa_edge_set_edge [simp]:
  "dfa_edge (set_edge d s i e) s' i' = (if s' = s \<and> i' = i then Some e else dfa_edge d s' i')"
  by (simp add: dfa_edge_def dfa_row_def set_edge_def split: option.split)

lemma num_states_set_edge [simp]: "num_states (set_edge d s i e) = num_states d"
  by (simp add: set_edge_def)

lemma dfa_edge_with_num_states [simp]: "dfa_edge (d\<lparr>num_states := n\<rparr>) s i = dfa_edge d s i"
  by (simp add: dfa_edge_def)

lemma dfa_edge_reserved [simp]: "dfa_edge (with_reserved_states n) s i = None"
  by (simp add: dfa_edge_def with_reserved_states_def)

lemma num_states_reserved [simp]: "num_states (with_reserved_states n) = max n 2"
  by (simp add: with_reserved_states_def)

lemma new_state_Inr [res_simps]:
  "new_state d = Inr (s, d') \<longleftrightarrow>
     num_states d \<noteq> 0xFFFF \<and> s = num_states d \<and> d' = d\<lparr>num_states := num_states d + 1\<rparr>"
  by (auto simp: new_state_def)

text \<open>The action an edge carries after another one has been laid over it.\<close>

definition merged_action :: "'a edge option \<Rightarrow> 'a option \<Rightarrow> 'a option" where
  "merged_action old action =
     (case old of None \<Rightarrow> action | Some e \<Rightarrow> (case edge_action e of None \<Rightarrow> action | Some a \<Rightarrow> Some a))"

lemma insert_edge_Inr:
  assumes "insert_edge d s i t a = Inr d'"
  shows "dfa_edge d' s' i' =
      (if s' = s \<and> i' = i then Some \<lparr>edge_to = t, edge_action = merged_action (dfa_edge d s i) a\<rparr>
       else dfa_edge d s' i')"
    and "num_states d' = num_states d"
    and "\<And>e. dfa_edge d s i = Some e \<Longrightarrow> edge_to e = t"
    and "\<And>e b c. dfa_edge d s i = Some e \<Longrightarrow> a = Some b \<Longrightarrow> edge_action e = Some c \<Longrightarrow> b = c"
  using assms
  by (auto simp: insert_edge_def merged_action_def simp flip: dfa_edge_row
      intro!: edge.equality split: option.splits if_splits)

lemma insert_edge_None_total:
  "(\<And>e. dfa_edge d s i = Some e \<Longrightarrow> edge_to e = t) \<Longrightarrow> \<exists>d'. insert_edge d s i t None = Inr d'"
  by (auto simp: insert_edge_def simp flip: dfa_edge_row split: option.split)

lemma add_action_Inr:
  assumes "add_action d s i a = Inr d'"
  obtains e where "dfa_edge d s i = Some e" and "edge_action e = None \<or> edge_action e = Some a"
    and "num_states d' = num_states d"
    and "\<And>s' i'. dfa_edge d' s' i' =
           (if s' = s \<and> i' = i then Some (e\<lparr>edge_action := Some a\<rparr>) else dfa_edge d s' i')"
  using assms
  by (fastforce simp: add_action_def dfa_edge_def [of d] split: option.splits if_splits)

lemma add_action_total:
  assumes "dfa_edge d s i = Some e" and "edge_action e = None \<or> edge_action e = Some a"
  shows "\<exists>d'. add_action d s i a = Inr d'"
  using assms by (auto simp: add_action_def dfa_edge_def split: option.splits)

lemma add_action_Inl:
  assumes "add_action d s i a = Inl p" and "dfa_edge d s i = Some e"
  shows "\<exists>b. edge_action e = Some b \<and> a \<noteq> b \<and> p = ActionConflict a b"
  using assms by (auto simp: add_action_def dfa_edge_def split: option.splits if_splits)

subsection \<open>The invariant\<close>

text \<open>
  \<open>wf_dfa\<close>: the first two states are reserved, every state an edge leaves or leads to is
  below \<open>num_states\<close>, and no key is stored twice.
\<close>

definition distinct_keys :: "'a dfa \<Rightarrow> bool" where
  "distinct_keys d \<longleftrightarrow>
     distinct (map fst (edges d)) \<and> (\<forall>es \<in> snd ` set (edges d). distinct (map fst es))"

definition wf_dfa :: "'a dfa \<Rightarrow> bool" where
  "wf_dfa d \<longleftrightarrow> 2 \<le> num_states d \<and> distinct_keys d \<and>
     (\<forall>s i e. dfa_edge d s i = Some e \<longrightarrow> s < num_states d \<and> edge_to e < num_states d)"

lemma wf_dfaD:
  assumes "wf_dfa d"
  shows "2 \<le> num_states d" and "distinct_keys d"
    and "dfa_edge d s i = Some e \<Longrightarrow> s < num_states d"
    and "dfa_edge d s i = Some e \<Longrightarrow> edge_to e < num_states d"
    and "0 < num_states d" and "1 < num_states d"
proof -
  show two: "2 \<le> num_states d" and "distinct_keys d"
    and "dfa_edge d s i = Some e \<Longrightarrow> s < num_states d"
    and "dfa_edge d s i = Some e \<Longrightarrow> edge_to e < num_states d"
    using assms by (auto simp: wf_dfa_def)
  show "0 < num_states d" and "1 < num_states d"
    using two by (auto intro: less_le_trans [of _ 2])
qed

lemma fresh_row: "wf_dfa d \<Longrightarrow> num_states d \<le> s \<Longrightarrow> dfa_edge d s i = None"
  by (metis linorder_not_less not_Some_eq wf_dfaD(3))

lemma wf_reserved: "wf_dfa (with_reserved_states n)"
  by (simp add: wf_dfa_def distinct_keys_def) (simp add: with_reserved_states_def)

lemma wf_new: "wf_dfa dfa_new"
  by (simp add: dfa_new_def wf_reserved)

lemma distinct_keys_row: "distinct_keys d \<Longrightarrow> distinct (map fst (dfa_row d s))"
  by (force simp: distinct_keys_def dfa_row_def split: option.split dest: map_of_SomeD)

lemma in_update_cases: "es \<in> snd ` set (AList.update k v al) \<Longrightarrow> es = v \<or> es \<in> snd ` set al"
  by (induction al) (auto split: if_splits)

lemma distinct_keys_set_edge:
  assumes "distinct_keys d"
  shows "distinct_keys (set_edge d s i e)"
proof -
  let ?row = "AList.update i e (dfa_row d s)"
  have "distinct (map fst ?row)"
    using distinct_keys_row [OF assms] by (rule distinct_update)
  then have "\<forall>es \<in> snd ` set (AList.update s ?row (edges d)). distinct (map fst es)"
    using assms by (metis distinct_keys_def in_update_cases)
  then show ?thesis
    using assms by (simp add: distinct_keys_def set_edge_def distinct_update)
qed

lemma distinct_keys_with_num_states [simp]:
  "distinct_keys (d\<lparr>num_states := n\<rparr>) = distinct_keys d"
  by (simp add: distinct_keys_def)

lemma wf_set_edge:
  "wf_dfa d \<Longrightarrow> s < num_states d \<Longrightarrow> edge_to e < num_states d \<Longrightarrow> wf_dfa (set_edge d s i e)"
  by (simp add: wf_dfa_def distinct_keys_set_edge)

lemma wf_new_state:
  assumes "wf_dfa d" and "new_state d = Inr (s, d')"
  shows "wf_dfa d'" and "s < num_states d'" and "num_states d < num_states d'"
proof -
  from assms(2) have n: "num_states d \<noteq> 0xFFFF" and d': "d' = d\<lparr>num_states := num_states d + 1\<rparr>"
    and s: "s = num_states d" by (simp_all add: res_simps)
  from u16_less_Suc [OF n] have lt: "num_states d < num_states d + 1" .
  with assms(1) show "wf_dfa d'"
    by (auto simp: wf_dfa_def d' intro: less_trans order.trans [OF _ less_imp_le])
  show "s < num_states d'" and "num_states d < num_states d'" using lt by (simp_all add: d' s)
qed

lemma wf_insert_edge:
  assumes "insert_edge d s i t a = Inr d'" and "wf_dfa d" and "s < num_states d" and "t < num_states d"
  shows "wf_dfa d'"
  using assms
  by (auto simp: insert_edge_def intro!: wf_set_edge simp flip: dfa_edge_row
      split: option.splits if_splits)

lemma distinct_keys_insert_edge:
  "insert_edge d s i t a = Inr d' \<Longrightarrow> distinct_keys d \<Longrightarrow> distinct_keys d'"
  by (auto simp: insert_edge_def intro!: distinct_keys_set_edge split: option.splits if_splits)

lemma distinct_keys_next_state: "next_state d s i = Inr (t, d') \<Longrightarrow> distinct_keys d \<Longrightarrow> distinct_keys d'"
  by (auto simp: next_state_def res_simps split: option.splits)

lemma wf_add_action:
  assumes "add_action d s i a = Inr d'" and "wf_dfa d"
  shows "wf_dfa d'"
proof -
  from assms(1) obtain e where "dfa_edge d s i = Some e" and "d' = set_edge d s i (e\<lparr>edge_action := Some a\<rparr>)"
    by (auto simp: add_action_def dfa_edge_def split: option.splits if_splits)
  with assms(2) show ?thesis by (auto intro!: wf_set_edge dest: wf_dfaD)
qed

subsection \<open>Growth\<close>

text \<open>
  A DFA \<open>extends\<close> another one if it still has every edge of it, to the same target and
  with the same action if it carried one. What a pattern built stays in place.
\<close>

definition edge_le :: "'a edge \<Rightarrow> 'a edge \<Rightarrow> bool" where
  "edge_le e e' \<longleftrightarrow>
     edge_to e' = edge_to e \<and> (\<forall>a. edge_action e = Some a \<longrightarrow> edge_action e' = Some a)"

definition extends :: "'a dfa \<Rightarrow> 'a dfa \<Rightarrow> bool" where
  "extends d d' \<longleftrightarrow> num_states d \<le> num_states d' \<and>
     (\<forall>s i e. dfa_edge d s i = Some e \<longrightarrow> (\<exists>e'. dfa_edge d' s i = Some e' \<and> edge_le e e'))"

lemma edge_le_refl [simp]: "edge_le e e"
  by (simp add: edge_le_def)

lemma edge_le_trans: "edge_le e e' \<Longrightarrow> edge_le e' e'' \<Longrightarrow> edge_le e e''"
  by (simp add: edge_le_def)

lemma extends_refl [simp]: "extends d d"
  by (auto simp: extends_def)

lemma extends_trans: "extends d d' \<Longrightarrow> extends d' d'' \<Longrightarrow> extends d d''"
  unfolding extends_def by (meson edge_le_trans order.trans)

interpretation dfa_growth: growing wf_dfa extends
  by unfold_locales (auto intro: extends_trans)

lemma extendsD:
  assumes "extends d d'"
  shows "s < num_states d \<Longrightarrow> s < num_states d'"
    and "dfa_edge d s i = Some e \<Longrightarrow> \<exists>e'. dfa_edge d' s i = Some e' \<and> edge_le e e'"
    and "dfa_edge d s i \<noteq> None \<Longrightarrow> dfa_edge d' s i \<noteq> None"
  using assms by (auto simp: extends_def) blast

lemma extends_new_state: "wf_dfa d \<Longrightarrow> new_state d = Inr (s, d') \<Longrightarrow> extends d d'"
  by (auto simp: extends_def res_simps dest!: u16_less_Suc)

lemma extends_insert_edge:
  assumes "insert_edge d s i t a = Inr d'"
  shows "extends d d'"
  using insert_edge_Inr [OF assms]
  by (auto simp: extends_def edge_le_def merged_action_def split: option.splits)

lemma extends_add_action:
  assumes "add_action d s i a = Inr d'"
  shows "extends d d'"
  using assms by (elim add_action_Inr) (auto simp: extends_def edge_le_def)

text \<open>\<open>iter_transitions\<close> lists every edge, and each of them once.\<close>

lemma in_iter_transitions:
  assumes "distinct_keys d"
  shows "(s, i, t, a) \<in> set (iter_transitions d) \<longleftrightarrow>
     (\<exists>e. dfa_edge d s i = Some e \<and> t = edge_to e \<and> a = edge_action e)"
proof -
  have "(s, i, t, a) \<in> set (iter_transitions d) \<longleftrightarrow>
      (\<exists>es e. (s, es) \<in> set (edges d) \<and> (i, e) \<in> set es \<and> t = edge_to e \<and> a = edge_action e)"
    by (force simp: iter_transitions_def)
  also have "\<dots> \<longleftrightarrow> (\<exists>es e. map_of (edges d) s = Some es \<and> map_of es i = Some e \<and>
      t = edge_to e \<and> a = edge_action e)"
    using assms by (force simp: distinct_keys_def dest: map_of_SomeD)
  finally show ?thesis by (auto simp: dfa_edge_def split: option.splits)
qed

end
