(* ===== verification/Dfa_Builder.thy ===== *)
theory Dfa_Builder
  imports Dfa
begin

section \<open>The pattern builder (\<open>beeper/src/dfa.rs\<close>, \<open>DfaBuilder\<close>)\<close>

text \<open>
  The builder borrows the DFA mutably; the model keeps the DFA as a field of the builder
  and passes the builder on. \<open>with_action\<close> is the method \<open>with\<close>, every other operation
  has the name of its method. A loop body of the code that changes the builder is a
  definition of its own, run by \<open>fold_res\<close>.
\<close>

subsection \<open>State\<close>

record optional_prefix =
  prefix_inputs :: "input list"
  prefix_case_sensitive :: bool
  prefix_repeat :: bool

record 'a builder =
  bdfa :: "'a dfa"
  bstate :: state_id
  optional_prefixes :: "optional_prefix list"
  optional_states :: "state_id list"
  last_edges :: "(state_id \<times> input \<times> bool) list"

definition start_pattern :: "'a dfa \<Rightarrow> state_id \<Rightarrow> 'a builder" where
  "start_pattern d s =
     \<lparr>bdfa = d, bstate = s, optional_prefixes = [], optional_states = [], last_edges = []\<rparr>"

subsection \<open>The other case of a letter\<close>

definition is_ascii_lowercase :: "u8 \<Rightarrow> bool" where
  "is_ascii_lowercase b \<longleftrightarrow> 0x61 \<le> b \<and> b \<le> 0x7A"

definition is_ascii_uppercase :: "u8 \<Rightarrow> bool" where
  "is_ascii_uppercase b \<longleftrightarrow> 0x41 \<le> b \<and> b \<le> 0x5A"

definition to_ascii_uppercase :: "u8 \<Rightarrow> u8" where
  "to_ascii_uppercase b = (if is_ascii_lowercase b then b - 0x20 else b)"

definition to_ascii_lowercase :: "u8 \<Rightarrow> u8" where
  "to_ascii_lowercase b = (if is_ascii_uppercase b then b + 0x20 else b)"

definition other_case :: "input \<Rightarrow> input option" where
  "other_case input =
     (if 0xFF < input then None
      else let byte = ucast input :: u8;
               other = (if is_ascii_lowercase byte then to_ascii_uppercase byte
                        else to_ascii_lowercase byte)
           in if other \<noteq> byte then Some (ucast other) else None)"

subsection \<open>Inserting edges\<close>

text \<open>
  \<open>to.unwrap_or(self.dfa.next_state(..))\<close> evaluates its argument first: a state is taken
  even when \<open>to\<close> is given and the DFA has no edge for \<open>input\<close> yet.
\<close>

definition push_edge_from ::
  "state_id \<Rightarrow> input \<Rightarrow> state_id option \<Rightarrow> bool \<Rightarrow> 'a builder \<Rightarrow> 'a panic + state_id \<times> 'a builder" where
  "push_edge_from from input to case_sensitive b =
     bind_res (next_state (bdfa b) from input) (\<lambda>(next, d).
       let t = (case to of Some t \<Rightarrow> t | None \<Rightarrow> next) in
       bind_res (insert_edge d from input t None) (\<lambda>d1.
         case (if case_sensitive then None else other_case input) of
           None \<Rightarrow> Inr (t, b\<lparr>bdfa := d1\<rparr>)
         | Some other \<Rightarrow>
             bind_res (insert_edge d1 from other t None) (\<lambda>d2. Inr (t, b\<lparr>bdfa := d2\<rparr>))))"

fun push_prefix_inputs ::
  "optional_prefix \<Rightarrow> state_id \<Rightarrow> state_id \<Rightarrow> input list \<Rightarrow> 'a builder \<Rightarrow> 'a panic + state_id \<times> 'a builder" where
  "push_prefix_inputs p source from [] b = Inr (from, b)"
| "push_prefix_inputs p source from (input # inputs) b =
     (let b1 = (if inputs = [] then
                  b\<lparr>last_edges := last_edges b @ [(from, input, prefix_case_sensitive p)]\<rparr>
                else b);
          to = (if inputs = [] \<and> prefix_repeat p then Some source else None)
      in bind_res (push_edge_from from input to (prefix_case_sensitive p) b1) (\<lambda>(from', b2).
           push_prefix_inputs p source from' inputs b2))"

definition push_prefix_from :: "optional_prefix \<Rightarrow> state_id \<Rightarrow> 'a builder \<Rightarrow> 'a panic + 'a builder" where
  "push_prefix_from p source b =
     bind_res (push_prefix_inputs p source source (prefix_inputs p) b) (\<lambda>(from, b1).
       Inr (if \<not> prefix_repeat p \<and> from \<noteq> bstate b1 \<and> from \<notin> set (optional_states b1)
            then b1\<lparr>optional_states := optional_states b1 @ [from]\<rparr> else b1))"

definition push_prefix :: "optional_prefix \<Rightarrow> 'a builder \<Rightarrow> 'a panic + 'a builder" where
  "push_prefix p b = fold_res (push_prefix_from p) (bstate b # optional_states b) b"

definition push_optional_prefixes :: "'a builder \<Rightarrow> 'a panic + 'a builder" where
  "push_optional_prefixes b = fold_res push_prefix (optional_prefixes b) (b\<lparr>optional_prefixes := []\<rparr>)"

definition push_skipped :: "input \<Rightarrow> state_id \<Rightarrow> bool \<Rightarrow> state_id \<Rightarrow> 'a builder \<Rightarrow> 'a panic + 'a builder" where
  "push_skipped input to case_sensitive from b =
     bind_res (push_edge_from from input (Some to) case_sensitive b) (\<lambda>(_, b1).
       Inr (b1\<lparr>last_edges := last_edges b1 @ [(from, input, case_sensitive)]\<rparr>))"

definition push_edge :: "input \<Rightarrow> state_id option \<Rightarrow> bool \<Rightarrow> 'a builder \<Rightarrow> 'a panic + 'a builder" where
  "push_edge input to case_sensitive b =
     bind_res (push_optional_prefixes b) (\<lambda>b0.
     bind_res (push_edge_from (bstate b0) input to case_sensitive b0) (\<lambda>(t, b1).
     bind_res (fold_res (push_skipped input t case_sensitive) (optional_states b1)
        (b1\<lparr>last_edges := [(bstate b0, input, case_sensitive)], optional_states := []\<rparr>)) (\<lambda>b2.
     Inr (b2\<lparr>bstate := t\<rparr>))))"

subsection \<open>Actions\<close>

definition add_last_action :: "'a \<Rightarrow> state_id \<times> input \<times> bool \<Rightarrow> 'a builder \<Rightarrow> 'a panic + 'a builder" where
  "add_last_action action = (\<lambda>(from, input, case_sensitive) b.
     bind_res (add_action (bdfa b) from input action) (\<lambda>d1.
       case (if case_sensitive then None else other_case input) of
         None \<Rightarrow> Inr (b\<lparr>bdfa := d1\<rparr>)
       | Some other \<Rightarrow> bind_res (add_action d1 from other action) (\<lambda>d2. Inr (b\<lparr>bdfa := d2\<rparr>))))"

definition with_action :: "'a \<Rightarrow> 'a builder \<Rightarrow> 'a panic + 'a builder" where
  "with_action action b =
     bind_res (push_optional_prefixes b) (\<lambda>b1. fold_res (add_last_action action) (last_edges b1) b1)"

subsection \<open>Strings\<close>

definition input_of :: "u8 \<Rightarrow> input" where
  "input_of byte = ucast byte"

definition push_inner :: "bytes \<Rightarrow> bool \<Rightarrow> 'a builder \<Rightarrow> 'a panic + 'a builder" where
  "push_inner input case_sensitive b =
     fold_res (\<lambda>byte. push_edge (input_of byte) None case_sensitive) input b"

definition push :: "bytes \<Rightarrow> 'a builder \<Rightarrow> 'a panic + 'a builder" where
  "push input = push_inner input True"

definition push_bytes :: "bytes \<Rightarrow> 'a builder \<Rightarrow> 'a panic + 'a builder" where
  "push_bytes input = push_inner input True"

definition push_ci :: "bytes \<Rightarrow> 'a builder \<Rightarrow> 'a panic + 'a builder" where
  "push_ci input = push_inner input False"

definition push_optional :: "bytes \<Rightarrow> bool \<Rightarrow> 'a builder \<Rightarrow> 'a builder" where
  "push_optional input repeat b =
     b\<lparr>optional_prefixes := optional_prefixes b @
         [\<lparr>prefix_inputs = map input_of input, prefix_case_sensitive = True, prefix_repeat = repeat\<rparr>]\<rparr>"

subsection \<open>Repetition\<close>

datatype bound = Included nat | Excluded nat | Unbounded

definition usize_max :: nat where "usize_max = 2 ^ 64 - 1"

definition range_min :: "bound \<Rightarrow> nat" where
  "range_min start = (case start of
       Excluded n \<Rightarrow> min (n + 1) usize_max
     | Included n \<Rightarrow> n
     | Unbounded \<Rightarrow> 0)"

definition range_max :: "nat \<Rightarrow> bound \<Rightarrow> nat" where
  "range_max min_len end_bound = (case end_bound of
       Excluded n \<Rightarrow> n - 1
     | Included n \<Rightarrow> n
     | Unbounded \<Rightarrow> min_len)"

definition any_prefix :: optional_prefix where
  "any_prefix = \<lparr>prefix_inputs = [ANY_INPUT], prefix_case_sensitive = True, prefix_repeat = False\<rparr>"

definition push_any :: "bound \<Rightarrow> bound \<Rightarrow> 'a builder \<Rightarrow> 'a panic + 'a builder" where
  "push_any start end_bound b =
     (let min_len = range_min start; max_len = range_max min_len end_bound in
      if max_len < min_len then Inl EmptyRange
      else bind_res (fold_res (\<lambda>_. push_edge ANY_INPUT None True) [0..<min_len] b) (\<lambda>b1.
        let b2 = b1\<lparr>optional_prefixes :=
                     optional_prefixes b1 @ replicate (max_len - min_len) any_prefix\<rparr>
        in if end_bound = Unbounded then
             bind_res (push_edge_from (bstate b2) ANY_INPUT (Some (bstate b2)) True b2) (\<lambda>(_, b3).
               Inr (b3\<lparr>last_edges := last_edges b3 @ [(bstate b3, ANY_INPUT, True)]\<rparr>))
           else Inr b2))"

subsection \<open>Options and restarts\<close>

text \<open>Pushes the bytes of \<open>input\<close>, the last one of which leads to \<open>final\<close>.\<close>

fun push_into :: "state_id \<Rightarrow> bool \<Rightarrow> bytes \<Rightarrow> 'a builder \<Rightarrow> 'a panic + 'a builder" where
  "push_into final case_sensitive [] b = Inr b"
| "push_into final case_sensitive (byte # input) b =
     bind_res (push_edge (input_of byte) (if input = [] then Some final else None) case_sensitive b)
       (push_into final case_sensitive input)"

text \<open>\<open>max_by_key(len)\<close>: the last one of the longest inputs.\<close>

fun longest_of :: "bytes \<Rightarrow> bytes list \<Rightarrow> bytes" where
  "longest_of x [] = x"
| "longest_of x (y # ys) = longest_of (if length x \<le> length y then y else x) ys"

definition push_option ::
  "state_id \<Rightarrow> state_id \<Rightarrow> bool \<Rightarrow> bytes \<Rightarrow> (state_id \<times> input \<times> bool) list \<times> 'a builder \<Rightarrow>
     'a panic + (state_id \<times> input \<times> bool) list \<times> 'a builder" where
  "push_option start final case_sensitive input = (\<lambda>(acc, b).
     if input = [] then Inl EmptyOption
     else bind_res (push_into final case_sensitive input (b\<lparr>bstate := start\<rparr>)) (\<lambda>b1.
       Inr (acc @ last_edges b1, b1\<lparr>last_edges := []\<rparr>)))"

definition push_options_inner :: "bytes list \<Rightarrow> bool \<Rightarrow> 'a builder \<Rightarrow> 'a panic + 'a builder" where
  "push_options_inner inputs case_sensitive b =
     (case inputs of
        [] \<Rightarrow> Inr b
      | first # rest \<Rightarrow>
          let longest = longest_of first rest; start = bstate b in
          bind_res (push_inner longest case_sensitive b) (\<lambda>b1.
            let final = bstate b1 in
            bind_res (fold_res (push_option start final case_sensitive)
                (filter (\<lambda>input. input \<noteq> longest) inputs) (last_edges b1, b1\<lparr>last_edges := []\<rparr>))
              (\<lambda>(acc, b2). Inr (b2\<lparr>last_edges := acc\<rparr>))))"

definition push_options_ci :: "bytes list \<Rightarrow> 'a builder \<Rightarrow> 'a panic + 'a builder" where
  "push_options_ci inputs = push_options_inner inputs False"

definition restart_step :: "u8 \<Rightarrow> state_id \<times> 'a builder \<Rightarrow> 'a panic + state_id \<times> 'a builder" where
  "restart_step byte = (\<lambda>(state, b).
     bind_res (next_state (bdfa b) state (input_of byte)) (\<lambda>(next, d).
     bind_res (push_edge_from state (input_of byte) (Some next) False (b\<lparr>bdfa := d\<rparr>)) (\<lambda>(_, b1).
       Inr (next, b1))))"

definition restart_with :: "bytes \<Rightarrow> 'a builder \<Rightarrow> 'a panic + 'a builder" where
  "restart_with input b =
     bind_res (fold_res restart_step input (ANY_STATE, b)) (\<lambda>(final, b1).
       push_into final False input b1)"

subsection \<open>The two cases of a letter\<close>

lemma unat_input_of [simp]: "unat (input_of b) = unat b"
proof -
  have "unat b < 2 ^ 16" using unsigned_less [of b, where ?'a = nat] by simp
  then show ?thesis
    by (simp add: input_of_def unsigned_ucast_eq take_bit_nat_eq_self)
qed

lemma input_of_inj [simp]: "input_of a = input_of b \<longleftrightarrow> a = b"
  by (metis unat_input_of word_unat_eq_iff)

lemma input_of_le: "input_of b \<le> 0xFF"
  using unsigned_less [of b, where ?'a = nat] by (simp add: word_le_nat_alt)

lemma input_of_not_any [simp]: "input_of b \<noteq> ANY_INPUT" "ANY_INPUT \<noteq> input_of b"
  using input_of_le [of b] by (auto simp: ANY_INPUT_def)

lemma input_of_ucast: "i \<le> 0xFF \<Longrightarrow> input_of (ucast i) = i"
proof -
  assume "i \<le> 0xFF"
  then have "unat i < 2 ^ 8" by (simp add: word_le_nat_alt)
  then have "unat (ucast i :: u8) = unat i"
    by (simp add: unsigned_ucast_eq take_bit_nat_eq_self)
  then have "unat (input_of (ucast i)) = unat i" by simp
  then show ?thesis by (simp add: word_unat_eq_iff)
qed

lemma ucast_input_of [simp]: "ucast (input_of b) = b"
  by (metis input_of_inj input_of_le input_of_ucast)

lemma other_case_input_of:
  "other_case (input_of b) =
     (if is_ascii_lowercase b then Some (input_of (b - 0x20))
      else if is_ascii_uppercase b then Some (input_of (b + 0x20)) else None)"
  using input_of_le [of b]
  by (auto simp: other_case_def Let_def to_ascii_uppercase_def to_ascii_lowercase_def input_of_def [symmetric])

lemma lower_sub: "is_ascii_lowercase b \<Longrightarrow> is_ascii_uppercase (b - 0x20) \<and> \<not> is_ascii_lowercase (b - 0x20)"
  unfolding is_ascii_lowercase_def is_ascii_uppercase_def by unat_arith
lemma upper_add: "is_ascii_uppercase b \<Longrightarrow> is_ascii_lowercase (b + 0x20)"
  unfolding is_ascii_lowercase_def is_ascii_uppercase_def by unat_arith auto
lemma upper_not_lower: "is_ascii_uppercase b \<Longrightarrow> \<not> is_ascii_lowercase b"
  unfolding is_ascii_lowercase_def is_ascii_uppercase_def by unat_arith

lemma other_case_Some:
  assumes "other_case i = Some j"
  shows "i \<le> 0xFF" and "j \<le> 0xFF" and "j \<noteq> i" and "other_case j = Some i"
proof -
  show i: "i \<le> 0xFF" using assms by (auto simp: other_case_def split: if_splits)
  then obtain b where b: "i = input_of b" by (metis input_of_ucast)
  show "j \<le> 0xFF" and "j \<noteq> i" and "other_case j = Some i"
    using assms lower_sub [of b] upper_add [of b] upper_not_lower [of b]
    by (auto simp: b other_case_input_of input_of_le split: if_splits)
qed

text \<open>The inputs an edge is inserted for: \<open>input\<close>, and its other case if it is a letter.\<close>

definition cases_of :: "bool \<Rightarrow> input \<Rightarrow> input set" where
  "cases_of case_sensitive input =
     insert input (if case_sensitive then {} else set_option (other_case input))"

lemma cases_of_simps [simp]:
  "i \<in> cases_of cs i" "cases_of True i = {i}" "cases_of cs ANY_INPUT = {ANY_INPUT}"
  by (auto simp: cases_of_def ANY_INPUT_def other_case_def)

lemma in_cases_of:
  "j \<in> cases_of cs i \<longleftrightarrow> j = i \<or> \<not> cs \<and> other_case i = Some j"
  by (auto simp: cases_of_def)

lemma cases_of_sym: "j \<in> cases_of cs i \<Longrightarrow> cases_of cs j = cases_of cs i"
  by (auto simp: in_cases_of set_eq_iff) (metis other_case_Some(4) option.inject)+

subsection \<open>What \<open>push_edge_from\<close> does, exactly\<close>

definition edge_target :: "'a dfa \<Rightarrow> state_id \<Rightarrow> input \<Rightarrow> state_id option \<Rightarrow> state_id" where
  "edge_target d from input to =
     (case to of Some t \<Rightarrow> t
      | None \<Rightarrow> (case dfa_edge d from input of Some e \<Rightarrow> edge_to e | None \<Rightarrow> num_states d))"

lemma edge_target_Some [simp]: "edge_target d from i (Some t) = t"
  by (simp add: edge_target_def)

lemma next_state_Inr [res_simps]:
  "next_state d from i = Inr (s, d') \<longleftrightarrow>
     s = edge_target d from i None \<and>
     (if dfa_edge d from i = None then num_states d \<noteq> 0xFFFF \<and> d' = d\<lparr>num_states := num_states d + 1\<rparr>
      else d' = d)"
  by (auto simp: next_state_def edge_target_def res_simps split: option.splits)

lemma push_edge_from_Inr:
  assumes "push_edge_from from i to cs b = Inr (t, b')"
  shows "t = edge_target (bdfa b) from i to"
    and "b' = b\<lparr>bdfa := bdfa b'\<rparr>"
    and "num_states (bdfa b') =
          (if dfa_edge (bdfa b) from i = None then num_states (bdfa b) + 1 else num_states (bdfa b))"
    and "dfa_edge (bdfa b) from i = None \<Longrightarrow> num_states (bdfa b) \<noteq> 0xFFFF"
    and "dfa_edge (bdfa b') s j =
          (if s = from \<and> j \<in> cases_of cs i
           then Some \<lparr>edge_to = t, edge_action = merged_action (dfa_edge (bdfa b) s j) None\<rparr>
           else dfa_edge (bdfa b) s j)"
    and "\<And>e. j \<in> cases_of cs i \<Longrightarrow> dfa_edge (bdfa b) from j = Some e \<Longrightarrow> edge_to e = t"
proof -
  from assms obtain nx d d1 where
    nx: "next_state (bdfa b) from i = Inr (nx, d)" and
    t0: "t = (case to of Some t \<Rightarrow> t | None \<Rightarrow> nx)" and
    d1: "insert_edge d from i t None = Inr d1" and
    rest: "(case (if cs then None else other_case i) of
           None \<Rightarrow> Inr (t, b\<lparr>bdfa := d1\<rparr>)
         | Some other \<Rightarrow>
             bind_res (insert_edge d1 from other t None) (\<lambda>d2. Inr (t, b\<lparr>bdfa := d2\<rparr>))) = Inr (t, b')"
    by (auto simp: push_edge_from_def Let_def res_simps split: option.splits if_splits)
  have d: "dfa_edge d = dfa_edge (bdfa b)"
    and nd: "num_states d = (if dfa_edge (bdfa b) from i = None then num_states (bdfa b) + 1 else num_states (bdfa b))"
    and no: "dfa_edge (bdfa b) from i = None \<Longrightarrow> num_states (bdfa b) \<noteq> 0xFFFF"
    using nx by (auto simp: res_simps fun_eq_iff split: if_splits)
  show t: "t = edge_target (bdfa b) from i to"
    using nx t0 by (auto simp: res_simps edge_target_def split: option.splits)
  note ie = insert_edge_Inr [OF d1]
  have fin: "b' = b\<lparr>bdfa := bdfa b'\<rparr> \<and> num_states (bdfa b') = num_states d1 \<and>
     (dfa_edge (bdfa b') s j =
        (if s = from \<and> j \<in> cases_of cs i
         then Some \<lparr>edge_to = t, edge_action = merged_action (dfa_edge (bdfa b) s j) None\<rparr>
         else dfa_edge (bdfa b) s j)) \<and>
     (j \<in> cases_of cs i \<longrightarrow> (\<forall>e. dfa_edge (bdfa b) from j = Some e \<longrightarrow> edge_to e = t))"
  proof (cases "if cs then None else other_case i")
    case None
    with rest ie show ?thesis
      by (auto simp: in_cases_of d split: if_splits)
  next
    case (Some k)
    then have k: "\<not> cs" "other_case i = Some k" by (auto split: if_splits)
    with rest obtain d2 where d2: "insert_edge d1 from k t None = Inr d2" and b': "b' = b\<lparr>bdfa := d2\<rparr>"
      by (auto simp: res_simps)
    note ie2 = insert_edge_Inr [OF d2]
    from k ie ie2 other_case_Some(3) [OF k(2)] show ?thesis
      by (auto simp: in_cases_of d b')
  qed
  then show "b' = b\<lparr>bdfa := bdfa b'\<rparr>"
    and "num_states (bdfa b') =
          (if dfa_edge (bdfa b) from i = None then num_states (bdfa b) + 1 else num_states (bdfa b))"
    and "dfa_edge (bdfa b') s j =
          (if s = from \<and> j \<in> cases_of cs i
           then Some \<lparr>edge_to = t, edge_action = merged_action (dfa_edge (bdfa b) s j) None\<rparr>
           else dfa_edge (bdfa b) s j)"
    and "\<And>e. j \<in> cases_of cs i \<Longrightarrow> dfa_edge (bdfa b) from j = Some e \<Longrightarrow> edge_to e = t"
    using nd ie(2) by simp_all
  show "dfa_edge (bdfa b) from i = None \<Longrightarrow> num_states (bdfa b) \<noteq> 0xFFFF" by (rule no)
qed

lemma push_edge_from_fields:
  assumes "push_edge_from from i to cs b = Inr (t, b')"
  shows "bstate b' = bstate b" and "optional_prefixes b' = optional_prefixes b"
    and "optional_states b' = optional_states b" and "last_edges b' = last_edges b"
proof -
  note eq = push_edge_from_Inr(2) [OF assms]
  show "bstate b' = bstate b" using arg_cong [OF eq, of bstate] by simp
  show "optional_prefixes b' = optional_prefixes b" using arg_cong [OF eq, of optional_prefixes] by simp
  show "optional_states b' = optional_states b" using arg_cong [OF eq, of optional_states] by simp
  show "last_edges b' = last_edges b" using arg_cong [OF eq, of last_edges] by simp
qed

lemma push_edge_from_total:
  assumes "dfa_edge (bdfa b) from i = None \<Longrightarrow> num_states (bdfa b) \<noteq> 0xFFFF"
    and "\<And>j e. j \<in> cases_of cs i \<Longrightarrow> dfa_edge (bdfa b) from j = Some e \<Longrightarrow>
           edge_to e = edge_target (bdfa b) from i to"
  shows "\<exists>b'. push_edge_from from i to cs b = Inr (edge_target (bdfa b) from i to, b')"
proof -
  let ?t = "edge_target (bdfa b) from i to"
  obtain nx d where nx: "next_state (bdfa b) from i = Inr (nx, d)"
    using assms(1) by (cases "dfa_edge (bdfa b) from i") (auto simp: next_state_def new_state_def)
  then have d: "dfa_edge d = dfa_edge (bdfa b)" and nt: "(case to of Some t \<Rightarrow> t | None \<Rightarrow> nx) = ?t"
    by (auto simp: res_simps fun_eq_iff edge_target_def split: if_splits option.splits)
  have "\<exists>d1. insert_edge d from i ?t None = Inr d1"
    by (rule insert_edge_None_total) (use assms(2) [of i] in \<open>simp add: d\<close>)
  then obtain d1 where d1: "insert_edge d from i ?t None = Inr d1" by blast
  note ie = insert_edge_Inr [OF d1]
  show ?thesis
  proof (cases "if cs then None else other_case i")
    case None
    with nx nt d1 show ?thesis by (auto simp: push_edge_from_def)
  next
    case (Some k)
    then have k: "\<not> cs" "other_case i = Some k" by (auto split: if_splits)
    have "\<exists>d2. insert_edge d1 from k ?t None = Inr d2"
      using insert_edge_None_total [of d1 "from" k ?t] assms(2) [of k] k other_case_Some(3) [OF k(2)]
      by (auto simp: ie(1) d in_cases_of)
    with k nx nt d1 show ?thesis by (auto simp: push_edge_from_def)
  qed
qed

subsection \<open>The invariant of the builder, and growth\<close>

text \<open>
  Every state the builder holds is one the DFA has, and every edge it recorded in
  \<open>last_edges\<close> exists, so that \<open>with\<close> always finds what it adds its action to.
\<close>

definition has_edges :: "'a dfa \<Rightarrow> state_id \<times> input \<times> bool \<Rightarrow> bool" where
  "has_edges d = (\<lambda>(from, i, cs). \<forall>j \<in> cases_of cs i. dfa_edge d from j \<noteq> None)"

definition wf_states :: "'a builder \<Rightarrow> bool" where
  "wf_states b \<longleftrightarrow> wf_dfa (bdfa b) \<and> bstate b < num_states (bdfa b) \<and>
     (\<forall>s \<in> set (optional_states b). s < num_states (bdfa b))"

definition wf_builder :: "'a builder \<Rightarrow> bool" where
  "wf_builder b \<longleftrightarrow> wf_states b \<and> (\<forall>le \<in> set (last_edges b). has_edges (bdfa b) le)"

definition builder_le :: "'a builder \<Rightarrow> 'a builder \<Rightarrow> bool" where
  "builder_le b b' \<longleftrightarrow> extends (bdfa b) (bdfa b')"

interpretation builder_growth: growing wf_builder builder_le
  by unfold_locales (auto simp: builder_le_def intro: extends_trans)

lemma has_edges_extends: "has_edges d le \<Longrightarrow> extends d d' \<Longrightarrow> has_edges d' le"
  by (auto simp: has_edges_def dest: extendsD)

lemma wf_statesD:
  assumes "wf_states b"
  shows "wf_dfa (bdfa b)" and "bstate b < num_states (bdfa b)"
    and "s \<in> set (optional_states b) \<Longrightarrow> s < num_states (bdfa b)"
  using assms by (auto simp: wf_states_def)

lemma wf_builder_start: "wf_dfa d \<Longrightarrow> s < num_states d \<Longrightarrow> wf_builder (start_pattern d s)"
  by (simp add: wf_builder_def wf_states_def start_pattern_def)

lemma push_edge_from_distinct_keys:
  assumes "push_edge_from from i to cs b = Inr (t, b')" and "distinct_keys (bdfa b)"
  shows "distinct_keys (bdfa b')"
proof -
  from assms(1) obtain nx d d1 where
    nx: "next_state (bdfa b) from i = Inr (nx, d)" and
    d1: "insert_edge d from i t None = Inr d1" and
    rest: "(case (if cs then None else other_case i) of
           None \<Rightarrow> Inr (t, b\<lparr>bdfa := d1\<rparr>)
         | Some other \<Rightarrow>
             bind_res (insert_edge d1 from other t None) (\<lambda>d2. Inr (t, b\<lparr>bdfa := d2\<rparr>))) = Inr (t, b')"
    by (auto simp: push_edge_from_def Let_def res_simps split: option.splits if_splits)
  have dk: "distinct_keys d1"
    using assms(2) distinct_keys_next_state [OF nx] distinct_keys_insert_edge [OF d1] by blast
  show ?thesis
  proof (cases "if cs then None else other_case i")
    case None
    with rest dk show ?thesis by auto
  next
    case (Some k)
    with rest dk show ?thesis by (auto simp: bind_res_eq_Inr dest: distinct_keys_insert_edge)
  qed
qed

lemma push_edge_from_grows:
  assumes "push_edge_from from i to cs b = Inr (t, b')" and "wf_states b"
    and "from < num_states (bdfa b)" and "\<And>t'. to = Some t' \<Longrightarrow> t' < num_states (bdfa b)"
  shows "wf_states b'" and "extends (bdfa b) (bdfa b')" and "t < num_states (bdfa b')"
    and "has_edges (bdfa b') (from, i, cs)"
proof -
  note pf = push_edge_from_Inr [OF assms(1)]
  have wf: "wf_dfa (bdfa b)" using assms(2) by (rule wf_statesD)
  have le: "num_states (bdfa b) \<le> num_states (bdfa b')"
    using pf(3,4) u16_less_Suc [of "num_states (bdfa b)"] by (auto split: if_splits)
  have up: "x < num_states (bdfa b')" if "x < num_states (bdfa b)" for x
    using that le by (rule order.strict_trans2)
  show t: "t < num_states (bdfa b')"
  proof (cases to)
    case (Some t')
    with assms(4) pf(1) show ?thesis by (simp add: up)
  next
    case None
    with pf(1,3,4) wf_dfaD(4) [OF wf, of "from" i] u16_less_Suc [of "num_states (bdfa b)"] show ?thesis
      by (auto simp: edge_target_def split: option.splits)
  qed
  show ext: "extends (bdfa b) (bdfa b')"
    using pf(5,6) le by (auto simp: extends_def edge_le_def merged_action_def split: option.splits)
  have dk: "distinct_keys (bdfa b')"
    using assms(1) wf_dfaD(2) [OF wf] by (rule push_edge_from_distinct_keys)
  have "wf_dfa (bdfa b')"
    unfolding wf_dfa_def
  proof (intro conjI allI impI)
    show "2 \<le> num_states (bdfa b')" using wf_dfaD(1) [OF wf] le by (rule order.trans)
    show "distinct_keys (bdfa b')" by (rule dk)
  next
    fix s j e assume e: "dfa_edge (bdfa b') s j = Some e"
    have "s < num_states (bdfa b') \<and> edge_to e < num_states (bdfa b')"
    proof (cases "s = from \<and> j \<in> cases_of cs i")
      case True
      with e pf(5) [of s j] have "edge_to e = t" by auto
      with True t up [OF assms(3)] show ?thesis by simp
    next
      case False
      with e pf(5) [of s j] have "dfa_edge (bdfa b) s j = Some e" by (simp only: if_False)
      then show ?thesis using wf_dfaD(3,4) [OF wf] by (blast intro: up)
    qed
    then show "s < num_states (bdfa b')" and "edge_to e < num_states (bdfa b')" by blast+
  qed
  then show "wf_states b'"
    using assms(2) by (simp add: wf_states_def push_edge_from_fields [OF assms(1)] up)
  show "has_edges (bdfa b') (from, i, cs)"
    using pf(5) [of "from"] by (auto simp: has_edges_def)
qed

text \<open>The edges \<open>last_edges\<close> records, all but one of which exist already.\<close>

lemma last_edges_mono:
  "(\<forall>le \<in> set les. has_edges d le) \<Longrightarrow> extends d d' \<Longrightarrow> (\<forall>le \<in> set les. has_edges d' le)"
  by (blast intro: has_edges_extends)

lemma push_prefix_inputs_grows:
  assumes "push_prefix_inputs p source from inputs b = Inr (t, b')" and "wf_builder b"
    and "from < num_states (bdfa b)" and "source < num_states (bdfa b)"
  shows "wf_builder b' \<and> builder_le b b' \<and> t < num_states (bdfa b') \<and> bstate b' = bstate b \<and>
    optional_states b' = optional_states b \<and> optional_prefixes b' = optional_prefixes b"
  using assms
proof (induction inputs arbitrary: "from" b)
  case Nil
  then show ?case by (simp add: builder_growth.le_refl)
next
  case (Cons i inps)
  let ?cs = "prefix_case_sensitive p"
  define b1 where "b1 = (if inps = [] then b\<lparr>last_edges := last_edges b @ [(from, i, ?cs)]\<rparr> else b)"
  define to where "to = (if inps = [] \<and> prefix_repeat p then Some source else None)"
  have b1: "bdfa b1 = bdfa b" "bstate b1 = bstate b" "optional_states b1 = optional_states b"
    "optional_prefixes b1 = optional_prefixes b"
    "set (last_edges b1) \<subseteq> insert (from, i, ?cs) (set (last_edges b))" "wf_states b1"
    using Cons.prems(2) by (auto simp: b1_def wf_builder_def wf_states_def)
  obtain f2 b2 where pf: "push_edge_from from i to ?cs b1 = Inr (f2, b2)"
    and rest: "push_prefix_inputs p source f2 inps b2 = Inr (t, b')"
    using Cons.prems(1) by (auto simp: b1_def to_def Let_def bind_res_eq_Inr)
  note g = push_edge_from_grows [OF pf b1(6), unfolded b1]
  have to: "\<And>t'. to = Some t' \<Longrightarrow> t' < num_states (bdfa b)"
    using Cons.prems(4) by (auto simp: to_def split: if_splits)
  note g = g [OF Cons.prems(3) to]
  have les: "\<forall>le \<in> set (last_edges b). has_edges (bdfa b2) le"
    using Cons.prems(2) g(2) by (auto simp: wf_builder_def intro: has_edges_extends)
  have wf2: "wf_builder b2"
    using g(1,4) les b1(5) push_edge_from_fields(4) [OF pf] by (auto simp: wf_builder_def)
  have "source < num_states (bdfa b2)" using Cons.prems(4) g(2) by (rule extendsD(1) [rotated])
  from Cons.IH [OF rest wf2 g(3) this] show ?case
    using g(2) push_edge_from_fields [OF pf] b1 by (auto simp: builder_le_def intro: extends_trans)
qed

lemma push_prefix_from_grows:
  assumes "push_prefix_from p source b = Inr b'" and "wf_builder b" and "source < num_states (bdfa b)"
  shows "wf_builder b' \<and> builder_le b b' \<and> bstate b' = bstate b \<and> optional_prefixes b' = optional_prefixes b"
proof -
  from assms(1) obtain t b1 where
    pi: "push_prefix_inputs p source source (prefix_inputs p) b = Inr (t, b1)" and
    b': "b' = (if \<not> prefix_repeat p \<and> t \<noteq> bstate b1 \<and> t \<notin> set (optional_states b1)
            then b1\<lparr>optional_states := optional_states b1 @ [t]\<rparr> else b1)"
    by (auto simp: push_prefix_from_def bind_res_eq_Inr)
  from push_prefix_inputs_grows [OF pi assms(2,3,3)] show ?thesis
    by (auto simp: b' wf_builder_def wf_states_def builder_le_def)
qed

text \<open>Building the optional prefixes does not move the builder.\<close>

definition builder_keeps :: "'a builder \<Rightarrow> 'a builder \<Rightarrow> bool" where
  "builder_keeps b b' \<longleftrightarrow> builder_le b b' \<and> bstate b' = bstate b \<and>
     optional_prefixes b' = optional_prefixes b"

interpretation prefix_growth: growing wf_builder builder_keeps
  by unfold_locales (auto simp: builder_keeps_def builder_growth.le_refl intro: builder_growth.le_trans)

lemma push_prefix_grows:
  assumes "push_prefix p b = Inr b'" and "wf_builder b"
  shows "wf_builder b' \<and> builder_keeps b b'"
  using assms(1,2) unfolding push_prefix_def
proof (rule prefix_growth.loop_pre [where pre = "\<lambda>s b. s < num_states (bdfa b)"])
  show "s < num_states (bdfa b)" if "s \<in> set (bstate b # optional_states b)" for s
    using that assms(2) by (auto simp: wf_builder_def wf_states_def)
qed (auto simp: builder_keeps_def builder_le_def dest: extendsD push_prefix_from_grows)

lemma push_optional_prefixes_grows:
  assumes "push_optional_prefixes b = Inr b'" and "wf_builder b"
  shows "wf_builder b'" and "builder_le b b'" and "bstate b' = bstate b"
proof -
  have "wf_builder (b\<lparr>optional_prefixes := []\<rparr>)"
    using assms(2) by (simp add: wf_builder_def wf_states_def)
  with assms(1) have "wf_builder b' \<and> builder_keeps (b\<lparr>optional_prefixes := []\<rparr>) b'"
    unfolding push_optional_prefixes_def
    by (rule prefix_growth.loop) (simp add: push_prefix_grows)
  then show "wf_builder b'" and "builder_le b b'" and "bstate b' = bstate b"
    by (simp_all add: builder_keeps_def builder_le_def)
qed

lemma push_skipped_grows:
  assumes "push_skipped i t cs s b = Inr b'" and "wf_builder b"
    and "s < num_states (bdfa b) \<and> t < num_states (bdfa b)"
  shows "wf_builder b' \<and> builder_le b b'"
proof -
  from assms(1) obtain t' b1 where pf: "push_edge_from s i (Some t) cs b = Inr (t', b1)"
    and b': "b' = b1\<lparr>last_edges := last_edges b1 @ [(s, i, cs)]\<rparr>"
    by (auto simp: push_skipped_def bind_res_eq_Inr)
  have ws: "wf_states b" using assms(2) by (simp add: wf_builder_def)
  have g: "wf_states b1" "extends (bdfa b) (bdfa b1)" "has_edges (bdfa b1) (s, i, cs)"
    using push_edge_from_grows [OF pf ws] assms(3) by simp_all
  have "\<forall>le \<in> set (last_edges b). has_edges (bdfa b1) le"
    using assms(2) g(2) by (auto simp: wf_builder_def intro: has_edges_extends)
  with g show ?thesis
    using push_edge_from_fields [OF pf] by (auto simp: b' wf_builder_def wf_states_def builder_le_def)
qed

lemma push_edge_grows:
  assumes "push_edge i to cs b = Inr b'" and "wf_builder b"
    and "\<And>t. to = Some t \<Longrightarrow> t < num_states (bdfa b)"
  shows "wf_builder b' \<and> builder_le b b'"
proof -
  from assms(1) obtain b0 t b1 b2 where
    b0: "push_optional_prefixes b = Inr b0" and
    pf: "push_edge_from (bstate b0) i to cs b0 = Inr (t, b1)" and
    sk: "fold_res (push_skipped i t cs) (optional_states b1)
        (b1\<lparr>last_edges := [(bstate b0, i, cs)], optional_states := []\<rparr>) = Inr b2" and
    b': "b' = b2\<lparr>bstate := t\<rparr>"
    by (auto simp: push_edge_def bind_res_eq_Inr)
  note g0 = push_optional_prefixes_grows [OF b0 assms(2)]
  have ws: "wf_states b0" using g0(1) by (simp add: wf_builder_def)
  have to: "\<And>t. to = Some t \<Longrightarrow> t < num_states (bdfa b0)"
    using assms(3) g0(2) by (auto simp: builder_le_def dest: extendsD)
  note g1 = push_edge_from_grows [OF pf ws wf_statesD(2) [OF ws] to]
  have wf1: "wf_builder (b1\<lparr>last_edges := [(bstate b0, i, cs)], optional_states := []\<rparr>)"
    using g1 by (simp add: wf_builder_def wf_states_def)
  have g2: "wf_builder b2 \<and> builder_le (b1\<lparr>last_edges := [(bstate b0, i, cs)], optional_states := []\<rparr>) b2"
    using sk wf1
  proof (rule builder_growth.loop_pre
      [where pre = "\<lambda>s b. s < num_states (bdfa b) \<and> t < num_states (bdfa b)"])
    show "s < num_states (bdfa (b1\<lparr>last_edges := [(bstate b0, i, cs)], optional_states := []\<rparr>)) \<and>
        t < num_states (bdfa (b1\<lparr>last_edges := [(bstate b0, i, cs)], optional_states := []\<rparr>))"
      if "s \<in> set (optional_states b1)" for s
      using that g1(1,3) by (simp add: wf_states_def)
  qed (auto simp: builder_le_def dest: extendsD intro: push_skipped_grows [unfolded builder_le_def, THEN conjunct1]
        push_skipped_grows [unfolded builder_le_def, THEN conjunct2])
  then show ?thesis
    using g0(2) g1(2,3) by (auto simp: b' wf_builder_def wf_states_def builder_le_def dest: extendsD intro: extends_trans)
qed

subsection \<open>\<open>with\<close>\<close>

lemma add_action_grows:
  "add_action d s i a = Inr d' \<Longrightarrow> wf_dfa d \<Longrightarrow> wf_dfa d' \<and> extends d d'"
  by (blast intro: wf_add_action extends_add_action)

lemma add_last_action_grows:
  assumes "add_last_action a le b = Inr b'" and "wf_builder b"
  shows "wf_builder b' \<and> builder_keeps b b' \<and> last_edges b' = last_edges b"
proof -
  obtain s i cs where le: "le = (s, i, cs)" by (cases le)
  have "wf_dfa (bdfa b') \<and> extends (bdfa b) (bdfa b') \<and> b' = b\<lparr>bdfa := bdfa b'\<rparr>"
    using assms wf_statesD(1) [of b]
    by (auto simp: add_last_action_def le bind_res_eq_Inr wf_builder_def split: option.splits if_splits
        dest!: add_action_grows) (metis extends_trans)
  then obtain d where b': "b' = b\<lparr>bdfa := d\<rparr>" and d: "wf_dfa d" "extends (bdfa b) d" by metis
  from assms(2) d show ?thesis
    by (auto simp: b' wf_builder_def wf_states_def builder_keeps_def builder_le_def
        dest: extendsD has_edges_extends)
qed

lemma with_action_grows:
  assumes "with_action a b = Inr b'" and "wf_builder b"
  shows "wf_builder b' \<and> builder_le b b' \<and> bstate b' = bstate b"
proof -
  from assms(1) obtain b1 where b1: "push_optional_prefixes b = Inr b1"
    and f: "fold_res (add_last_action a) (last_edges b1) b1 = Inr b'"
    by (auto simp: with_action_def bind_res_eq_Inr)
  note g = push_optional_prefixes_grows [OF b1 assms(2)]
  have "wf_builder b' \<and> builder_keeps b1 b'"
    using f g(1) by (rule prefix_growth.loop) (blast dest: add_last_action_grows)
  with g show ?thesis
    by (auto simp: builder_keeps_def intro: builder_growth.le_trans)
qed

text \<open>
  \<open>with\<close> never panics because a state or an edge is missing: what it panics with, if it
  does, is a second action on an edge, unless building the optional prefixes did.
\<close>

lemma add_last_action_panic:
  assumes "add_last_action a le b = Inl p" and "has_edges (bdfa b) le"
  shows "\<exists>c. c \<noteq> a \<and> p = ActionConflict a c"
proof -
  obtain s i cs where le: "le = (s, i, cs)" by (cases le)
  have "\<exists>e. dfa_edge (bdfa b) s j = Some e" if "j \<in> cases_of cs i" for j
    using assms(2) that by (auto simp: le has_edges_def)
  then show ?thesis
    using assms(1)
    by (auto simp: add_last_action_def le bind_res_eq_Inl in_cases_of split: option.splits if_splits
        dest: add_action_Inl elim!: add_action_Inr)
      (metis add_action_Inl)+
qed

lemma fold_add_last_action_panic:
  assumes "fold_res (add_last_action a) les b = Inl p" and "wf_builder b"
    and "\<forall>le \<in> set les. has_edges (bdfa b) le"
  shows "\<exists>c. c \<noteq> a \<and> p = ActionConflict a c"
  using assms
proof (induction les arbitrary: b)
  case Nil
  then show ?case by simp
next
  case (Cons le les)
  show ?case
  proof (cases "add_last_action a le b")
    case (Inl q)
    with Cons.prems add_last_action_panic [OF Inl] show ?thesis by simp
  next
    case (Inr b1)
    note g = add_last_action_grows [OF Inr Cons.prems(2)]
    have ext: "extends (bdfa b) (bdfa b1)" using g by (simp add: builder_keeps_def builder_le_def)
    have les: "\<forall>le \<in> set les. has_edges (bdfa b1) le"
      using Cons.prems(3) ext by (auto intro: has_edges_extends)
    have "fold_res (add_last_action a) les b1 = Inl p" using Cons.prems(1) Inr by simp
    from this g [THEN conjunct1] les show ?thesis by (rule Cons.IH)
  qed
qed

lemma with_action_panic:
  assumes "with_action a b = Inl p" and "wf_builder b"
  shows "push_optional_prefixes b = Inl p \<or> (\<exists>c. c \<noteq> a \<and> p = ActionConflict a c)"
proof (cases "push_optional_prefixes b")
  case (Inl q)
  with assms(1) show ?thesis by (simp add: with_action_def)
next
  case (Inr b1)
  with assms(1) have f: "fold_res (add_last_action a) (last_edges b1) b1 = Inl p"
    by (simp add: with_action_def)
  have "wf_builder b1" using Inr assms(2) by (rule push_optional_prefixes_grows(1))
  with fold_add_last_action_panic [OF f] show ?thesis by (simp add: wf_builder_def)
qed

subsection \<open>Strings, repetition, options and restarts\<close>

lemma push_inner_grows:
  "push_inner bs cs b = Inr b' \<Longrightarrow> wf_builder b \<Longrightarrow> wf_builder b' \<and> builder_le b b'"
  unfolding push_inner_def by (erule builder_growth.loop) (auto dest: push_edge_grows)

lemmas push_grows = push_inner_grows [where cs = True, folded push_def push_bytes_def]

lemma push_optional_grows:
  "wf_builder b \<Longrightarrow> wf_builder (push_optional s r b) \<and> builder_le b (push_optional s r b)"
  by (simp add: push_optional_def wf_builder_def wf_states_def builder_le_def)

lemma push_optional_fields [simp]:
  "bdfa (push_optional s r b) = bdfa b" "bstate (push_optional s r b) = bstate b"
  "optional_states (push_optional s r b) = optional_states b"
  "last_edges (push_optional s r b) = last_edges b"
  by (simp_all add: push_optional_def)

lemma push_any_grows:
  assumes "push_any lo hi b = Inr b'" and "wf_builder b"
  shows "wf_builder b' \<and> builder_le b b'"
proof -
  define k where "k = range_max (range_min lo) hi - range_min lo"
  from assms(1) obtain b1 where
    b1: "fold_res (\<lambda>_. push_edge ANY_INPUT None True) [0..<range_min lo] b = Inr b1" and
    rest: "(let b2 = b1\<lparr>optional_prefixes := optional_prefixes b1 @ replicate k any_prefix\<rparr>
        in if hi = Unbounded then
             bind_res (push_edge_from (bstate b2) ANY_INPUT (Some (bstate b2)) True b2) (\<lambda>(_, b3).
               Inr (b3\<lparr>last_edges := last_edges b3 @ [(bstate b3, ANY_INPUT, True)]\<rparr>))
           else Inr b2) = Inr b'"
    by (auto simp: push_any_def Let_def bind_res_eq_Inr k_def split: if_splits)
  define b2 where "b2 = b1\<lparr>optional_prefixes := optional_prefixes b1 @ replicate k any_prefix\<rparr>"
  have g1: "wf_builder b1 \<and> builder_le b b1"
    using b1 assms(2) by (rule builder_growth.loop) (auto dest: push_edge_grows)
  then have g2: "wf_builder b2" "builder_le b b2"
    by (simp_all add: b2_def wf_builder_def wf_states_def builder_le_def)
  show ?thesis
  proof (cases "hi = Unbounded")
    case False
    with rest g2 show ?thesis by (auto simp: Let_def b2_def)
  next
    case True
    with rest obtain t b3 where
      pf: "push_edge_from (bstate b2) ANY_INPUT (Some (bstate b2)) True b2 = Inr (t, b3)" and
      b': "b' = b3\<lparr>last_edges := last_edges b3 @ [(bstate b3, ANY_INPUT, True)]\<rparr>"
      by (auto simp: Let_def bind_res_eq_Inr b2_def)
    have ws: "wf_states b2" using g2(1) by (simp add: wf_builder_def)
    have g3: "wf_states b3" "extends (bdfa b2) (bdfa b3)" "has_edges (bdfa b3) (bstate b2, ANY_INPUT, True)"
      using push_edge_from_grows [OF pf ws wf_statesD(2) [OF ws]] wf_statesD(2) [OF ws] by simp_all
    have "\<forall>le \<in> set (last_edges b2). has_edges (bdfa b3) le"
      using g2(1) g3(2) by (auto simp: wf_builder_def intro: has_edges_extends)
    with g2(2) g3 show ?thesis
      by (auto simp: b' wf_builder_def wf_states_def builder_le_def push_edge_from_fields [OF pf]
          intro: extends_trans)
  qed
qed

lemma push_into_grows:
  assumes "push_into final cs bs b = Inr b'" and "wf_builder b" and "final < num_states (bdfa b)"
  shows "wf_builder b' \<and> builder_le b b'"
  using assms
proof (induction bs arbitrary: b)
  case Nil
  then show ?case by (simp add: builder_growth.le_refl)
next
  case (Cons c bs)
  then obtain b1 where e: "push_edge (input_of c) (if bs = [] then Some final else None) cs b = Inr b1"
    and r: "push_into final cs bs b1 = Inr b'"
    by (auto simp: bind_res_eq_Inr)
  have g: "wf_builder b1 \<and> builder_le b b1"
    using Cons.prems by (intro push_edge_grows [OF e]) (auto split: if_splits)
  then have "final < num_states (bdfa b1)"
    using Cons.prems(3) by (auto simp: builder_le_def dest: extendsD)
  with Cons.IH [OF r] g show ?case by (auto intro: builder_growth.le_trans)
qed

text \<open>The states of the two loops that carry more than the builder.\<close>

definition wf_routes :: "(state_id \<times> input \<times> bool) list \<times> 'a builder \<Rightarrow> bool" where
  "wf_routes = (\<lambda>(acc, b). wf_builder b \<and> (\<forall>le \<in> set acc. has_edges (bdfa b) le))"

definition wf_restart :: "state_id \<times> 'a builder \<Rightarrow> bool" where
  "wf_restart = (\<lambda>(s, b). wf_builder b \<and> s < num_states (bdfa b))"

interpretation routes_growth: growing wf_routes "\<lambda>(_, b) (_, b'). builder_le b b'"
  by unfold_locales (auto simp: builder_growth.le_refl intro: builder_growth.le_trans)

interpretation restart_growth: growing wf_restart "\<lambda>(_, b) (_, b'). builder_le b b'"
  by unfold_locales (auto simp: builder_growth.le_refl intro: builder_growth.le_trans)

lemma push_option_grows:
  assumes "push_option start final cs bs (acc, b) = Inr (acc', b')" and "wf_routes (acc, b)"
    and "start < num_states (bdfa b) \<and> final < num_states (bdfa b)"
  shows "wf_routes (acc', b') \<and> builder_le b b'"
proof -
  from assms(1) obtain b1 where
    p: "push_into final cs bs (b\<lparr>bstate := start\<rparr>) = Inr b1" and
    r: "acc' = acc @ last_edges b1" "b' = b1\<lparr>last_edges := []\<rparr>"
    by (auto simp: push_option_def bind_res_eq_Inr split: if_splits)
  have "wf_builder (b\<lparr>bstate := start\<rparr>)"
    using assms(2,3) by (simp add: wf_routes_def wf_builder_def wf_states_def)
  with push_into_grows [OF p] assms(2,3) show ?thesis
    by (auto simp: r wf_routes_def wf_builder_def wf_states_def builder_le_def intro: has_edges_extends)
qed

lemma push_options_inner_grows:
  assumes "push_options_inner inputs cs b = Inr b'" and "wf_builder b"
  shows "wf_builder b' \<and> builder_le b b'"
proof (cases inputs)
  case Nil
  with assms show ?thesis by (simp add: push_options_inner_def builder_growth.le_refl)
next
  case (Cons first rest)
  with assms(1) obtain b1 acc b2 where
    b1: "push_inner (longest_of first rest) cs b = Inr b1" and
    f: "fold_res (push_option (bstate b) (bstate b1) cs)
          (filter (\<lambda>input. input \<noteq> longest_of first rest) inputs)
          (last_edges b1, b1\<lparr>last_edges := []\<rparr>) = Inr (acc, b2)" and
    b': "b' = b2\<lparr>last_edges := acc\<rparr>"
    by (auto simp: push_options_inner_def Let_def bind_res_eq_Inr)
  note g1 = push_inner_grows [OF b1 assms(2)]
  have st: "bstate b < num_states (bdfa b1) \<and> bstate b1 < num_states (bdfa b1)"
    using g1 assms(2) by (auto simp: wf_builder_def wf_states_def builder_le_def dest: extendsD)
  have "wf_routes (last_edges b1, b1\<lparr>last_edges := []\<rparr>)"
    using g1 by (simp add: wf_routes_def wf_builder_def wf_states_def)
  with f have "wf_routes (acc, b2) \<and> (case (last_edges b1, b1\<lparr>last_edges := []\<rparr>) of (_, b) \<Rightarrow>
      \<lambda>(_, b'). builder_le b b') (acc, b2)"
    by (rule routes_growth.loop_pre
        [where pre = "\<lambda>_ (_, b0). bstate b < num_states (bdfa b0) \<and> bstate b1 < num_states (bdfa b0)"])
      (use st in \<open>auto simp: builder_le_def dest: extendsD push_option_grows [unfolded builder_le_def]\<close>)
  with g1 show ?thesis
    by (auto simp: b' wf_routes_def wf_builder_def wf_states_def builder_le_def intro: extends_trans)
qed

lemma restart_step_grows:
  assumes "restart_step byte (s, b) = Inr (s', b')" and "wf_restart (s, b)"
  shows "wf_restart (s', b') \<and> builder_le b b'"
proof -
  from assms(1) obtain d t where
    nx: "next_state (bdfa b) s (input_of byte) = Inr (s', d)" and
    pf: "push_edge_from s (input_of byte) (Some s') False (b\<lparr>bdfa := d\<rparr>) = Inr (t, b')"
    by (auto simp: restart_step_def bind_res_eq_Inr)
  have wb: "wf_builder b" and s: "s < num_states (bdfa b)" and wd: "wf_dfa (bdfa b)"
    using assms(2) by (auto simp: wf_restart_def wf_builder_def wf_states_def)
  have d: "wf_dfa d \<and> extends (bdfa b) d \<and> s' < num_states d"
  proof (cases "dfa_edge (bdfa b) s (input_of byte)")
    case None
    with nx have ns: "new_state (bdfa b) = Inr (s', d)" by (simp add: next_state_def)
    from wf_new_state [OF wd ns] extends_new_state [OF wd ns] show ?thesis by blast
  next
    case (Some e)
    with nx wd show ?thesis by (auto simp: next_state_def dest: wf_dfaD)
  qed
  have ws: "wf_states (b\<lparr>bdfa := d\<rparr>)"
    using wb d by (auto simp: wf_builder_def wf_states_def dest: extendsD)
  have g: "wf_states b'" "extends d (bdfa b')" "s' < num_states (bdfa b')"
    using push_edge_from_grows [OF pf ws] d s push_edge_from_Inr(1) [OF pf] by (auto dest: extendsD)
  have "extends (bdfa b) (bdfa b')" using d g(2) by (blast intro: extends_trans)
  moreover have "\<forall>le \<in> set (last_edges b). has_edges (bdfa b') le"
    using wb calculation by (auto simp: wf_builder_def intro: has_edges_extends)
  ultimately show ?thesis
    using g push_edge_from_fields [OF pf] by (simp add: wf_restart_def wf_builder_def builder_le_def)
qed

lemma restart_with_grows:
  assumes "restart_with input b = Inr b'" and "wf_builder b"
  shows "wf_builder b' \<and> builder_le b b'"
proof -
  from assms(1) obtain f b1 where
    f: "fold_res restart_step input (ANY_STATE, b) = Inr (f, b1)" and p: "push_into f False input b1 = Inr b'"
    by (auto simp: restart_with_def bind_res_eq_Inr)
  have "wf_restart (ANY_STATE, b)"
    using assms(2) by (auto simp: wf_restart_def wf_builder_def wf_states_def ANY_STATE_def dest: wf_dfaD)
  with f have "wf_restart (f, b1) \<and> (case (ANY_STATE, b) of (_, b) \<Rightarrow> \<lambda>(_, b'). builder_le b b') (f, b1)"
    by (rule restart_growth.loop) (auto dest: restart_step_grows)
  with push_into_grows [OF p] show ?thesis
    by (auto simp: wf_restart_def intro: builder_growth.le_trans)
qed

lemmas builder_grows = push_edge_grows push_inner_grows push_grows push_any_grows
  push_options_inner_grows restart_with_grows with_action_grows

end
