(* ===== verification/Trie_Walk.thy ===== *)
theory Trie_Walk
  imports Dfa_Builder
begin

section \<open>Walking a DFA, and the tries patterns of bytes form in it\<close>

text \<open>
  \<open>walk\<close> follows explicit edges only, as the unit tests of \<open>dfa.rs\<close> and
  \<open>http2/parser.rs\<close> do, and \<open>last_action\<close> is the action the last byte of a word runs.
  The trie law at the end says what a case sensitive pattern does to these two: it adds
  the action for its own word and changes nothing for any other.
\<close>

subsection \<open>Walks\<close>

fun walk :: "'a dfa \<Rightarrow> state_id \<Rightarrow> input list \<Rightarrow> state_id option" where
  "walk d s [] = Some s"
| "walk d s (i # w) = (case dfa_edge d s i of None \<Rightarrow> None | Some e \<Rightarrow> walk d (edge_to e) w)"

definition last_action :: "'a dfa \<Rightarrow> state_id \<Rightarrow> input list \<Rightarrow> 'a option" where
  "last_action d s w =
     (if w = [] then None
      else case walk d s (butlast w) of
        None \<Rightarrow> None
      | Some q \<Rightarrow> (case dfa_edge d q (last w) of None \<Rightarrow> None | Some e \<Rightarrow> edge_action e))"

lemma walk_append:
  "walk d s (v @ w) = (case walk d s v of None \<Rightarrow> None | Some q \<Rightarrow> walk d q w)"
  by (induction v arbitrary: s) (auto split: option.split)

lemma walk_snoc:
  "walk d s (w @ [i]) =
     (case walk d s w of None \<Rightarrow> None | Some q \<Rightarrow> map_option edge_to (dfa_edge d q i))"
  by (auto simp: walk_append split: option.split)

lemma last_action_snoc:
  "last_action d s (w @ [i]) =
     (case walk d s w of None \<Rightarrow> None
      | Some q \<Rightarrow> (case dfa_edge d q i of None \<Rightarrow> None | Some e \<Rightarrow> edge_action e))"
  by (simp add: last_action_def split: option.split)

lemma last_action_Nil [simp]: "last_action d s [] = None"
  by (simp add: last_action_def)

lemma walk_mono: "extends d d' \<Longrightarrow> walk d s w = Some q \<Longrightarrow> walk d' s w = Some q"
proof (induction w arbitrary: s)
  case (Cons i w)
  then obtain e where e: "dfa_edge d s i = Some e" "walk d (edge_to e) w = Some q"
    by (auto split: option.splits)
  with Cons.prems(1) obtain e' where "dfa_edge d' s i = Some e'" "edge_to e' = edge_to e"
    by (meson edge_le_def extendsD(2))
  with Cons.IH [OF Cons.prems(1) e(2)] show ?case by simp
qed simp

lemma last_action_mono:
  assumes "extends d d'" and "last_action d s w = Some a"
  shows "last_action d' s w = Some a"
proof -
  from assms(2) obtain q e where q: "w \<noteq> []" "walk d s (butlast w) = Some q"
    and e: "dfa_edge d q (last w) = Some e" "edge_action e = Some a"
    by (auto simp: last_action_def split: if_splits option.splits)
  from extendsD(2) [OF assms(1) e(1)] obtain e' where
    "dfa_edge d' q (last w) = Some e'" "edge_action e' = Some a"
    using e(2) by (auto simp: edge_le_def)
  with q walk_mono [OF assms(1) q(2)] show ?thesis by (simp add: last_action_def)
qed

lemma walk_less: "wf_dfa d \<Longrightarrow> s < num_states d \<Longrightarrow> walk d s w = Some q \<Longrightarrow> q < num_states d"
  by (induction w arbitrary: s) (auto split: option.splits dest: wf_dfaD(4))

subsection \<open>Silent growth: new edges lead to new states and carry no action\<close>

definition grows_silently :: "'a dfa \<Rightarrow> 'a dfa \<Rightarrow> bool" where
  "grows_silently d d' \<longleftrightarrow> num_states d \<le> num_states d' \<and>
     (\<forall>s i e. dfa_edge d s i = Some e \<longrightarrow> dfa_edge d' s i = Some e) \<and>
     (\<forall>s i e. dfa_edge d' s i = Some e \<longrightarrow> dfa_edge d s i = None \<longrightarrow>
        num_states d \<le> edge_to e \<and> edge_action e = None)"

lemma grows_silently_refl [simp]: "grows_silently d d"
  by (auto simp: grows_silently_def)

lemma grows_silently_trans:
  assumes "grows_silently d d'" and "grows_silently d' d''"
  shows "grows_silently d d''"
  unfolding grows_silently_def
proof (intro conjI allI impI)
  show "num_states d \<le> num_states d''"
    using assms by (auto simp: grows_silently_def intro: order.trans)
  show "dfa_edge d'' s i = Some e" if "dfa_edge d s i = Some e" for s i e
    using assms that by (simp add: grows_silently_def)
next
  fix s i e assume e: "dfa_edge d'' s i = Some e" "dfa_edge d s i = None"
  have "num_states d \<le> edge_to e \<and> edge_action e = None"
  proof (cases "dfa_edge d' s i")
    case None
    with e(1) assms have "num_states d' \<le> edge_to e \<and> edge_action e = None"
      and "num_states d \<le> num_states d'" by (simp_all add: grows_silently_def)
    then show ?thesis by (blast intro: order.trans)
  next
    case (Some e')
    with assms(2) e(1) have "e' = e" by (simp add: grows_silently_def)
    with Some e(2) assms(1) show ?thesis by (simp add: grows_silently_def)
  qed
  then show "num_states d \<le> edge_to e" and "edge_action e = None" by blast+
qed

lemma edge_eta [simp]: "\<lparr>edge_to = edge_to e, edge_action = edge_action e\<rparr> = e"
  by simp

lemma merged_action_Some_None [simp]: "merged_action (Some e) None = edge_action e"
  by (simp add: merged_action_def split: option.split)

lemma merged_action_None [simp]: "merged_action None a = a"
  by (simp add: merged_action_def)

lemma grows_silently_extends: "grows_silently d d' \<Longrightarrow> extends d d'"
  by (auto simp: grows_silently_def extends_def)

lemma walk_old_state:
  assumes "wf_dfa d" and "grows_silently d d'" and "walk d' s w = Some q" and "q < num_states d"
  shows "walk d s w = Some q"
  using assms(3,4)
proof (induction w arbitrary: q rule: rev_induct)
  case (snoc i w)
  then obtain p e where p: "walk d' s w = Some p" "dfa_edge d' p i = Some e" "edge_to e = q"
    by (auto simp: walk_snoc split: option.splits)
  have e: "dfa_edge d p i = Some e"
    using assms(2) p(2,3) snoc.prems(2) unfolding grows_silently_def
    by (metis linorder_not_less not_None_eq option.inject)
  then have "p < num_states d" by (rule wf_dfaD(3) [OF assms(1)])
  from snoc.IH [OF p(1) this] e p(3) show ?case by (simp add: walk_snoc)
qed simp

lemma last_action_silent:
  assumes "wf_dfa d" and "grows_silently d d'"
  shows "last_action d' s w = last_action d s w"
proof (cases w rule: rev_cases)
  case (snoc v i)
  have mono: "walk d s v = Some q \<Longrightarrow> walk d' s v = Some q" for q
    using assms(2) by (blast intro: walk_mono grows_silently_extends)
  show ?thesis
  proof (cases "walk d' s v")
    case None
    with mono have "walk d s v = None" by (metis not_None_eq)
    with None show ?thesis by (simp add: snoc last_action_snoc)
  next
    case (Some q)
    note q = Some
    show ?thesis
    proof (cases "dfa_edge d q i")
      case (Some e)
      then have "q < num_states d" by (rule wf_dfaD(3) [OF assms(1)])
      then have "walk d s v = Some q" by (rule walk_old_state [OF assms q])
      moreover have "dfa_edge d' q i = Some e" using assms(2) Some by (simp add: grows_silently_def)
      ultimately show ?thesis using q Some by (simp add: snoc last_action_snoc)
    next
      case None
      then have "last_action d s w = None"
        using mono q by (auto simp: snoc last_action_snoc split: option.split)
      moreover have "last_action d' s w = None"
        using assms(2) None q by (auto simp: snoc last_action_snoc grows_silently_def split: option.split)
      ultimately show ?thesis by simp
    qed
  qed
qed simp

subsection \<open>Pushing without pending prefixes\<close>

lemma push_optional_prefixes_none [simp]:
  "optional_prefixes b = [] \<Longrightarrow> push_optional_prefixes b = Inr b"
  by (simp add: push_optional_prefixes_def)

lemma push_edge_plain:
  assumes "optional_prefixes b = []" and "optional_states b = []"
  shows "push_edge i to cs b =
     bind_res (push_edge_from (bstate b) i to cs b) (\<lambda>(t, b1).
       Inr (b1\<lparr>bstate := t, last_edges := [(bstate b, i, cs)]\<rparr>))"
proof (cases "push_edge_from (bstate b) i to cs b")
  case (Inr r)
  obtain t b1 where r: "r = (t, b1)" by (cases r)
  with Inr have "optional_states b1 = []"
    using assms by (simp add: push_edge_from_fields)
  with Inr r assms show ?thesis by (simp add: push_edge_def)
qed (simp add: push_edge_def assms)

definition plain :: "'a builder \<Rightarrow> bool" where
  "plain b \<longleftrightarrow> optional_prefixes b = [] \<and> optional_states b = []"

lemma plain_start [simp]: "plain (start_pattern d s)"
  by (simp add: plain_def start_pattern_def)

lemma start_pattern_fields [simp]:
  "bdfa (start_pattern d s) = d" "bstate (start_pattern d s) = s"
  "last_edges (start_pattern d s) = []"
  "optional_prefixes (start_pattern d s) = []" "optional_states (start_pattern d s) = []"
  by (simp_all add: start_pattern_def)

lemma push_edge_silent:
  assumes "push_edge i None True b = Inr b'" and "plain b" and "wf_builder b"
  shows "grows_silently (bdfa b) (bdfa b')" and "plain b'"
    and "last_edges b' = [(bstate b, i, True)]"
    and "walk (bdfa b') (bstate b) [i] = Some (bstate b')"
proof -
  from assms(1,2) obtain t b1 where pf: "push_edge_from (bstate b) i None True b = Inr (t, b1)"
    and b': "b' = b1\<lparr>bstate := t, last_edges := [(bstate b, i, True)]\<rparr>"
    by (auto simp: push_edge_plain plain_def bind_res_eq_Inr)
  note p = push_edge_from_Inr [OF pf] and f = push_edge_from_fields [OF pf]
  show "plain b'" using assms(2) f by (simp add: plain_def b')
  show "last_edges b' = [(bstate b, i, True)]" by (simp add: b')
  have le: "num_states (bdfa b) \<le> num_states (bdfa b1)"
    using p(3,4) u16_less_Suc [of "num_states (bdfa b)"] by (auto split: if_splits)
  have old: "dfa_edge (bdfa b1) s j = Some e" if "dfa_edge (bdfa b) s j = Some e" for s j e
  proof (cases "s = bstate b \<and> j = i")
    case True
    then have "edge_to e = t" using p(6) [of i e] that by simp
    then have "e = \<lparr>edge_to = t, edge_action = edge_action e\<rparr>" by simp
    with True p(5) [of s j] that show ?thesis by simp
  next
    case False
    with p(5) [of s j] that show ?thesis by auto
  qed
  have new: "num_states (bdfa b) \<le> edge_to e \<and> edge_action e = None"
    if "dfa_edge (bdfa b1) s j = Some e" "dfa_edge (bdfa b) s j = None" for s j e
  proof -
    from that p(5) [of s j] have "s = bstate b \<and> j = i" by (metis cases_of_simps(2) not_None_eq singletonD)
    with that p(1) p(5) [of s j] show ?thesis by (auto simp: edge_target_def)
  qed
  from le old new show "grows_silently (bdfa b) (bdfa b')"
    by (auto simp: grows_silently_def b')
  show "walk (bdfa b') (bstate b) [i] = Some (bstate b')"
    using p(5) [of "bstate b" i] by (simp add: b')
qed

lemma push_inner_snoc:
  "push_inner (bs @ [c]) cs b = bind_res (push_inner bs cs b) (push_edge (input_of c) None cs)"
  by (simp add: push_inner_def fold_res_append) (simp add: bind_res_def split: sum.split)

lemma push_inner_silent:
  assumes "push_inner bs True b = Inr b'" and "plain b" and "wf_builder b"
  shows "grows_silently (bdfa b) (bdfa b') \<and> plain b' \<and> wf_builder b' \<and>
     walk (bdfa b') (bstate b) (map input_of bs) = Some (bstate b') \<and>
     last_edges b' =
       (if bs = [] then last_edges b
        else [(the (walk (bdfa b') (bstate b) (map input_of (butlast bs))), input_of (last bs), True)])"
  using assms(1)
proof (induction bs arbitrary: b' rule: rev_induct)
  case Nil
  then show ?case using assms(2,3) by (simp add: push_inner_def)
next
  case (snoc c bs)
  then obtain b1 where b1: "push_inner bs True b = Inr b1" and e: "push_edge (input_of c) None True b1 = Inr b'"
    by (auto simp: push_inner_snoc bind_res_eq_Inr)
  note IH = snoc.IH [OF b1]
  have s: "grows_silently (bdfa b1) (bdfa b')" "plain b'"
    "last_edges b' = [(bstate b1, input_of c, True)]"
    "walk (bdfa b') (bstate b1) [input_of c] = Some (bstate b')"
    using push_edge_silent [OF e] IH by blast+
  have "wf_builder b'" using push_edge_grows [OF e] IH by simp
  moreover have "walk (bdfa b') (bstate b) (map input_of bs) = Some (bstate b1)"
    using IH s(1) by (blast intro: walk_mono grows_silently_extends)
  ultimately show ?case
    using IH s by (auto simp: walk_snoc split: option.splits intro: grows_silently_trans)
qed

subsection \<open>Tries\<close>

text \<open>
  The states from \<open>R\<close> on form tries below the \<open>roots\<close>: an edge out of a root or of
  such a state stays among them, and no two edges lead to the same one.
\<close>

definition name_trie :: "state_id \<Rightarrow> state_id set \<Rightarrow> 'a dfa \<Rightarrow> bool" where
  "name_trie R roots d \<longleftrightarrow> (\<forall>r \<in> roots. r < R) \<and> R \<le> num_states d \<and>
     (\<forall>s i e. dfa_edge d s i = Some e \<longrightarrow> s \<in> roots \<or> R \<le> s \<longrightarrow> R \<le> edge_to e) \<and>
     (\<forall>s i e s' i' e'. dfa_edge d s i = Some e \<longrightarrow> dfa_edge d s' i' = Some e' \<longrightarrow>
        R \<le> edge_to e \<longrightarrow> edge_to e' = edge_to e \<longrightarrow> s' = s \<and> i' = i)"

lemma name_trieD:
  assumes "name_trie R roots d"
  shows "r \<in> roots \<Longrightarrow> r < R" and "R \<le> num_states d"
    and "dfa_edge d s i = Some e \<Longrightarrow> s \<in> roots \<or> R \<le> s \<Longrightarrow> R \<le> edge_to e"
    and "dfa_edge d s i = Some e \<Longrightarrow> dfa_edge d s' i' = Some e' \<Longrightarrow> R \<le> edge_to e \<Longrightarrow>
           edge_to e' = edge_to e \<Longrightarrow> s' = s \<and> i' = i"
  using assms unfolding name_trie_def by blast+

lemma name_trie_same_targets:
  assumes "name_trie R roots d"
    and same: "\<And>s i e. dfa_edge d' s i = Some e \<Longrightarrow> \<exists>e0. dfa_edge d s i = Some e0 \<and> edge_to e0 = edge_to e"
    and "num_states d' = num_states d"
  shows "name_trie R roots d'"
  unfolding name_trie_def
proof (intro conjI allI impI)
  show "\<forall>r \<in> roots. r < R" and "R \<le> num_states d'"
    using assms(1,3) by (auto simp: name_trie_def)
  show "R \<le> edge_to e" if "dfa_edge d' s i = Some e" "s \<in> roots \<or> R \<le> s" for s i e
    using same [OF that(1)] that(2) by (metis name_trieD(3) [OF assms(1)])
  fix s i e s' i' e'
  assume "dfa_edge d' s i = Some e" "dfa_edge d' s' i' = Some e'" "R \<le> edge_to e" "edge_to e' = edge_to e"
  then show "s' = s" and "i' = i"
    using same [of s i e] same [of s' i' e'] by (metis name_trieD(4) [OF assms(1)])+
qed

lemma walk_in_trie:
  assumes "name_trie R roots d" and "r \<in> roots" and "walk d r w = Some q"
  shows "if w = [] then q = r else R \<le> q"
  using assms(3)
proof (induction w arbitrary: q rule: rev_induct)
  case (snoc i w)
  then obtain p e where p: "walk d r w = Some p" and e: "dfa_edge d p i = Some e" "edge_to e = q"
    by (auto simp: walk_snoc split: option.splits)
  have "p \<in> roots \<or> R \<le> p" using snoc.IH [OF p] assms(2) by (auto split: if_splits)
  with name_trieD(3) [OF assms(1) e(1)] e(2) show ?case by simp
qed simp

lemma walk_unique:
  assumes "name_trie R roots d" and "r \<in> roots" and "r' \<in> roots"
    and "walk d r w = Some q" and "walk d r' w' = Some q"
  shows "r' = r \<and> w' = w"
  using assms(4,5)
proof (induction w arbitrary: q w' rule: rev_induct)
  case Nil
  then have q: "q = r" by simp
  with walk_in_trie [OF assms(1,3) Nil.prems(2)] name_trieD(1) [OF assms(1,2)] show ?case
    by (auto split: if_splits)
next
  case (snoc i w)
  then obtain p e where p: "walk d r w = Some p" and e: "dfa_edge d p i = Some e" "edge_to e = q"
    by (auto simp: walk_snoc split: option.splits)
  have R: "R \<le> q" using walk_in_trie [OF assms(1,2) snoc.prems(1)] by simp
  have "w' \<noteq> []" using R snoc.prems(2) name_trieD(1) [OF assms(1,3)] by auto
  then obtain v j where w': "w' = v @ [j]" by (metis rev_exhaust)
  with snoc.prems(2) obtain p' e' where p': "walk d r' v = Some p'"
    and e': "dfa_edge d p' j = Some e'" "edge_to e' = q"
    by (auto simp: walk_snoc split: option.splits)
  have "p' = p \<and> j = i" using name_trieD(4) [OF assms(1) e(1) e'(1)] R e(2) e'(2) by simp
  with snoc.IH [OF p] p' w' show ?case by simp
qed

lemma name_trie_push_edge:
  assumes "push_edge i None True b = Inr b'" and "plain b" and "wf_builder b"
    and "name_trie R roots (bdfa b)" and "bstate b \<in> roots \<or> R \<le> bstate b"
  shows "name_trie R roots (bdfa b') \<and> R \<le> bstate b'"
proof -
  from assms(1,2) obtain t b1 where pf: "push_edge_from (bstate b) i None True b = Inr (t, b1)"
    and b': "b' = b1\<lparr>bstate := t, last_edges := [(bstate b, i, True)]\<rparr>"
    by (auto simp: push_edge_plain plain_def bind_res_eq_Inr)
  note p = push_edge_from_Inr [OF pf]
  have wd: "wf_dfa (bdfa b)" using assms(3) by (simp add: wf_builder_def wf_states_def)
  show ?thesis
  proof (cases "dfa_edge (bdfa b) (bstate b) i")
    case (Some e)
    have t: "t = edge_to e" using p(1) Some by (simp add: edge_target_def)
    have "dfa_edge (bdfa b1) = dfa_edge (bdfa b)"
      by (intro ext) (use p(5) Some t in auto)
    with p(3) Some assms(4) have "name_trie R roots (bdfa b1)" by (simp add: name_trie_def)
    with name_trieD(3) [OF assms(4) Some assms(5)] t show ?thesis by (simp add: b')
  next
    case None
    let ?n = "num_states (bdfa b)"
    have t: "t = ?n" using p(1) None by (simp add: edge_target_def)
    have lt: "?n < num_states (bdfa b1)" using p(3,4) None u16_less_Suc by simp
    have Rn: "R \<le> ?n" by (rule name_trieD(2) [OF assms(4)])
    have new: "dfa_edge (bdfa b1) s j =
        (if s = bstate b \<and> j = i then Some \<lparr>edge_to = ?n, edge_action = None\<rparr> else dfa_edge (bdfa b) s j)" for s j
      using p(5) [of s j] None t by simp
    have old: "edge_to e \<noteq> ?n" if "dfa_edge (bdfa b) s j = Some e" for s j e
      using wf_dfaD(4) [OF wd that] by auto
    have "name_trie R roots (bdfa b1)"
      using assms(4) lt Rn old unfolding name_trie_def new
      by (auto intro: order.trans less_imp_le split: if_splits) blast+
    with Rn t show ?thesis by (simp add: b')
  qed
qed

lemma name_trie_push_inner:
  assumes "push_inner bs True b = Inr b'" and "plain b" and "wf_builder b"
    and "name_trie R roots (bdfa b)" and "bstate b \<in> roots \<or> R \<le> bstate b"
  shows "name_trie R roots (bdfa b') \<and> (bstate b' \<in> roots \<or> R \<le> bstate b')"
  using assms(1)
proof (induction bs arbitrary: b' rule: rev_induct)
  case Nil
  then show ?case using assms(4,5) by (simp add: push_inner_def)
next
  case (snoc c bs)
  then obtain b1 where b1: "push_inner bs True b = Inr b1" and e: "push_edge (input_of c) None True b1 = Inr b'"
    by (auto simp: push_inner_snoc bind_res_eq_Inr)
  note s = push_inner_silent [OF b1 assms(2,3)]
  from name_trie_push_edge [OF e] s snoc.IH [OF b1] show ?case by blast
qed

subsection \<open>The trie law\<close>

lemma with_action_single:
  assumes "plain b" and "last_edges b = [(q, i, True)]"
  shows "with_action a b = bind_res (add_action (bdfa b) q i a) (\<lambda>d. Inr (b\<lparr>bdfa := d\<rparr>))"
  using assms by (simp add: with_action_def plain_def add_last_action_def bind_res_assoc)

lemma add_action_walk:
  assumes "add_action d q i a = Inr d'"
  shows "walk d' s w = walk d s w"
    and "last_action d' s (w @ [j]) = (if walk d s w = Some q \<and> j = i then Some a else last_action d s (w @ [j]))"
proof -
  from assms obtain e where e: "dfa_edge d q i = Some e"
    and d': "\<And>s' i'. dfa_edge d' s' i' = (if s' = q \<and> i' = i then Some (e\<lparr>edge_action := Some a\<rparr>) else dfa_edge d s' i')"
    by (elim add_action_Inr) blast
  have step: "map_option edge_to (dfa_edge d' s i') = map_option edge_to (dfa_edge d s i')" for s i'
    by (simp add: d' e)
  show w: "walk d' s w = walk d s w" for s w
  proof (induction w rule: rev_induct)
    case (snoc x w)
    then show ?case by (simp add: walk_snoc step split: option.split)
  qed simp
  show "last_action d' s (w @ [j]) = (if walk d s w = Some q \<and> j = i then Some a else last_action d s (w @ [j]))"
    by (auto simp: last_action_snoc w d' split: option.split)
qed

theorem trie_law:
  assumes "push_inner bs True (start_pattern d r) = Inr b1" and "with_action a b1 = Inr b2"
    and "wf_dfa d" and "name_trie R roots d" and "r \<in> roots" and "bs \<noteq> []"
  shows "name_trie R roots (bdfa b2)" and "wf_dfa (bdfa b2)" and "extends d (bdfa b2)"
    and "r' \<in> roots \<Longrightarrow> last_action (bdfa b2) r' w =
           (if r' = r \<and> w = map input_of bs then Some a else last_action d r' w)"
proof -
  have r: "r < num_states d" using name_trieD(1,2) [OF assms(4)] assms(5) by (meson order.strict_trans2)
  have wb: "wf_builder (start_pattern d r)" using assms(3) r by (rule wf_builder_start)
  note p = push_inner_silent [OF assms(1) plain_start wb, simplified]
  have nt: "name_trie R roots (bdfa b1)"
    using name_trie_push_inner [OF assms(1) plain_start wb] assms(4,5) by simp
  define v where "v = map input_of (butlast bs)"
  define q where "q = the (walk (bdfa b1) r v)"
  have bs: "map input_of bs = v @ [input_of (last bs)]"
    using arg_cong [OF append_butlast_last_id [OF assms(6)], of "map input_of"] by (simp add: v_def)
  have le: "last_edges b1 = [(q, input_of (last bs), True)]"
    using p assms(6) by (simp add: q_def v_def)
  have q: "walk (bdfa b1) r v = Some q"
    using p by (auto simp: bs walk_snoc q_def split: option.splits)
  from assms(2) obtain d2 where d2: "add_action (bdfa b1) q (input_of (last bs)) a = Inr d2"
    and b2: "b2 = b1\<lparr>bdfa := d2\<rparr>"
    using with_action_single [OF _ le, of a] p by (auto simp: bind_res_eq_Inr)
  note aw = add_action_walk [OF d2]
  have wb1: "wf_dfa (bdfa b1)" using p by (simp add: wf_builder_def wf_states_def)
  show "wf_dfa (bdfa b2)" using wf_add_action [OF d2 wb1] by (simp add: b2)
  show "extends d (bdfa b2)"
    using p extends_add_action [OF d2] by (auto simp: b2 intro: extends_trans grows_silently_extends)
  have same: "\<exists>e0. dfa_edge (bdfa b1) s i = Some e0 \<and> edge_to e0 = edge_to e"
    if "dfa_edge d2 s i = Some e" for s i e
    using d2 that by (elim add_action_Inr) (auto split: if_splits)
  have n2: "num_states d2 = num_states (bdfa b1)" using d2 by (elim add_action_Inr)
  show "name_trie R roots (bdfa b2)"
    using name_trie_same_targets [OF nt same n2] by (simp add: b2)
  assume r': "r' \<in> roots"
  show "last_action (bdfa b2) r' w = (if r' = r \<and> w = map input_of bs then Some a else last_action d r' w)"
  proof (cases w rule: rev_cases)
    case (snoc u j)
    have "walk (bdfa b1) r' u = Some q \<longleftrightarrow> r' = r \<and> u = v"
      using walk_unique [OF nt assms(5) r' q] q by auto
    moreover have "last_action (bdfa b1) r' w = last_action d r' w"
      by (rule last_action_silent [OF assms(3) p [THEN conjunct1]])
    moreover have "w = map input_of bs \<longleftrightarrow> u = v \<and> j = input_of (last bs)"
      by (simp only: snoc bs append1_eq_conv)
    ultimately show ?thesis
      using aw(2) [of r' u j] by (simp add: b2 snoc)
  qed (use assms(6) in simp)
qed

subsection \<open>When a pattern of bytes panics, and what it leaves alone\<close>

lemma unat_u16_Suc: "n \<noteq> 0xFFFF \<Longrightarrow> unat ((n :: u16) + 1) = unat n + 1"
  by unat_arith simp

lemma push_edge_plain_cases:
  assumes "plain b"
  shows "if dfa_edge (bdfa b) (bstate b) i = None \<and> num_states (bdfa b) = 0xFFFF
     then push_edge i None True b = Inl StateOverflow
     else \<exists>b'. push_edge i None True b = Inr b' \<and>
       unat (num_states (bdfa b')) \<le> unat (num_states (bdfa b)) + 1 \<and>
       (\<forall>s j. s \<noteq> bstate b \<or> j \<noteq> i \<longrightarrow> dfa_edge (bdfa b') s j = dfa_edge (bdfa b) s j)"
proof (cases "dfa_edge (bdfa b) (bstate b) i = None \<and> num_states (bdfa b) = 0xFFFF")
  case True
  then show ?thesis
    using assms by (simp add: push_edge_plain plain_def push_edge_from_def next_state_def new_state_def)
next
  case False
  then obtain b1 where
    pf: "push_edge_from (bstate b) i None True b = Inr (edge_target (bdfa b) (bstate b) i None, b1)"
    using push_edge_from_total [of b "bstate b" i True None] by (auto simp: edge_target_def)
  have "unat (num_states (bdfa b1)) \<le> unat (num_states (bdfa b)) + 1"
    using push_edge_from_Inr(3,4) [OF pf] by (simp add: unat_u16_Suc)
  moreover have "dfa_edge (bdfa b1) s j = dfa_edge (bdfa b) s j" if "s \<noteq> bstate b \<or> j \<noteq> i" for s j
    using push_edge_from_Inr(5) [OF pf, of s j] that by auto
  ultimately show ?thesis
    using False assms pf by (simp add: push_edge_plain plain_def)
qed

lemma push_inner_num_states:
  assumes "push_inner bs True b = Inr b'" and "plain b" and "wf_builder b"
  shows "unat (num_states (bdfa b')) \<le> unat (num_states (bdfa b)) + length bs"
  using assms(1)
proof (induction bs arbitrary: b' rule: rev_induct)
  case Nil
  then show ?case by (simp add: push_inner_def)
next
  case (snoc c bs)
  then obtain b1 where b1: "push_inner bs True b = Inr b1" and e: "push_edge (input_of c) None True b1 = Inr b'"
    by (auto simp: push_inner_snoc bind_res_eq_Inr)
  have "plain b1" using push_inner_silent [OF b1 assms(2,3)] by blast
  from push_edge_plain_cases [OF this, of "input_of c"] e snoc.IH [OF b1] show ?case
    by (auto split: if_splits)
qed

lemma push_inner_panic:
  assumes "push_inner bs True b = Inl p" and "plain b" and "wf_builder b"
  shows "p = StateOverflow \<and> 0xFFFF < unat (num_states (bdfa b)) + length bs"
  using assms(1)
proof (induction bs rule: rev_induct)
  case Nil
  then show ?case by (simp add: push_inner_def)
next
  case (snoc c bs)
  show ?case
  proof (cases "push_inner bs True b")
    case (Inl q)
    with snoc show ?thesis by (simp add: push_inner_snoc)
  next
    case (Inr b1)
    with snoc.prems have e: "push_edge (input_of c) None True b1 = Inl p" by (simp add: push_inner_snoc)
    have "plain b1" using push_inner_silent [OF Inr assms(2,3)] by blast
    from push_edge_plain_cases [OF this, of "input_of c"] e
    have "p = StateOverflow" and "num_states (bdfa b1) = 0xFFFF" by (auto split: if_splits)
    with push_inner_num_states [OF Inr assms(2,3)] show ?thesis by simp
  qed
qed

lemma trie_frame_push:
  assumes "push_inner bs True b = Inr b'" and "plain b" and "wf_builder b"
    and "name_trie R roots (bdfa b)" and "bstate b \<in> roots \<or> R \<le> bstate b" and "s \<notin> roots" and "s < R"
  shows "dfa_edge (bdfa b') s i = dfa_edge (bdfa b) s i"
  using assms(1)
proof (induction bs arbitrary: b' rule: rev_induct)
  case Nil
  then show ?case by (simp add: push_inner_def)
next
  case (snoc c bs)
  then obtain b1 where b1: "push_inner bs True b = Inr b1" and e: "push_edge (input_of c) None True b1 = Inr b'"
    by (auto simp: push_inner_snoc bind_res_eq_Inr)
  have pl: "plain b1" using push_inner_silent [OF b1 assms(2,3)] by blast
  have "s \<noteq> bstate b1" using name_trie_push_inner [OF b1 assms(2-5)] assms(6,7) by auto
  with push_edge_plain_cases [OF pl, of "input_of c"] e snoc.IH [OF b1] show ?case
    by (auto split: if_splits)
qed

text \<open>
  The pattern panics only when the DFA runs out of states, provided that no other action
  runs at the end of its word; and it leaves every state alone that is not part of a trie.
\<close>

lemma trie_total:
  assumes "bind_res (push_inner bs True (start_pattern d r)) (with_action a) = Inl p"
    and "wf_dfa d" and "name_trie R roots d" and "r \<in> roots"
    and "last_action d r (map input_of bs) = None \<or> last_action d r (map input_of bs) = Some a"
  shows "p = StateOverflow \<and> 0xFFFF < unat (num_states d) + length bs"
proof -
  have r: "r < num_states d" using name_trieD(1,2) [OF assms(3)] assms(4) by (meson order.strict_trans2)
  have wb: "wf_builder (start_pattern d r)" using assms(2) r by (rule wf_builder_start)
  show ?thesis
  proof (cases "push_inner bs True (start_pattern d r)")
    case (Inl q)
    with assms(1) push_inner_panic [OF Inl plain_start wb] show ?thesis by simp
  next
    case (Inr b1)
    note s = push_inner_silent [OF Inr plain_start wb, simplified]
    from assms(1) Inr have w: "with_action a b1 = Inl p" by simp
    show ?thesis
    proof (cases "bs = []")
      case True
      with s w show ?thesis by (simp add: with_action_def plain_def)
    next
      case False
      define v where "v = map input_of (butlast bs)"
      define q where "q = the (walk (bdfa b1) r v)"
      have bs: "map input_of bs = v @ [input_of (last bs)]"
        using arg_cong [OF append_butlast_last_id [OF False], of "map input_of"] by (simp add: v_def)
      have le: "last_edges b1 = [(q, input_of (last bs), True)]"
        using s False by (simp add: q_def v_def)
      from s obtain e where e: "walk (bdfa b1) r v = Some q" "dfa_edge (bdfa b1) q (input_of (last bs)) = Some e"
        by (auto simp: bs walk_snoc q_def split: option.splits)
      have "last_action d r (map input_of bs) = edge_action e"
        using last_action_silent [OF assms(2) s [THEN conjunct1], of r "map input_of bs"] e
        by (simp add: bs last_action_snoc)
      with assms(5) e(2) obtain d2 where "add_action (bdfa b1) q (input_of (last bs)) a = Inr d2"
        using add_action_total by metis
      with with_action_single [OF _ le, of a] s w show ?thesis by simp
    qed
  qed
qed

lemma trie_keeps:
  assumes "push_inner bs True (start_pattern d r) = Inr b1" and "with_action a b1 = Inr b2"
    and "wf_dfa d" and "name_trie R roots d" and "r \<in> roots"
  shows "bs = [] \<Longrightarrow> bdfa b2 = d"
    and "unat (num_states (bdfa b2)) \<le> unat (num_states d) + length bs"
    and "s \<notin> roots \<Longrightarrow> s < R \<Longrightarrow> dfa_edge (bdfa b2) s i = dfa_edge d s i"
proof -
  have r: "r < num_states d" using name_trieD(1,2) [OF assms(4)] assms(5) by (meson order.strict_trans2)
  have wb: "wf_builder (start_pattern d r)" using assms(3) r by (rule wf_builder_start)
  note p = push_inner_silent [OF assms(1) plain_start wb, simplified]
  show nil: "bs = [] \<Longrightarrow> bdfa b2 = d"
    using assms(1,2) by (auto simp: push_inner_def with_action_def)
  have "num_states (bdfa b2) = num_states (bdfa b1) \<and>
      (s \<notin> roots \<longrightarrow> s < R \<longrightarrow> dfa_edge (bdfa b2) s i = dfa_edge (bdfa b1) s i)"
  proof (cases "bs = []")
    case True
    with assms(1,2) show ?thesis by (auto simp: push_inner_def with_action_def)
  next
    case False
    define q where "q = the (walk (bdfa b1) r (map input_of (butlast bs)))"
    have le: "last_edges b1 = [(q, input_of (last bs), True)]"
      using p False by (simp add: q_def)
    from assms(2) obtain d2 where d2: "add_action (bdfa b1) q (input_of (last bs)) a = Inr d2"
      and b2: "b2 = b1\<lparr>bdfa := d2\<rparr>"
      using with_action_single [OF _ le, of a] p by (auto simp: bind_res_eq_Inr)
    have "map input_of bs = map input_of (butlast bs) @ [input_of (last bs)]"
      using arg_cong [OF append_butlast_last_id [OF False], of "map input_of"] by simp
    then have q: "walk (bdfa b1) r (map input_of (butlast bs)) = Some q"
      using p by (auto simp: walk_snoc q_def split: option.splits)
    have nt: "name_trie R roots (bdfa b1)"
      using name_trie_push_inner [OF assms(1) plain_start wb] assms(4,5) by simp
    have "q \<in> roots \<or> R \<le> q" using walk_in_trie [OF nt assms(5) q] assms(5) by (auto split: if_splits)
    with d2 show ?thesis by (elim add_action_Inr) (auto simp: b2)
  qed
  then show "unat (num_states (bdfa b2)) \<le> unat (num_states d) + length bs"
    and "s \<notin> roots \<Longrightarrow> s < R \<Longrightarrow> dfa_edge (bdfa b2) s i = dfa_edge d s i"
    using push_inner_num_states [OF assms(1) plain_start wb]
      trie_frame_push [OF assms(1) plain_start wb, of R roots s i] assms(4,5) by simp_all
qed

subsection \<open>The inputs and the actions of the tries\<close>

definition trie_actions :: "state_id \<Rightarrow> state_id set \<Rightarrow> 'a set \<Rightarrow> 'a dfa \<Rightarrow> bool" where
  "trie_actions R roots A d \<longleftrightarrow>
     (\<forall>s i e. dfa_edge d s i = Some e \<longrightarrow> s \<in> roots \<or> R \<le> s \<longrightarrow> i \<le> 0xFF \<and> edge_action e \<in> insert None (Some ` A))"

lemma trie_actions_mono: "trie_actions R roots A d \<Longrightarrow> A \<subseteq> B \<Longrightarrow> trie_actions R roots B d"
  unfolding trie_actions_def by blast

lemma trie_actions_push:
  assumes "push_inner bs True b = Inr b'" and "plain b" and "wf_builder b" and "trie_actions R roots A (bdfa b)"
  shows "trie_actions R roots A (bdfa b')"
  using assms(1)
proof (induction bs arbitrary: b' rule: rev_induct)
  case Nil
  then show ?case using assms(4) by (simp add: push_inner_def)
next
  case (snoc c bs)
  then obtain b1 where b1: "push_inner bs True b = Inr b1" and e: "push_edge (input_of c) None True b1 = Inr b'"
    by (auto simp: push_inner_snoc bind_res_eq_Inr)
  have pl: "plain b1" and wb: "wf_builder b1" using push_inner_silent [OF b1 assms(2,3)] by blast+
  note sil = push_edge_silent(1) [OF e pl wb] and IH = snoc.IH [OF b1]
  have fr: "dfa_edge (bdfa b') s j = dfa_edge (bdfa b1) s j" if "s \<noteq> bstate b1 \<or> j \<noteq> input_of c" for s j
    using push_edge_plain_cases [OF pl, of "input_of c"] e that by (auto split: if_splits)
  show ?case
    unfolding trie_actions_def
  proof (intro allI impI)
    fix s i e assume e: "dfa_edge (bdfa b') s i = Some e" and s: "s \<in> roots \<or> R \<le> s"
    show "i \<le> 0xFF \<and> edge_action e \<in> insert None (Some ` A)"
    proof (cases "dfa_edge (bdfa b1) s i")
      case (Some e1)
      then have "dfa_edge (bdfa b') s i = Some e1" using sil unfolding grows_silently_def by blast
      with e have "e1 = e" by simp
      with Some s IH show ?thesis unfolding trie_actions_def by blast
    next
      case None
      with e fr [of s i] have "i = input_of c" by auto
      moreover have "edge_action e = None" using sil e None unfolding grows_silently_def by blast
      ultimately show ?thesis using input_of_le by simp
    qed
  qed
qed

lemma trie_actions_pattern:
  assumes "push_inner bs True (start_pattern d r) = Inr b1" and "with_action a b1 = Inr b2"
    and "wf_dfa d" and "name_trie R roots d" and "r \<in> roots" and "trie_actions R roots A d"
  shows "trie_actions R roots (insert a A) (bdfa b2)"
proof -
  have r: "r < num_states d" using name_trieD(1,2) [OF assms(4)] assms(5) by (meson order.strict_trans2)
  have wb: "wf_builder (start_pattern d r)" using assms(3) r by (rule wf_builder_start)
  note p = push_inner_silent [OF assms(1) plain_start wb, simplified]
  have t1: "trie_actions R roots A (bdfa b1)"
    by (rule trie_actions_push [OF assms(1) plain_start wb]) (simp add: assms(6))
  show ?thesis
  proof (cases "bs = []")
    case True
    then have "bdfa b2 = d" using trie_keeps(1) [OF assms(1-5)] by simp
    with assms(6) show ?thesis by (auto intro: trie_actions_mono)
  next
    case False
    from assms(2) obtain q d2 where d2: "add_action (bdfa b1) q (input_of (last bs)) a = Inr d2"
      and b2: "b2 = b1\<lparr>bdfa := d2\<rparr>"
      using with_action_single [of b1 _ "input_of (last bs)" a] p False by (auto simp: bind_res_eq_Inr)
    have "dfa_edge (bdfa b1) s i = Some e \<or> dfa_edge (bdfa b1) s i \<noteq> None \<and> edge_action e = Some a"
      if "dfa_edge d2 s i = Some e" for s i e
      using d2 that by (elim add_action_Inr) (auto split: if_splits)
    with t1 show ?thesis unfolding trie_actions_def b2 by (fastforce simp: b2)
  qed
qed

end
