(* ===== verification/Dfa_Patterns.thy ===== *)
theory Dfa_Patterns
  imports Trie_Walk
begin

section \<open>Chains of builder calls (\<open>beeper/src/dfa.rs\<close>)\<close>

text \<open>
  The parsers build every pattern by a chain of calls on one \<open>DfaBuilder\<close>. This theory
  collects what holds of any such chain: the DFA stays well formed and only grows, and what
  a chain can panic with. The properties of the DFA and of its builder stand at the end.
\<close>

subsection \<open>What a call may panic with\<close>

text \<open>
  The panics that depend on the patterns that are already there: the DFA is out of state ids,
  or the new pattern contradicts an old one.
\<close>

fun clash :: "'a panic \<Rightarrow> bool" where
  "clash StateOverflow = True"
| "clash (TransitionConflict _ _ _) = True"
| "clash (ActionConflict new old) = (new \<noteq> old)"
| "clash _ = False"

definition clashes :: "'a panic + 'b \<Rightarrow> bool" where
  "clashes m \<longleftrightarrow> (\<forall>p. m = Inl p \<longrightarrow> clash p)"

lemma clashes_simps [simp]:
  "clashes (Inr x)" "clashes (Inl p) = clash p"
  by (simp_all add: clashes_def)

lemma clashes_bind [intro]:
  "clashes m \<Longrightarrow> (\<And>x. m = Inr x \<Longrightarrow> clashes (f x)) \<Longrightarrow> clashes (bind_res m f)"
  by (cases m) simp_all

lemma clashes_fold [intro]: "(\<And>x s. clashes (f x s)) \<Longrightarrow> clashes (fold_res f xs s)"
  by (induction xs arbitrary: s) auto

lemma clashes_edges [simp]: "clashes (next_state d s i)" "clashes (insert_edge d s i t None)"
  by (auto simp: next_state_def new_state_def insert_edge_def split: option.split)

lemma clashes_push_edge_from [simp]: "clashes (push_edge_from s i to cs b)"
  by (auto simp: push_edge_from_def Let_def intro!: clashes_bind split: option.split)

lemma clashes_push_prefix_inputs [simp]: "clashes (push_prefix_inputs p source s is b)"
  by (induction "is" arbitrary: s b) (auto simp: Let_def intro!: clashes_bind)

lemma clashes_push_optional_prefixes [simp]: "clashes (push_optional_prefixes b)"
  by (auto simp: push_optional_prefixes_def push_prefix_def push_prefix_from_def
      intro!: clashes_bind clashes_fold)

lemma clashes_push_edge [simp]: "clashes (push_edge i to cs b)"
  by (auto simp: push_edge_def push_skipped_def intro!: clashes_bind clashes_fold)

lemma clashes_push_inner [simp]: "clashes (push_inner bs cs b)"
  by (auto simp: push_inner_def intro!: clashes_fold)

lemma clashes_push_into [simp]: "clashes (push_into final cs bs b)"
  by (induction bs arbitrary: b) (auto intro!: clashes_bind)

lemma clashes_restart_with [simp]: "clashes (restart_with bs b)"
  by (auto simp: restart_with_def restart_step_def intro!: clashes_bind clashes_fold)

lemma clashes_with_action: "wf_builder b \<Longrightarrow> clashes (with_action a b)"
  using clashes_push_optional_prefixes [of b] with_action_panic [of a b]
  by (fastforce simp: clashes_def)

lemma clashes_push_any:
  "range_min lo \<le> range_max (range_min lo) hi \<Longrightarrow> clashes (push_any lo hi b)"
  by (auto simp: push_any_def Let_def intro!: clashes_bind clashes_fold)

lemma clashes_fold_on:
  "(\<And>x s. x \<in> set xs \<Longrightarrow> clashes (f x s)) \<Longrightarrow> clashes (fold_res f xs s)"
  by (induction xs arbitrary: s) auto

lemma fold_res_Inl: "fold_res f xs s = Inl p \<Longrightarrow> \<exists>x \<in> set xs. \<exists>s. f x s = Inl p"
proof (induction xs arbitrary: s)
  case (Cons x xs)
  then show ?case by (cases "f x s") auto
qed simp

lemma clashes_push_option: "input \<noteq> [] \<Longrightarrow> clashes (push_option start final cs input st)"
  by (cases st) (auto simp: push_option_def Let_def intro!: clashes_bind)

lemma longest_in: "longest_of x ys \<in> set (x # ys)"
  by (induction ys arbitrary: x) (fastforce split: if_splits)+

text \<open>A set of options is refused if there is an empty one beside others, and in no other way.\<close>

lemma push_options_panic:
  assumes "push_options_inner inputs cs b = Inl p"
  shows "clash p \<or> p = EmptyOption \<and> [] \<in> set inputs \<and> (\<exists>input \<in> set inputs. input \<noteq> [])"
proof (cases inputs)
  case Nil
  with assms show ?thesis by (simp add: push_options_inner_def)
next
  case (Cons first rest)
  let ?longest = "longest_of first rest"
  show ?thesis
  proof (cases "push_inner ?longest cs b")
    case (Inl q)
    with assms Cons clashes_push_inner [of ?longest cs b] show ?thesis by (simp add: push_options_inner_def Let_def)
  next
    case (Inr b1)
    let ?others = "filter (\<lambda>input. input \<noteq> ?longest) inputs"
    have "fold_res (push_option (bstate b) (bstate b1) cs) ?others (last_edges b1, b1\<lparr>last_edges := []\<rparr>) = Inl p"
      using assms Cons Inr by (auto simp: push_options_inner_def Let_def bind_res_def split: sum.splits prod.splits)
    from fold_res_Inl [OF this] obtain input st where x: "input \<in> set ?others" "push_option (bstate b) (bstate b1) cs input st = Inl p"
      by blast
    show ?thesis
    proof (cases "input = []")
      case True
      then have "p = EmptyOption" using x(2) by (cases st) (simp add: push_option_def)
      moreover have "?longest \<in> set inputs" unfolding Cons by (rule longest_in)
      ultimately show ?thesis using True x(1) by (auto intro!: bexI [of _ ?longest])
    next
      case False
      then show ?thesis using clashes_push_option [of input] x(2) by (metis clashes_simps(2))
    qed
  qed
qed

subsection \<open>Chains\<close>

text \<open>A call on the builder, as the parsers write them.\<close>

datatype 'a call =
    Push bytes
  | Push_ci bytes
  | Push_any bound bound
  | Push_options_ci "bytes list"
  | Push_optional bytes bool
  | Restart_with bytes
  | With 'a

fun run_call :: "'a call \<Rightarrow> 'a builder \<Rightarrow> 'a panic + 'a builder" where
  "run_call (Push bs) b = push bs b"
| "run_call (Push_ci bs) b = push_ci bs b"
| "run_call (Push_any lo hi) b = push_any lo hi b"
| "run_call (Push_options_ci inputs) b = push_options_ci inputs b"
| "run_call (Push_optional bs repeat) b = Inr (push_optional bs repeat b)"
| "run_call (Restart_with bs) b = restart_with bs b"
| "run_call (With a) b = with_action a b"

text \<open>The calls with an argument that is refused, and how.\<close>

fun refuses :: "'a call \<Rightarrow> 'a panic \<Rightarrow> bool" where
  "refuses (Push_any lo hi) p \<longleftrightarrow> p = EmptyRange \<and> range_max (range_min lo) hi < range_min lo"
| "refuses (Push_options_ci inputs) p \<longleftrightarrow> p = EmptyOption \<and> [] \<in> set inputs \<and> (\<exists>input \<in> set inputs. input \<noteq> [])"
| "refuses _ _ \<longleftrightarrow> False"

lemma run_call_grows: "run_call c b = Inr b' \<Longrightarrow> wf_builder b \<Longrightarrow> wf_builder b' \<and> builder_le b b'"
  by (cases c) (auto simp: push_ci_def push_options_ci_def dest: builder_grows push_optional_grows)

lemma run_call_panic:
  assumes "run_call c b = Inl p" and "wf_builder b"
  shows "clash p \<or> refuses c p"
proof (cases c)
  case (Push_any lo hi)
  with assms clashes_push_any [of lo hi b] show ?thesis
    by (cases "range_max (range_min lo) hi < range_min lo") (auto simp: clashes_def push_any_def Let_def)
next
  case (Push_options_ci inputs)
  with assms(1) push_options_panic [of inputs False b p] show ?thesis by (simp add: push_options_ci_def)
qed (use assms clashes_with_action [of b] in
     \<open>auto simp: push_def push_ci_def clashes_def
        dest: clashes_push_inner [unfolded clashes_def, rule_format]
          clashes_restart_with [unfolded clashes_def, rule_format]\<close>)

abbreviation run_chain :: "'a call list \<Rightarrow> 'a builder \<Rightarrow> 'a panic + 'a builder" where
  "run_chain \<equiv> fold_res run_call"

lemma run_chain_grows: "run_chain cs b = Inr b' \<Longrightarrow> wf_builder b \<Longrightarrow> wf_builder b' \<and> builder_le b b'"
  by (erule builder_growth.loop) (auto dest: run_call_grows)

lemma run_chain_panic:
  "run_chain cs b = Inl p \<Longrightarrow> wf_builder b \<Longrightarrow> clash p \<or> (\<exists>c \<in> set cs. refuses c p)"
proof (induction cs arbitrary: b)
  case (Cons c cs)
  show ?case
  proof (cases "run_call c b")
    case (Inl q)
    with Cons.prems show ?thesis by (auto dest: run_call_panic)
  next
    case (Inr b1)
    with Cons.prems run_call_grows [OF Inr] show ?thesis by (auto dest: Cons.IH)
  qed
qed simp

text \<open>A pattern: a chain from a state of the DFA.\<close>

lemma pattern_grows:
  assumes "run_chain cs (start_pattern d s) = Inr b" and "wf_dfa d" and "s < num_states d"
  shows "wf_dfa (bdfa b)" and "extends d (bdfa b)" and "bstate b < num_states (bdfa b)" and "wf_builder b"
proof -
  have "wf_builder b \<and> builder_le (start_pattern d s) b"
    using run_chain_grows [OF assms(1)] assms(2,3) wf_builder_start by blast
  then show "wf_dfa (bdfa b)" and "extends d (bdfa b)" and "bstate b < num_states (bdfa b)" and "wf_builder b"
    by (simp_all add: builder_le_def wf_builder_def wf_states_def)
qed

lemma pattern_panic:
  "run_chain cs (start_pattern d s) = Inl p \<Longrightarrow> wf_dfa d \<Longrightarrow> s < num_states d \<Longrightarrow>
     clash p \<or> (\<exists>c \<in> set cs. refuses c p)"
  by (rule run_chain_panic [OF _ wf_builder_start])

subsection \<open>Invariants of the DFA alone\<close>

text \<open>
  What the three primitive operations of the DFA keep, with the inputs of bytes and the any
  input and with the actions of \<open>A\<close>, every chain keeps whose actions are in \<open>A\<close>.
\<close>

fun call_actions :: "'a call \<Rightarrow> 'a set" where
  "call_actions (With a) = {a}"
| "call_actions _ = {}"

locale dfa_invariant =
  fixes P :: "'a dfa \<Rightarrow> bool" and A :: "'a set"
  assumes keeps_new_state: "P d \<Longrightarrow> new_state d = Inr (s, d') \<Longrightarrow> P d'"
    and keeps_insert: "P d \<Longrightarrow> i \<le> ANY_INPUT \<Longrightarrow> insert_edge d s i t None = Inr d' \<Longrightarrow> P d'"
    and keeps_add: "P d \<Longrightarrow> a \<in> A \<Longrightarrow> add_action d s i a = Inr d' \<Longrightarrow> P d'"
begin

text \<open>The invariant of a builder: the prefixes it has still to build read such inputs, too.\<close>

definition PB :: "'a builder \<Rightarrow> bool" where
  "PB b \<longleftrightarrow> P (bdfa b) \<and> (\<forall>p \<in> set (optional_prefixes b). \<forall>i \<in> set (prefix_inputs p). i \<le> ANY_INPUT)"

lemma PB_fields [simp]:
  "PB (b\<lparr>last_edges := x\<rparr>) = PB b" "PB (b\<lparr>bstate := y\<rparr>) = PB b" "PB (b\<lparr>optional_states := z\<rparr>) = PB b"
  by (simp_all add: PB_def)

lemma byte_le [simp]: "input_of c \<le> ANY_INPUT"
  using input_of_le [of c] by (simp add: ANY_INPUT_def word_le_nat_alt)

lemma other_case_le: "other_case i = Some j \<Longrightarrow> j \<le> ANY_INPUT"
  using other_case_Some(2) [of i j] by (simp add: ANY_INPUT_def word_le_nat_alt)

lemma keeps_next_state: "P d \<Longrightarrow> next_state d s i = Inr (t, d') \<Longrightarrow> P d'"
  unfolding next_state_def by (auto intro: keeps_new_state split: option.splits)

lemma keeps_push_edge_from:
  "push_edge_from s i to cs b = Inr (t, b') \<Longrightarrow> PB b \<Longrightarrow> i \<le> ANY_INPUT \<Longrightarrow> PB b'"
  by (auto simp: push_edge_from_def Let_def bind_res_eq_Inr PB_def split: option.splits if_splits)
    (meson keeps_next_state keeps_insert other_case_le)+

lemma keeps_push_prefix_inputs:
  "push_prefix_inputs p source s is b = Inr (t, b') \<Longrightarrow> PB b \<Longrightarrow> \<forall>i \<in> set is. i \<le> ANY_INPUT \<Longrightarrow> PB b'"
  by (induction "is" arbitrary: s b)
    (auto simp: Let_def bind_res_eq_Inr split: if_splits dest!: keeps_push_edge_from)

lemma keeps_fold:
  assumes "fold_res f xs b = Inr b'" and "PB b"
    and "\<And>x b b'. x \<in> set xs \<Longrightarrow> f x b = Inr b' \<Longrightarrow> PB b \<Longrightarrow> PB b'"
  shows "PB b'"
  using assms
proof (induction xs arbitrary: b)
  case (Cons x xs)
  then obtain b1 where fb: "f x b = Inr b1" and r: "fold_res f xs b1 = Inr b'"
    by (auto simp: bind_res_eq_Inr)
  have "PB b1" by (rule Cons.prems(3) [OF list.set_intros(1) fb Cons.prems(2)])
  with r show ?case using Cons.prems(3) by (rule Cons.IH) (rule list.set_intros(2))
qed simp

lemma keeps_push_optional_prefixes:
  assumes "push_optional_prefixes b = Inr b'" and "PB b"
  shows "PB b'"
proof (rule keeps_fold [OF assms(1) [unfolded push_optional_prefixes_def]])
  show "PB (b\<lparr>optional_prefixes := []\<rparr>)" using assms(2) by (simp add: PB_def)
  fix p b1 b2 assume p: "p \<in> set (optional_prefixes b)" and f: "push_prefix p b1 = Inr b2" "PB b1"
  have i: "\<forall>i \<in> set (prefix_inputs p). i \<le> ANY_INPUT" using p assms(2) by (auto simp: PB_def)
  show "PB b2"
    by (rule keeps_fold [OF f(1) [unfolded push_prefix_def] f(2)])
      (auto simp: push_prefix_from_def bind_res_eq_Inr i dest!: keeps_push_prefix_inputs)
qed

lemma keeps_push_edge: "push_edge i to cs b = Inr b' \<Longrightarrow> PB b \<Longrightarrow> i \<le> ANY_INPUT \<Longrightarrow> PB b'"
  by (auto simp: push_edge_def push_skipped_def bind_res_eq_Inr
      dest!: keeps_push_optional_prefixes keeps_push_edge_from elim!: keeps_fold)

lemma keeps_push_inner: "push_inner bs cs b = Inr b' \<Longrightarrow> PB b \<Longrightarrow> PB b'"
  unfolding push_inner_def by (erule keeps_fold) (auto dest: keeps_push_edge)

lemma keeps_push_into: "push_into final cs bs b = Inr b' \<Longrightarrow> PB b \<Longrightarrow> PB b'"
  by (induction bs arbitrary: b) (auto simp: bind_res_eq_Inr dest: keeps_push_edge)

lemma keeps_with_action:
  assumes "with_action a b = Inr b'" and "PB b" and "a \<in> A"
  shows "PB b'"
proof -
  from assms(1) obtain b1 where b1: "push_optional_prefixes b = Inr b1"
    and f: "fold_res (add_last_action a) (last_edges b1) b1 = Inr b'"
    by (auto simp: with_action_def bind_res_eq_Inr)
  show ?thesis
    by (rule keeps_fold [OF f keeps_push_optional_prefixes [OF b1 assms(2)]])
      (use assms(3) in \<open>auto simp: add_last_action_def PB_def bind_res_eq_Inr
         split: option.splits if_splits\<close>, (meson keeps_add)+)
qed

lemma keeps_push_any:
  assumes "push_any lo hi b = Inr b'" and "PB b"
  shows "PB b'"
proof -
  define k where "k = range_max (range_min lo) hi - range_min lo"
  from assms(1) obtain b1 where
    b1: "fold_res (\<lambda>_. push_edge ANY_INPUT None True) [0..<range_min lo] b = Inr b1" and
    rest: "(let b2 = b1\<lparr>optional_prefixes := optional_prefixes b1 @ replicate k any_prefix\<rparr>
        in if hi = Unbounded then
             bind_res (push_edge_from (bstate b2) ANY_INPUT (Some (bstate b2)) True b2) (\<lambda>(_, b3).
               Inr (b3\<lparr>last_edges := last_edges b3 @ [(bstate b3, ANY_INPUT, True)]\<rparr>))
           else Inr b2) = Inr b'"
    by (auto simp: push_any_def Let_def bind_res_eq_Inr k_def split: if_splits)
  have "PB b1" by (rule keeps_fold [OF b1 assms(2)]) (auto dest: keeps_push_edge)
  then have "PB (b1\<lparr>optional_prefixes := optional_prefixes b1 @ replicate k any_prefix\<rparr>)"
    by (auto simp: PB_def any_prefix_def)
  with rest show ?thesis
    by (auto simp: Let_def bind_res_eq_Inr split: if_splits dest!: keeps_push_edge_from)
qed

lemma keeps_push_option:
  assumes "fold_res (push_option start final cs) ins (acc, b) = Inr (acc', b')" and "PB b"
  shows "PB b'"
  using assms
  by (induction ins arbitrary: acc b)
    (auto simp: bind_res_eq_Inr push_option_def split: if_splits dest!: keeps_push_into)

lemma keeps_push_options: "push_options_inner inputs cs b = Inr b' \<Longrightarrow> PB b \<Longrightarrow> PB b'"
  by (auto simp: push_options_inner_def Let_def bind_res_eq_Inr split: list.splits
      dest!: keeps_push_inner keeps_push_option)

lemma keeps_restart_with:
  assumes "restart_with bs b = Inr b'" and "PB b"
  shows "PB b'"
proof -
  have f: "fold_res restart_step bs (s, b) = Inr (t, b1) \<Longrightarrow> PB b \<Longrightarrow> PB b1" for s t b b1 bs
  proof (induction bs arbitrary: s b)
    case (Cons c bs)
    from Cons.prems(1) obtain t2 d t3 b3 where
      nx: "next_state (bdfa b) s (input_of c) = Inr (t2, d)" and
      pf: "push_edge_from s (input_of c) (Some t2) False (b\<lparr>bdfa := d\<rparr>) = Inr (t3, b3)" and
      r: "fold_res restart_step bs (t2, b3) = Inr (t, b1)"
      unfolding fold_res.simps restart_step_def split_def
      by (auto simp: bind_res_eq_Inr split_def)
    have "PB (b\<lparr>bdfa := d\<rparr>)" using keeps_next_state [OF _ nx] Cons.prems(2) by (simp add: PB_def)
    from keeps_push_edge_from [OF pf this byte_le] show ?case by (rule Cons.IH [OF r])
  qed simp
  from assms show ?thesis
    by (auto simp: restart_with_def bind_res_eq_Inr dest!: f keeps_push_into)
qed

lemma keeps_run_call: "run_call c b = Inr b' \<Longrightarrow> PB b \<Longrightarrow> call_actions c \<subseteq> A \<Longrightarrow> PB b'"
proof (cases c)
  case (Push_optional bs rep)
  moreover assume "run_call c b = Inr b'" and "PB b"
  ultimately show ?thesis by (auto simp: push_optional_def PB_def)
qed (auto simp: push_def push_ci_def push_options_ci_def
       dest: keeps_push_inner keeps_push_any keeps_push_options keeps_restart_with keeps_with_action)

lemma keeps_chain:
  assumes "run_chain cs (start_pattern d s) = Inr b" and "P d" and "\<And>c. c \<in> set cs \<Longrightarrow> call_actions c \<subseteq> A"
  shows "P (bdfa b)" and "optional_prefixes b = [] \<or> PB b"
proof -
  have "PB b"
    by (rule keeps_fold [OF assms(1)])
      (use assms(2,3) keeps_run_call in \<open>auto simp: PB_def start_pattern_def\<close>)
  then show "P (bdfa b)" and "optional_prefixes b = [] \<or> PB b" by (simp_all add: PB_def)
qed

lemma keeps_chain_on:
  assumes "run_chain cs b = Inr b'" and "PB b" and "\<And>c. c \<in> set cs \<Longrightarrow> call_actions c \<subseteq> A"
  shows "PB b'"
  by (rule keeps_fold [OF assms(1,2)]) (use assms(3) keeps_run_call in blast)

lemma PB_start: "PB (start_pattern d s) = P d"
  by (simp add: PB_def start_pattern_def)

lemma PB_dfa: "PB b \<Longrightarrow> P (bdfa b)"
  by (simp add: PB_def)

end

text \<open>The labels of a DFA: every edge reads a byte or any input, and runs an action of \<open>A\<close>, if any.\<close>

definition labelled :: "'a set \<Rightarrow> 'a dfa \<Rightarrow> bool" where
  "labelled A d \<longleftrightarrow> (\<forall>s i e. dfa_edge d s i = Some e \<longrightarrow> i \<le> ANY_INPUT \<and> edge_action e \<in> insert None (Some ` A))"

lemma labelled_mono: "labelled A d \<Longrightarrow> A \<subseteq> B \<Longrightarrow> labelled B d"
  unfolding labelled_def by blast

lemma labelled_new: "labelled A dfa_new"
  by (simp add: labelled_def dfa_new_def)

interpretation labels: dfa_invariant "labelled A" A for A
proof unfold_locales
  show "labelled A d'" if "labelled A d" "new_state d = Inr (s, d')" for d d' :: "'a dfa" and s
    using that by (simp add: labelled_def res_simps)
  show "labelled A d'" if "labelled A d" "i \<le> ANY_INPUT" "insert_edge d s i t None = Inr d'"
    for d d' :: "'a dfa" and i s t
    unfolding labelled_def insert_edge_Inr(1) [OF that(3)]
    using that(1,2) by (auto simp: labelled_def merged_action_def split: option.splits) (metis option.distinct(1))+
  show "labelled A d'" if "labelled A d" "a \<in> A" "add_action d s i a = Inr d'"
    for d d' :: "'a dfa" and i s a
    using that(3) that(1,2) by (elim add_action_Inr) (auto simp: labelled_def split: if_splits)
qed

subsection \<open>The properties of the DFA\<close>

text \<open>
  C30: \<open>insert_edge\<close> panics exactly if the edge it is to insert
  contradicts the one in place: because that one leads elsewhere, which the panic names, or
  because it runs another action. Otherwise the edge is there with the target and the action
  asked for, no other edge has changed, the number of states has not, no edge or action the
  DFA had is lost, and the DFA stays well formed.
\<close>

theorem insert_edge_is_consistent:
  "case insert_edge d s i t a of
     Inl p \<Rightarrow> (\<exists>e. dfa_edge d s i = Some e \<and>
        (edge_to e \<noteq> t \<and> p = TransitionConflict s (edge_to e) t \<or>
         edge_to e = t \<and> (\<exists>new old. a = Some new \<and> edge_action e = Some old \<and> new \<noteq> old \<and>
           p = ActionConflict new old)))
   | Inr d' \<Rightarrow> extends d d' \<and> num_states d' = num_states d \<and>
        (\<exists>e. dfa_edge d' s i = Some e \<and> edge_to e = t \<and> (a = None \<or> edge_action e = a)) \<and>
        (\<forall>s' i'. s' = s \<and> i' = i \<or> dfa_edge d' s' i' = dfa_edge d s' i') \<and>
        (wf_dfa d \<and> s < num_states d \<and> t < num_states d \<longrightarrow> wf_dfa d')"
proof (cases "insert_edge d s i t a")
  case (Inl p)
  then show ?thesis
    by (auto simp: insert_edge_def simp flip: dfa_edge_row split: option.splits if_splits)
next
  case (Inr d')
  note ie = insert_edge_Inr [OF Inr]
  have "a = None \<or> merged_action (dfa_edge d s i) a = a"
    using ie(4) by (cases a) (auto simp: merged_action_def split: option.split)
  then show ?thesis
    using ie(1,2) extends_insert_edge [OF Inr] wf_insert_edge [OF Inr] by (auto simp: Inr)
qed

theorem insert_edge_is_consistent_witness:
  "case insert_edge (with_reserved_states 4 :: u8 dfa) 2 7 3 (Some 5) of
     Inl p \<Rightarrow> False
   | Inr d' \<Rightarrow> wf_dfa d' \<and> (\<exists>e. dfa_edge d' 2 7 = Some e \<and> edge_to e = 3 \<and> edge_action e = Some 5)"
  using insert_edge_is_consistent [of "with_reserved_states 4 :: u8 dfa" 2 7 3 "Some 5"]
    wf_reserved [of 4]
  by (auto split: sum.splits)

text \<open>
  \<open>iter_transitions\<close> yields each edge of the DFA,
  with its target and action, once, and nothing else: no two of the transitions it yields
  leave the same state for the same input.
\<close>

theorem iter_transitions_lists_every_edge_once:
  assumes "wf_dfa d"
  shows "distinct (map (\<lambda>(s, i, _). (s, i)) (iter_transitions d)) \<and>
    set (iter_transitions d) =
      {(s, i, edge_to e, edge_action e) | s i e. dfa_edge d s i = Some e}"
proof
  have dk: "distinct_keys d" using assms by (rule wf_dfaD)
  show "set (iter_transitions d) = {(s, i, edge_to e, edge_action e) | s i e. dfa_edge d s i = Some e}"
    using in_iter_transitions [OF dk] by auto
  have eq: "map (\<lambda>(s, i, _). (s, i)) (iter_transitions d) =
      concat (map (\<lambda>(s, es). map (Pair s) (map fst es)) (edges d))"
    by (simp add: iter_transitions_def map_concat comp_def case_prod_unfold)
  have "distinct (concat (map (\<lambda>(s, es). map (Pair s) (map fst es)) E))"
    if "distinct (map fst E)" "\<forall>es \<in> snd ` set E. distinct (map fst es)"
    for E :: "'a edge_map"
    using that
    by (induction E) (force simp: distinct_map inj_on_def comp_def case_prod_unfold)+
  then show "distinct (map (\<lambda>(s, i, _). (s, i)) (iter_transitions d))"
    using dk by (simp add: eq distinct_keys_def)
qed

theorem iter_transitions_lists_every_edge_once_witness:
  "set (iter_transitions (with_reserved_states 4 :: u8 dfa)) = {}"
  using iter_transitions_lists_every_edge_once [OF wf_reserved, of 4, where 'a = u8] by auto

text \<open>
  C27: whatever chain of calls a pattern is built with, from any
  state a well-formed DFA has, the DFA that results is well formed and still has every edge,
  to the same state and with the same action, that the patterns before it had built. A chain
  panics only if the DFA is out of state ids, if an edge or an action contradicts one that is
  there, or if a call has an argument it refuses: a range without a byte, which panics as an empty
  range, or an empty option beside others, which panics as an empty option. It never panics because
  \<open>with\<close> looks for a state or an edge the DFA does not have, or in any other way.
\<close>

theorem pattern_chains_only_grow:
  assumes "wf_dfa d" and "s < num_states d"
  shows "case run_chain calls (start_pattern d s) of
      Inl p \<Rightarrow> clash p \<or> (\<exists>c \<in> set calls. refuses c p)
    | Inr b \<Rightarrow> wf_dfa (bdfa b) \<and> extends d (bdfa b) \<and> bstate b < num_states (bdfa b)"
  using pattern_grows [OF _ assms] pattern_panic [OF _ assms] by (auto split: sum.split)

theorem pattern_chains_only_grow_witness:
  "\<exists>b. run_chain [Push [0x0A], Push_optional [0x0D] False, Push_ci [0x61], With True]
         (start_pattern dfa_new ANY_STATE) = Inr b \<and> wf_dfa (bdfa b)"
proof -
  have "ANY_STATE < num_states (dfa_new :: bool dfa)"
    by (simp add: dfa_new_def ANY_STATE_def)
  note p = pattern_chains_only_grow [OF wf_new this,
      of "[Push [0x0A], Push_optional [0x0D] False, Push_ci [0x61], With True]"]
  have "\<not> isl (run_chain [Push [0x0A], Push_optional [0x0D] False, Push_ci [0x61], With True]
         (start_pattern (dfa_new :: bool dfa) ANY_STATE))"
    by code_simp
  with p show ?thesis by (auto simp: isl_def split: sum.splits)
qed

text \<open>
  C26: in a DFA whose patterns form tries below the states
  \<open>roots\<close>, a case sensitive pattern anchored at one of them with an action at its end adds
  that action to the word it spells and changes no other word, below no other root: after
  it, the action the last byte of a word runs is the new one for exactly this word, and for
  every other word what it was. The tries stay tries.
\<close>

theorem pattern_adds_exactly_its_word:
  assumes "wf_dfa d" and "name_trie R roots d" and "r \<in> roots" and "bs \<noteq> []"
    and "run_chain [Push bs, With a] (start_pattern d r) = Inr b"
  shows "name_trie R roots (bdfa b) \<and> wf_dfa (bdfa b) \<and>
    (\<forall>r' \<in> roots. \<forall>w. last_action (bdfa b) r' w =
       (if r' = r \<and> w = map input_of bs then Some a else last_action d r' w))"
proof -
  from assms(5) obtain b1 where "push_inner bs True (start_pattern d r) = Inr b1"
    and "with_action a b1 = Inr b"
    by (auto simp: push_def bind_res_eq_Inr)
  from trie_law [OF this assms(1-4)] show ?thesis by blast
qed

theorem pattern_adds_exactly_its_word_witness:
  "\<exists>b. run_chain [Push [0x61, 0x62], With True] (start_pattern (with_reserved_states 4) 3) = Inr b \<and>
     last_action (bdfa b) 3 [0x61, 0x62] = Some True \<and> last_action (bdfa b) 2 [0x61, 0x62] = None"
proof -
  have nt: "name_trie 4 {2, 3} (with_reserved_states 4 :: bool dfa)"
    by (simp add: name_trie_def)
  have "\<not> isl (run_chain [Push [0x61, 0x62], With True]
      (start_pattern (with_reserved_states 4 :: bool dfa) 3))"
    by code_simp
  then obtain b where b: "run_chain [Push [0x61, 0x62], With True]
      (start_pattern (with_reserved_states 4 :: bool dfa) 3) = Inr b"
    by (metis isl_def sum.exhaust)
  have "last_action (bdfa b) r' w =
      (if r' = 3 \<and> w = map input_of [0x61, 0x62] then Some True
       else last_action (with_reserved_states 4) r' w)" if "r' \<in> {2, 3}" for r' w
    using pattern_adds_exactly_its_word [OF wf_reserved nt _ _ b] that by auto
  from this [of 3 "[0x61, 0x62]"] this [of 2 "[0x61, 0x62]"]
  have "last_action (bdfa b) 3 [0x61, 0x62] = Some True"
    and "last_action (bdfa b) 2 [0x61, 0x62] = last_action (with_reserved_states 4 :: bool dfa) 2 [0x61, 0x62]"
    by (simp_all add: input_of_def)
  moreover have "last_action (with_reserved_states 4 :: bool dfa) 2 [0x61, 0x62] = None"
    by (simp add: last_action_def)
  ultimately show ?thesis using b by metis
qed

end
