(* ===== verification/Http2_Action.thy ===== *)
theory Http2_Action
  imports Dfa_Builder
begin

section \<open>The actions of the HTTP/2 parser (\<open>beeper/src/http2/action.rs\<close>)\<close>

text \<open>
  The reserved states of the HPACK automaton, the flags and the kinds of an action, and
  the conversion of an action into the one the eBPF program runs.
\<close>

definition S_DEAD :: state_id where "S_DEAD = 2"
definition S_FIELD :: state_id where "S_FIELD = 3"
definition S_KEY_LEN :: state_id where "S_KEY_LEN = 4"
definition S_VAL_LEN :: state_id where "S_VAL_LEN = 5"
definition S_NAME :: state_id where "S_NAME = 6"
definition S_IDX7_CONT :: state_id where "S_IDX7_CONT = 7"
definition S_IDX6_CONT :: state_id where "S_IDX6_CONT = 8"
definition S_IDX4_CONT :: state_id where "S_IDX4_CONT = 9"
definition S_STG_CONT :: state_id where "S_STG_CONT = 10"
definition S_KEY_LEN_CONT :: state_id where "S_KEY_LEN_CONT = 11"
definition S_KEY_LEN_CONT_HUFF :: state_id where "S_KEY_LEN_CONT_HUFF = 12"
definition S_VAL_LEN_CONT :: state_id where "S_VAL_LEN_CONT = 13"
definition S_VAL_LEN_CONT_HUFF :: state_id where "S_VAL_LEN_CONT_HUFF = 14"
definition S_NAME_PLAIN :: state_id where "S_NAME_PLAIN = 15"
definition S_RESERVED :: u16 where "S_RESERVED = 16"

lemmas state_defs = S_DEAD_def S_FIELD_def S_KEY_LEN_def S_VAL_LEN_def S_NAME_def
  S_IDX7_CONT_def S_IDX6_CONT_def S_IDX4_CONT_def S_STG_CONT_def S_KEY_LEN_CONT_def
  S_KEY_LEN_CONT_HUFF_def S_VAL_LEN_CONT_def S_VAL_LEN_CONT_HUFF_def S_NAME_PLAIN_def
  S_RESERVED_def

definition F_HUFF :: u8 where "F_HUFF = push_bit 0 1"
definition F_ADD_DT :: u8 where "F_ADD_DT = push_bit 1 1"
definition F_CONT :: u8 where "F_CONT = push_bit 2 1"

lemma flag_values: "F_HUFF = 1" "F_ADD_DT = 2" "F_CONT = 4"
  by (simp_all add: F_HUFF_def F_ADD_DT_def F_CONT_def push_bit_eq_mult)

datatype kind =
  Indexed | IdxName | LitName | KeyLen | ValLen | TableSize | IntStart | IntCont | Capture | Err

fun kind_u8 :: "kind \<Rightarrow> u8" where
  "kind_u8 Indexed = 1"
| "kind_u8 IdxName = 2"
| "kind_u8 LitName = 3"
| "kind_u8 KeyLen = 4"
| "kind_u8 ValLen = 5"
| "kind_u8 TableSize = 6"
| "kind_u8 IntStart = 7"
| "kind_u8 IntCont = 8"
| "kind_u8 Capture = 9"
| "kind_u8 Err = 10"

datatype h2_action = Action2 (act_kind: kind) (act_val: u16) (act_flags: u8)

definition action_new :: "kind \<Rightarrow> u16 \<Rightarrow> u8 \<Rightarrow> h2_action" where
  "action_new kind val flags = Action2 kind val flags"

definition action_capture :: "match_id \<Rightarrow> h2_action" where
  "action_capture mid = action_new Capture (ucast (match_idx mid)) 0"

text \<open>\<open>struct http2_action\<close> of the eBPF program, and \<open>impl From<Action>\<close> for it.\<close>

record http2_action =
  h2a_val :: u16
  h2a_kind :: u8
  h2a_flags :: u8

definition http2_action_from :: "h2_action \<Rightarrow> http2_action" where
  "http2_action_from value =
     \<lparr>h2a_val = act_val value, h2a_kind = kind_u8 (act_kind value), h2a_flags = act_flags value\<rparr>"

lemma kind_u8_inj [simp]: "kind_u8 k = kind_u8 k' \<longleftrightarrow> k = k'"
  by (cases k; cases k') simp_all

lemma kind_u8_nonzero [simp]: "kind_u8 k \<noteq> 0"
  by (cases k) simp_all

text \<open>No two actions look the same to the eBPF program, and none looks like the no-op.\<close>

lemma http2_action_from_inj: "http2_action_from a = http2_action_from b \<longleftrightarrow> a = b"
  by (cases a; cases b) (auto simp: http2_action_from_def)

lemma ucast_u8_u16_inj: "(ucast (a :: u8) :: u16) = ucast b \<longleftrightarrow> a = b"
  using input_of_inj [of a b] by (simp add: input_of_def)

lemma action_capture_inj [simp]: "action_capture a = action_capture b \<longleftrightarrow> a = b"
  by (cases a; cases b) (simp add: action_capture_def action_new_def ucast_u8_u16_inj)

end
