(* ===== verification/Hpack.thy ===== *)
theory Hpack
  imports Trie_Walk Http2_Action
begin

section \<open>The HPACK automaton (\<open>beeper/src/http2/hpack.rs\<close>)\<close>

text \<open>
  The three functions that insert the edges of the field representations of RFC 7541,
  loop by loop, and what the automaton they build does with every byte in every state.
\<close>

subsection \<open>Building the automaton\<close>

definition u16_range :: "nat \<Rightarrow> nat \<Rightarrow> u16 list" where
  "u16_range a b = map word_of_nat [a..<b]"

definition field_edge :: "u8 \<Rightarrow> state_id \<Rightarrow> h2_action \<Rightarrow> h2_action dfa \<Rightarrow> h2_action panic + h2_action dfa" where
  "field_edge input to action d = insert_edge d S_FIELD (input_of input) to (Some action)"

definition insert_field_row :: "h2_action dfa \<Rightarrow> h2_action panic + h2_action dfa" where
  "insert_field_row d =
     bind_res (field_edge 0x80 S_DEAD (action_new Err 0 0) d) (\<lambda>d.
     bind_res (fold_res (\<lambda>idx. field_edge (0x80 OR ucast idx) S_FIELD (action_new Indexed idx 0))
       (u16_range 1 0x7F) d) (\<lambda>d.
     bind_res (field_edge 0xFF S_IDX7_CONT (action_new IntStart 0x7F 0) d) (\<lambda>d.
     bind_res (field_edge 0x40 S_KEY_LEN (action_new LitName 0 F_ADD_DT) d) (\<lambda>d.
     bind_res (fold_res (\<lambda>idx. field_edge (0x40 OR ucast idx) S_VAL_LEN (action_new IdxName idx F_ADD_DT))
       (u16_range 1 0x3F) d) (\<lambda>d.
     bind_res (field_edge 0x7F S_IDX6_CONT (action_new IntStart 0x3F 0) d) (\<lambda>d.
     bind_res (fold_res (\<lambda>size. field_edge (0x20 OR ucast size) S_FIELD (action_new TableSize size 0))
       (u16_range 0 0x1F) d) (\<lambda>d.
     bind_res (field_edge 0x3F S_STG_CONT (action_new IntStart 0x1F 0) d) (\<lambda>d.
     fold_res (\<lambda>base d.
       bind_res (field_edge base S_KEY_LEN (action_new LitName 0 0) d) (\<lambda>d.
       bind_res (fold_res (\<lambda>idx. field_edge (base OR ucast idx) S_VAL_LEN (action_new IdxName idx 0))
         (u16_range 1 0x0F) d) (\<lambda>d.
       field_edge (base OR 0x0F) S_IDX4_CONT (action_new IntStart 0x0F 0) d))) [0x00, 0x10] d))))))))"

text \<open>\<open>from\<close>, the kind, the states a plain and a Huffman coded length lead to, and their continuations.\<close>

definition length_rows :: "(state_id \<times> kind \<times> (state_id \<times> state_id) \<times> state_id \<times> state_id) list" where
  "length_rows =
     [(S_KEY_LEN, KeyLen, (S_NAME_PLAIN, S_NAME), S_KEY_LEN_CONT, S_KEY_LEN_CONT_HUFF),
      (S_VAL_LEN, ValLen, (S_FIELD, S_FIELD), S_VAL_LEN_CONT, S_VAL_LEN_CONT_HUFF)]"

definition insert_length_rows :: "h2_action dfa \<Rightarrow> h2_action panic + h2_action dfa" where
  "insert_length_rows d =
     fold_res (\<lambda>(from, kind, (to_plain, to_huff), cont, cont_huff) d.
       fold_res (\<lambda>(base :: u8, flags, to, cont) d.
         bind_res (fold_res (\<lambda>len d.
             insert_edge d from (input_of (base OR ucast len)) to (Some (action_new kind len flags)))
           (u16_range 0 0x7F) d) (\<lambda>d.
         insert_edge d from (input_of (base OR 0x7F)) cont (Some (action_new IntStart 0x7F 0))))
       [(0x00, 0, to_plain, cont), (0x80, F_HUFF, to_huff, cont_huff)] d) length_rows d"

definition continuation_rows :: "(state_id \<times> kind \<times> state_id \<times> u8) list" where
  "continuation_rows =
     [(S_IDX7_CONT, Indexed, S_FIELD, 0),
      (S_IDX6_CONT, IdxName, S_VAL_LEN, F_ADD_DT),
      (S_IDX4_CONT, IdxName, S_VAL_LEN, 0),
      (S_STG_CONT, TableSize, S_FIELD, 0),
      (S_KEY_LEN_CONT, KeyLen, S_NAME_PLAIN, 0),
      (S_KEY_LEN_CONT_HUFF, KeyLen, S_NAME, F_HUFF),
      (S_VAL_LEN_CONT, ValLen, S_FIELD, 0),
      (S_VAL_LEN_CONT_HUFF, ValLen, S_FIELD, F_HUFF)]"

definition insert_continuation_rows :: "h2_action dfa \<Rightarrow> h2_action panic + h2_action dfa" where
  "insert_continuation_rows d =
     fold_res (\<lambda>(from, kind, to, flags) d.
       fold_res (\<lambda>input d.
         bind_res (insert_edge d from (input_of input) to (Some (action_new kind 0 (flags OR F_CONT)))) (\<lambda>d.
         insert_edge d from (input_of (0x80 OR input)) from (Some (action_new IntCont 0 0))))
       (map word_of_nat [0..<0x80]) d) continuation_rows d"

definition hpack_dfa :: "h2_action panic + h2_action dfa" where
  "hpack_dfa =
     bind_res (insert_field_row (with_reserved_states S_RESERVED)) (\<lambda>d.
     bind_res (insert_length_rows d) insert_continuation_rows)"

subsection \<open>The rows as lists\<close>

text \<open>The same loops, as the list of the transitions they insert, one list per state.\<close>

definition insert_transition ::
  "state_id \<times> input \<times> state_id \<times> h2_action \<Rightarrow> h2_action dfa \<Rightarrow> h2_action panic + h2_action dfa" where
  "insert_transition = (\<lambda>(from, input, to, action) d. insert_edge d from input to (Some action))"

type_synonym row = "(input \<times> state_id \<times> h2_action) list"

definition field_row :: row where
  "field_row =
     (input_of 0x80, S_DEAD, action_new Err 0 0) #
     map (\<lambda>idx. (input_of (0x80 OR ucast idx), S_FIELD, action_new Indexed idx 0)) (u16_range 1 0x7F) @
     (input_of 0xFF, S_IDX7_CONT, action_new IntStart 0x7F 0) #
     (input_of 0x40, S_KEY_LEN, action_new LitName 0 F_ADD_DT) #
     map (\<lambda>idx. (input_of (0x40 OR ucast idx), S_VAL_LEN, action_new IdxName idx F_ADD_DT)) (u16_range 1 0x3F) @
     (input_of 0x7F, S_IDX6_CONT, action_new IntStart 0x3F 0) #
     map (\<lambda>size. (input_of (0x20 OR ucast size), S_FIELD, action_new TableSize size 0)) (u16_range 0 0x1F) @
     (input_of 0x3F, S_STG_CONT, action_new IntStart 0x1F 0) #
     concat (map (\<lambda>base. (input_of base, S_KEY_LEN, action_new LitName 0 0) #
       map (\<lambda>idx. (input_of (base OR ucast idx), S_VAL_LEN, action_new IdxName idx 0)) (u16_range 1 0x0F) @
       [(input_of (base OR 0x0F), S_IDX4_CONT, action_new IntStart 0x0F 0)]) [0x00, 0x10])"

definition length_row :: "kind \<Rightarrow> (u8 \<times> u8 \<times> state_id \<times> state_id) list \<Rightarrow> row" where
  "length_row kind bases = concat (map (\<lambda>(base, flags, to, cont).
     map (\<lambda>len. (input_of (base OR ucast len), to, action_new kind len flags)) (u16_range 0 0x7F) @
     [(input_of (base OR 0x7F), cont, action_new IntStart 0x7F 0)]) bases)"

definition continuation_row :: "state_id \<Rightarrow> kind \<Rightarrow> state_id \<Rightarrow> u8 \<Rightarrow> row" where
  "continuation_row from kind to flags = concat (map (\<lambda>input.
     [(input_of input, to, action_new kind 0 (flags OR F_CONT)),
      (input_of (0x80 OR input), from, action_new IntCont 0 0)]) (map word_of_nat [0..<0x80]))"

definition hpack_rows :: "(state_id \<times> row) list" where
  "hpack_rows =
     (S_FIELD, field_row) #
     map (\<lambda>(from, kind, (to_plain, to_huff), cont, cont_huff).
       (from, length_row kind [(0x00, 0, to_plain, cont), (0x80, F_HUFF, to_huff, cont_huff)])) length_rows @
     map (\<lambda>(from, kind, to, flags). (from, continuation_row from kind to flags)) continuation_rows"

definition row_transitions :: "state_id \<Rightarrow> row \<Rightarrow> (state_id \<times> input \<times> state_id \<times> h2_action) list" where
  "row_transitions s row = map (\<lambda>(i, t, a). (s, i, t, a)) row"

lemmas fold_res_lists = fold_res_fun fold_res_map fold_res_concat bind_res_assoc map_concat comp_def

lemma insert_field_row_list:
  "insert_field_row = fold_res insert_transition (row_transitions S_FIELD field_row)"
  by (simp add: fun_eq_iff insert_field_row_def row_transitions_def field_row_def fold_res_lists
      insert_transition_def field_edge_def [abs_def])

lemma insert_length_rows_list:
  "insert_length_rows = fold_res (\<lambda>(s, row). fold_res insert_transition (row_transitions s row))
     (map (\<lambda>(from, kind, (to_plain, to_huff), cont, cont_huff).
       (from, length_row kind [(0x00, 0, to_plain, cont), (0x80, F_HUFF, to_huff, cont_huff)])) length_rows)"
  by (simp add: fun_eq_iff insert_length_rows_def length_rows_def row_transitions_def length_row_def fold_res_lists
      insert_transition_def)

lemma insert_continuation_rows_list:
  "insert_continuation_rows = fold_res (\<lambda>(s, row). fold_res insert_transition (row_transitions s row))
     (map (\<lambda>(from, kind, to, flags). (from, continuation_row from kind to flags)) continuation_rows)"
  by (simp add: fun_eq_iff insert_continuation_rows_def continuation_rows_def row_transitions_def continuation_row_def
    fold_res_lists insert_transition_def)

subsection \<open>What every byte means (RFC 7541)\<close>

text \<open>
  The first byte of a representation, read as section 6 of the RFC does: the position of
  its highest bit selects the representation, the bits below it are the prefix of an
  integer, and a prefix of ones only announces continuation bytes.
\<close>

definition first_byte :: "u8 \<Rightarrow> state_id \<times> h2_action" where
  "first_byte b =
     (if 0x80 \<le> b then
        let idx = b AND 0x7F in
        if idx = 0 then (S_DEAD, Action2 Err 0 0)
        else if idx = 0x7F then (S_IDX7_CONT, Action2 IntStart 0x7F 0)
        else (S_FIELD, Action2 Indexed (ucast idx) 0)
      else if 0x40 \<le> b then
        let idx = b AND 0x3F in
        if idx = 0 then (S_KEY_LEN, Action2 LitName 0 F_ADD_DT)
        else if idx = 0x3F then (S_IDX6_CONT, Action2 IntStart 0x3F 0)
        else (S_VAL_LEN, Action2 IdxName (ucast idx) F_ADD_DT)
      else if 0x20 \<le> b then
        let size = b AND 0x1F in
        if size = 0x1F then (S_STG_CONT, Action2 IntStart 0x1F 0)
        else (S_FIELD, Action2 TableSize (ucast size) 0)
      else
        let idx = b AND 0x0F in
        if idx = 0 then (S_KEY_LEN, Action2 LitName 0 0)
        else if idx = 0x0F then (S_IDX4_CONT, Action2 IntStart 0x0F 0)
        else (S_VAL_LEN, Action2 IdxName (ucast idx) 0))"

text \<open>The length of a string (section 5.2): the Huffman bit, and a prefix of seven bits.\<close>

definition length_byte ::
  "kind \<Rightarrow> (state_id \<times> state_id) \<Rightarrow> state_id \<Rightarrow> state_id \<Rightarrow> u8 \<Rightarrow> state_id \<times> h2_action" where
  "length_byte kind to cont cont_huff b =
     (let len = b AND 0x7F; huff = 0x80 \<le> b in
      if len = 0x7F then (if huff then cont_huff else cont, Action2 IntStart 0x7F 0)
      else (if huff then snd to else fst to, Action2 kind (ucast len) (if huff then F_HUFF else 0)))"

text \<open>A continuation byte (section 5.1): its highest bit announces another one.\<close>

definition continuation_byte :: "state_id \<Rightarrow> kind \<Rightarrow> state_id \<Rightarrow> u8 \<Rightarrow> u8 \<Rightarrow> state_id \<times> h2_action" where
  "continuation_byte from kind to flags b =
     (if 0x80 \<le> b then (from, Action2 IntCont 0 0) else (to, Action2 kind 0 (flags OR F_CONT)))"

definition byte_row :: "(u8 \<Rightarrow> state_id \<times> h2_action) \<Rightarrow> nat list \<Rightarrow> row" where
  "byte_row f ns = map (\<lambda>n. (input_of (word_of_nat n), f (word_of_nat n))) ns"

lemma field_row_bytes:
  "field_row = byte_row first_byte ([128..<256] @ [64..<128] @ [32..<64] @ [0..<32])"
  by code_simp

lemma length_row_bytes:
  "length_row kind [(0x00, 0, to_plain, cont), (0x80, F_HUFF, to_huff, cont_huff)] =
     byte_row (length_byte kind (to_plain, to_huff) cont cont_huff) [0..<256]"
  by code_simp

lemma continuation_row_bytes:
  "continuation_row from kind to flags =
     byte_row (continuation_byte from kind to flags) (concat (map (\<lambda>n. [n, n + 128]) [0..<128]))"
  by code_simp

subsection \<open>What inserting rows does\<close>

definition row_edge :: "row \<Rightarrow> input \<Rightarrow> h2_action edge option" where
  "row_edge row i = map_option (\<lambda>(t, a). \<lparr>edge_to = t, edge_action = Some a\<rparr>) (map_of row i)"

lemma insert_fresh_edge:
  assumes "dfa_edge d s i = None"
  obtains d' where "insert_edge d s i t a = Inr d'" and "num_states d' = num_states d"
    and "\<And>s' i'. dfa_edge d' s' i' =
           (if s' = s \<and> i' = i then Some \<lparr>edge_to = t, edge_action = a\<rparr> else dfa_edge d s' i')"
    and "distinct_keys d \<Longrightarrow> distinct_keys d'"
proof
  show "insert_edge d s i t a = Inr (set_edge d s i \<lparr>edge_to = t, edge_action = a\<rparr>)"
    using assms by (simp add: insert_edge_def dfa_edge_row)
qed (simp_all add: distinct_keys_set_edge)

lemma insert_row:
  assumes "distinct (map fst row)" and "\<And>i. i \<in> fst ` set row \<Longrightarrow> dfa_edge d s i = None"
  shows "\<exists>d'. fold_res insert_transition (row_transitions s row) d = Inr d' \<and>
     num_states d' = num_states d \<and> (distinct_keys d \<longrightarrow> distinct_keys d') \<and>
     (\<forall>s' i. dfa_edge d' s' i =
        (if s' = s \<and> row_edge row i \<noteq> None then row_edge row i else dfa_edge d s' i))"
  using assms
proof (induction row arbitrary: d)
  case Nil
  then show ?case by (simp add: row_transitions_def row_edge_def)
next
  case (Cons x row)
  obtain i t a where x: "x = (i, t, a)" by (cases x)
  obtain d1 where d1: "insert_edge d s i t (Some a) = Inr d1" "num_states d1 = num_states d"
    "\<And>s' i'. dfa_edge d1 s' i' =
       (if s' = s \<and> i' = i then Some \<lparr>edge_to = t, edge_action = Some a\<rparr> else dfa_edge d s' i')"
    "distinct_keys d \<Longrightarrow> distinct_keys d1"
    using insert_fresh_edge [of d s i t "Some a"] Cons.prems(2) [of i] x by auto
  have fresh: "dfa_edge d1 s j = None" if "j \<in> fst ` set row" for j
  proof -
    have "j \<noteq> i" using that Cons.prems(1) x by auto
    then show ?thesis using Cons.prems(2) [of j] that by (simp add: d1(3))
  qed
  have "distinct (map fst row)" using Cons.prems(1) by simp
  from Cons.IH [OF this fresh] obtain d2 where
    d2: "fold_res insert_transition (row_transitions s row) d1 = Inr d2" "num_states d2 = num_states d1"
    "distinct_keys d1 \<longrightarrow> distinct_keys d2"
    "\<forall>s' i. dfa_edge d2 s' i =
        (if s' = s \<and> row_edge row i \<noteq> None then row_edge row i else dfa_edge d1 s' i)"
    by blast
  have ni: "row_edge row i = None"
    using Cons.prems(1) by (auto simp: x row_edge_def map_of_eq_None_iff)
  have "fold_res insert_transition (row_transitions s (x # row)) d = Inr d2"
    using d2(1) by (simp add: x row_transitions_def insert_transition_def d1(1))
  moreover have "\<forall>s' j. dfa_edge d2 s' j =
        (if s' = s \<and> row_edge (x # row) j \<noteq> None then row_edge (x # row) j else dfa_edge d s' j)"
    using ni by (auto simp: d2(4) d1(3) x row_edge_def)
  ultimately show ?case using d1(2,4) d2(2,3) by auto
qed

definition insert_rows :: "(state_id \<times> row) list \<Rightarrow> h2_action dfa \<Rightarrow> h2_action panic + h2_action dfa" where
  "insert_rows = fold_res (\<lambda>(s, row). fold_res insert_transition (row_transitions s row))"

lemma insert_rows:
  assumes "distinct (map fst rows)" and "\<forall>(s, row) \<in> set rows. distinct (map fst row)"
    and "\<And>s i. s \<in> fst ` set rows \<Longrightarrow> dfa_edge d s i = None"
  shows "\<exists>d'. insert_rows rows d = Inr d' \<and> num_states d' = num_states d \<and>
     (distinct_keys d \<longrightarrow> distinct_keys d') \<and>
     (\<forall>s i. dfa_edge d' s i =
        (case map_of rows s of None \<Rightarrow> dfa_edge d s i | Some row \<Rightarrow> row_edge row i))"
  using assms
proof (induction rows arbitrary: d)
  case Nil
  then show ?case by (simp add: insert_rows_def)
next
  case (Cons x rows)
  obtain s row where x: "x = (s, row)" by (cases x)
  have row: "distinct (map fst row)" using Cons.prems(2) by (simp add: x)
  have s: "dfa_edge d s i = None" for i using Cons.prems(3) by (simp add: x)
  from insert_row [OF row s] obtain d1 where
    d1: "fold_res insert_transition (row_transitions s row) d = Inr d1" "num_states d1 = num_states d"
    "distinct_keys d \<longrightarrow> distinct_keys d1"
    "\<forall>s' i. dfa_edge d1 s' i =
        (if s' = s \<and> row_edge row i \<noteq> None then row_edge row i else dfa_edge d s' i)" by blast
  have ns: "s \<notin> fst ` set rows" using Cons.prems(1) by (auto simp: x)
  have fresh: "dfa_edge d1 s' i = None" if "s' \<in> fst ` set rows" for s' i
    using that ns Cons.prems(3) [of s' i] by (auto simp: d1(4))
  have "distinct (map fst rows)" and "\<forall>(s, row) \<in> set rows. distinct (map fst row)"
    using Cons.prems(1,2) by simp_all
  from Cons.IH [OF this fresh] obtain d2 where
    d2: "insert_rows rows d1 = Inr d2" "num_states d2 = num_states d1" "distinct_keys d1 \<longrightarrow> distinct_keys d2"
    "\<forall>s i. dfa_edge d2 s i = (case map_of rows s of None \<Rightarrow> dfa_edge d1 s i | Some row \<Rightarrow> row_edge row i)"
    by blast
  have "map_of rows s = None" using ns by (simp add: map_of_eq_None_iff)
  then have "\<forall>s' i. dfa_edge d2 s' i =
      (case map_of (x # rows) s' of None \<Rightarrow> dfa_edge d s' i | Some row \<Rightarrow> row_edge row i)"
    using s by (auto simp: d2(4) d1(4) x split: option.split)
  moreover have "insert_rows (x # rows) d = Inr d2"
    using d1(1) d2(1) by (simp add: insert_rows_def x)
  ultimately show ?case using d1(2,3) d2(2,3) by auto
qed

subsection \<open>The automaton in closed form\<close>

definition all_bytes :: "nat list \<Rightarrow> bool" where
  "all_bytes ns \<longleftrightarrow> distinct ns \<and> set ns = {..<256}"

lemma all_bytes_orders:
  "all_bytes ([128..<256] @ [64..<128] @ [32..<64] @ [0..<32])"
  "all_bytes [0..<256]"
  "all_bytes (concat (map (\<lambda>n. [n, n + 128]) [0..<128]))"
proof -
  show "all_bytes ([128..<256] @ [64..<128] @ [32..<64] @ [0..<32])" and "all_bytes [0..<256]"
    by (auto simp: all_bytes_def simp del: upt_rec_numeral)
  have inj: "distinct (concat (map (\<lambda>n. [n, n + 128]) [0..<k]))" if "k \<le> 128" for k :: nat
    using that by (induction k) auto
  moreover have "n \<in> set (concat (map (\<lambda>n. [n, n + 128]) [0..<128]))" if "n < 256" for n :: nat
  proof (cases "n < 128")
    case False
    then have "n = (n - 128) + 128" and "n - 128 < 128" using that by simp_all
    then show ?thesis by force
  qed auto
  ultimately show "all_bytes (concat (map (\<lambda>n. [n, n + 128]) [0..<128]))"
    by (auto simp: all_bytes_def)
qed

lemma map_of_keyed: "inj_on k (set xs) \<Longrightarrow> x \<in> set xs \<Longrightarrow> map_of (map (\<lambda>x. (k x, v x)) xs) (k x) = Some (v x)"
proof (induction xs)
  case (Cons y xs)
  then show ?case by (cases "k x = k y") (auto simp: inj_on_def)
qed simp

lemma inj_byte: "inj_on (\<lambda>n. input_of (word_of_nat n)) {..<256}"
proof (rule inj_onI)
  fix m n :: nat
  assume "m \<in> {..<256}" "n \<in> {..<256}" "input_of (word_of_nat m) = input_of (word_of_nat n)"
  then have "unat (word_of_nat m :: u8) = unat (word_of_nat n :: u8)" and "m < 256" and "n < 256" by simp_all
  then show "m = n" by (simp add: unsigned_of_nat take_bit_nat_eq_self)
qed

lemma distinct_byte_row: "all_bytes ns \<Longrightarrow> distinct (map fst (byte_row f ns))"
  using inj_byte by (simp add: byte_row_def all_bytes_def distinct_map comp_def)

lemma row_edge_byte_row:
  assumes "all_bytes ns"
  shows "row_edge (byte_row f ns) i =
     (if i \<le> 0xFF then Some \<lparr>edge_to = fst (f (ucast i)), edge_action = Some (snd (f (ucast i)))\<rparr> else None)"
proof (cases "i \<le> 0xFF")
  case True
  define n where "n = unat (ucast i :: u8)"
  have n: "input_of (word_of_nat n) = i" "word_of_nat n = (ucast i :: u8)" "n \<in> set ns"
    using True input_of_ucast [OF True] unsigned_less [of "ucast i :: u8", where ?'a = nat] assms
    by (simp_all add: n_def all_bytes_def)
  have "map_of (byte_row f ns) (input_of (word_of_nat n)) = Some (f (word_of_nat n))"
    unfolding byte_row_def by (rule map_of_keyed) (use inj_byte n(3) assms in \<open>simp_all add: all_bytes_def\<close>)
  then have "map_of (byte_row f ns) i = Some (f (ucast i))" unfolding n(1) by (simp only: n(2))
  with True show ?thesis by (simp add: row_edge_def split_def)
next
  case False
  then have "i \<notin> fst ` set (byte_row f ns)"
    using input_of_le by (auto simp: byte_row_def)
  then have "map_of (byte_row f ns) i = None" by (simp add: map_of_eq_None_iff)
  with False show ?thesis by (simp add: row_edge_def)
qed

text \<open>The function of the bytes of a state, if the state is one of a representation.\<close>

definition hpack_bytes :: "(state_id \<times> (u8 \<Rightarrow> state_id \<times> h2_action)) list" where
  "hpack_bytes =
     [(S_FIELD, first_byte),
      (S_KEY_LEN, length_byte KeyLen (S_NAME_PLAIN, S_NAME) S_KEY_LEN_CONT S_KEY_LEN_CONT_HUFF),
      (S_VAL_LEN, length_byte ValLen (S_FIELD, S_FIELD) S_VAL_LEN_CONT S_VAL_LEN_CONT_HUFF),
      (S_IDX7_CONT, continuation_byte S_IDX7_CONT Indexed S_FIELD 0),
      (S_IDX6_CONT, continuation_byte S_IDX6_CONT IdxName S_VAL_LEN F_ADD_DT),
      (S_IDX4_CONT, continuation_byte S_IDX4_CONT IdxName S_VAL_LEN 0),
      (S_STG_CONT, continuation_byte S_STG_CONT TableSize S_FIELD 0),
      (S_KEY_LEN_CONT, continuation_byte S_KEY_LEN_CONT KeyLen S_NAME_PLAIN 0),
      (S_KEY_LEN_CONT_HUFF, continuation_byte S_KEY_LEN_CONT_HUFF KeyLen S_NAME F_HUFF),
      (S_VAL_LEN_CONT, continuation_byte S_VAL_LEN_CONT ValLen S_FIELD 0),
      (S_VAL_LEN_CONT_HUFF, continuation_byte S_VAL_LEN_CONT_HUFF ValLen S_FIELD F_HUFF)]"

definition hpack_edge :: "state_id \<Rightarrow> input \<Rightarrow> h2_action edge option" where
  "hpack_edge s i =
     (case map_of hpack_bytes s of
        Some f \<Rightarrow> if i \<le> 0xFF then Some \<lparr>edge_to = fst (f (ucast i)), edge_action = Some (snd (f (ucast i)))\<rparr>
                  else None
      | None \<Rightarrow> None)"

lemma hpack_dfa_rows: "hpack_dfa = insert_rows hpack_rows (with_reserved_states S_RESERVED)"
  by (simp add: hpack_dfa_def insert_rows_def hpack_rows_def fold_res_fun insert_field_row_list
      insert_length_rows_list insert_continuation_rows_list bind_res_assoc)

text \<open>Every row lists each byte once, in some order, with what its function says.\<close>

definition row_of :: "state_id \<times> row \<Rightarrow> state_id \<times> (u8 \<Rightarrow> state_id \<times> h2_action) \<Rightarrow> bool" where
  "row_of = (\<lambda>(s, row) (s', f). s' = s \<and> (\<exists>ns. all_bytes ns \<and> row = byte_row f ns))"

lemma row_of_intros:
  "row_of (s, field_row) (s, first_byte)"
  "row_of (s, length_row kind [(0x00, 0, to_plain, cont), (0x80, F_HUFF, to_huff, cont_huff)])
     (s, length_byte kind (to_plain, to_huff) cont cont_huff)"
  "row_of (s, continuation_row from kind to flags) (s, continuation_byte from kind to flags)"
  unfolding row_of_def prod.case
  using field_row_bytes length_row_bytes continuation_row_bytes all_bytes_orders by blast+

lemma hpack_rows_bytes: "list_all2 row_of hpack_rows hpack_bytes"
  unfolding hpack_rows_def hpack_bytes_def length_rows_def continuation_rows_def
    list.map append.simps prod.case list_all2_Cons
  by (intro conjI row_of_intros list.rel_intros)

lemma row_of_map_of:
  "list_all2 row_of rows bytes \<Longrightarrow>
     rel_option (\<lambda>row f. \<exists>ns. all_bytes ns \<and> row = byte_row f ns) (map_of rows s) (map_of bytes s)"
  by (induction rule: list_all2_induct) (auto simp: row_of_def)

lemma row_of_keys: "list_all2 row_of rows bytes \<Longrightarrow> map fst rows = map fst bytes"
  by (induction rule: list_all2_induct) (auto simp: row_of_def)

lemma row_of_distinct: "list_all2 row_of rows bytes \<Longrightarrow> \<forall>(s, row) \<in> set rows. distinct (map fst row)"
  by (induction rule: list_all2_induct) (auto simp: row_of_def distinct_byte_row)

lemma hpack_states: "map fst hpack_bytes = [3, 4, 5, 7, 8, 9, 10, 11, 12, 13, 14]"
  by (simp add: hpack_bytes_def state_defs)

theorem hpack_dfa_closed:
  "\<exists>d. hpack_dfa = Inr d \<and> num_states d = S_RESERVED \<and> distinct_keys d \<and>
     (\<forall>s i. dfa_edge d s i = hpack_edge s i)"
proof -
  note r = hpack_rows_bytes
  have dist: "distinct (map fst hpack_rows)" by (simp add: row_of_keys [OF r] hpack_states)
  from insert_rows [OF dist row_of_distinct [OF r], of "with_reserved_states S_RESERVED"]
  obtain d where d: "insert_rows hpack_rows (with_reserved_states S_RESERVED) = Inr d"
    "num_states d = num_states (with_reserved_states S_RESERVED :: h2_action dfa)"
    "distinct_keys (with_reserved_states S_RESERVED :: h2_action dfa) \<longrightarrow> distinct_keys d"
    "\<And>s i. dfa_edge d s i = (case map_of hpack_rows s of
       None \<Rightarrow> dfa_edge (with_reserved_states S_RESERVED) s i | Some row \<Rightarrow> row_edge row i)"
    using dfa_edge_reserved by metis
  have "dfa_edge d s i = hpack_edge s i" for s i
    using row_of_map_of [OF r, of s]
    by (auto simp: d(4) hpack_edge_def row_edge_byte_row elim!: option.rel_cases)
  moreover have "distinct_keys (with_reserved_states S_RESERVED :: h2_action dfa)"
    using wf_reserved by (rule wf_dfaD)
  ultimately show ?thesis using d(1-3) by (simp add: hpack_dfa_rows S_RESERVED_def)
qed

subsection \<open>Completeness of the automaton\<close>

lemma hpack_edge_states: "hpack_edge s i \<noteq> None \<longleftrightarrow> s \<in> set (map fst hpack_bytes) \<and> i \<le> 0xFF"
proof -
  have "map_of hpack_bytes s = None \<longleftrightarrow> s \<notin> set (map fst hpack_bytes)" by (simp add: map_of_eq_None_iff)
  then show ?thesis by (auto simp: hpack_edge_def split: option.splits)
qed

definition hpack_targets :: "state_id set" where
  "hpack_targets = {S_DEAD, S_NAME, S_NAME_PLAIN} \<union> set (map fst hpack_bytes)"

lemma hpack_targets_values: "hpack_targets = {2, 3, 4, 5, 6, 7, 8, 9, 10, 11, 12, 13, 14, 15}"
  by (auto simp: hpack_targets_def hpack_states) (simp_all add: state_defs)

lemma byte_targets:
  "fst (first_byte b) \<in> hpack_targets"
  "cont \<in> hpack_targets \<Longrightarrow> cont_huff \<in> hpack_targets \<Longrightarrow> p \<in> hpack_targets \<Longrightarrow> h \<in> hpack_targets \<Longrightarrow>
     fst (length_byte k (p, h) cont cont_huff b) \<in> hpack_targets"
  "s \<in> hpack_targets \<Longrightarrow> to \<in> hpack_targets \<Longrightarrow> fst (continuation_byte s k to fl b) \<in> hpack_targets"
  by (simp_all add: first_byte_def length_byte_def continuation_byte_def Let_def)
    (simp add: hpack_targets_values state_defs)

lemma hpack_bytes_targets: "(s, f) \<in> set hpack_bytes \<Longrightarrow> fst (f b) \<in> hpack_targets"
proof -
  have "list_all (\<lambda>(s, f). fst (f b) \<in> hpack_targets) hpack_bytes"
    unfolding hpack_bytes_def list.pred_inject prod.case
    by (intro conjI TrueI byte_targets; simp add: hpack_targets_values state_defs)
  then show "(s, f) \<in> set hpack_bytes \<Longrightarrow> fst (f b) \<in> hpack_targets" by (auto simp: list_all_iff)
qed

lemma hpack_edge_target:
  assumes "hpack_edge s i = Some e"
  shows "edge_to e \<in> hpack_targets" and "edge_action e \<noteq> None"
proof -
  from assms obtain f where f: "map_of hpack_bytes s = Some f"
    and e: "e = \<lparr>edge_to = fst (f (ucast i)), edge_action = Some (snd (f (ucast i)))\<rparr>"
    by (auto simp: hpack_edge_def split: option.splits if_splits)
  show "edge_action e \<noteq> None" by (simp add: e)
  show "edge_to e \<in> hpack_targets" using hpack_bytes_targets [OF map_of_SomeD [OF f]] by (simp add: e)
qed

lemma hpack_dfa_wf:
  assumes "hpack_dfa = Inr d"
  shows "wf_dfa d" and "num_states d = S_RESERVED" and "dfa_edge d s i = hpack_edge s i"
proof -
  show e: "dfa_edge d s i = hpack_edge s i" and n: "num_states d = S_RESERVED" for s i
    using hpack_dfa_closed assms by (metis sum.inject(2))+
  have "distinct_keys d" using hpack_dfa_closed assms by (metis sum.inject(2))
  moreover have "s < S_RESERVED \<and> edge_to e < S_RESERVED" if "hpack_edge s i = Some e" for s i e
    using hpack_edge_target(1) [OF that] hpack_edge_states [of s i] that
    by (auto simp: hpack_targets_values hpack_states state_defs)
  ultimately show "wf_dfa d" by (auto simp: wf_dfa_def e n S_RESERVED_def)
qed

text \<open>The two roots of the tries of names start without an edge.\<close>

lemma hpack_name_trie:
  assumes "hpack_dfa = Inr d"
  shows "name_trie S_RESERVED {S_NAME, S_NAME_PLAIN} d" and "last_action d S_NAME w = None"
    and "last_action d S_NAME_PLAIN w = None"
proof -
  note d = hpack_dfa_wf [OF assms]
  have root: "dfa_edge d s i = None" if "s \<in> {S_NAME, S_NAME_PLAIN} \<or> S_RESERVED \<le> s" for s i
  proof -
    have "s \<notin> set (map fst hpack_bytes)" using that by (auto simp: hpack_states state_defs)
    with hpack_edge_states [of s i] show ?thesis by (simp add: d(3))
  qed
  have "\<not> S_RESERVED \<le> edge_to e" if "dfa_edge d s i = Some e" for s i e
    using wf_dfaD(4) [OF d(1) that] d(2) by simp
  then show "name_trie S_RESERVED {S_NAME, S_NAME_PLAIN} d"
    using root d(2) by (auto simp: name_trie_def) (simp_all add: state_defs)
  have none: "last_action d s w = None" if "s \<in> {S_NAME, S_NAME_PLAIN}" for s
    using that root [of s] by (cases w; cases "butlast w") (auto simp: last_action_def split: if_splits)
  show "last_action d S_NAME w = None" and "last_action d S_NAME_PLAIN w = None"
    using none by simp_all
qed

subsection \<open>The static table\<close>

text \<open>
  \<open>create_header_maps\<close>: the entries without a predefined value by their name, the ones
  with one by their name and their value. A sequence of \<open>insert\<close>s is a fold over the list
  of its arguments.
\<close>

definition inserts :: "('k \<times> 'v) list \<Rightarrow> ('k \<times> 'v) list" where
  "inserts kvs = fold (\<lambda>(k, v). AList.update k v) kvs []"

definition create_header_maps :: "(string \<times> nat) list \<times> (string \<times> (string \<times> nat) list) list" where
  "create_header_maps =
    (let headers_without_values = inserts
     [('':authority'', 1),
      (''accept-charset'', 15),
      (''accept-language'', 17),
      (''accept-ranges'', 18),
      (''accept'', 19),
      (''access-control-allow-origin'', 20),
      (''age'', 21),
      (''allow'', 22),
      (''authorization'', 23),
      (''cache-control'', 24),
      (''content-disposition'', 25),
      (''content-encoding'', 26),
      (''content-language'', 27),
      (''content-length'', 28),
      (''content-location'', 29),
      (''content-range'', 30),
      (''content-type'', 31),
      (''cookie'', 32),
      (''date'', 33),
      (''etag'', 34),
      (''expect'', 35),
      (''expires'', 36),
      (''from'', 37),
      (''host'', 38),
      (''if-match'', 39),
      (''if-modified-since'', 40),
      (''if-none-match'', 41),
      (''if-range'', 42),
      (''if-unmodified-since'', 43),
      (''last-modified'', 44),
      (''link'', 45),
      (''location'', 46),
      (''max-forwards'', 47),
      (''proxy-authenticate'', 48),
      (''proxy-authorization'', 49),
      (''range'', 50),
      (''referer'', 51),
      (''refresh'', 52),
      (''retry-after'', 53),
      (''server'', 54),
      (''set-cookie'', 55),
      (''strict-transport-security'', 56),
      (''transfer-encoding'', 57),
      (''user-agent'', 58),
      (''vary'', 59),
      (''via'', 60),
      (''www-authenticate'', 61)];
      method_map = inserts [(''GET'', 2), (''POST'', 3)];
      path_map = inserts [(''/'', 4), (''/index.html'', 5)];
      scheme_map = inserts [(''http'', 6), (''https'', 7)];
      status_map = inserts
        [(''200'', 8), (''204'', 9), (''206'', 10), (''304'', 11), (''400'', 12), (''404'', 13), (''500'', 14)];
      accept_encoding_map = inserts [(''gzip, deflate'', 16)];
      headers_with_values = inserts
        [('':method'', method_map), ('':path'', path_map), ('':scheme'', scheme_map),
         ('':status'', status_map), (''accept-encoding'', accept_encoding_map)]
     in (headers_without_values, headers_with_values))"

text \<open>Appendix A of RFC 7541; the entry at position \<open>i\<close> of the list has the index \<open>i + 1\<close>.\<close>

definition rfc_static_table :: "(string \<times> string) list" where
  "rfc_static_table =
  [('':authority'', ''''),
   ('':method'', ''GET''),
   ('':method'', ''POST''),
   ('':path'', ''/''),
   ('':path'', ''/index.html''),
   ('':scheme'', ''http''),
   ('':scheme'', ''https''),
   ('':status'', ''200''),
   ('':status'', ''204''),
   ('':status'', ''206''),
   ('':status'', ''304''),
   ('':status'', ''400''),
   ('':status'', ''404''),
   ('':status'', ''500''),
   (''accept-charset'', ''''),
   (''accept-encoding'', ''gzip, deflate''),
   (''accept-language'', ''''),
   (''accept-ranges'', ''''),
   (''accept'', ''''),
   (''access-control-allow-origin'', ''''),
   (''age'', ''''),
   (''allow'', ''''),
   (''authorization'', ''''),
   (''cache-control'', ''''),
   (''content-disposition'', ''''),
   (''content-encoding'', ''''),
   (''content-language'', ''''),
   (''content-length'', ''''),
   (''content-location'', ''''),
   (''content-range'', ''''),
   (''content-type'', ''''),
   (''cookie'', ''''),
   (''date'', ''''),
   (''etag'', ''''),
   (''expect'', ''''),
   (''expires'', ''''),
   (''from'', ''''),
   (''host'', ''''),
   (''if-match'', ''''),
   (''if-modified-since'', ''''),
   (''if-none-match'', ''''),
   (''if-range'', ''''),
   (''if-unmodified-since'', ''''),
   (''last-modified'', ''''),
   (''link'', ''''),
   (''location'', ''''),
   (''max-forwards'', ''''),
   (''proxy-authenticate'', ''''),
   (''proxy-authorization'', ''''),
   (''range'', ''''),
   (''referer'', ''''),
   (''refresh'', ''''),
   (''retry-after'', ''''),
   (''server'', ''''),
   (''set-cookie'', ''''),
   (''strict-transport-security'', ''''),
   (''transfer-encoding'', ''''),
   (''user-agent'', ''''),
   (''vary'', ''''),
   (''via'', ''''),
   (''www-authenticate'', '''')]"

text \<open>The entries the two maps describe, as (index, (name, value)), the empty value where there is none.\<close>

definition static_entries ::
  "(string \<times> nat) list \<times> (string \<times> (string \<times> nat) list) list \<Rightarrow> (nat \<times> string \<times> string) list" where
  "static_entries = (\<lambda>(without, with_values).
     concat (map (\<lambda>(name, vals). map (\<lambda>(val, idx). (idx, name, val)) vals) with_values) @
     map (\<lambda>(name, idx). (idx, name, [])) without)"

definition static_order :: "nat list" where
  "static_order = [1..<14] @ [15] @ [0, 14] @ [16..<61]"

lemma static_order: "set static_order = {..<61}" "distinct static_order"
  by (auto simp: static_order_def simp del: upt_rec_numeral)

lemma static_entries_list:
  "static_entries create_header_maps = map (\<lambda>i. (i + 1, rfc_static_table ! i)) static_order"
  by code_simp

section \<open>Properties of the automaton\<close>

definition representation_states :: "state_id list" where
  "representation_states = [S_FIELD, S_KEY_LEN, S_VAL_LEN, S_IDX7_CONT, S_IDX6_CONT, S_IDX4_CONT,
     S_STG_CONT, S_KEY_LEN_CONT, S_KEY_LEN_CONT_HUFF, S_VAL_LEN_CONT, S_VAL_LEN_CONT_HUFF]"

lemma representation_states_keys: "set representation_states = set (map fst hpack_bytes)"
  by (simp add: representation_states_def hpack_bytes_def)

text \<open>
  C13: \<open>hpack::dfa\<close> never panics: it builds a well-formed DFA of
  the reserved states only. Its transitions are exactly the closed form \<open>hpack_edge\<close>,
  which reads the first byte of a representation by the position of its highest bit and the
  prefix below it (RFC 7541, section 6), the byte of a string length by the Huffman bit and a
  prefix of seven bits (section 5.2), and the continuation bytes of an integer by their
  highest bit (section 5.1).
\<close>

theorem hpack_dfa_decodes_rfc7541:
  "\<exists>d. hpack_dfa = Inr d \<and> wf_dfa d \<and> num_states d = S_RESERVED \<and> (\<forall>s i. dfa_edge d s i = hpack_edge s i)"
  using hpack_dfa_closed hpack_dfa_wf by metis

text \<open>
  What the unit tests of \<open>hpack.rs\<close> check, for the DFA as it is built:
  exactly the representation states read anything and each of them reads every byte, no
  transition leads to a state without transitions other than the dead state and the two roots
  of the tries of names, and every transition carries an action.
\<close>

theorem hpack_dfa_complete:
  "\<exists>d. hpack_dfa = Inr d \<and>
     (\<forall>s i. dfa_edge d s i \<noteq> None \<longleftrightarrow> s \<in> set representation_states \<and> i \<le> 0xFF) \<and>
     {t. \<exists>s i e. dfa_edge d s i = Some e \<and> t = edge_to e} \<subseteq>
        {S_DEAD, S_NAME, S_NAME_PLAIN} \<union> set representation_states \<and>
     (\<forall>s i. map_option edge_action (dfa_edge d s i) \<noteq> Some None)"
proof -
  obtain d where d: "hpack_dfa = Inr d" using hpack_dfa_closed by blast
  note e = hpack_dfa_wf(3) [OF d]
  have "{t. \<exists>s i e. dfa_edge d s i = Some e \<and> t = edge_to e} \<subseteq>
        {S_DEAD, S_NAME, S_NAME_PLAIN} \<union> set representation_states"
    using hpack_edge_target(1) by (fastforce simp: e hpack_targets_def representation_states_keys)
  moreover have "map_option edge_action (dfa_edge d s i) \<noteq> Some None" for s i
    using hpack_edge_target(2) [of s i] by (cases "hpack_edge s i") (auto simp: e)
  moreover have "dfa_edge d s i \<noteq> None \<longleftrightarrow> s \<in> set representation_states \<and> i \<le> 0xFF" for s i
    unfolding e representation_states_keys by (rule hpack_edge_states)
  ultimately show ?thesis using d by blast
qed

text \<open>
  The two maps of \<open>create_header_maps\<close> hold every entry of the
  HPACK static table under its index of appendix A of RFC 7541, and nothing else; no index
  occurs twice.
\<close>

theorem static_table_is_appendix_a:
  "((idx, entry) \<in> set (static_entries create_header_maps) \<longleftrightarrow>
      1 \<le> idx \<and> idx \<le> 61 \<and> entry = rfc_static_table ! (idx - 1)) \<and>
   distinct (map fst (static_entries create_header_maps)) \<and> length rfc_static_table = 61"
proof -
  have "(idx, entry) \<in> set (static_entries create_header_maps) \<longleftrightarrow>
      (\<exists>i \<in> {..<61}. idx = i + 1 \<and> entry = rfc_static_table ! i)"
    by (auto simp: static_entries_list static_order)
  also have "\<dots> \<longleftrightarrow> 1 \<le> idx \<and> idx \<le> 61 \<and> entry = rfc_static_table ! (idx - 1)"
    by (cases idx) auto
  finally have entries: "(idx, entry) \<in> set (static_entries create_header_maps) \<longleftrightarrow>
      1 \<le> idx \<and> idx \<le> 61 \<and> entry = rfc_static_table ! (idx - 1)" .
  have "map fst (static_entries create_header_maps) = map Suc static_order"
    by (simp add: static_entries_list comp_def)
  then have "distinct (map fst (static_entries create_header_maps))"
    by (simp add: distinct_map static_order)
  moreover have "length rfc_static_table = 61" by (simp add: rfc_static_table_def)
  ultimately show ?thesis using entries by blast
qed

end
