(* ===== verification/Match_Ids.thy ===== *)
theory Match_Ids
  imports Lib_Types
begin

section \<open>Match ids\<close>

text \<open>
  What the two parsers share when they hand out match ids: the interface of an allocator of
  ids, the one of the method \<open>capture_hdr\<close>, and what follows from them for any sequence of
  calls. The parsers instantiate both interfaces.
\<close>

subsection \<open>Running the calls of a client in a row\<close>

text \<open>\<open>n\<close> calls of \<open>new_match\<close>, and the calls of \<open>capture_hdr\<close> for the names of a list.\<close>

fun alloc_times :: "('p \<Rightarrow> 'e + match_id \<times> 'p) \<Rightarrow> nat \<Rightarrow> 'p \<Rightarrow> 'e + match_id list \<times> 'p" where
  "alloc_times alloc 0 p = Inr ([], p)"
| "alloc_times alloc (Suc n) p =
     bind_res (alloc p) (\<lambda>(mid, p1). bind_res (alloc_times alloc n p1) (\<lambda>(mids, p2). Inr (mid # mids, p2)))"

fun capture_all ::
  "('k \<Rightarrow> 'p \<Rightarrow> 'x + ('e + match_id) \<times> 'p) \<Rightarrow> 'k list \<Rightarrow> 'p \<Rightarrow> 'x + ('e + match_id) list \<times> 'p" where
  "capture_all capture [] p = Inr ([], p)"
| "capture_all capture (k # ks) p =
     bind_res (capture k p) (\<lambda>(r, p1). bind_res (capture_all capture ks p1) (\<lambda>(rs, p2). Inr (r # rs, p2)))"

lemma capture_all_append:
  "capture_all capture (ks @ ls) p =
     bind_res (capture_all capture ks p) (\<lambda>(rs, p1).
       bind_res (capture_all capture ls p1) (\<lambda>(rs', p2). Inr (rs @ rs', p2)))"
proof (induction ks arbitrary: p)
  case Nil
  show ?case by (cases "capture_all capture ls p") auto
next
  case (Cons k ks)
  then show ?case by (cases "capture k p") (auto simp: bind_res_assoc split_def)
qed

lemma capture_all_snocE:
  assumes "capture_all capture (ks @ [k]) p = Inr (rs, p2)"
  obtains rs1 p1 r where "capture_all capture ks p = Inr (rs1, p1)" and "capture k p1 = Inr (r, p2)"
    and "rs = rs1 @ [r]"
  using assms by (auto simp: capture_all_append res_simps)

text \<open>An invariant that every call keeps holds after all of them.\<close>

lemma capture_all_invariant:
  assumes "capture_all capture ks p = Inr (rs, p')" and "I p"
    and "\<And>k p r p'. k \<in> set ks \<Longrightarrow> capture k p = Inr (r, p') \<Longrightarrow> I p \<Longrightarrow> I p'"
  shows "I p'"
  using assms
proof (induction ks arbitrary: p rs)
  case Nil
  then show ?case by simp
next
  case (Cons k ks)
  then obtain r p1 rs1 where "capture k p = Inr (r, p1)" "capture_all capture ks p1 = Inr (rs1, p')"
    by (auto simp: res_simps)
  with Cons show ?case by (metis list.set_intros)
qed

subsection \<open>The interface of an allocator\<close>

locale match_allocator =
  fixes num :: "'p \<Rightarrow> u8"
    and alloc :: "'p \<Rightarrow> 'e + match_id \<times> 'p"
    and limit :: u8
    and exhausted :: 'e
  assumes alloc_full: "limit \<le> num p \<Longrightarrow> alloc p = Inl exhausted"
    and alloc_fresh: "num p < limit \<Longrightarrow> \<exists>p'. alloc p = Inr (MatchId (num p), p') \<and> num p' = num p + 1"
begin

lemma num_Suc: "num p < limit \<Longrightarrow> unat (num p + 1) = unat (num p) + 1"
  by unat_arith

text \<open>As long as there is room, the ids are handed out in order, without a gap.\<close>

lemma alloc_dense:
  "unat (num p) + n \<le> unat limit \<Longrightarrow>
     \<exists>mids p'. alloc_times alloc n p = Inr (mids, p') \<and> unat (num p') = unat (num p) + n \<and>
       map (\<lambda>mid. unat (match_idx mid)) mids = [unat (num p)..<unat (num p) + n]"
proof (induction n arbitrary: p)
  case 0
  then show ?case by simp
next
  case (Suc n)
  then have lt: "num p < limit" by (simp add: word_less_nat_alt)
  from alloc_fresh [OF this] obtain p1 where
    p1: "alloc p = Inr (MatchId (num p), p1)" "num p1 = num p + 1" by blast
  have n1: "unat (num p1) = unat (num p) + 1" using num_Suc [OF lt] p1(2) by simp
  then have "unat (num p1) + n \<le> unat limit" using Suc.prems by simp
  then obtain mids p' where
    m: "alloc_times alloc n p1 = Inr (mids, p')" "unat (num p') = unat (num p1) + n"
    "map (\<lambda>mid. unat (match_idx mid)) mids = [unat (num p1)..<unat (num p1) + n]"
    using Suc.IH [of p1] by fastforce
  have "[unat (num p)..<unat (num p) + Suc n] = unat (num p) # [unat (num p) + 1..<unat (num p) + 1 + n]"
    by (simp add: upt_conv_Cons)
  with m n1 p1(1) show ?case by simp
qed

lemma alloc_exhausted:
  assumes "num p \<le> limit" and "unat limit < unat (num p) + m"
  shows "alloc_times alloc m p = Inl exhausted"
  using assms
proof (induction m arbitrary: p)
  case (Suc m)
  show ?case
  proof (cases "num p < limit")
    case True
    from alloc_fresh [OF this] obtain p1 where
      p1: "alloc p = Inr (MatchId (num p), p1)" "num p1 = num p + 1" by blast
    have "unat (num p1) = unat (num p) + 1" using num_Suc [OF True] p1(2) by simp
    moreover have "num p1 \<le> limit" using True calculation by (simp add: word_less_nat_alt word_le_nat_alt)
    ultimately show ?thesis using Suc p1(1) by simp
  next
    case False
    then show ?thesis by (simp add: alloc_full)
  qed
qed (simp add: word_le_nat_alt)

end

subsection \<open>The interface of \<open>capture_hdr\<close>\<close>

locale header_captures =
  fixes capture :: "'k \<Rightarrow> 'p \<Rightarrow> 'x + ('e + match_id) \<times> 'p"
    and lookup :: "'p \<Rightarrow> 'k \<Rightarrow> match_id option"
    and num :: "'p \<Rightarrow> u8"
    and limit :: u8
  assumes capture_known: "lookup p k = Some mid \<Longrightarrow> capture k p = Inr (Inr mid, p)"
    and capture_new: "lookup p k = None \<Longrightarrow> capture k p = Inr (Inr mid, p') \<Longrightarrow>
      num p < limit \<and> mid = MatchId (num p) \<and> num p' = num p + 1 \<and> lookup p' = (lookup p)(k \<mapsto> mid)"
    and capture_failed: "lookup p k = None \<Longrightarrow> capture k p = Inr (Inl e, p') \<Longrightarrow>
      lookup p' = lookup p \<and> num p' = num p"
begin

text \<open>Every id that was handed out is below the number of matches, and stands for one name.\<close>

definition ids_ok :: "'p \<Rightarrow> bool" where
  "ids_ok p \<longleftrightarrow> num p \<le> limit \<and> (\<forall>k mid. lookup p k = Some mid \<longrightarrow> match_idx mid < num p) \<and>
     (\<forall>k k' mid. lookup p k = Some mid \<longrightarrow> lookup p k' = Some mid \<longrightarrow> k' = k)"

lemma less_Suc_limit: "num p < limit \<Longrightarrow> num p < num p + 1 \<and> num p + 1 \<le> limit"
  by unat_arith

lemma capture_ids_ok:
  assumes "capture k p = Inr (r, p')" and "ids_ok p"
  shows "ids_ok p' \<and> (\<forall>mid. r = Inr mid \<longrightarrow> lookup p' k = Some mid) \<and>
     (\<forall>k' mid. lookup p k' = Some mid \<longrightarrow> lookup p' k' = Some mid)"
proof (cases "lookup p k")
  case (Some mid)
  with assms capture_known [OF Some] show ?thesis by auto
next
  case None
  show ?thesis
  proof (cases r)
    case (Inl e)
    with capture_failed [OF None, of e p'] assms show ?thesis by (simp add: ids_ok_def)
  next
    case (Inr mid)
    have n: "num p < limit" "mid = MatchId (num p)" "num p' = num p + 1" "lookup p' = (lookup p)(k \<mapsto> mid)"
      using capture_new [OF None, of mid p'] assms(1) Inr by simp_all
    note lt = less_Suc_limit [OF n(1)]
    have old: "match_idx m < num p" if "lookup p k' = Some m" for k' m
      using assms(2) that by (simp add: ids_ok_def)
    have fresh: "lookup p k' \<noteq> Some mid" for k'
      using old [of k' mid] by (auto simp: n(2))
    have "ids_ok p'"
      using assms(2) lt fresh old by (auto simp: ids_ok_def n(2-4) intro: less_trans)
    with None Inr show ?thesis by (auto simp: n(4))
  qed
qed

text \<open>
  In any sequence of calls, the same name always gets the same id, different names get
  different ids, and no id reaches the limit.
\<close>

lemma capture_all_ids:
  assumes "capture_all capture ks p = Inr (rs, p')" and "ids_ok p"
  shows "ids_ok p' \<and> length rs = length ks \<and>
     (\<forall>k mid. (k, Inr mid) \<in> set (zip ks rs) \<longrightarrow> lookup p' k = Some mid)"
  using assms(1)
proof (induction ks arbitrary: rs p' rule: rev_induct)
  case Nil
  then show ?case using assms(2) by simp
next
  case (snoc k ks)
  from snoc.prems obtain rs1 p1 r where
    c: "capture_all capture ks p = Inr (rs1, p1)" "capture k p1 = Inr (r, p')" "rs = rs1 @ [r]"
    by (rule capture_all_snocE)
  note IH = snoc.IH [OF c(1)]
  from capture_ids_ok [OF c(2)] IH show ?case by (auto simp: c(3))
qed

lemma capture_all_same_id_iff:
  assumes "capture_all capture ks p = Inr (rs, p')" and "ids_ok p"
    and "(k, Inr mid) \<in> set (zip ks rs)" and "(k', Inr mid') \<in> set (zip ks rs)"
  shows "mid = mid' \<longleftrightarrow> k = k'" and "match_idx mid < limit"
proof -
  note ids = capture_all_ids [OF assms(1,2)]
  then have l: "lookup p' k = Some mid" "lookup p' k' = Some mid'" using assms(3,4) by blast+
  with ids show "mid = mid' \<longleftrightarrow> k = k'" by (auto simp: ids_ok_def)
  show "match_idx mid < limit" using ids l(1) by (meson ids_ok_def less_le_trans)
qed

text \<open>Nothing is registered but the names that were asked for.\<close>

lemma capture_all_registered:
  assumes "capture_all capture ks p = Inr (rs, p')" and "ids_ok p"
  shows "lookup p' k = Some mid \<longleftrightarrow> lookup p k = Some mid \<or> (k, Inr mid) \<in> set (zip ks rs)"
  using assms(1)
proof (induction ks arbitrary: rs p' k mid rule: rev_induct)
  case Nil
  then show ?case by simp
next
  case (snoc x ks)
  from snoc.prems obtain rs1 p1 r where
    c: "capture_all capture ks p = Inr (rs1, p1)" "capture x p1 = Inr (r, p')" "rs = rs1 @ [r]"
    by (rule capture_all_snocE)
  note ids = capture_all_ids [OF c(1) assms(2)] and IH = snoc.IH [OF c(1)]
  have zip: "(k, Inr mid) \<in> set (zip (ks @ [x]) rs) \<longleftrightarrow>
      (k, Inr mid) \<in> set (zip ks rs1) \<or> k = x \<and> r = Inr mid"
    using ids by (auto simp: c(3))
  have "lookup p' k = Some mid \<longleftrightarrow> lookup p1 k = Some mid \<or> k = x \<and> r = Inr mid"
  proof (cases "lookup p1 x")
    case (Some m)
    with capture_known [OF Some] c(2) show ?thesis by auto
  next
    case None
    show ?thesis
    proof (cases r)
      case (Inl e)
      with capture_failed [OF None] c(2) show ?thesis by auto
    next
      case (Inr m)
      then have "lookup p' = (lookup p1)(x \<mapsto> m)" using capture_new [OF None] c(2) by blast
      with None Inr show ?thesis by auto
    qed
  qed
  with IH zip show ?case by blast
qed

text \<open>Names that are new and pairwise different get the next ids, in the order they are asked for.\<close>

lemma capture_all_dense:
  assumes "capture_all capture ks p = Inr (map Inr mids, p')"
    and "distinct ks" and "\<And>k. k \<in> set ks \<Longrightarrow> lookup p k = None"
  shows "map (\<lambda>mid. unat (match_idx mid)) mids = [unat (num p)..<unat (num p) + length ks] \<and>
     unat (num p') = unat (num p) + length ks"
  using assms
proof (induction ks arbitrary: p mids)
  case Nil
  then show ?case by simp
next
  case (Cons k ks)
  from Cons.prems(1) obtain mid p1 mids1 where c: "capture k p = Inr (Inr mid, p1)"
    "capture_all capture ks p1 = Inr (map Inr mids1, p')" "mids = mid # mids1"
    by (auto simp: res_simps)
  have n: "num p < limit" "mid = MatchId (num p)" "num p1 = num p + 1" "lookup p1 = (lookup p)(k \<mapsto> mid)"
    using capture_new [OF _ c(1)] Cons.prems(3) by auto
  have "unat (num p1) = unat (num p) + 1" using n(1,3) by unat_arith
  moreover have "map (\<lambda>mid. unat (match_idx mid)) mids1 = [unat (num p1)..<unat (num p1) + length ks] \<and>
     unat (num p') = unat (num p1) + length ks"
    using Cons.prems(2,3) by (intro Cons.IH [OF c(2)]) (auto simp: n(4))
  moreover have "[unat (num p)..<unat (num p) + length (k # ks)] =
      unat (num p) # [unat (num p) + 1..<unat (num p) + 1 + length ks]"
    by (simp add: upt_conv_Cons del: upt_Suc)
  ultimately show ?case by (simp add: c(3) n(2))
qed

end

subsection \<open>What \<open>capture_hdr\<close> promises: an id map\<close>

text \<open>
  The contract of \<open>capture_hdr\<close> without the DFA: the ids of the names asked for so far, and
  the number of them. \<open>encode\<close> stands for what may refuse a name.
\<close>

type_synonym id_map = "(bytes \<Rightarrow> match_id option) \<times> nat"

definition spec_capture ::
  "(bytes \<Rightarrow> 'enc + bytes) \<Rightarrow> bytes \<Rightarrow> id_map \<Rightarrow> (('enc, 'bpf, 'plain) beeper_error + match_id) \<times> id_map" where
  "spec_capture encode name = (\<lambda>(ids, n).
     case ids name of
       Some mid \<Rightarrow> (Inr mid, (ids, n))
     | None \<Rightarrow>
         (case encode name of
            Inl e \<Rightarrow> (Inl (InvalidEncoding e), (ids, n))
          | Inr _ \<Rightarrow>
              if n < 32 then (Inr (MatchId (word_of_nat n)), (ids(name \<mapsto> MatchId (word_of_nat n)), n + 1))
              else (Inl (MatchLimitExceeded 32), (ids, n))))"

fun spec_capture_all ::
  "(bytes \<Rightarrow> 'enc + bytes) \<Rightarrow> bytes list \<Rightarrow> id_map \<Rightarrow> (('enc, 'bpf, 'plain) beeper_error + match_id) list \<times> id_map" where
  "spec_capture_all encode [] s = ([], s)"
| "spec_capture_all encode (name # names) s =
     (let (r, s) = spec_capture encode name s; (rs, s) = spec_capture_all encode names s in (r # rs, s))"

end
