(* ===== verification/Http2_Parser.thy ===== *)
theory Http2_Parser
  imports Hpack Match_Ids
begin

section \<open>The HTTP/2 parser (\<open>beeper/src/http2/parser.rs\<close>)\<close>

text \<open>
  The parser and its builder methods. The Huffman encoder of the crate \<open>httlib_huffman\<close> is
  the parameter \<open>encode\<close>. A method that takes \<open>&mut self\<close> returns the parser along with its
  result; a panic is \<open>Inl\<close>. What \<open>attach\<close> does with a parser is in \<open>Http2_Attach\<close>.
\<close>

subsection \<open>State\<close>

definition H2_MAX_MATCHES :: u8 where "H2_MAX_MATCHES = 32"

record h2_parser =
  h2_dfa :: "h2_action dfa"
  h2_num_matches :: u8
  h2_parse_fns :: "(message_buffer \<times> string) list"
  h2_matched_fn :: "string option"
  h2_get_fns :: "(message_buffer \<times> string) list"
  h2_get_dynamic_table_entry_fn :: "string option"
  h2_captures :: "(bytes \<times> match_id) list"

definition h2_new :: "h2_action panic + h2_parser" where
  "h2_new = bind_res hpack_dfa (\<lambda>dfa. Inr
     \<lparr>h2_dfa = dfa, h2_num_matches = 0, h2_parse_fns = [], h2_matched_fn = None, h2_get_fns = [],
      h2_get_dynamic_table_entry_fn = None, h2_captures = []\<rparr>)"

subsection \<open>The builder methods\<close>

definition h2_parse_fn :: "string \<Rightarrow> message_buffer \<Rightarrow> h2_parser \<Rightarrow> h2_parser" where
  "h2_parse_fn parse_fn msg_buf p = p\<lparr>h2_parse_fns := AList.update msg_buf parse_fn (h2_parse_fns p)\<rparr>"

definition h2_matched :: "string \<Rightarrow> h2_parser \<Rightarrow> h2_parser" where
  "h2_matched matched_fn p = p\<lparr>h2_matched_fn := Some matched_fn\<rparr>"

definition h2_get_fn :: "string \<Rightarrow> message_buffer \<Rightarrow> h2_parser \<Rightarrow> h2_parser" where
  "h2_get_fn get_fn msg_buf p = p\<lparr>h2_get_fns := AList.update msg_buf get_fn (h2_get_fns p)\<rparr>"

definition h2_get_dynamic_table_entry :: "string \<Rightarrow> h2_parser \<Rightarrow> h2_parser" where
  "h2_get_dynamic_table_entry fn p = p\<lparr>h2_get_dynamic_table_entry_fn := Some fn\<rparr>"

definition h2_new_match :: "h2_parser \<Rightarrow> ('enc, 'bpf, 'plain) beeper_error + match_id \<times> h2_parser" where
  "h2_new_match p =
     (if H2_MAX_MATCHES \<le> h2_num_matches p then Inl (MatchLimitExceeded (unat H2_MAX_MATCHES))
      else Inr (MatchId (h2_num_matches p), p\<lparr>h2_num_matches := h2_num_matches p + 1\<rparr>))"

definition capture_pattern ::
  "state_id \<Rightarrow> bytes \<Rightarrow> match_id \<Rightarrow> h2_action dfa \<Rightarrow> h2_action panic + h2_action dfa" where
  "capture_pattern root name mid d =
     bind_res (push_bytes name (start_pattern d root)) (\<lambda>b.
     bind_res (with_action (action_capture mid) b) (\<lambda>b. Inr (bdfa b)))"

definition h2_capture_hdr ::
  "(bytes \<Rightarrow> 'enc + bytes) \<Rightarrow> bytes \<Rightarrow> h2_parser \<Rightarrow>
     h2_action panic + (('enc, 'bpf, 'plain) beeper_error + match_id) \<times> h2_parser" where
  "h2_capture_hdr encode name p =
     (case map_of (h2_captures p) name of
        Some mid \<Rightarrow> Inr (Inr mid, p)
      | None \<Rightarrow>
          (case encode name of
             Inl e \<Rightarrow> Inr (Inl (error_from_encoder e), p)
           | Inr name_encoded \<Rightarrow>
               (case h2_new_match p of
                  Inl e \<Rightarrow> Inr (Inl e, p)
                | Inr (mid, p) \<Rightarrow>
                    bind_res (capture_pattern S_NAME name_encoded mid (h2_dfa p)) (\<lambda>d.
                    bind_res (capture_pattern S_NAME_PLAIN name mid d) (\<lambda>d.
                    Inr (Inr mid, p\<lparr>h2_dfa := d, h2_captures := AList.update name mid (h2_captures p)\<rparr>))))))"

subsection \<open>The interfaces\<close>

lemma u8_of_32 [simp]: "unat H2_MAX_MATCHES = 32"
  by (simp add: H2_MAX_MATCHES_def)

interpretation h2_alloc: match_allocator h2_num_matches h2_new_match H2_MAX_MATCHES
  "MatchLimitExceeded 32 :: ('enc, 'bpf, 'plain) beeper_error"
  by unfold_locales (auto simp: h2_new_match_def)

lemma h2_new_match_Inr [res_simps]:
  "h2_new_match p = Inr (mid, p') \<longleftrightarrow> h2_num_matches p < H2_MAX_MATCHES \<and> mid = MatchId (h2_num_matches p) \<and>
     p' = p\<lparr>h2_num_matches := h2_num_matches p + 1\<rparr>"
  by (auto simp: h2_new_match_def)

lemma h2_new_match_Inl [res_simps]:
  "h2_new_match p = Inl e \<longleftrightarrow> H2_MAX_MATCHES \<le> h2_num_matches p \<and> e = MatchLimitExceeded 32"
  by (auto simp: h2_new_match_def)

text \<open>A call that registers a name: what it did, step by step.\<close>

lemma h2_capture_new:
  assumes "h2_capture_hdr encode name p = Inr (Inr mid, p')" and "map_of (h2_captures p) name = None"
  obtains name_encoded d1 d2 where "encode name = Inr name_encoded"
    and "h2_num_matches p < H2_MAX_MATCHES" and "mid = MatchId (h2_num_matches p)"
    and "capture_pattern S_NAME name_encoded mid (h2_dfa p) = Inr d1"
    and "capture_pattern S_NAME_PLAIN name mid d1 = Inr d2"
    and "p' = p\<lparr>h2_num_matches := h2_num_matches p + 1, h2_dfa := d2,
                h2_captures := AList.update name mid (h2_captures p)\<rparr>"
  using assms by (auto simp: h2_capture_hdr_def res_simps split: sum.splits)

lemma h2_capture_err:
  assumes "h2_capture_hdr encode name p = Inr (Inl e, p')"
  shows "p' = p"
  using assms by (auto simp: h2_capture_hdr_def res_simps split: sum.splits option.splits)

interpretation h2_ids: header_captures "h2_capture_hdr encode" "\<lambda>p. map_of (h2_captures p)"
  h2_num_matches H2_MAX_MATCHES for encode
proof unfold_locales
  show "h2_capture_hdr encode k p = Inr (Inr mid, p)" if "map_of (h2_captures p) k = Some mid" for p k mid
    using that by (simp add: h2_capture_hdr_def)
  show "h2_num_matches p < H2_MAX_MATCHES \<and> mid = MatchId (h2_num_matches p) \<and>
      h2_num_matches p' = h2_num_matches p + 1 \<and> map_of (h2_captures p') = (map_of (h2_captures p))(k \<mapsto> mid)"
    if "map_of (h2_captures p) k = None" "h2_capture_hdr encode k p = Inr (Inr mid, p')" for p k mid p'
    using that(2,1) by (elim h2_capture_new) (auto simp: map_of_update)
  show "map_of (h2_captures p') = map_of (h2_captures p) \<and> h2_num_matches p' = h2_num_matches p"
    if "h2_capture_hdr encode k p = Inr (Inl e, p')" for p k e p'
    using h2_capture_err [OF that] by simp
qed

subsection \<open>The tries of names\<close>

definition name_roots :: "state_id set" where
  "name_roots = {S_NAME, S_NAME_PLAIN}"

lemma capture_pattern_Inr:
  assumes "capture_pattern root name mid d = Inr d'"
    and "wf_dfa d" and "name_trie S_RESERVED name_roots d" and "root \<in> name_roots"
  shows "name_trie S_RESERVED name_roots d'" and "wf_dfa d'" and "extends d d'"
    and "r \<in> name_roots \<Longrightarrow> last_action d' r w =
           (if name \<noteq> [] \<and> r = root \<and> w = map input_of name then Some (action_capture mid) else last_action d r w)"
    and "s \<notin> name_roots \<Longrightarrow> s < S_RESERVED \<Longrightarrow> dfa_edge d' s i = dfa_edge d s i"
    and "unat (num_states d') \<le> unat (num_states d) + length name"
    and "trie_actions S_RESERVED name_roots A d \<Longrightarrow>
           trie_actions S_RESERVED name_roots (insert (action_capture mid) A) d'"
proof -
  from assms(1) obtain b1 b2 where b: "push_inner name True (start_pattern d root) = Inr b1"
    "with_action (action_capture mid) b1 = Inr b2" "d' = bdfa b2"
    by (auto simp: capture_pattern_def push_bytes_def res_simps)
  note k = trie_keeps [OF b(1,2) assms(2-4)]
  show "trie_actions S_RESERVED name_roots A d \<Longrightarrow>
      trie_actions S_RESERVED name_roots (insert (action_capture mid) A) d'"
    unfolding b(3) by (rule trie_actions_pattern [OF b(1,2) assms(2-4)])
  show "unat (num_states d') \<le> unat (num_states d) + length name"
    and "s \<notin> name_roots \<Longrightarrow> s < S_RESERVED \<Longrightarrow> dfa_edge d' s i = dfa_edge d s i"
    using k by (simp_all add: b(3))
  have "name_trie S_RESERVED name_roots d' \<and> wf_dfa d' \<and> extends d d' \<and>
    (r \<in> name_roots \<longrightarrow> last_action d' r w =
       (if name \<noteq> [] \<and> r = root \<and> w = map input_of name then Some (action_capture mid) else last_action d r w))"
  proof (cases "name = []")
    case True
    with k(1) assms(2,3) show ?thesis by (simp add: b(3))
  next
    case False
    from trie_law [OF b(1,2) assms(2-4) False] False show ?thesis by (simp add: b(3))
  qed
  then show "name_trie S_RESERVED name_roots d'" and "wf_dfa d'" and "extends d d'"
    and "r \<in> name_roots \<Longrightarrow> last_action d' r w =
       (if name \<noteq> [] \<and> r = root \<and> w = map input_of name then Some (action_capture mid) else last_action d r w)"
    by simp_all
qed

lemma capture_pattern_Inl:
  assumes "capture_pattern root name mid d = Inl p"
    and "wf_dfa d" and "name_trie S_RESERVED name_roots d" and "root \<in> name_roots"
    and "last_action d root (map input_of name) = None"
  shows "p = StateOverflow \<and> 0xFFFF < unat (num_states d) + length name"
proof (rule trie_total)
  show "bind_res (push_inner name True (start_pattern d root)) (with_action (action_capture mid)) = Inl p"
    using assms(1) by (auto simp: capture_pattern_def push_bytes_def res_simps)
qed (use assms in auto)

text \<open>
  The invariant: the automaton of the representations is untouched, the ids are in order,
  and below the two roots exactly the names that were asked for are captured, plain and
  Huffman coded.
\<close>

definition captures_exactly :: "(bytes \<Rightarrow> 'enc + bytes) \<Rightarrow> h2_parser \<Rightarrow> bool" where
  "captures_exactly encode p \<longleftrightarrow>
     (\<forall>w a. last_action (h2_dfa p) S_NAME_PLAIN w = Some a \<longleftrightarrow>
        (\<exists>name mid. map_of (h2_captures p) name = Some mid \<and> name \<noteq> [] \<and> w = map input_of name \<and>
           a = action_capture mid)) \<and>
     (\<forall>w a. last_action (h2_dfa p) S_NAME w = Some a \<longleftrightarrow>
        (\<exists>name mid coded. map_of (h2_captures p) name = Some mid \<and> encode name = Inr coded \<and> coded \<noteq> [] \<and>
           w = map input_of coded \<and> a = action_capture mid))"

definition captured_actions :: "h2_parser \<Rightarrow> h2_action set" where
  "captured_actions p = action_capture ` {mid. match_idx mid < h2_num_matches p}"

definition h2_inv :: "(bytes \<Rightarrow> 'enc + bytes) \<Rightarrow> h2_parser \<Rightarrow> bool" where
  "h2_inv encode p \<longleftrightarrow> wf_dfa (h2_dfa p) \<and> name_trie S_RESERVED name_roots (h2_dfa p) \<and>
     (\<forall>s i. s < S_RESERVED \<longrightarrow> s \<notin> name_roots \<longrightarrow> dfa_edge (h2_dfa p) s i = hpack_edge s i) \<and>
     h2_ids.ids_ok p \<and> captures_exactly encode p \<and>
     trie_actions S_RESERVED name_roots (captured_actions p) (h2_dfa p) \<and>
     (\<forall>name mid. map_of (h2_captures p) name = Some mid \<longrightarrow> (\<exists>coded. encode name = Inr coded))"

lemma h2_invD:
  assumes "h2_inv encode p"
  shows "wf_dfa (h2_dfa p)" and "name_trie S_RESERVED name_roots (h2_dfa p)"
    and "s < S_RESERVED \<Longrightarrow> s \<notin> name_roots \<Longrightarrow> dfa_edge (h2_dfa p) s i = hpack_edge s i"
    and "h2_ids.ids_ok p" and "captures_exactly encode p"
    and "trie_actions S_RESERVED name_roots (captured_actions p) (h2_dfa p)"
  using assms by (simp_all add: h2_inv_def)

lemma h2_inv_new:
  assumes "h2_new = Inr p"
  shows "h2_inv encode p" and "h2_captures p = []" and "h2_num_matches p = 0"
proof -
  from assms obtain d where d: "hpack_dfa = Inr d"
    and p: "h2_dfa p = d" "h2_num_matches p = 0" "h2_captures p = []"
    by (auto simp: h2_new_def res_simps)
  note w = hpack_dfa_wf [OF d] and n = hpack_name_trie [OF d]
  have "dfa_edge d s i = None" if "s \<in> name_roots \<or> S_RESERVED \<le> s" for s i
  proof -
    have "s \<notin> set (map fst hpack_bytes)" using that by (auto simp: name_roots_def hpack_states state_defs)
    with hpack_edge_states [of s i] show ?thesis by (simp add: w(3))
  qed
  then have "trie_actions S_RESERVED name_roots (captured_actions p) d" by (auto simp: trie_actions_def)
  with w n show "h2_inv encode p"
    by (simp add: h2_inv_def p name_roots_def captures_exactly_def h2_ids.ids_ok_def)
  show "h2_captures p = []" and "h2_num_matches p = 0" using p by simp_all
qed

lemma name_roots_simps [simp]: "S_NAME \<in> name_roots" "S_NAME_PLAIN \<in> name_roots" "S_NAME \<noteq> S_NAME_PLAIN" "S_NAME_PLAIN \<noteq> S_NAME"
  by (simp_all add: name_roots_def state_defs)

lemma action_capture_fresh:
  assumes "h2_ids.ids_ok p" and "map_of (h2_captures p) name = Some mid"
  shows "mid \<noteq> MatchId (h2_num_matches p)"
  using assms unfolding h2_ids.ids_ok_def by (metis match_id.sel order_less_irrefl)

text \<open>Two tries gain the name and its coded form; everything else they captured stays.\<close>

lemma captures_exactly_step:
  assumes inv: "captures_exactly encode p" and ok: "h2_ids.ids_ok p"
    and new: "map_of (h2_captures p) name = None" and enc: "encode name = Inr coded"
    and mid: "mid = MatchId (h2_num_matches p)"
    and plain: "\<And>w. last_action d S_NAME_PLAIN w =
      (if name \<noteq> [] \<and> w = map input_of name then Some (action_capture mid) else last_action (h2_dfa p) S_NAME_PLAIN w)"
    and coded: "\<And>w. last_action d S_NAME w =
      (if coded \<noteq> [] \<and> w = map input_of coded then Some (action_capture mid) else last_action (h2_dfa p) S_NAME w)"
    and ext: "extends (h2_dfa p) d"
  shows "captures_exactly encode (p\<lparr>h2_num_matches := n, h2_dfa := d, h2_captures := AList.update name mid (h2_captures p)\<rparr>)"
proof -
  have old_plain: "w \<noteq> map input_of name \<or> name = []" if "last_action (h2_dfa p) S_NAME_PLAIN w = Some a" for w a
  proof (rule ccontr)
    assume "\<not> (w \<noteq> map input_of name \<or> name = [])"
    then have w: "w = map input_of name" "name \<noteq> []" by simp_all
    from last_action_mono [OF ext that] have "a = action_capture mid" by (simp add: plain w)
    with inv that obtain name' mid' where "map_of (h2_captures p) name' = Some mid'" "mid' = mid"
      by (auto simp: captures_exactly_def)
    with action_capture_fresh [OF ok] mid show False by blast
  qed
  have old_coded: "w \<noteq> map input_of coded \<or> coded = []" if "last_action (h2_dfa p) S_NAME w = Some a" for w a
  proof (rule ccontr)
    assume "\<not> (w \<noteq> map input_of coded \<or> coded = [])"
    then have w: "w = map input_of coded" "coded \<noteq> []" by simp_all
    from last_action_mono [OF ext that] have "a = action_capture mid" by (simp add: assms(7) w)
    with inv that obtain name' mid' where "map_of (h2_captures p) name' = Some mid'" "mid' = mid"
      by (auto simp: captures_exactly_def)
    with action_capture_fresh [OF ok] mid show False by blast
  qed
  have p: "last_action (h2_dfa p) S_NAME_PLAIN w = Some a \<longleftrightarrow>
        (\<exists>name mid. map_of (h2_captures p) name = Some mid \<and> name \<noteq> [] \<and> w = map input_of name \<and>
           a = action_capture mid)"
    and c: "last_action (h2_dfa p) S_NAME w = Some a \<longleftrightarrow>
        (\<exists>name mid coded. map_of (h2_captures p) name = Some mid \<and> encode name = Inr coded \<and> coded \<noteq> [] \<and>
           w = map input_of coded \<and> a = action_capture mid)" for w a
    using inv by (simp_all add: captures_exactly_def)
  let ?caps = "AList.update name mid (h2_captures p)"
  have map: "map_of ?caps n = Some m \<longleftrightarrow> n = name \<and> m = mid \<or> map_of (h2_captures p) n = Some m" for n m
    using new by auto
  have "last_action d S_NAME_PLAIN w = Some a \<longleftrightarrow>
      (\<exists>n m. map_of ?caps n = Some m \<and> n \<noteq> [] \<and> w = map input_of n \<and> a = action_capture m)" for w a
  proof -
    have "last_action d S_NAME_PLAIN w = Some a \<longleftrightarrow>
        name \<noteq> [] \<and> w = map input_of name \<and> a = action_capture mid \<or> last_action (h2_dfa p) S_NAME_PLAIN w = Some a"
      using old_plain [of w a] by (auto simp: plain)
    also have "\<dots> \<longleftrightarrow> (\<exists>n m. map_of ?caps n = Some m \<and> n \<noteq> [] \<and> w = map input_of n \<and> a = action_capture m)"
      unfolding p map by blast
    finally show ?thesis .
  qed
  moreover have "last_action d S_NAME w = Some a \<longleftrightarrow>
      (\<exists>n m c. map_of ?caps n = Some m \<and> encode n = Inr c \<and> c \<noteq> [] \<and> w = map input_of c \<and> a = action_capture m)" for w a
  proof -
    have "last_action d S_NAME w = Some a \<longleftrightarrow>
        coded \<noteq> [] \<and> w = map input_of coded \<and> a = action_capture mid \<or> last_action (h2_dfa p) S_NAME w = Some a"
      using old_coded [of w a] by (auto simp: assms(7))
    also have "\<dots> \<longleftrightarrow> (\<exists>n m c. map_of ?caps n = Some m \<and> encode n = Inr c \<and> c \<noteq> [] \<and> w = map input_of c \<and> a = action_capture m)"
      unfolding c map using enc by auto
    finally show ?thesis .
  qed
  ultimately show ?thesis by (simp add: captures_exactly_def)
qed

lemma h2_inv_capture:
  assumes "h2_capture_hdr encode name p = Inr (r, p')" and "h2_inv encode p"
  shows "h2_inv encode p'"
proof (cases r)
  case (Inl e)
  with h2_capture_err assms show ?thesis by metis
next
  case (Inr mid)
  show ?thesis
  proof (cases "map_of (h2_captures p) name")
    case (Some m)
    with assms show ?thesis by (simp add: h2_capture_hdr_def)
  next
    case None
    note inv = h2_invD [OF assms(2)]
    have ids: "h2_ids.ids_ok p'" using h2_ids.capture_ids_ok [OF assms(1) inv(4)] by simp
    from assms(1) obtain coded d1 d2 where c: "encode name = Inr coded"
      "mid = MatchId (h2_num_matches p)"
      "capture_pattern S_NAME coded mid (h2_dfa p) = Inr d1"
      "capture_pattern S_NAME_PLAIN name mid d1 = Inr d2" and n: "h2_num_matches p < H2_MAX_MATCHES"
      and p': "p' = p\<lparr>h2_num_matches := h2_num_matches p + 1, h2_dfa := d2,
                h2_captures := AList.update name mid (h2_captures p)\<rparr>"
      using None unfolding Inr by (elim h2_capture_new) auto
    note s1 = capture_pattern_Inr [OF c(3) inv(1,2), simplified]
    note s2 = capture_pattern_Inr [OF c(4) s1(2,1), simplified]
    have "captures_exactly encode p'"
      unfolding p' by (rule captures_exactly_step [OF inv(5,4) None c(1,2)])
        (use s1 s2 in \<open>auto intro: extends_trans\<close>)
    moreover have "dfa_edge d2 s i = hpack_edge s i" if "s < S_RESERVED" "s \<notin> name_roots" for s i
      using inv(3) s1(5) s2(5) that by simp
    moreover have "\<forall>n m. map_of (h2_captures p') n = Some m \<longrightarrow> (\<exists>c. encode n = Inr c)"
      using assms(2) c(1) by (simp add: p' h2_inv_def)
    moreover have "trie_actions S_RESERVED name_roots (captured_actions p') d2"
    proof (rule trie_actions_mono)
      show "trie_actions S_RESERVED name_roots
          (insert (action_capture mid) (insert (action_capture mid) (captured_actions p))) d2"
        using s2(7) s1(7) inv(6) by blast
      have "h2_num_matches p < h2_num_matches p + 1"
        using h2_ids.less_Suc_limit n by blast
      then show "insert (action_capture mid) (insert (action_capture mid) (captured_actions p)) \<subseteq> captured_actions p'"
        by (auto simp: captured_actions_def p' c(2) intro: less_trans)
    qed
    ultimately show ?thesis using s2 ids by (simp add: h2_inv_def p')
  qed
qed

text \<open>A call never panics but for a DFA that runs out of states.\<close>

lemma h2_capture_panic:
  assumes "h2_capture_hdr encode name p = Inl q" and "h2_inv encode p"
    and inj: "\<And>a b c. encode a = Inr c \<Longrightarrow> encode b = Inr c \<Longrightarrow> a = b"
  obtains coded where "q = StateOverflow" and "encode name = Inr coded"
    and "0xFFFF < unat (num_states (h2_dfa p)) + length coded + length name"
proof -
  note inv = h2_invD [OF assms(2)]
  from assms(1) obtain coded where None: "map_of (h2_captures p) name = None" and c: "encode name = Inr coded"
    and run: "bind_res (capture_pattern S_NAME coded (MatchId (h2_num_matches p)) (h2_dfa p))
      (capture_pattern S_NAME_PLAIN name (MatchId (h2_num_matches p))) = Inl q"
    by (auto simp: h2_capture_hdr_def res_simps split: option.splits sum.splits)
  have coded: "last_action (h2_dfa p) S_NAME (map input_of coded) = None"
  proof (rule ccontr)
    assume "last_action (h2_dfa p) S_NAME (map input_of coded) \<noteq> None"
    then obtain n m c' where "map_of (h2_captures p) n = Some m" "encode n = Inr c'"
      "map input_of coded = map input_of c'"
      using inv(5) unfolding captures_exactly_def by blast
    moreover from this have "c' = coded" by (metis inj_map_eq_map inj_on_def input_of_inj)
    ultimately show False using inj c None by (metis option.distinct(1))
  qed
  have plain: "last_action (h2_dfa p) S_NAME_PLAIN (map input_of name) = None"
  proof (rule ccontr)
    assume "last_action (h2_dfa p) S_NAME_PLAIN (map input_of name) \<noteq> None"
    then obtain n m where "map_of (h2_captures p) n = Some m" "map input_of name = map input_of n"
      using inv(5) unfolding captures_exactly_def by blast
    moreover from this have "n = name" by (metis inj_map_eq_map inj_on_def input_of_inj)
    ultimately show False using None by simp
  qed
  show ?thesis
  proof (cases "capture_pattern S_NAME coded (MatchId (h2_num_matches p)) (h2_dfa p)")
    case (Inl q')
    with capture_pattern_Inl [OF Inl inv(1,2) _ coded] run that c show ?thesis by auto
  next
    case (Inr d1)
    note s1 = capture_pattern_Inr [OF Inr inv(1,2), simplified]
    have "capture_pattern S_NAME_PLAIN name (MatchId (h2_num_matches p)) d1 = Inl q" using run Inr by simp
    from capture_pattern_Inl [OF this s1(2,1)] s1(4) [of S_NAME_PLAIN] s1(6) plain that c show ?thesis by auto
  qed
qed

lemma h2_inv_capture_all:
  "capture_all (h2_capture_hdr encode) names p = Inr (rs, p') \<Longrightarrow> h2_inv encode p \<Longrightarrow> h2_inv encode p'"
  by (erule capture_all_invariant) (auto intro: h2_inv_capture)

subsection \<open>Room for the names\<close>

text \<open>The states a sequence of calls takes at most.\<close>

definition coded_length :: "(bytes \<Rightarrow> 'enc + bytes) \<Rightarrow> bytes \<Rightarrow> nat" where
  "coded_length encode name = (case encode name of Inl _ \<Rightarrow> 0 | Inr coded \<Rightarrow> length coded + length name)"

lemma h2_capture_num_states:
  assumes "h2_capture_hdr encode name p = Inr (r, p')" and "h2_inv encode p"
  shows "unat (num_states (h2_dfa p')) \<le> unat (num_states (h2_dfa p)) + coded_length encode name"
proof (cases r)
  case (Inl e)
  with h2_capture_err assms show ?thesis by (metis le_add1)
next
  case (Inr mid)
  note inv = h2_invD [OF assms(2)]
  show ?thesis
  proof (cases "map_of (h2_captures p) name")
    case (Some m)
    with assms show ?thesis by (simp add: h2_capture_hdr_def)
  next
    case None
    with assms(1) obtain coded d1 d2 where c: "encode name = Inr coded"
      "capture_pattern S_NAME coded mid (h2_dfa p) = Inr d1"
      "capture_pattern S_NAME_PLAIN name mid d1 = Inr d2" "h2_dfa p' = d2"
      unfolding Inr by (elim h2_capture_new) auto
    note s1 = capture_pattern_Inr [OF c(2) inv(1,2), simplified]
    note s2 = capture_pattern_Inr [OF c(3) s1(2,1), simplified]
    from s1(6) s2(6) c(1,4) show ?thesis by (simp add: coded_length_def)
  qed
qed

lemma h2_capture_all_fits:
  fixes cap :: "bytes \<Rightarrow> h2_parser \<Rightarrow> h2_action panic + (('enc, 'bpf, 'plain) beeper_error + match_id) \<times> h2_parser"
  assumes cap: "cap = h2_capture_hdr encode"
    and "unat (num_states (h2_dfa p)) + (\<Sum>name\<leftarrow>names. coded_length encode name) \<le> 0xFFFF"
    and "h2_inv encode p" and inj: "\<And>a b c. encode a = Inr c \<Longrightarrow> encode b = Inr c \<Longrightarrow> a = b"
  shows "\<exists>rs p'. capture_all cap names p = Inr (rs, p')"
  using assms(2,3)
proof (induction names arbitrary: p)
  case Nil
  then show ?case by simp
next
  case (Cons name names)
  show ?case
  proof (cases "cap name p")
    case (Inl q)
    from h2_capture_panic [OF Inl [unfolded cap] Cons.prems(2) inj] Cons.prems(1) show ?thesis
      by (fastforce simp: coded_length_def)
  next
    case (Inr rp)
    obtain r p1 where c: "cap name p = Inr (r, p1)" using Inr by (cases rp) simp
    have "unat (num_states (h2_dfa p1)) \<le> unat (num_states (h2_dfa p)) + coded_length encode name"
      using c [unfolded cap] Cons.prems(2) by (rule h2_capture_num_states)
    moreover have "h2_inv encode p1" using c [unfolded cap] Cons.prems(2) by (rule h2_inv_capture)
    ultimately obtain rs p' where "capture_all cap names p1 = Inr (rs, p')"
      using Cons.IH [of p1] Cons.prems(1) by auto
    with c show ?thesis by simp
  qed
qed

lemma h2_capture_all_num_states:
  "capture_all (h2_capture_hdr encode) names p = Inr (rs, p') \<Longrightarrow> h2_inv encode p \<Longrightarrow>
     unat (num_states (h2_dfa p')) \<le>
       unat (num_states (h2_dfa p)) + (\<Sum>name\<leftarrow>names. coded_length encode name)"
proof (induction names arbitrary: p rs)
  case (Cons name names)
  from Cons.prems(1) [unfolded capture_all.simps] show ?case
    by (elim bind_res_Inr_pairE)
      (use Cons.IH Cons.prems(2) h2_inv_capture h2_capture_num_states in fastforce)
qed simp

section \<open>Properties of the HTTP/2 parser\<close>

text \<open>An encoder for the witnesses: one byte of the code per byte of the name.\<close>

definition shifted :: "bytes \<Rightarrow> unit + bytes" where
  "shifted bs = Inr (map (\<lambda>b. b + 1) bs)"

lemma shifted_inj: "shifted a = Inr c \<Longrightarrow> shifted b = Inr c \<Longrightarrow> a = b"
  by (auto simp: shifted_def inj_map_eq_map inj_on_def)

lemma h2_new_total: "\<exists>p. h2_new = Inr p \<and> num_states (h2_dfa p) = 16"
proof -
  obtain d where d: "hpack_dfa = Inr d" using hpack_dfa_closed by blast
  with hpack_dfa_wf(2) [OF d] show ?thesis unfolding h2_new_def d bind_res_Inr by (simp add: S_RESERVED_def)
qed

text \<open>
  What a parser is as an id map.
\<close>

definition id_map_of :: "h2_parser \<Rightarrow> id_map" where
  "id_map_of p = (map_of (h2_captures p), unat (h2_num_matches p))"

lemma h2_capture_spec:
  assumes "h2_capture_hdr encode name p = Inr (r, p')"
  shows "spec_capture encode name (id_map_of p) = (r, id_map_of p')"
proof (cases "map_of (h2_captures p) name")
  case (Some mid)
  with assms show ?thesis by (auto simp: h2_capture_hdr_def spec_capture_def id_map_of_def)
next
  case None
  show ?thesis
  proof (cases r)
    case (Inl e)
    with None assms h2_capture_err [of encode name p e p'] show ?thesis
      by (auto simp: h2_capture_hdr_def spec_capture_def id_map_of_def res_simps error_from_encoder_def
          word_le_nat_alt split: sum.splits)
  next
    case (Inr mid)
    with assms None obtain coded where "encode name = Inr coded" and n: "h2_num_matches p < H2_MAX_MATCHES"
      and m: "mid = MatchId (h2_num_matches p)" and p': "h2_num_matches p' = h2_num_matches p + 1"
      "h2_captures p' = AList.update name mid (h2_captures p)"
      by (elim h2_capture_new [OF assms [unfolded Inr]]) auto
    moreover have "unat (h2_num_matches p + 1) = unat (h2_num_matches p) + 1"
      using n by (rule h2_alloc.num_Suc)
    ultimately show ?thesis
      using None Inr n by (simp add: spec_capture_def id_map_of_def word_less_nat_alt map_of_update)
  qed
qed

lemma h2_capture_all_spec:
  "capture_all (h2_capture_hdr encode) names p = Inr (rs, p') \<Longrightarrow>
     spec_capture_all encode names (id_map_of p) = (rs, id_map_of p')"
  by (induction names arbitrary: p rs) (auto simp: res_simps h2_capture_spec)

text \<open>A parser that was asked for three names, two of them the same, for the witnesses.\<close>

definition demo_names :: "bytes list" where
  "demo_names = [[0x74, 0x65], [0x76], [0x74, 0x65]]"

lemma h2_demo:
  obtains p p' where "h2_new = Inr p" and
    "capture_all (h2_capture_hdr shifted) demo_names p =
       Inr ([Inr (MatchId 0), Inr (MatchId 1), Inr (MatchId 0)] ::
         ((unit, unit, unit) beeper_error + match_id) list, p')"
    and "unat (num_states (h2_dfa p')) \<le> 1024"
proof -
  obtain p where p: "h2_new = Inr p" "num_states (h2_dfa p) = 16" using h2_new_total by blast
  note inv = h2_inv_new [OF p(1)]
  have "unat (num_states (h2_dfa p)) + (\<Sum>name\<leftarrow>demo_names. coded_length shifted name) \<le> 0xFFFF"
    by (simp add: p(2) demo_names_def coded_length_def shifted_def)
  then obtain rs p' where c: "capture_all (h2_capture_hdr shifted) demo_names p =
      Inr (rs :: ((unit, unit, unit) beeper_error + match_id) list, p')"
    using h2_capture_all_fits [OF refl _ inv(1)] shifted_inj by blast
  from h2_capture_all_spec [OF c] have "rs = [Inr (MatchId 0), Inr (MatchId 1), Inr (MatchId 0)]"
    by (simp add: demo_names_def spec_capture_def id_map_of_def inv shifted_def)
  moreover have "unat (num_states (h2_dfa p')) \<le> 1024"
    using h2_capture_all_num_states [OF c inv(1)] by (simp add: p(2) demo_names_def coded_length_def shifted_def)
  ultimately show ?thesis using p(1) c that by blast
qed

text \<open>
  C11: whatever names are asked for in whatever order, and
  whatever the encoder: below the root of plain names the parser runs an action at the end of
  a word exactly if a call returned an id for that name, and the action captures that id; below
  the root of coded names the same holds for the Huffman coded form. No other word of bytes runs
  an action, so no prefix, extension or other spelling of a name is captured.
\<close>

theorem h2_captures_the_names_asked_for:
  assumes "h2_new = Inr p" and "capture_all (h2_capture_hdr encode) names p = Inr (rs, p')"
  shows "(last_action (h2_dfa p') S_NAME_PLAIN w = Some a \<longleftrightarrow>
      (\<exists>name mid. (name, Inr mid) \<in> set (zip names rs) \<and> name \<noteq> [] \<and> w = map input_of name \<and>
         a = action_capture mid)) \<and>
    (last_action (h2_dfa p') S_NAME w = Some a \<longleftrightarrow>
      (\<exists>name mid coded. (name, Inr mid) \<in> set (zip names rs) \<and> encode name = Inr coded \<and> coded \<noteq> [] \<and>
         w = map input_of coded \<and> a = action_capture mid))"
proof -
  note n = h2_inv_new [OF assms(1)]
  have reg: "map_of (h2_captures p') name = Some mid \<longleftrightarrow> (name, Inr mid) \<in> set (zip names rs)" for name mid
    using h2_ids.capture_all_registered [OF assms(2) h2_invD(4) [OF n(1)]] by (simp add: n(2))
  have "captures_exactly encode p'"
    using h2_inv_capture_all [OF assms(2) n(1)] by (rule h2_invD)
  then show ?thesis by (simp add: captures_exactly_def reg)
qed

theorem h2_captures_the_names_asked_for_witness:
  "\<exists>p :: h2_parser. last_action (h2_dfa p) S_NAME_PLAIN (map input_of [0x74, 0x65]) = Some (action_capture (MatchId 0)) \<and>
     last_action (h2_dfa p) S_NAME (map input_of [0x75, 0x66]) = Some (action_capture (MatchId 0)) \<and>
     last_action (h2_dfa p) S_NAME_PLAIN (map input_of [0x74]) \<noteq> Some (action_capture (MatchId 0))"
proof -
  obtain p p' where d: "h2_new = Inr p" "capture_all (h2_capture_hdr shifted) demo_names p =
      Inr ([Inr (MatchId 0), Inr (MatchId 1), Inr (MatchId 0)] ::
         ((unit, unit, unit) beeper_error + match_id) list, p')"
    by (rule h2_demo)
  have te: "([0x74, 0x65], Inr (MatchId 0)) \<in> set (zip demo_names
      ([Inr (MatchId 0), Inr (MatchId 1), Inr (MatchId 0)] :: ((unit, unit, unit) beeper_error + match_id) list))"
    by (simp add: demo_names_def)
  note t = h2_captures_the_names_asked_for [OF d]
  have "last_action (h2_dfa p') S_NAME_PLAIN (map input_of [0x74, 0x65]) = Some (action_capture (MatchId 0))"
    using te by (intro t [THEN conjunct1, THEN iffD2]) blast
  moreover have "last_action (h2_dfa p') S_NAME (map input_of [0x75, 0x66]) = Some (action_capture (MatchId 0))"
    using te by (intro t [THEN conjunct2, THEN iffD2] exI [of _ "[0x74, 0x65]"] exI [of _ "MatchId 0"]
        exI [of _ "[0x75, 0x66]"]) (simp add: shifted_def)
  moreover have "last_action (h2_dfa p') S_NAME_PLAIN (map input_of [0x74]) \<noteq> Some (action_capture (MatchId 0))"
  proof
    assume "last_action (h2_dfa p') S_NAME_PLAIN (map input_of [0x74]) = Some (action_capture (MatchId 0))"
    with t obtain name where "name \<in> set demo_names" "map input_of [0x74] = map input_of name"
      by (blast dest: set_zip_leftD)
    then show False by (auto simp: demo_names_def)
  qed
  ultimately show ?thesis by blast
qed

text \<open>
  C15: \<open>capture_hdr\<close> implements the contract of an id map, for
  any sequence of calls and with every error: a name that is known gets the id it has, a name
  the encoder rejects an \<open>InvalidEncoding\<close>, the 33rd name a \<open>MatchLimitExceeded\<close>, and none
  of these changes the parser; any other name gets the next id.
\<close>

theorem h2_capture_refines_id_map:
  assumes "capture_all (h2_capture_hdr encode) names p = Inr (rs, p')"
  shows "spec_capture_all encode names (id_map_of p) = (rs, id_map_of p')"
  using assms by (rule h2_capture_all_spec)

theorem h2_capture_refines_id_map_witness:
  "\<exists>(p :: h2_parser) p'. spec_capture_all shifted demo_names (id_map_of p) =
     ([Inr (MatchId 0), Inr (MatchId 1), Inr (MatchId 0)] :: ((unit, unit, unit) beeper_error + match_id) list,
      id_map_of p')"
proof -
  obtain p p' where d: "h2_new = Inr p" "capture_all (h2_capture_hdr shifted) demo_names p =
      Inr ([Inr (MatchId 0), Inr (MatchId 1), Inr (MatchId 0)] ::
         ((unit, unit, unit) beeper_error + match_id) list, p')"
    by (rule h2_demo)
  from h2_capture_refines_id_map [OF d(2)] show ?thesis by blast
qed

text \<open>
  Two calls get the same id exactly if they ask for the same
  name, and every id is below the number of matches the parser program tells apart.
\<close>

theorem h2_same_id_iff_same_name:
  assumes "h2_new = Inr p" and "capture_all (h2_capture_hdr encode) names p = Inr (rs, p')"
    and "(name, Inr mid) \<in> set (zip names rs)" and "(name', Inr mid') \<in> set (zip names rs)"
  shows "(mid = mid' \<longleftrightarrow> name = name') \<and> unat (match_idx mid) < 32"
proof -
  note ok = h2_invD(4) [OF h2_inv_new(1) [OF assms(1)]]
  note ids = h2_ids.capture_all_same_id_iff [OF assms(2) ok assms(3,4)]
  then show ?thesis by (simp add: word_less_nat_alt)
qed

theorem h2_same_id_iff_same_name_witness:
  "(MatchId 0 = MatchId 1 \<longleftrightarrow> [0x74, 0x65] = ([0x76] :: bytes)) \<and> unat (match_idx (MatchId 0)) < 32"
proof -
  obtain p p' where d: "h2_new = Inr p" "capture_all (h2_capture_hdr shifted) demo_names p =
      Inr ([Inr (MatchId 0), Inr (MatchId 1), Inr (MatchId 0)] ::
         ((unit, unit, unit) beeper_error + match_id) list, p')"
    by (rule h2_demo)
  show ?thesis by (rule h2_same_id_iff_same_name [OF d]) (simp_all add: demo_names_def)
qed

text \<open>
  C25: with an encoder that tells names apart, no sequence of calls
  panics as long as the names and their coded forms are not longer than the 65519 states
  together that a \<open>StateId\<close> leaves besides the reserved ones.
\<close>

theorem h2_capture_never_panics:
  fixes cap :: "bytes \<Rightarrow> h2_parser \<Rightarrow> h2_action panic + (('enc, 'bpf, 'plain) beeper_error + match_id) \<times> h2_parser"
  assumes "h2_new = Inr p" and "cap = h2_capture_hdr encode"
    and "\<And>a b c. encode a = Inr c \<Longrightarrow> encode b = Inr c \<Longrightarrow> a = b"
    and "(\<Sum>name\<leftarrow>names. coded_length encode name) \<le> 65519"
  shows "\<exists>rs p'. capture_all cap names p = Inr (rs, p')"
proof -
  have "num_states (h2_dfa p) = 16" using h2_new_total assms(1) by (metis sum.inject(2))
  then have "unat (num_states (h2_dfa p)) + (\<Sum>name\<leftarrow>names. coded_length encode name) \<le> 0xFFFF"
    using assms(4) by simp
  then show ?thesis by (rule h2_capture_all_fits [OF assms(2) _ h2_inv_new(1) [OF assms(1)]]) (rule assms(3))
qed

theorem h2_capture_never_panics_witness:
  "\<exists>p rs p'. capture_all (h2_capture_hdr shifted) (replicate 40 [0x61, 0x62]) p =
     Inr (rs :: ((unit, unit, unit) beeper_error + match_id) list, p')"
proof -
  obtain p where "h2_new = Inr p" using h2_new_total by blast
  moreover have "(\<Sum>name\<leftarrow>replicate 40 [0x61, 0x62]. coded_length shifted name) \<le> 65519"
    by (simp add: sum_list_replicate coded_length_def shifted_def)
  ultimately have "\<exists>rs p'. capture_all (h2_capture_hdr shifted) (replicate 40 [0x61, 0x62]) p =
      Inr (rs :: ((unit, unit, unit) beeper_error + match_id) list, p')"
    by (intro h2_capture_never_panics [OF _ refl]) (auto dest: shifted_inj)
  then show ?thesis by blast
qed

text \<open>
  The patterns of the names live below the two roots only:
  in every other reserved state the parser reads a byte the way \<open>hpack_edge\<close> says, whatever
  it captures, so capturing never changes how a header block is split into fields.
\<close>

theorem h2_representations_stay_intact:
  assumes "h2_new = Inr p" and "capture_all (h2_capture_hdr encode) names p = Inr (rs, p')"
    and "s < S_RESERVED" and "s \<noteq> S_NAME" and "s \<noteq> S_NAME_PLAIN"
  shows "dfa_edge (h2_dfa p') s i = hpack_edge s i"
proof (rule h2_invD(3))
  show "h2_inv encode p'" using assms(2) h2_inv_new(1) [OF assms(1)] by (rule h2_inv_capture_all)
qed (use assms in \<open>simp_all add: name_roots_def\<close>)

theorem h2_representations_stay_intact_witness:
  "\<exists>p :: h2_parser. dfa_edge (h2_dfa p) S_FIELD 0x82 =
     Some \<lparr>edge_to = S_FIELD, edge_action = Some (Action2 Indexed 2 0)\<rparr>"
proof -
  obtain p p' where d: "h2_new = Inr p" "capture_all (h2_capture_hdr shifted) demo_names p =
      Inr ([Inr (MatchId 0), Inr (MatchId 1), Inr (MatchId 0)] ::
         ((unit, unit, unit) beeper_error + match_id) list, p')"
    by (rule h2_demo)
  have "dfa_edge (h2_dfa p') S_FIELD 0x82 = hpack_edge S_FIELD 0x82"
    by (rule h2_representations_stay_intact [OF d]) (simp_all add: state_defs)
  also have "\<dots> = Some \<lparr>edge_to = S_FIELD, edge_action = Some (Action2 Indexed 2 0)\<rparr>"
    by (simp add: hpack_edge_def hpack_bytes_def first_byte_def Let_def state_defs)
  finally show ?thesis by blast
qed

end
