(* ===== verification/Http2_Conn.thy ===== *)
theory Http2_Conn
  imports Lib_Types
begin

section \<open>Connections and their dynamic tables (\<open>beeper/src/http2\<close>: \<open>mod.rs\<close>, \<open>parser.rs\<close>)\<close>

text \<open>
  The addresses the programs key their state by, and the methods of an attached parser that
  read and remove the dynamic table of a connection. The maps are those of libbpf: a
  \<open>map_handle\<close> holds its operations as parameters, and \<open>map_laws\<close> states what is documented
  of a hash map. \<open>from_bytes\<close> is \<open>plain::from_bytes\<close>. The additions on \<open>u32\<close> wrap, as they
  do in a release build.
\<close>

subsection \<open>Addresses\<close>

datatype socket_addr =
    V4 "u8 \<times> u8 \<times> u8 \<times> u8" u16
  | V6 "u16 list" u16

record ip4_addr =
  ip4 :: u32
  port :: u32

record ip4_conn =
  local_addr :: ip4_addr
  remote_addr :: ip4_addr

text \<open>\<open>u32::from_ne_bytes\<close>, whose order of the bytes depends on the host.\<close>

definition from_ne_bytes :: "bool \<Rightarrow> u8 \<times> u8 \<times> u8 \<times> u8 \<Rightarrow> u32" where
  "from_ne_bytes big_endian = (\<lambda>(a, b, c, d).
     if big_endian then word_of_nat (((unat a * 256 + unat b) * 256 + unat c) * 256 + unat d)
     else word_of_nat (((unat d * 256 + unat c) * 256 + unat b) * 256 + unat a))"

definition ip4_addr_from :: "bool \<Rightarrow> socket_addr \<Rightarrow> 'a panic + ip4_addr" where
  "ip4_addr_from big_endian addr = (case addr of
       V4 octets p \<Rightarrow> Inr \<lparr>ip4 = from_ne_bytes big_endian octets, port = ucast p\<rparr>
     | V6 _ _ \<Rightarrow> Inl Ipv6Address)"

definition conn_of :: "bool \<Rightarrow> socket_addr \<Rightarrow> socket_addr \<Rightarrow> 'a panic + ip4_conn" where
  "conn_of big_endian local remote =
     bind_res (ip4_addr_from big_endian local) (\<lambda>l.
     bind_res (ip4_addr_from big_endian remote) (\<lambda>r. Inr \<lparr>local_addr = l, remote_addr = r\<rparr>))"

lemma u32_of_nat_eq:
  assumes "m < 2 ^ 32" and "n < 2 ^ 32" and "(word_of_nat m :: u32) = word_of_nat n"
  shows "m = n"
proof -
  have "unat (word_of_nat k :: u32) = k" if "k < 2 ^ 32" for k
    using that by (simp add: unsigned_of_nat take_bit_nat_eq_self)
  with assms show ?thesis by metis
qed

lemma digit_eq: "(d :: nat) < 256 \<Longrightarrow> d' < 256 \<Longrightarrow> x * 256 + d = y * 256 + d' \<Longrightarrow> x = y \<and> d = d'"
proof -
  assume d: "d < 256" "d' < 256" and eq: "x * 256 + d = y * 256 + d'"
  from d have "(x * 256 + d) mod 256 = d" and "(y * 256 + d') mod 256 = d'" by simp_all
  with eq have "d = d'" by metis
  with eq show "x = y \<and> d = d'" by simp
qed

lemma four_bytes_inj:
  fixes a b c d :: nat
  assumes "a < 256" "b < 256" "c < 256" "d < 256" "a' < 256" "b' < 256" "c' < 256" "d' < 256"
    and "(word_of_nat (((a * 256 + b) * 256 + c) * 256 + d) :: u32) =
      word_of_nat (((a' * 256 + b') * 256 + c') * 256 + d')"
  shows "a = a' \<and> b = b' \<and> c = c' \<and> d = d'"
proof -
  have "((a * 256 + b) * 256 + c) * 256 + d < 2 ^ 32" and "((a' * 256 + b') * 256 + c') * 256 + d' < 2 ^ 32"
    using assms(1-8) by simp_all
  then have "((a * 256 + b) * 256 + c) * 256 + d = ((a' * 256 + b') * 256 + c') * 256 + d'"
    using assms(9) by (rule u32_of_nat_eq)
  with assms(1-8) show ?thesis by (blast dest: digit_eq)
qed

lemma u8_less: "unat (a :: u8) < 256"
  using unsigned_less [of a, where ?'a = nat] by simp

lemma from_ne_bytes_inj: "from_ne_bytes be x = from_ne_bytes be y \<longleftrightarrow> x = y"
proof
  obtain a b c d a' b' c' d' where xy: "x = (a, b, c, d)" "y = (a', b', c', d')"
    by (metis surj_pair)
  assume "from_ne_bytes be x = from_ne_bytes be y"
  then show "x = y"
    using four_bytes_inj [OF u8_less u8_less u8_less u8_less u8_less u8_less u8_less u8_less, of a b c d a' b' c' d']
      four_bytes_inj [OF u8_less u8_less u8_less u8_less u8_less u8_less u8_less u8_less, of d c b a d' c' b' a']
    by (cases be) (auto simp: from_ne_bytes_def xy word_unat_eq_iff)
qed simp

lemma ucast_port_inj: "(ucast (p :: u16) :: u32) = ucast q \<longleftrightarrow> p = q"
proof
  assume eq: "(ucast p :: u32) = ucast q"
  have "unat (ucast r :: u32) = unat r" for r :: u16
    using unsigned_less [of r, where ?'a = nat] by (simp add: unsigned_ucast_eq take_bit_nat_eq_self)
  then show "p = q" using eq by (metis word_unat_eq_iff)
qed simp

lemma conn_of_Inr [res_simps]:
  "conn_of be l r = Inr conn \<longleftrightarrow> (\<exists>a p b q. l = V4 a p \<and> r = V4 b q \<and>
     conn = \<lparr>local_addr = \<lparr>ip4 = from_ne_bytes be a, port = ucast p\<rparr>,
             remote_addr = \<lparr>ip4 = from_ne_bytes be b, port = ucast q\<rparr>\<rparr>)"
  by (cases l; cases r) (auto simp: conn_of_def ip4_addr_from_def)

subsection \<open>The dynamic tables in the maps of the programs\<close>

record dynamic_table_info =
  dt_count :: u32
  dt_size :: u32
  dt_max_size :: u32
  dt_deleted :: u32
  dt_dirty :: u32

record dynamic_table_key =
  dtk_conn :: ip4_conn
  dtk_idx :: u32

text \<open>A handle of a map with keys \<open>'k\<close>; \<open>'m\<close> is the content of the map.\<close>

record ('k, 'm, 'bpf) map_handle =
  mh_lookup :: "'m \<Rightarrow> 'k \<Rightarrow> 'bpf + bytes option"
  mh_delete :: "'k \<Rightarrow> 'm \<Rightarrow> 'bpf option \<times> 'm"
  mh_not_found :: "'bpf \<Rightarrow> bool"

definition DYNAMIC_TABLE_BASE :: u32 where "DYNAMIC_TABLE_BASE = 62"

definition delete_if_present ::
  "('k, 'm, 'bpf) map_handle \<Rightarrow> 'k \<Rightarrow> 'm \<Rightarrow> ('enc, 'bpf, 'plain) beeper_error + 'm" where
  "delete_if_present h key m =
     (case mh_delete h key m of
        (Some e, m') \<Rightarrow> if \<not> mh_not_found h e then Inl (error_from_bpf e) else Inr m'
      | (None, m') \<Rightarrow> Inr m')"

text \<open>\<open>Some (Ok info)\<close>, \<open>Some (Err err)\<close>, and \<open>None\<close> for a connection without a table.\<close>

definition dynamic_table_info ::
  "(ip4_conn, 'i, 'bpf) map_handle \<Rightarrow> (bytes \<Rightarrow> 'plain + dynamic_table_info) \<Rightarrow> bool \<Rightarrow>
     socket_addr \<Rightarrow> socket_addr \<Rightarrow> 'i \<Rightarrow>
     'a panic + (('enc, 'bpf, 'plain) beeper_error + dynamic_table_info) option" where
  "dynamic_table_info hi from_bytes big_endian local remote mi =
     bind_res (conn_of big_endian local remote) (\<lambda>conn. Inr
       (case mh_lookup hi mi conn of
          Inl e \<Rightarrow> Some (Inl (error_from_bpf e))
        | Inr None \<Rightarrow> None
        | Inr (Some val) \<Rightarrow>
            (case from_bytes val of
               Inr info \<Rightarrow> Some (Inr info)
             | Inl e \<Rightarrow> Some (Inl (error_from_plain e)))))"

definition entry_indices :: "dynamic_table_info \<Rightarrow> u32 list" where
  "entry_indices info =
     (let first = DYNAMIC_TABLE_BASE + dt_deleted info in
      map word_of_nat [unat first..<unat (first + dt_count info)])"

definition forget_conn ::
  "(ip4_conn, 'i, 'bpf) map_handle \<Rightarrow> (dynamic_table_key, 'e, 'bpf) map_handle \<Rightarrow>
     (bytes \<Rightarrow> 'plain + dynamic_table_info) \<Rightarrow> bool \<Rightarrow> socket_addr \<Rightarrow> socket_addr \<Rightarrow> 'i \<times> 'e \<Rightarrow>
     'a panic + (('enc, 'bpf, 'plain) beeper_error + 'i \<times> 'e)" where
  "forget_conn hi he from_bytes big_endian local remote = (\<lambda>(mi, me).
     bind_res (conn_of big_endian local remote) (\<lambda>conn. Inr
       (case mh_lookup hi mi conn of
          Inl e \<Rightarrow> Inl (error_from_bpf e)
        | Inr None \<Rightarrow> Inr (mi, me)
        | Inr (Some val) \<Rightarrow>
            (case from_bytes val of
               Inl e \<Rightarrow> Inl (error_from_plain e)
             | Inr info \<Rightarrow>
                 bind_res (fold_res (\<lambda>idx. delete_if_present he \<lparr>dtk_conn = conn, dtk_idx = idx\<rparr>)
                   (entry_indices info) me) (\<lambda>me.
                 bind_res (delete_if_present hi conn mi) (\<lambda>mi. Inr (mi, me)))))))"

text \<open>
  What is documented of a hash map of the kernel, whose content is \<open>get\<close>: a lookup that
  succeeds returns the value, a \<open>delete\<close> that succeeds removes the key, and one that fails
  leaves the map as it is; it fails with \<open>ENOENT\<close> only for a key without a value.
\<close>

definition map_laws :: "('k, 'm, 'bpf) map_handle \<Rightarrow> ('m \<Rightarrow> 'k \<Rightarrow> bytes option) \<Rightarrow> bool" where
  "map_laws h get \<longleftrightarrow>
     (\<forall>m k v. mh_lookup h m k = Inr v \<longrightarrow> v = get m k) \<and>
     (\<forall>m k m'. mh_delete h k m = (None, m') \<longrightarrow> get m' = (get m)(k := None)) \<and>
     (\<forall>m k e m'. mh_delete h k m = (Some e, m') \<longrightarrow> get m' = get m \<and> (mh_not_found h e \<longrightarrow> get m k = None))"

lemma delete_if_present_Inr:
  assumes "delete_if_present h k m = Inr m'" and "map_laws h get"
  shows "get m' = (get m)(k := None)"
proof (cases "mh_delete h k m")
  case (Pair r m1)
  with assms show ?thesis
    by (cases r) (auto simp: delete_if_present_def map_laws_def fun_eq_iff split: if_splits)
qed

lemma delete_all_Inr:
  assumes "fold_res (\<lambda>x. delete_if_present h (k x)) xs m = Inr m'" and "map_laws h get"
  shows "get m' key = (if key \<in> k ` set xs then None else get m key)"
  using assms(1)
proof (induction xs arbitrary: m)
  case (Cons x xs)
  from Cons.prems [unfolded fold_res.simps] show ?case
    by (rule bind_res_InrE) (auto dest!: Cons.IH delete_if_present_Inr [OF _ assms(2)])
qed simp

text \<open>The indices the live entries of a table are stored under, as long as the counters do not wrap.\<close>

lemma entry_indices_set:
  assumes "62 + unat (dt_deleted info) + unat (dt_count info) < 2 ^ 32"
  shows "idx \<in> set (entry_indices info) \<longleftrightarrow>
     62 + unat (dt_deleted info) \<le> unat idx \<and> unat idx < 62 + unat (dt_deleted info) + unat (dt_count info)"
proof -
  have first: "unat (DYNAMIC_TABLE_BASE + dt_deleted info) = 62 + unat (dt_deleted info)"
    and last: "unat (DYNAMIC_TABLE_BASE + dt_deleted info + dt_count info) = 62 + unat (dt_deleted info) + unat (dt_count info)"
    using assms by (simp_all add: DYNAMIC_TABLE_BASE_def unat_word_ariths)
  have "idx \<in> word_of_nat ` {m..<n} \<longleftrightarrow> m \<le> unat idx \<and> unat idx < n" if "n < 2 ^ 32" for m n
  proof
    assume "idx \<in> word_of_nat ` {m..<n}"
    then obtain k where k: "idx = word_of_nat k" "m \<le> k" "k < n" by auto
    then have "k < 2 ^ 32" using that by simp
    then have "unat (word_of_nat k :: u32) = k" by (simp add: unsigned_of_nat take_bit_nat_eq_self)
    with k show "m \<le> unat idx \<and> unat idx < n" by simp
  next
    assume "m \<le> unat idx \<and> unat idx < n"
    then show "idx \<in> word_of_nat ` {m..<n}" by (intro image_eqI [of _ _ "unat idx"]) simp_all
  qed
  from this [OF assms] show ?thesis
    unfolding entry_indices_def Let_def first last by simp
qed

lemma forget_conn_info:
  assumes "map_laws hi geti"
    and "forget_conn hi he from_bytes be local remote (mi, me) =
      (Inr (Inr (mi', me')) :: 'a panic + (('enc, 'bpf, 'plain) beeper_error + 'i \<times> 'e))"
    and "conn_of be local remote = (Inr conn :: 'a panic + ip4_conn)"
  shows "geti mi' = (geti mi)(conn := None)"
proof (cases "mh_lookup hi mi conn")
  case (Inr v)
  have v: "v = geti mi conn" using assms(1) Inr by (simp add: map_laws_def)
  show ?thesis
  proof (cases v)
    case None
    with v have "(geti mi)(conn := None) = geti mi" by (simp add: fun_eq_iff)
    with assms(2,3) Inr None show ?thesis by (simp add: forget_conn_def)
  next
    case (Some val)
    with assms(2,3) Inr obtain m where "(delete_if_present hi conn mi :: ('enc, 'bpf, 'plain) beeper_error + _) = Inr m"
      and "mi' = m"
      by (auto simp: forget_conn_def res_simps split: sum.splits)
    then show ?thesis by (simp add: delete_if_present_Inr [OF _ assms(1)])
  qed
qed (use assms(2,3) in \<open>simp add: forget_conn_def\<close>)

lemma forget_conn_maps:
  assumes "map_laws hi geti" and "map_laws he gete"
    and "forget_conn hi he from_bytes be local remote (mi, me) =
      (Inr (Inr (mi', me')) :: 'a panic + (('enc, 'bpf, 'plain) beeper_error + 'i \<times> 'e))"
    and "conn_of be local remote = (Inr conn :: 'a panic + ip4_conn)"
    and "\<forall>val info. geti mi conn = Some val \<longrightarrow> from_bytes val = Inr info \<longrightarrow>
      62 + unat (dt_deleted info) + unat (dt_count info) < 2 ^ 32"
  shows "geti mi' = (geti mi)(conn := None) \<and>
     (case geti mi conn of
        None \<Rightarrow> gete me' = gete me
      | Some val \<Rightarrow> \<exists>info. from_bytes val = Inr info \<and>
          (\<forall>key. gete me' key =
            (if dtk_conn key = conn \<and> 62 + unat (dt_deleted info) \<le> unat (dtk_idx key) \<and>
                unat (dtk_idx key) < 62 + unat (dt_deleted info) + unat (dt_count info)
             then None else gete me key)))"
proof (cases "mh_lookup hi mi conn")
  case (Inl e)
  with assms(3,4) show ?thesis by (simp add: forget_conn_def)
next
  case (Inr v)
  have v: "v = geti mi conn" using assms(1) Inr by (simp add: map_laws_def)
  show ?thesis
  proof (cases v)
    case None
    have get: "geti mi conn = None" using v None by simp
    have "(geti mi)(conn := None) = geti mi" by (rule ext) (simp add: get)
    moreover have "mi' = mi \<and> me' = me" using assms(3,4) Inr None by (simp add: forget_conn_def)
    ultimately show ?thesis by (simp add: get)
  next
    case (Some val)
    with assms(3,4) Inr obtain info where info: "from_bytes val = Inr info"
      and run: "bind_res (fold_res (\<lambda>idx. delete_if_present he \<lparr>dtk_conn = conn, dtk_idx = idx\<rparr>)
          (entry_indices info) me) (\<lambda>me. bind_res (delete_if_present hi conn mi) (\<lambda>mi. Inr (mi, me))) =
        (Inr (mi', me') :: ('enc, 'bpf, 'plain) beeper_error + 'i \<times> 'e)"
      by (auto simp: forget_conn_def split: sum.splits)
    have get: "geti mi conn = Some val" using v Some by simp
    have idx: "dtk_conn key = conn \<and> 62 + unat (dt_deleted info) \<le> unat (dtk_idx key) \<and>
        unat (dtk_idx key) < 62 + unat (dt_deleted info) + unat (dt_count info) \<longleftrightarrow>
        key \<in> (\<lambda>idx. \<lparr>dtk_conn = conn, dtk_idx = idx\<rparr>) ` set (entry_indices info)" for key :: dynamic_table_key
      using entry_indices_set [OF assms(5) [rule_format, OF get info]] by (cases key) force
    from run show ?thesis
      by (elim bind_res_InrE)
        (simp add: get info idx delete_if_present_Inr [OF _ assms(1)] delete_all_Inr [OF _ assms(2)])
  qed
qed

subsection \<open>Properties\<close>

text \<open>
  C29: the key a connection is looked up by is made for any two IPv4
  endpoints and panics for an IPv6 one, on hosts of either byte order, and no two
  connections share it.
\<close>

theorem conn_keys_are_exact:
  "((\<exists>conn. conn_of be l r = (Inr conn :: 'a panic + ip4_conn)) \<longleftrightarrow>
      (\<exists>a p b q. l = V4 a p \<and> r = V4 b q)) \<and>
   (conn_of be (V4 a p) (V4 b q) = (conn_of be (V4 a' p') (V4 b' q') :: 'a panic + ip4_conn) \<longleftrightarrow>
      a = a' \<and> p = p' \<and> b = b' \<and> q = q')"
proof
  show "(\<exists>conn. conn_of be l r = (Inr conn :: 'a panic + ip4_conn)) \<longleftrightarrow> (\<exists>a p b q. l = V4 a p \<and> r = V4 b q)"
    unfolding conn_of_Inr by blast
  show "conn_of be (V4 a p) (V4 b q) = (conn_of be (V4 a' p') (V4 b' q') :: 'a panic + ip4_conn) \<longleftrightarrow>
      a = a' \<and> p = p' \<and> b = b' \<and> q = q'"
    by (simp add: conn_of_def ip4_addr_from_def from_ne_bytes_inj ucast_port_inj)
qed

text \<open>
  C17: a call of \<open>forget_conn\<close> that succeeds has removed
  the state of the connection and exactly the live entries of its dynamic table, which lie
  above the evicted ones; the tables of all other connections are untouched. A connection the
  program has not seen changes nothing.
\<close>

theorem forget_conn_removes_exactly_the_table:
  assumes "map_laws hi geti" and "map_laws he gete"
    and "forget_conn hi he from_bytes be local remote (mi, me) =
      (Inr (Inr (mi', me')) :: 'a panic + (('enc, 'bpf, 'plain) beeper_error + 'i \<times> 'e))"
    and "conn_of be local remote = (Inr conn :: 'a panic + ip4_conn)"
    and "\<And>val info. geti mi conn = Some val \<Longrightarrow> from_bytes val = Inr info \<Longrightarrow>
      62 + unat (dt_deleted info) + unat (dt_count info) < 2 ^ 32"
  shows "geti mi' = (geti mi)(conn := None) \<and>
     (case geti mi conn of
        None \<Rightarrow> gete me' = gete me
      | Some val \<Rightarrow> \<exists>info. from_bytes val = Inr info \<and>
          (\<forall>key. gete me' key =
            (if dtk_conn key = conn \<and> 62 + unat (dt_deleted info) \<le> unat (dtk_idx key) \<and>
                unat (dtk_idx key) < 62 + unat (dt_deleted info) + unat (dt_count info)
             then None else gete me key)))"
  by (rule forget_conn_maps [OF assms(1-4)]) (use assms(5) in blast)

text \<open>Maps as functions, for the witness: the byte of a table is the number of its entries.\<close>

definition fun_map :: "('k, 'k \<Rightarrow> bytes option, unit) map_handle" where
  "fun_map = \<lparr>mh_lookup = (\<lambda>m k. Inr (m k)),
     mh_delete = (\<lambda>k m. if m k = None then (Some (), m) else (None, m(k := None))),
     mh_not_found = (\<lambda>_. True)\<rparr>"

lemma fun_map_laws: "map_laws fun_map (\<lambda>m. m)"
  by (auto simp: map_laws_def fun_map_def split: if_splits)

definition count_info :: "bytes \<Rightarrow> unit + dynamic_table_info" where
  "count_info val = Inr \<lparr>dt_count = ucast (hd val), dt_size = 0, dt_max_size = 4096, dt_deleted = 1, dt_dirty = 0\<rparr>"

theorem forget_conn_removes_exactly_the_table_witness:
  "\<exists>(conn :: ip4_conn) mi' me'.
     forget_conn fun_map fun_map count_info False (V4 (127, 0, 0, 1) 80) (V4 (127, 0, 0, 1) 9)
       (\<lambda>_. Some [2], \<lambda>_. Some [7]) =
       (Inr (Inr (mi', me')) :: unit panic + ((unit, unit, unit) beeper_error + _)) \<and>
     mi' conn = None \<and> me' \<lparr>dtk_conn = conn, dtk_idx = 64\<rparr> = None \<and>
     me' \<lparr>dtk_conn = conn, dtk_idx = 65\<rparr> = Some [7]"
proof -
  let ?mi = "(\<lambda>_. Some [2]) :: ip4_conn \<Rightarrow> bytes option"
  let ?me = "(\<lambda>_. Some [7]) :: dynamic_table_key \<Rightarrow> bytes option"
  obtain conn where conn: "conn_of False (V4 (127, 0, 0, 1) 80) (V4 (127, 0, 0, 1) 9) =
      (Inr conn :: unit panic + ip4_conn)"
    using conn_of_Inr by blast
  obtain mi' me' where run: "forget_conn fun_map fun_map count_info False (V4 (127, 0, 0, 1) 80) (V4 (127, 0, 0, 1) 9)
       (?mi, ?me) = (Inr (Inr (mi', me')) :: unit panic + ((unit, unit, unit) beeper_error + _))"
    by (simp add: forget_conn_def conn fun_map_def count_info_def entry_indices_def DYNAMIC_TABLE_BASE_def
        delete_if_present_def)
  note * = forget_conn_removes_exactly_the_table [OF fun_map_laws fun_map_laws run conn]
  have "62 + unat (dt_deleted info) + unat (dt_count info) < 2 ^ 32"
    if "?mi conn = Some val" "count_info val = Inr info" for val info
    using that by (auto simp: count_info_def)
  from * [OF this] have "mi' conn = None" and "me' \<lparr>dtk_conn = conn, dtk_idx = 64\<rparr> = None"
    and "me' \<lparr>dtk_conn = conn, dtk_idx = 65\<rparr> = Some [7]"
    by (auto simp: count_info_def)
  with run show ?thesis by blast
qed

end
