(* ===== verification/Bpf_Load.thy ===== *)
theory Bpf_Load
  imports Lib_Types
begin

section \<open>Loading a parser program with libbpf\<close>

text \<open>
  The calls \<open>attach\<close> makes to \<open>libbpf_rs\<close>, a crate outside of the repository: each call is
  an operation that the environment may let fail, depending on what was called before it.
  \<open>perform\<close> is the \<open>?\<close> behind a call, and the trace is what has been called so far. The
  programs of both parsers have the same names.
\<close>

datatype prog = Parse_msg | Parse_skb | Matched | Get_match_msg | Get_match_skb | Get_dt_entry

datatype ('d, 'f) bpf_op =
    OpenSkel
  | SetLogLevel prog
  | SetAutoload prog bool
  | SetAttachTarget prog int string
  | WriteRodata 'd
  | LoadSkel
  | InitTracing
  | AttachProg prog
  | StaticTableInfo
  | StaticTableHandle
  | UpdateStaticTable u32 'f
  | FreezeStaticTable
  | InfoTableHandle
  | DynamicTableHandle

type_synonym ('d, 'f) trace = "('d, 'f) bpf_op list"
type_synonym ('d, 'f, 'bpf) bpf_env = "('d, 'f) trace \<Rightarrow> ('d, 'f) bpf_op \<Rightarrow> 'bpf option"

text \<open>A method of a parser panics or returns an error.\<close>

datatype ('a, 'err) failure = Panic "'a panic" | Failed 'err

subsection \<open>Calls\<close>

text \<open>A call that cannot fail, and one that can.\<close>

definition record_op :: "('d, 'f) bpf_op \<Rightarrow> ('d, 'f) trace \<Rightarrow> 'x + ('d, 'f) trace" where
  "record_op op tr = Inr (tr @ [op])"

definition perform ::
  "('d, 'f, 'bpf) bpf_env \<Rightarrow> ('d, 'f) bpf_op \<Rightarrow> ('d, 'f) trace \<Rightarrow>
     ('a, ('enc, 'bpf, 'plain) beeper_error) failure + ('d, 'f) trace" where
  "perform env op tr =
     (case env tr op of Some e \<Rightarrow> Inl (Failed (error_from_bpf e)) | None \<Rightarrow> Inr (tr @ [op]))"

definition configure_prog ::
  "('d, 'f, 'bpf) bpf_env \<Rightarrow> int \<Rightarrow> prog \<Rightarrow> string \<Rightarrow> ('d, 'f) trace \<Rightarrow>
     ('a, ('enc, 'bpf, 'plain) beeper_error) failure + ('d, 'f) trace" where
  "configure_prog env target prog func tr =
     bind_res (record_op (SetAutoload prog True) tr) (perform env (SetAttachTarget prog target func))"

text \<open>\<open>links.push(skel.progs.prog.attach()?)\<close>\<close>

definition attach_prog ::
  "('d, 'f, 'bpf) bpf_env \<Rightarrow> prog \<Rightarrow> prog list \<times> ('d, 'f) trace \<Rightarrow>
     ('a, ('enc, 'bpf, 'plain) beeper_error) failure + prog list \<times> ('d, 'f) trace" where
  "attach_prog env prog = (\<lambda>(links, tr).
     bind_res (perform env (AttachProg prog) tr) (\<lambda>tr. Inr (links @ [prog], tr)))"

definition parse_prog :: "message_buffer \<Rightarrow> prog" where
  "parse_prog buf = (case buf of Msg \<Rightarrow> Parse_msg | Skb \<Rightarrow> Parse_skb)"

definition get_prog :: "message_buffer \<Rightarrow> prog" where
  "get_prog buf = (case buf of Msg \<Rightarrow> Get_match_msg | Skb \<Rightarrow> Get_match_skb)"

subsection \<open>What a trace says of a program\<close>

fun autoload_step :: "prog \<Rightarrow> ('d, 'f) bpf_op \<Rightarrow> bool \<Rightarrow> bool" where
  "autoload_step prog (SetAutoload p v) b = (if p = prog then v else b)"
| "autoload_step prog op b = b"

fun target_step :: "prog \<Rightarrow> ('d, 'f) bpf_op \<Rightarrow> (int \<times> string) option \<Rightarrow> (int \<times> string) option" where
  "target_step prog (SetAttachTarget p target func) t = (if p = prog then Some (target, func) else t)"
| "target_step prog op t = t"

fun rodata_step :: "('d, 'f) bpf_op \<Rightarrow> 'd option \<Rightarrow> 'd option" where
  "rodata_step (WriteRodata d) t = Some d"
| "rodata_step op t = t"

fun attach_step :: "('d, 'f) bpf_op \<Rightarrow> prog set \<Rightarrow> prog set" where
  "attach_step (AttachProg p) ps = insert p ps"
| "attach_step op ps = ps"

text \<open>Libbpf loads every program unless it is told otherwise.\<close>

definition autoloads :: "('d, 'f) trace \<Rightarrow> prog \<Rightarrow> bool" where
  "autoloads tr prog = fold (autoload_step prog) tr True"

definition attach_target :: "('d, 'f) trace \<Rightarrow> prog \<Rightarrow> (int \<times> string) option" where
  "attach_target tr prog = fold (target_step prog) tr None"

definition loaded_rodata :: "('d, 'f) trace \<Rightarrow> 'd option" where
  "loaded_rodata tr = fold rodata_step tr None"

definition attached :: "('d, 'f) trace \<Rightarrow> prog set" where
  "attached tr = fold attach_step tr {}"

lemmas trace_defs = autoloads_def attach_target_def loaded_rodata_def attached_def

lemma perform_Inr [res_simps]:
  "perform env op tr = Inr tr' \<longleftrightarrow> env tr op = None \<and> tr' = tr @ [op]"
  by (auto simp: perform_def split: option.split)

lemma attach_prog_Inr [res_simps]:
  "attach_prog env prog (links, tr) = Inr (links', tr') \<longleftrightarrow>
     env tr (AttachProg prog) = None \<and> links' = links @ [prog] \<and> tr' = tr @ [AttachProg prog]"
  by (auto simp: attach_prog_def res_simps)

lemma configure_prog_Inr [res_simps]:
  "configure_prog env target prog func tr = Inr tr' \<longleftrightarrow>
     env (tr @ [SetAutoload prog True]) (SetAttachTarget prog target func) = None \<and>
     tr' = tr @ [SetAutoload prog True, SetAttachTarget prog target func]"
  by (auto simp: configure_prog_def record_op_def res_simps)

text \<open>What a call into libbpf can fail with.\<close>

definition only_bpf :: "('a, ('enc, 'bpf, 'plain) beeper_error) failure + 'b \<Rightarrow> bool" where
  "only_bpf m \<longleftrightarrow> (\<forall>f. m = Inl f \<longrightarrow> (\<exists>e. f = Failed (Bpf e)))"

lemma only_bpf_simps [simp]:
  "only_bpf (Inr x)" "only_bpf (record_op op tr)" "only_bpf (perform env op tr)"
  by (auto simp: only_bpf_def record_op_def perform_def error_from_bpf_def split: option.splits)

lemma only_bpf_bind [intro]: "only_bpf m \<Longrightarrow> (\<And>x. m = Inr x \<Longrightarrow> only_bpf (f x)) \<Longrightarrow> only_bpf (bind_res m f)"
  by (cases m) (simp_all add: only_bpf_def)

lemma only_bpf_fold [intro]: "(\<And>x s. only_bpf (f x s)) \<Longrightarrow> only_bpf (fold_res f xs s)"
  by (induction xs arbitrary: s) auto

lemma only_bpf_progs [simp]:
  "only_bpf (configure_prog env target prog func tr)" "only_bpf (attach_prog env prog st)"
  by (auto simp: configure_prog_def attach_prog_def split_def intro!: only_bpf_bind)

text \<open>What the loops over the configured functions append to the trace.\<close>

definition configure_ops :: "int \<Rightarrow> (prog \<times> string) list \<Rightarrow> ('d, 'f) trace" where
  "configure_ops target pfs =
     concat (map (\<lambda>(p, f). [SetAutoload p True, SetAttachTarget p target f]) pfs)"

lemma configure_ops_simps [simp]:
  "configure_ops target [] = []"
  "configure_ops target ((p, f) # pfs) =
     SetAutoload p True # SetAttachTarget p target f # configure_ops target pfs"
  by (simp_all add: configure_ops_def)

lemma configure_ops_append: "configure_ops target (xs @ ys) = configure_ops target xs @ configure_ops target ys"
  by (simp add: configure_ops_def)

lemma configure_all:
  "fold_res (\<lambda>(p, f). configure_prog env target p f) pfs tr = Inr tr' \<Longrightarrow>
     tr' = tr @ configure_ops target pfs"
  by (induction pfs arbitrary: tr) (simp, fastforce simp: res_simps)

lemma attach_all:
  "fold_res (attach_prog env) ps (links, tr) = Inr (links', tr') \<Longrightarrow>
     links' = links @ ps \<and> tr' = tr @ map AttachProg ps"
  by (induction ps arbitrary: links tr) (simp, fastforce simp: res_simps)

lemma reset_all: "fold_res (\<lambda>p. record_op (SetAutoload p False)) ps tr = Inr (tr @ map (\<lambda>p. SetAutoload p False) ps)"
  by (induction ps arbitrary: tr) (simp_all add: record_op_def)

lemma log_all: "fold_res (\<lambda>p. record_op (SetLogLevel p)) ps tr = Inr (tr @ map SetLogLevel ps)"
  by (induction ps arbitrary: tr) (simp_all add: record_op_def)

text \<open>The folds over the parts a trace is made of.\<close>

fun silent_op :: "('d, 'f) bpf_op \<Rightarrow> bool" where
  "silent_op (SetAutoload p v) = False"
| "silent_op (SetAttachTarget p target func) = False"
| "silent_op (WriteRodata d) = False"
| "silent_op (AttachProg p) = False"
| "silent_op op = True"

lemma silent_steps:
  assumes "silent_op op"
  shows "autoload_step p op b = b" and "target_step p op t = t"
    and "rodata_step op r = r" and "attach_step op ps = ps"
  using assms by (cases op; simp)+

lemma silent_ops:
  "list_all silent_op ops \<Longrightarrow> fold (autoload_step p) ops b = b"
  "list_all silent_op ops \<Longrightarrow> fold (target_step p) ops t = t"
  "list_all silent_op ops \<Longrightarrow> fold rodata_step ops r = r"
  "list_all silent_op ops \<Longrightarrow> fold attach_step ops ps = ps"
  by (induction ops arbitrary: b t r ps) (simp_all add: silent_steps)

lemma reset_steps:
  "fold (autoload_step p) (map (\<lambda>p. SetAutoload p v) ps) b = (if p \<in> set ps then v else b)"
  "fold (target_step p) (map (\<lambda>p. SetAutoload p v) ps) t = t"
  "fold rodata_step (map (\<lambda>p. SetAutoload p v) ps) r = r"
  "fold attach_step (map (\<lambda>p. SetAutoload p v) ps) qs = qs"
  by (induction ps arbitrary: b t r qs) auto

lemma attach_steps:
  "fold (autoload_step p) (map AttachProg ps) b = b"
  "fold (target_step p) (map AttachProg ps) t = t"
  "fold rodata_step (map AttachProg ps) r = r"
  "fold attach_step (map AttachProg ps) qs = set ps \<union> qs"
  by (induction ps arbitrary: b t r qs) auto

lemma configure_steps:
  "fold (autoload_step p) (configure_ops target pfs) b \<longleftrightarrow> p \<in> fst ` set pfs \<or> b"
  "fold rodata_step (configure_ops target pfs) r = r"
  "fold attach_step (configure_ops target pfs) qs = qs"
  by (induction pfs arbitrary: b r qs) (simp_all, force+)

lemma configure_targets:
  "distinct (map fst pfs) \<Longrightarrow> fold (target_step p) (configure_ops target pfs) t =
     (case map_of pfs p of Some f \<Rightarrow> Some (target, f) | None \<Rightarrow> t)"
proof (induction pfs arbitrary: t)
  case (Cons x pfs)
  obtain q f where x: "x = (q, f)" by (cases x)
  from Cons.prems have "q \<notin> fst ` set pfs" and d: "distinct (map fst pfs)" by (simp_all add: x)
  then have "map_of pfs q = None" by (simp add: map_of_eq_None_iff)
  with Cons.IH [OF d] show ?case by (auto simp: x split: option.split)
qed simp

lemmas trace_steps = reset_steps attach_steps configure_steps configure_targets

subsection \<open>What a parser is configured with\<close>

text \<open>
  The programs a parser replaces functions with, along with the functions, in the order in
  which \<open>attach\<close> goes through them, and the function each program is to replace. The HTTP/1.1
  parser has no program for the dynamic table.
\<close>

definition opt_prog :: "prog \<Rightarrow> string option \<Rightarrow> (prog \<times> string) list" where
  "opt_prog prog func = (case func of None \<Rightarrow> [] | Some f \<Rightarrow> [(prog, f)])"

definition configured ::
  "(message_buffer \<times> string) list \<Rightarrow> string option \<Rightarrow> (message_buffer \<times> string) list \<Rightarrow> string option \<Rightarrow>
     (prog \<times> string) list" where
  "configured parse_fns matched_fn get_fns dt_fn =
     map (\<lambda>(buf, func). (parse_prog buf, func)) parse_fns @ opt_prog Matched matched_fn @
     map (\<lambda>(buf, func). (get_prog buf, func)) get_fns @ opt_prog Get_dt_entry dt_fn"

definition replaces ::
  "(message_buffer \<times> string) list \<Rightarrow> string option \<Rightarrow> (message_buffer \<times> string) list \<Rightarrow> string option \<Rightarrow>
     prog \<Rightarrow> string option" where
  "replaces parse_fns matched_fn get_fns dt_fn prog = (case prog of
       Parse_msg \<Rightarrow> map_of parse_fns Msg
     | Parse_skb \<Rightarrow> map_of parse_fns Skb
     | Matched \<Rightarrow> matched_fn
     | Get_match_msg \<Rightarrow> map_of get_fns Msg
     | Get_match_skb \<Rightarrow> map_of get_fns Skb
     | Get_dt_entry \<Rightarrow> dt_fn)"

lemma parse_get_prog_simps [simp]:
  "parse_prog b = parse_prog b' \<longleftrightarrow> b = b'" "get_prog b = get_prog b' \<longleftrightarrow> b = b'"
  "parse_prog b \<noteq> get_prog b'" "get_prog b \<noteq> parse_prog b'"
  "parse_prog b \<noteq> Matched" "get_prog b \<noteq> Matched" "parse_prog b \<noteq> Get_dt_entry" "get_prog b \<noteq> Get_dt_entry"
  "Matched \<noteq> parse_prog b" "Matched \<noteq> get_prog b" "Get_dt_entry \<noteq> parse_prog b" "Get_dt_entry \<noteq> get_prog b"
  by (cases b; cases b'; simp add: parse_prog_def get_prog_def)+

lemma map_fst_keyed: "map fst (map (\<lambda>(x, v). (k x, v)) xs) = map k (map fst xs)"
  by (induction xs) auto

lemma map_of_keyed_inj:
  "(\<And>x y. k x = k y \<longleftrightarrow> x = y) \<Longrightarrow> map_of (map (\<lambda>(x, v). (k x, v)) xs) (k y) = map_of xs y"
  by (induction xs) auto

lemma map_of_keyed_none:
  "(\<And>x. k x \<noteq> z) \<Longrightarrow> map_of (map (\<lambda>(x, v). (k x, v)) xs) z = None"
proof (induction xs)
  case (Cons x xs)
  then show ?case by (cases x) (simp add: eq_commute [of z])
qed simp

lemma configured_distinct:
  assumes "distinct (map fst parse_fns)" and "distinct (map fst get_fns)"
  shows "distinct (map fst (configured parse_fns matched_fn get_fns dt_fn))"
proof -
  have "distinct (map parse_prog (map fst parse_fns))" and "distinct (map get_prog (map fst get_fns))"
    using assms by (simp_all only: distinct_map inj_on_def parse_get_prog_simps) blast+
  then show ?thesis
    unfolding configured_def map_append map_fst_keyed by (auto simp: opt_prog_def split: option.split)
qed

lemma configured_lookup:
  "map_of (configured parse_fns matched_fn get_fns dt_fn) prog = replaces parse_fns matched_fn get_fns dt_fn prog"
proof -
  have "prog \<in> {parse_prog Msg, parse_prog Skb, Matched, get_prog Msg, get_prog Skb, Get_dt_entry}"
    by (cases prog) (simp_all add: parse_prog_def get_prog_def)
  moreover have "replaces parse_fns matched_fn get_fns dt_fn (parse_prog b) = map_of parse_fns b"
    and "replaces parse_fns matched_fn get_fns dt_fn (get_prog b) = map_of get_fns b" for b
    by (cases b; simp add: replaces_def parse_prog_def get_prog_def)+
  ultimately show ?thesis
    by (auto simp: configured_def map_of_append map_add_def map_of_keyed_inj map_of_keyed_none opt_prog_def
        split: option.splits) (simp_all add: replaces_def)
qed

subsection \<open>The trace of an \<open>attach\<close> that returned\<close>

text \<open>
  What \<open>attach\<close> of either parser calls, up to the links: \<open>progs\<close> are the programs of the
  skeleton, \<open>pfs\<close> the configured ones, \<open>data\<close> what was injected, \<open>tail\<close> what follows.
\<close>

definition parser_trace ::
  "bool \<Rightarrow> prog list \<Rightarrow> int \<Rightarrow> (prog \<times> string) list \<Rightarrow> 'd \<Rightarrow> ('d, 'f) trace \<Rightarrow> ('d, 'f) trace" where
  "parser_trace trace_enabled progs target pfs data tail =
     [OpenSkel] @ map SetLogLevel (if trace_enabled then [Parse_msg, Parse_skb] else []) @
     map (\<lambda>p. SetAutoload p False) progs @
     configure_ops target pfs @ [WriteRodata data, LoadSkel, InitTracing] @
     map AttachProg (map fst pfs) @ tail"

lemma log_silent: "list_all silent_op (map SetLogLevel ps)"
  by (induction ps) auto

lemma parser_trace_says:
  assumes "distinct (map fst pfs)" and "list_all silent_op tail"
  shows "prog \<in> set progs \<Longrightarrow>
      autoloads (parser_trace te progs target pfs data tail) prog \<longleftrightarrow> map_of pfs prog \<noteq> None"
    and "attach_target (parser_trace te progs target pfs data tail) prog =
      map_option (\<lambda>func. (target, func)) (map_of pfs prog)"
    and "loaded_rodata (parser_trace te progs target pfs data tail) = Some data"
    and "attached (parser_trace te progs target pfs data tail) = fst ` set pfs"
proof -
  note steps = trace_steps silent_ops [OF assms(2)] silent_ops [OF log_silent]
  have dom: "prog \<in> fst ` set pfs \<longleftrightarrow> map_of pfs prog \<noteq> None" by (metis map_of_eq_None_iff)
  show "autoloads (parser_trace te progs target pfs data tail) prog \<longleftrightarrow> map_of pfs prog \<noteq> None"
    if "prog \<in> set progs"
    unfolding dom [symmetric] using that
    by (simp add: trace_defs parser_trace_def steps del: map_map)
  show "attach_target (parser_trace te progs target pfs data tail) prog =
      map_option (\<lambda>func. (target, func)) (map_of pfs prog)"
    using assms(1) by (simp add: trace_defs parser_trace_def steps split: option.split del: map_map)
  show "loaded_rodata (parser_trace te progs target pfs data tail) = Some data"
    by (simp add: trace_defs parser_trace_def steps del: map_map)
  show "attached (parser_trace te progs target pfs data tail) = fst ` set pfs"
    by (simp add: trace_defs parser_trace_def steps del: map_map)
qed

end
