(* ===== verification/Table_Injection.thy ===== *)
theory Table_Injection
  imports Dfa Bpf_Load
begin

section \<open>Writing a DFA into the read-only data of a parser program\<close>

text \<open>
  The loop both parsers run in \<open>inject\<close>: every transition is written to the table of the
  program, every action gets an index under which it is stored, index 0 is the action that
  does nothing. The arrays are functions together with their lengths; an access out of
  bounds panics. \<open>ts\<close> is the order in which the hash maps of the DFA are iterated.
\<close>

subsection \<open>The read-only data\<close>

text \<open>\<open>struct trans\<close> and the two arrays of the program, all zero before they are written.\<close>

record trans =
  trans_state :: u16
  trans_action :: u16

definition no_trans :: trans where
  "no_trans = \<lparr>trans_state = 0, trans_action = 0\<rparr>"

record 'b rodata =
  ro_states :: "state_id \<Rightarrow> input \<Rightarrow> trans"
  ro_actions :: "nat \<Rightarrow> 'b"

record table_limits =
  max_states :: nat
  max_edges :: nat
  max_actions :: nat

text \<open>How \<open>inject\<close> fails: by a panic of its own, or with \<open>Error::ParserExceedsStateLimit\<close>.\<close>

datatype inject_failure = OutOfBounds | ExceedsLimit

definition inject_error :: "inject_failure \<Rightarrow> ('a, ('enc, 'bpf, 'plain) beeper_error) failure" where
  "inject_error f = (case f of OutOfBounds \<Rightarrow> Panic IndexOutOfBounds | ExceedsLimit \<Rightarrow> Failed ParserExceedsStateLimit)"

lemma inject_error_simps [simp]:
  "inject_error ExceedsLimit = Failed ParserExceedsStateLimit"
  "inject_error OutOfBounds = Panic IndexOutOfBounds"
  by (simp_all add: inject_error_def)

subsection \<open>The loops\<close>

definition empty_rodata :: "'b \<Rightarrow> 'b rodata" where
  "empty_rodata zero = \<lparr>ro_states = (\<lambda>_ _. no_trans), ro_actions = (\<lambda>_. zero)\<rparr>"

definition action_entry :: "'a option \<Rightarrow> ('a option \<times> nat) list \<Rightarrow> nat \<times> ('a option \<times> nat) list" where
  "action_entry action action_idx =
     (case map_of action_idx action of
        Some i \<Rightarrow> (i, action_idx)
      | None \<Rightarrow> (length action_idx, AList.update action (length action_idx) action_idx))"

definition inject_transition ::
  "table_limits \<Rightarrow> state_id \<times> input \<times> state_id \<times> 'a option \<Rightarrow>
     ('a option \<times> nat) list \<times> 'b rodata \<Rightarrow> inject_failure + ('a option \<times> nat) list \<times> 'b rodata" where
  "inject_transition lim = (\<lambda>(from, input, to, action) (action_idx, data).
     let (i, action_idx) = action_entry action action_idx in
     if max_actions lim \<le> i then Inl ExceedsLimit
     else if max_edges lim \<le> unat input then Inl ExceedsLimit
     else if max_states lim \<le> unat from then Inl OutOfBounds
     else Inr (action_idx, data\<lparr>ro_states := (ro_states data)(from := (ro_states data from)(input :=
            \<lparr>trans_state = to, trans_action = word_of_nat i\<rparr>))\<rparr>))"

definition inject_action ::
  "table_limits \<Rightarrow> ('a \<Rightarrow> 'b) \<Rightarrow> 'a option \<times> nat \<Rightarrow> 'b rodata \<Rightarrow> inject_failure + 'b rodata" where
  "inject_action lim conv = (\<lambda>(action, i) data.
     case action of
       None \<Rightarrow> Inr data
     | Some a \<Rightarrow> if max_actions lim \<le> i then Inl OutOfBounds
                else Inr (data\<lparr>ro_actions := (ro_actions data)(i := conv a)\<rparr>))"

definition inject_table ::
  "table_limits \<Rightarrow> ('a \<Rightarrow> 'b) \<Rightarrow> 'a dfa \<Rightarrow> (state_id \<times> input \<times> state_id \<times> 'a option) list \<Rightarrow>
     'b rodata \<Rightarrow> inject_failure + 'b rodata" where
  "inject_table lim conv d ts data =
     (if max_states lim < unat (dfa_num_states d) then Inl ExceedsLimit
      else bind_res (fold_res (inject_transition lim) ts ([(None, 0)], data)) (\<lambda>(action_idx, data).
        fold_res (inject_action lim conv) action_idx data))"

subsection \<open>The index of the actions\<close>

text \<open>\<open>None\<close> has the index 0, and every action seen so far has an index of its own.\<close>

definition idx_ok :: "('a option \<times> nat) list \<Rightarrow> bool" where
  "idx_ok idx \<longleftrightarrow> map_of idx None = Some 0 \<and> distinct (map fst idx) \<and> distinct (map snd idx) \<and>
     (\<forall>i \<in> snd ` set idx. i < length idx)"

lemma idx_ok_init: "idx_ok [(None, 0)]"
  by (simp add: idx_ok_def)

lemma update_fresh: "k \<notin> fst ` set al \<Longrightarrow> AList.update k v al = al @ [(k, v)]"
  by (induction al) auto

lemma action_entry_ok:
  assumes "idx_ok idx" and "action_entry a idx = (i, idx')"
  shows "idx_ok idx'" and "map_of idx' a = Some i" and "map_of idx \<subseteq>\<^sub>m map_of idx'"
    and "fst ` set idx' = insert a (fst ` set idx)" and "snd ` set idx' \<subseteq> insert i (snd ` set idx)"
proof -
  have "idx_ok idx' \<and> map_of idx' a = Some i \<and> map_of idx \<subseteq>\<^sub>m map_of idx' \<and>
      fst ` set idx' = insert a (fst ` set idx) \<and> snd ` set idx' \<subseteq> insert i (snd ` set idx)"
  proof (cases "map_of idx a")
    case None
    then have n: "a \<notin> fst ` set idx" by (simp add: map_of_eq_None_iff)
    have i: "i = length idx" and u: "idx' = AList.update a i idx"
      using None assms(2) by (auto simp: action_entry_def)
    have idx': "idx' = idx @ [(a, i)]" using n u by (simp add: update_fresh)
    have fresh: "i \<notin> snd ` set idx" using assms(1) i by (auto simp: idx_ok_def)
    have none: "a \<noteq> None" using None assms(1) unfolding idx_ok_def by (metis option.distinct(1))
    have "map_of idx' None = Some 0" using none assms(1) by (auto simp add: u idx_ok_def)
    then have "idx_ok idx'"
      using n fresh assms(1) i by (auto simp: idx_ok_def idx' less_Suc_eq)
    moreover have "map_of idx \<subseteq>\<^sub>m map_of idx'" and "map_of idx' a = Some i"
      using None by (auto simp: map_le_def u)
    ultimately show ?thesis by (auto simp: idx')
  next
    case (Some j)
    then have "a \<in> fst ` set idx" by (metis map_of_eq_None_iff option.distinct(1))
    with Some assms show ?thesis by (auto simp: action_entry_def)
  qed
  then show "idx_ok idx'" and "map_of idx' a = Some i" and "map_of idx \<subseteq>\<^sub>m map_of idx'"
    and "fst ` set idx' = insert a (fst ` set idx)" and "snd ` set idx' \<subseteq> insert i (snd ` set idx)"
    by simp_all
qed

lemma idx_ok_inj:
  assumes "idx_ok idx" and "map_of idx a = Some i" and "map_of idx b = Some i"
  shows "a = b"
proof -
  have "(a, i) \<in> set idx" "(b, i) \<in> set idx" using assms(2,3) by (simp_all add: map_of_SomeD)
  moreover have "inj_on snd (set idx)" using assms(1) by (simp add: idx_ok_def distinct_map)
  ultimately show ?thesis by (metis Pair_inject inj_onD snd_conv)
qed

lemma idx_ok_length: "idx_ok idx \<Longrightarrow> length idx = card (fst ` set idx)"
  by (metis distinct_card idx_ok_def length_map set_map)

subsection \<open>The transitions in the table\<close>

definition action_keys :: "(state_id \<times> input \<times> state_id \<times> 'a option) list \<Rightarrow> 'a option set" where
  "action_keys ts = insert None ((\<lambda>(_, _, _, a). a) ` set ts)"

definition table_entry :: "'a dfa \<Rightarrow> (state_id \<times> input \<times> state_id \<times> 'a option) set \<Rightarrow> ('a option \<times> nat) list \<Rightarrow>
    state_id \<Rightarrow> input \<Rightarrow> trans" where
  "table_entry d ts idx s i =
     (case dfa_edge d s i of
        Some e \<Rightarrow> if (s, i, edge_to e, edge_action e) \<in> ts
                  then \<lparr>trans_state = edge_to e, trans_action = word_of_nat (the (map_of idx (edge_action e)))\<rparr>
                  else no_trans
      | None \<Rightarrow> no_trans)"

text \<open>The invariant of the loop over the transitions, those of the list \<open>ts\<close> have been written.\<close>

definition table_inv ::
  "table_limits \<Rightarrow> 'a dfa \<Rightarrow> 'b \<Rightarrow> (state_id \<times> input \<times> state_id \<times> 'a option) list \<Rightarrow>
     ('a option \<times> nat) list \<times> 'b rodata \<Rightarrow> bool" where
  "table_inv lim d zero ts = (\<lambda>(idx, data).
     idx_ok idx \<and> fst ` set idx = action_keys ts \<and> (\<forall>i \<in> snd ` set idx. i < max_actions lim) \<and>
     (\<forall>(s, i, t, a) \<in> set ts. unat i < max_edges lim) \<and> ro_actions data = (\<lambda>_. zero) \<and>
     (\<forall>s i. ro_states data s i = table_entry d (set ts) idx s i))"

lemma table_inv_init:
  "0 < max_actions lim \<Longrightarrow> table_inv lim d zero [] ([(None, 0)], empty_rodata zero)"
  by (simp add: table_inv_def idx_ok_init action_keys_def empty_rodata_def table_entry_def no_trans_def
      split: option.split)

lemma table_entry_mono:
  assumes "map_of idx \<subseteq>\<^sub>m map_of idx'" and "fst ` set idx = action_keys ts"
  shows "table_entry d (set ts) idx s i = table_entry d (set ts) idx' s i"
proof (cases "dfa_edge d s i")
  case (Some e)
  show ?thesis
  proof (cases "(s, i, edge_to e, edge_action e) \<in> set ts")
    case True
    then have "edge_action e \<in> fst ` set idx" unfolding assms(2) action_keys_def by force
    then have "edge_action e \<in> dom (map_of idx)" by (simp add: dom_map_of_conv_image_fst)
    then have "map_of idx' (edge_action e) = map_of idx (edge_action e)" using assms(1) by (auto simp: map_le_def)
    with Some show ?thesis by (simp add: table_entry_def)
  qed (simp add: table_entry_def Some)
qed (simp add: table_entry_def)

lemma inject_transition_step:
  assumes inv: "table_inv lim d zero ts (idx, data)"
    and x: "dfa_edge d s i = Some e" "t = edge_to e" "a = edge_action e" and s: "unat s < max_states lim"
  shows "case inject_transition lim (s, i, t, a) (idx, data) of
      Inr st \<Rightarrow> table_inv lim d zero (ts @ [(s, i, t, a)]) st
    | Inl f \<Rightarrow> f = ExceedsLimit \<and>
        (max_edges lim \<le> unat i \<or> max_actions lim < card (action_keys (ts @ [(s, i, t, a)])))"
proof -
  obtain j idx' where ae: "action_entry a idx = (j, idx')" by fastforce
  have ok: "idx_ok idx" and keys: "fst ` set idx = action_keys ts" using inv by (auto simp: table_inv_def)
  note e = action_entry_ok [OF ok ae]
  have keys': "fst ` set idx' = action_keys (ts @ [(s, i, t, a)])"
    by (auto simp: e(4) keys action_keys_def)
  show ?thesis
  proof (cases "max_actions lim \<le> j")
    case True
    have "(a, j) \<in> set idx'" using e(2) by (rule map_of_SomeD)
    then have "j < length idx'" using e(1) by (force simp: idx_ok_def)
    with True show ?thesis
      by (simp add: inject_transition_def ae idx_ok_length [OF e(1)] keys')
  next
    case False
    note j = this
    show ?thesis
    proof (cases "max_edges lim \<le> unat i")
      case True
      with j show ?thesis by (simp add: inject_transition_def ae)
    next
      case False
      have lt: "\<forall>i \<in> snd ` set idx'. i < max_actions lim"
        using inv j subsetD [OF e(5)] unfolding table_inv_def prod.case by (metis insertE not_le)
      have entry: "table_entry d (set (ts @ [(s, i, t, a)])) idx' s' i' =
          (if s' = s \<and> i' = i then \<lparr>trans_state = t, trans_action = word_of_nat j\<rparr>
           else table_entry d (set ts) idx s' i')" for s' i'
      proof (cases "s' = s \<and> i' = i")
        case True
        then show ?thesis using x e(2) by (simp add: table_entry_def)
      next
        case False
        have "table_entry d (set (ts @ [(s, i, t, a)])) idx' s' i' = table_entry d (set ts) idx' s' i'"
          using False by (auto simp: table_entry_def split: option.split)
        with False table_entry_mono [OF e(3) keys] show ?thesis by auto
      qed
      have old: "ro_states data s' i' = table_entry d (set ts) idx s' i'" for s' i'
        using inv by (simp add: table_inv_def)
      have rest: "ro_actions data = (\<lambda>_. zero)" "\<forall>(s, i, t, a) \<in> set ts. unat i < max_edges lim"
        using inv by (auto simp: table_inv_def)
      have "table_inv lim d zero (ts @ [(s, i, t, a)])
          (idx', data\<lparr>ro_states := (ro_states data)(s := (ro_states data s)(i :=
            \<lparr>trans_state = t, trans_action = word_of_nat j\<rparr>))\<rparr>)"
        unfolding table_inv_def prod.case entry
        using e(1) keys' lt rest False by (auto simp: old)
      with j False s show ?thesis by (simp add: inject_transition_def ae)
    qed
  qed
qed

lemma inject_transitions:
  assumes "wf_dfa d" and "set ts \<subseteq> set (iter_transitions d)"
    and "unat (num_states d) \<le> max_states lim" and "0 < max_actions lim"
  shows "case fold_res (inject_transition lim) ts ([(None, 0)], empty_rodata zero) of
      Inr st \<Rightarrow> table_inv lim d zero ts st
    | Inl f \<Rightarrow> f = ExceedsLimit \<and>
        ((\<exists>(s, i, t, a) \<in> set ts. max_edges lim \<le> unat i) \<or> max_actions lim < card (action_keys ts))"
  using assms(2)
proof (induction ts rule: rev_induct)
  case Nil
  then show ?case using assms(4) by (simp add: table_inv_init)
next
  case (snoc x ts)
  obtain s i t a where x: "x = (s, i, t, a)" by (cases x)
  have sub: "set ts \<subseteq> set (iter_transitions d)" using snoc.prems by simp
  have mono: "card (action_keys ts) \<le> card (action_keys (ts @ [x]))"
    by (rule card_mono) (simp add: action_keys_def, unfold action_keys_def set_append, blast)
  show ?case
  proof (cases "fold_res (inject_transition lim) ts ([(None, 0)], empty_rodata zero)")
    case (Inl f)
    with snoc.IH [OF sub] mono show ?thesis by (auto simp: fold_res_append)
  next
    case (Inr st)
    obtain idx data where st: "st = (idx, data)" by (cases st)
    have inv: "table_inv lim d zero ts (idx, data)" using snoc.IH [OF sub] Inr st by simp
    obtain e where e: "dfa_edge d s i = Some e" "t = edge_to e" "a = edge_action e"
      using snoc.prems in_iter_transitions [OF wf_dfaD(2) [OF assms(1)], of s i t a] by (auto simp: x)
    have "unat s < max_states lim"
      using wf_dfaD(3) [OF assms(1) e(1)] assms(3) by (simp add: word_less_nat_alt)
    from inject_transition_step [OF inv e this] show ?thesis
      by (auto simp: fold_res_append Inr st x split: sum.splits)
  qed
qed

definition written_actions :: "('a \<Rightarrow> 'b) \<Rightarrow> 'b \<Rightarrow> ('a option \<times> nat) list \<Rightarrow> nat \<Rightarrow> 'b" where
  "written_actions conv zero idx i =
     (case map_of (map (\<lambda>(a, i). (i, a)) idx) i of Some (Some a) \<Rightarrow> conv a | _ \<Rightarrow> zero)"

lemma inject_actions:
  assumes "\<forall>i \<in> snd ` set idx. i < max_actions lim" and "distinct (map snd idx)"
    and "\<And>i. i \<in> snd ` set idx \<Longrightarrow> ro_actions data i = zero"
  shows "\<exists>data'. fold_res (inject_action lim conv) idx data = Inr data' \<and> ro_states data' = ro_states data \<and>
     (\<forall>i. ro_actions data' i =
        (if i \<in> snd ` set idx then written_actions conv zero idx i else ro_actions data i))"
  using assms
proof (induction idx arbitrary: data)
  case Nil
  then show ?case by simp
next
  case (Cons x idx)
  obtain a i where x: "x = (a, i)" by (cases x)
  define data1 where "data1 = (case a of None \<Rightarrow> data
    | Some a \<Rightarrow> data\<lparr>ro_actions := (ro_actions data)(i := conv a)\<rparr>)"
  have step: "inject_action lim conv x data = Inr data1"
    using Cons.prems(1) by (auto simp: inject_action_def x data1_def split: option.split)
  have ni: "i \<notin> snd ` set idx" using Cons.prems(2) by (simp add: x)
  have keep: "ro_actions data1 j = zero" if "j \<in> snd ` set idx" for j
    using Cons.prems(3) [of j] that ni by (auto simp: data1_def split: option.split)
  have "\<forall>i \<in> snd ` set idx. i < max_actions lim" and "distinct (map snd idx)"
    using Cons.prems(1,2) by simp_all
  from Cons.IH [OF this keep] obtain data' where
    d': "fold_res (inject_action lim conv) idx data1 = Inr data'" "ro_states data' = ro_states data1"
    "\<forall>i. ro_actions data' i =
        (if i \<in> snd ` set idx then written_actions conv zero idx i else ro_actions data1 i)" by blast
  have "ro_actions data' j =
      (if j \<in> snd ` set (x # idx) then written_actions conv zero (x # idx) j else ro_actions data j)" for j
    using ni Cons.prems(3) [of i]
    by (auto simp: d'(3) x written_actions_def data1_def split: option.split)
  moreover have "ro_states data' = ro_states data"
    by (simp add: d'(2) data1_def split: option.split)
  ultimately show ?case using d'(1) step by simp
qed

subsection \<open>What the program reads\<close>

text \<open>
  \<open>represents\<close>: reading the table at a state and an input gives the edge of the DFA there,
  and reading the actions at the index in the table gives the action the edge carries;
  the index is 0 exactly for an edge without an action.
\<close>

definition represents :: "table_limits \<Rightarrow> ('a \<Rightarrow> 'b) \<Rightarrow> 'a dfa \<Rightarrow> 'b rodata \<Rightarrow> bool" where
  "represents lim conv d data \<longleftrightarrow>
     (\<forall>s i. case dfa_edge d s i of
        None \<Rightarrow> ro_states data s i = no_trans
      | Some e \<Rightarrow>
          trans_state (ro_states data s i) = edge_to e \<and>
          unat (trans_action (ro_states data s i)) < max_actions lim \<and>
          (case edge_action e of
             None \<Rightarrow> trans_action (ro_states data s i) = 0
           | Some a \<Rightarrow> trans_action (ro_states data s i) \<noteq> 0 \<and>
                       ro_actions data (unat (trans_action (ro_states data s i))) = conv a))"

definition fits :: "table_limits \<Rightarrow> 'a dfa \<Rightarrow> bool" where
  "fits lim d \<longleftrightarrow> unat (num_states d) \<le> max_states lim \<and>
     (\<forall>(s, i, t, a) \<in> set (iter_transitions d). unat i < max_edges lim) \<and>
     card (action_keys (iter_transitions d)) \<le> max_actions lim"

lemma action_keys_cong: "set ts = set ts' \<Longrightarrow> action_keys ts = action_keys ts'"
  by (simp add: action_keys_def)

lemma word_of_nat_index:
  assumes "j < max_actions lim" and "max_actions lim \<le> 0x10000"
  shows "unat (word_of_nat j :: u16) = j"
  using assms by (simp add: unsigned_of_nat take_bit_nat_eq_self)

lemma table_inv_represents:
  assumes wf: "wf_dfa d" and ts: "set ts = set (iter_transitions d)" and lim: "max_actions lim \<le> 0x10000"
    and inv: "table_inv lim d zero ts (idx, data)"
    and s': "ro_states data' = ro_states data"
    and a': "\<forall>i. ro_actions data' i =
        (if i \<in> snd ` set idx then written_actions conv zero idx i else ro_actions data i)"
  shows "represents lim conv d data' \<and> ro_actions data' 0 = zero"
proof -
  have ok: "idx_ok idx" and keys: "fst ` set idx = action_keys ts"
    and lt: "\<forall>i \<in> snd ` set idx. i < max_actions lim"
    and st: "\<And>s i. ro_states data s i = table_entry d (set ts) idx s i"
    using inv by (auto simp: table_inv_def)
  have dist: "distinct (map fst (map (\<lambda>(a, i). (i, a)) idx))"
    using ok by (simp add: idx_ok_def comp_def split_def)
  have stored: "ro_actions data' j = (case a of None \<Rightarrow> zero | Some a \<Rightarrow> conv a)"
    if "(a, j) \<in> set idx" for a j
  proof -
    have "(j, a) \<in> set (map (\<lambda>(a, i). (i, a)) idx)" using that by force
    then have "map_of (map (\<lambda>(a, i). (i, a)) idx) j = Some a" using dist by (simp add: map_of_is_SomeI)
    with that show ?thesis by (force simp: a' written_actions_def split: option.split)
  qed
  have zero: "(None, 0) \<in> set idx" using ok by (auto simp: idx_ok_def dest: map_of_SomeD)
  have "case dfa_edge d s i of
        None \<Rightarrow> ro_states data' s i = no_trans
      | Some e \<Rightarrow>
          trans_state (ro_states data' s i) = edge_to e \<and>
          unat (trans_action (ro_states data' s i)) < max_actions lim \<and>
          (case edge_action e of
             None \<Rightarrow> trans_action (ro_states data' s i) = 0
           | Some a \<Rightarrow> trans_action (ro_states data' s i) \<noteq> 0 \<and>
                       ro_actions data' (unat (trans_action (ro_states data' s i))) = conv a)" for s i
  proof (cases "dfa_edge d s i")
    case None
    then show ?thesis by (simp add: s' st table_entry_def)
  next
    case (Some e)
    then have it: "(s, i, edge_to e, edge_action e) \<in> set ts"
      using in_iter_transitions [OF wf_dfaD(2) [OF wf]] by (auto simp: ts)
    then have "edge_action e \<in> fst ` set idx" unfolding keys action_keys_def by force
    then obtain j where j: "map_of idx (edge_action e) = Some j"
      by (metis map_of_eq_None_iff not_None_eq)
    have m: "(edge_action e, j) \<in> set idx" using j by (rule map_of_SomeD)
    then have jl: "j < max_actions lim" using lt by force
    have t: "ro_states data' s i = \<lparr>trans_state = edge_to e, trans_action = word_of_nat j\<rparr>"
      using Some it j by (simp add: s' st table_entry_def)
    have u: "unat (word_of_nat j :: u16) = j" using jl lim by (rule word_of_nat_index)
    have "(word_of_nat j :: u16) = 0 \<longleftrightarrow> edge_action e = None"
    proof -
      have "(word_of_nat j :: u16) = 0 \<longleftrightarrow> j = 0" unfolding word_unat_eq_iff u by simp
      also have "\<dots> \<longleftrightarrow> edge_action e = None"
        using idx_ok_inj [OF ok j, of None] j ok unfolding idx_ok_def by (metis option.inject)
      finally show ?thesis .
    qed
    moreover have "ro_actions data' j = (case edge_action e of None \<Rightarrow> zero | Some a \<Rightarrow> conv a)"
      using m by (rule stored)
    ultimately show ?thesis
      using jl u
      by (cases "edge_action e") (simp_all only: Some t option.case trans.simps u jl simp_thms option.simps)
  qed
  then have "represents lim conv d data'" unfolding represents_def by blast
  with stored [OF zero] show ?thesis by simp
qed

lemma inject_table_result:
  assumes "wf_dfa d" and "set ts = set (iter_transitions d)"
    and "0 < max_actions lim" and "max_actions lim \<le> 0x10000"
  shows "case inject_table lim conv d ts (empty_rodata zero) of
      Inl f \<Rightarrow> f = ExceedsLimit \<and> \<not> fits lim d
    | Inr data \<Rightarrow> fits lim d \<and> represents lim conv d data \<and> ro_actions data 0 = zero"
proof (cases "max_states lim < unat (num_states d)")
  case True
  then show ?thesis by (simp add: inject_table_def dfa_num_states_def fits_def)
next
  case False
  then have n: "unat (num_states d) \<le> max_states lim" by simp
  note l = inject_transitions [OF assms(1) equalityD1 [OF assms(2)] n assms(3), of zero]
  show ?thesis
  proof (cases "fold_res (inject_transition lim) ts ([(None, 0)], empty_rodata zero)")
    case (Inl f)
    with l False have "f = ExceedsLimit \<and> \<not> fits lim d"
      unfolding fits_def assms(2) action_keys_cong [OF assms(2)] by fastforce
    with False Inl show ?thesis by (simp add: inject_table_def dfa_num_states_def)
  next
    case (Inr st)
    obtain idx data where st: "st = (idx, data)" by (cases st)
    have inv: "table_inv lim d zero ts (idx, data)" using l Inr st by simp
    have ok: "idx_ok idx" and lt: "\<forall>i \<in> snd ` set idx. i < max_actions lim"
      and keys: "fst ` set idx = action_keys ts" and z: "ro_actions data = (\<lambda>_. zero)"
      and e: "\<forall>(s, i, t, a) \<in> set ts. unat i < max_edges lim"
      using inv by (auto simp: table_inv_def)
    have "distinct (map snd idx)" using ok by (simp add: idx_ok_def)
    from inject_actions [OF lt this, of data zero conv] z obtain data' where
      d': "fold_res (inject_action lim conv) idx data = Inr data'" "ro_states data' = ro_states data"
      "\<forall>i. ro_actions data' i =
        (if i \<in> snd ` set idx then written_actions conv zero idx i else ro_actions data i)" by auto
    have "set (map snd idx) \<subseteq> {..<max_actions lim}" using lt by auto
    then have "card (set (map snd idx)) \<le> max_actions lim" by (metis card_lessThan card_mono finite_lessThan)
    then have "length idx \<le> max_actions lim" using ok by (metis distinct_card idx_ok_def length_map)
    then have "fits lim d"
      using n e idx_ok_length [OF ok] action_keys_cong [OF assms(2)]
      by (simp add: fits_def keys assms(2))
    moreover have "inject_table lim conv d ts (empty_rodata zero) = Inr data'"
      using False Inr d'(1) by (simp add: inject_table_def dfa_num_states_def st)
    ultimately show ?thesis
      using table_inv_represents [OF assms(1,2,4) inv d'(2,3)] by simp
  qed
qed

text \<open>The interface of a parser program: the lengths of its arrays, and its actions.\<close>

locale table_program =
  fixes lim :: table_limits
    and conv :: "'a \<Rightarrow> 'b"
    and zero :: 'b
  assumes actions_fit: "0 < max_actions lim" "max_actions lim \<le> 0x10000"
    and conv_zero: "conv a \<noteq> zero"
begin

lemma injected:
  assumes "wf_dfa d" and "set ts = set (iter_transitions d)"
  shows "case inject_table lim conv d ts (empty_rodata zero) of
      Inl f \<Rightarrow> f = ExceedsLimit \<and> \<not> fits lim d
    | Inr data \<Rightarrow> fits lim d \<and> represents lim conv d data \<and> ro_actions data 0 = zero"
  using assms actions_fit by (rule inject_table_result)

text \<open>The program can tell from the action alone whether the edge carries one.\<close>

lemma represented_action:
  assumes "represents lim conv d data" and "ro_actions data 0 = zero" and "dfa_edge d s i = Some e"
  shows "ro_actions data (unat (trans_action (ro_states data s i))) =
      (case edge_action e of None \<Rightarrow> zero | Some a \<Rightarrow> conv a)"
    and "ro_actions data (unat (trans_action (ro_states data s i))) = zero \<longleftrightarrow> edge_action e = None"
proof -
  have "case dfa_edge d s i of
        None \<Rightarrow> ro_states data s i = no_trans
      | Some e \<Rightarrow>
          trans_state (ro_states data s i) = edge_to e \<and>
          unat (trans_action (ro_states data s i)) < max_actions lim \<and>
          (case edge_action e of
             None \<Rightarrow> trans_action (ro_states data s i) = 0
           | Some a \<Rightarrow> trans_action (ro_states data s i) \<noteq> 0 \<and>
                       ro_actions data (unat (trans_action (ro_states data s i))) = conv a)"
    using assms(1) unfolding represents_def by blast
  then show eq: "ro_actions data (unat (trans_action (ro_states data s i))) =
      (case edge_action e of None \<Rightarrow> zero | Some a \<Rightarrow> conv a)"
    using assms(2,3) by (cases "edge_action e") auto
  show "ro_actions data (unat (trans_action (ro_states data s i))) = zero \<longleftrightarrow> edge_action e = None"
    unfolding eq using conv_zero by (cases "edge_action e") auto
qed

end

end
