(* ===== verification/Http2_Attach.thy ===== *)
theory Http2_Attach
  imports Http2_Parser Http2_Conn Table_Injection Bpf_Load
begin

section \<open>Attaching the HTTP/2 parser (\<open>beeper/src/http2/parser.rs\<close>)\<close>

text \<open>
  \<open>inject\<close>, \<open>populate_static_table\<close> and \<open>attach\<close>, and the methods of the attached parser.
  Libbpf is the environment of \<open>Bpf_Load\<close>, the Huffman encoder the parameter \<open>encode\<close>, and
  \<open>ts\<close> the order in which the hash maps of the DFA are iterated.
\<close>

subsection \<open>Loading\<close>

text \<open>The lengths of the arrays of \<open>http2/parser.bpf.c\<close>.\<close>

definition h2_limits :: table_limits where
  "h2_limits = \<lparr>max_states = 1024, max_edges = 256, max_actions = 1024\<rparr>"

definition h2_no_action :: http2_action where
  "h2_no_action = \<lparr>h2a_val = 0, h2a_kind = 0, h2a_flags = 0\<rparr>"

text \<open>The constants \<open>load_rodata!\<close> writes, by name.\<close>

definition h2_rodata_consts :: "(string \<times> nat) list" where
  "h2_rodata_consts =
     [(''DYNAMIC_TABLE_BASE'', unat DYNAMIC_TABLE_BASE),
      (''S_DEAD'', unat S_DEAD), (''S_FIELD'', unat S_FIELD), (''S_VAL_LEN'', unat S_VAL_LEN),
      (''S_NAME'', unat S_NAME), (''S_NAME_PLAIN'', unat S_NAME_PLAIN),
      (''HTTP2A_INDEXED'', unat (kind_u8 Indexed)), (''HTTP2A_IDX_NAME'', unat (kind_u8 IdxName)),
      (''HTTP2A_LIT_NAME'', unat (kind_u8 LitName)), (''HTTP2A_KEY_LEN'', unat (kind_u8 KeyLen)),
      (''HTTP2A_VAL_LEN'', unat (kind_u8 ValLen)), (''HTTP2A_TABLE_SIZE'', unat (kind_u8 TableSize)),
      (''HTTP2A_INT_START'', unat (kind_u8 IntStart)), (''HTTP2A_INT_CONT'', unat (kind_u8 IntCont)),
      (''HTTP2A_CAPTURE'', unat (kind_u8 Capture)), (''HTTP2A_ERR'', unat (kind_u8 Err)),
      (''HTTP2F_HUFF'', unat F_HUFF), (''HTTP2F_ADD_DT'', unat F_ADD_DT), (''HTTP2F_CONT'', unat F_CONT)]"

type_synonym h2_rodata = "(string \<times> nat) list \<times> http2_action rodata"

definition h2_inject ::
  "(state_id \<times> input \<times> state_id \<times> h2_action option) list \<Rightarrow> h2_parser \<Rightarrow>
     (h2_action, ('enc, 'bpf, 'plain) beeper_error) failure + h2_rodata" where
  "h2_inject ts p =
     (case inject_table h2_limits http2_action_from (h2_dfa p) ts (empty_rodata h2_no_action) of
        Inl f \<Rightarrow> Inl (inject_error f)
      | Inr data \<Rightarrow> Inr (h2_rodata_consts, data))"

text \<open>\<open>http2_hdr_field\<close>: an entry of the static table.\<close>

record http2_hdr_field =
  hf_key :: bytes
  hf_key_len :: u8
  hf_val :: bytes
  hf_val_len :: u8
  hf_key_huff :: u8
  hf_val_huff :: u8

definition resize :: "nat \<Rightarrow> bytes \<Rightarrow> bytes" where
  "resize n bs = take n bs @ replicate (n - length bs) 0"

definition static_field :: "bytes \<Rightarrow> bytes \<Rightarrow> http2_hdr_field" where
  "static_field key val =
     \<lparr>hf_key = resize 128 key, hf_key_len = word_of_nat (length key),
      hf_val = resize 128 val, hf_val_len = word_of_nat (length val),
      hf_key_huff = 1, hf_val_huff = 1\<rparr>"

type_synonym 'bpf h2_env = "(h2_rodata, http2_hdr_field, 'bpf) bpf_env"
type_synonym h2_trace = "(h2_rodata, http2_hdr_field) trace"

definition insert_static ::
  "(bytes \<Rightarrow> 'enc + bytes) \<Rightarrow> 'bpf h2_env \<Rightarrow> nat \<times> string \<times> string option \<Rightarrow> h2_trace \<Rightarrow>
     (h2_action, ('enc, 'bpf, 'plain) beeper_error) failure + h2_trace" where
  "insert_static encode env = (\<lambda>(idx, key, val) tr.
     case encode (bytes_of key) of
       Inl e \<Rightarrow> Inl (Failed (error_from_encoder e))
     | Inr key_coded \<Rightarrow>
         (case (case val of None \<Rightarrow> Inr [] | Some val \<Rightarrow> encode (bytes_of val)) of
            Inl e \<Rightarrow> Inl (Failed (error_from_encoder e))
          | Inr val_coded \<Rightarrow>
              perform env (UpdateStaticTable (word_of_nat idx) (static_field key_coded val_coded)) tr))"

definition static_inserts :: "(nat \<times> string \<times> string option) list" where
  "static_inserts =
     (let (st_keys, st_hfs) = create_header_maps in
      concat (map (\<lambda>(key, vals). map (\<lambda>(val, idx). (idx, key, Some val)) vals) st_hfs) @
      map (\<lambda>(key, idx). (idx, key, None)) st_keys)"

definition populate_static_table ::
  "(bytes \<Rightarrow> 'enc + bytes) \<Rightarrow> 'bpf h2_env \<Rightarrow> h2_trace \<Rightarrow>
     (h2_action, ('enc, 'bpf, 'plain) beeper_error) failure + h2_trace" where
  "populate_static_table encode env tr =
     bind_res (fold_res (insert_static encode env) static_inserts tr) (perform env FreezeStaticTable)"

definition h2_progs :: "prog list" where
  "h2_progs = [Parse_msg, Parse_skb, Matched, Get_match_msg, Get_match_skb, Get_dt_entry]"

text \<open>The loops of \<open>attach\<close> over the functions to replace, and the ones over the links.\<close>

definition h2_configure ::
  "'bpf h2_env \<Rightarrow> int \<Rightarrow> h2_parser \<Rightarrow> h2_trace \<Rightarrow>
     (h2_action, ('enc, 'bpf, 'plain) beeper_error) failure + h2_trace" where
  "h2_configure env target p tr =
     bind_res (fold_res (\<lambda>(buf, func). configure_prog env target (parse_prog buf) func) (h2_parse_fns p) tr) (\<lambda>tr.
     bind_res (fold_res (\<lambda>(prog, func). configure_prog env target prog func) (opt_prog Matched (h2_matched_fn p)) tr) (\<lambda>tr.
     bind_res (fold_res (\<lambda>(buf, func). configure_prog env target (get_prog buf) func) (h2_get_fns p) tr) (\<lambda>tr.
     fold_res (\<lambda>(prog, func). configure_prog env target prog func)
       (opt_prog Get_dt_entry (h2_get_dynamic_table_entry_fn p)) tr)))"

definition h2_links ::
  "'bpf h2_env \<Rightarrow> h2_parser \<Rightarrow> h2_trace \<Rightarrow>
     (h2_action, ('enc, 'bpf, 'plain) beeper_error) failure + prog list \<times> h2_trace" where
  "h2_links env p tr =
     bind_res (fold_res (\<lambda>(buf, _). attach_prog env (parse_prog buf)) (h2_parse_fns p) ([], tr)) (\<lambda>st.
     bind_res (fold_res (\<lambda>(prog, _). attach_prog env prog) (opt_prog Matched (h2_matched_fn p)) st) (\<lambda>st.
     bind_res (fold_res (\<lambda>(buf, _). attach_prog env (get_prog buf)) (h2_get_fns p) st) (\<lambda>st.
     fold_res (\<lambda>(prog, _). attach_prog env prog) (opt_prog Get_dt_entry (h2_get_dynamic_table_entry_fn p)) st)))"

definition h2_attach ::
  "(bytes \<Rightarrow> 'enc + bytes) \<Rightarrow> 'bpf h2_env \<Rightarrow> bool \<Rightarrow>
     (state_id \<times> input \<times> state_id \<times> h2_action option) list \<Rightarrow> int \<Rightarrow> h2_parser \<Rightarrow>
     (h2_action, ('enc, 'bpf, 'plain) beeper_error) failure + prog list \<times> h2_trace" where
  "h2_attach encode env trace_enabled ts target p =
     bind_res (perform env OpenSkel []) (\<lambda>tr.
     bind_res (fold_res (\<lambda>prog. record_op (SetLogLevel prog))
       (if trace_enabled then [Parse_msg, Parse_skb] else []) tr) (\<lambda>tr.
     bind_res (fold_res (\<lambda>prog. record_op (SetAutoload prog False)) h2_progs tr) (\<lambda>tr.
     bind_res (h2_configure env target p tr) (\<lambda>tr.
     bind_res (h2_inject ts p) (\<lambda>data.
     bind_res (record_op (WriteRodata data) tr) (\<lambda>tr.
     bind_res (perform env LoadSkel tr) (\<lambda>tr.
     bind_res (perform env InitTracing tr) (\<lambda>tr.
     bind_res (h2_links env p tr) (\<lambda>(links, tr).
     bind_res (perform env StaticTableInfo tr) (\<lambda>tr.
     bind_res (perform env StaticTableHandle tr) (\<lambda>tr.
     bind_res (populate_static_table encode env tr) (\<lambda>tr.
     bind_res (perform env InfoTableHandle tr) (\<lambda>tr.
     bind_res (perform env DynamicTableHandle tr) (\<lambda>tr.
     Inr (links, tr)))))))))))))))"

lemma h2_action_nonzero: "http2_action_from a \<noteq> h2_no_action"
  by (simp add: http2_action_from_def h2_no_action_def)

interpretation h2_table: table_program h2_limits http2_action_from h2_no_action
  by unfold_locales (simp_all add: h2_limits_def h2_action_nonzero)

lemma h2_inject_result:
  assumes "wf_dfa (h2_dfa p)" and "set ts = set (iter_transitions (h2_dfa p))"
  shows "case (h2_inject ts p :: (h2_action, ('enc, 'bpf, 'plain) beeper_error) failure + h2_rodata) of
      Inl f \<Rightarrow> f = Failed ParserExceedsStateLimit \<and> \<not> fits h2_limits (h2_dfa p)
    | Inr (consts, data) \<Rightarrow> consts = h2_rodata_consts \<and> fits h2_limits (h2_dfa p) \<and>
        represents h2_limits http2_action_from (h2_dfa p) data \<and> ro_actions data 0 = h2_no_action"
  using h2_table.injected [OF assms] by (auto simp: h2_inject_def split: sum.splits)

subsection \<open>What a successful \<open>attach\<close> has done\<close>

text \<open>The form the static table stores a string in.\<close>

definition coded :: "(bytes \<Rightarrow> 'enc + bytes) \<Rightarrow> string \<Rightarrow> bytes" where
  "coded encode s = (case encode (bytes_of s) of Inr c \<Rightarrow> c | Inl _ \<Rightarrow> [])"

definition static_op :: "(bytes \<Rightarrow> 'enc + bytes) \<Rightarrow> nat \<times> string \<times> string option \<Rightarrow> (h2_rodata, http2_hdr_field) bpf_op" where
  "static_op encode = (\<lambda>(idx, key, val). UpdateStaticTable (word_of_nat idx)
     (static_field (coded encode key) (case val of None \<Rightarrow> [] | Some val \<Rightarrow> coded encode val)))"

lemma insert_static_Inr:
  "insert_static encode env x tr = Inr tr' \<Longrightarrow> tr' = tr @ [static_op encode x]"
  by (cases x) (auto simp: insert_static_def static_op_def coded_def res_simps split: sum.splits option.splits)

lemma insert_static_all:
  "fold_res (insert_static encode env) xs tr = Inr tr' \<Longrightarrow> tr' = tr @ map (static_op encode) xs"
  by (induction xs arbitrary: tr) (simp, fastforce simp: bind_res_eq_Inr dest: insert_static_Inr)

lemma populate_Inr:
  "populate_static_table encode env tr = Inr tr' \<Longrightarrow>
     tr' = tr @ map (static_op encode) static_inserts @ [FreezeStaticTable]"
  by (auto simp: populate_static_table_def res_simps dest: insert_static_all)

definition h2_configured :: "h2_parser \<Rightarrow> (prog \<times> string) list" where
  "h2_configured p = configured (h2_parse_fns p) (h2_matched_fn p) (h2_get_fns p) (h2_get_dynamic_table_entry_fn p)"

definition h2_replaces :: "h2_parser \<Rightarrow> prog \<Rightarrow> string option" where
  "h2_replaces p = replaces (h2_parse_fns p) (h2_matched_fn p) (h2_get_fns p) (h2_get_dynamic_table_entry_fn p)"

lemma h2_configure_fold:
  "h2_configure env target p = fold_res (\<lambda>(p, f). configure_prog env target p f) (h2_configured p)"
  by (simp add: fun_eq_iff h2_configure_def h2_configured_def configured_def fold_res_fun fold_res_map split_def)

lemma h2_links_fold: "h2_links env p tr = fold_res (attach_prog env) (map fst (h2_configured p)) ([], tr)"
  by (simp add: h2_links_def h2_configured_def configured_def fold_res_fun fold_res_map split_def)

lemma h2_attach_trace:
  fixes env :: "'bpf h2_env" and encode :: "bytes \<Rightarrow> 'enc + bytes"
  assumes "h2_attach encode env trace_enabled ts target p =
    (Inr (links, tr) :: (h2_action, ('enc, 'bpf, 'plain) beeper_error) failure + prog list \<times> h2_trace)"
  obtains data where
    "h2_inject ts p = (Inr data :: (h2_action, ('enc, 'bpf, 'plain) beeper_error) failure + h2_rodata)"
    and "links = map fst (h2_configured p)"
    and "tr = [OpenSkel] @ map SetLogLevel (if trace_enabled then [Parse_msg, Parse_skb] else []) @
      map (\<lambda>p. SetAutoload p False) h2_progs @
      configure_ops target (h2_configured p) @ [WriteRodata data, LoadSkel, InitTracing] @
      map AttachProg (map fst (h2_configured p)) @ [StaticTableInfo, StaticTableHandle] @
      map (static_op encode) static_inserts @ [FreezeStaticTable, InfoTableHandle, DynamicTableHandle]"
  using assms unfolding h2_attach_def
proof (elim bind_res_Inr_pairE bind_res_InrE, goal_cases)
  case (1 t1 t2 t3 t4 data t5 t6 t7 ls tl t9 t10 t11 t12 t13)
  have t4: "t4 = t3 @ configure_ops target (h2_configured p)"
    using 1(5) unfolding h2_configure_fold by (rule configure_all)
  have tl: "ls = map fst (h2_configured p) \<and> tl = t7 @ map AttachProg (map fst (h2_configured p))"
    using attach_all [OF 1(10) [unfolded h2_links_fold]] by simp
  have t11: "t11 = t10 @ map (static_op encode) static_inserts @ [FreezeStaticTable]"
    using 1(13) by (rule populate_Inr)
  show thesis
    using 1(2-4,7-9,11,12,14-16) t4 tl t11
    by (intro 1(1) [OF 1(6)]) (auto simp: res_simps record_op_def reset_all log_all simp del: map_map)
qed

subsection \<open>The static table\<close>

fun static_step :: "(h2_rodata, http2_hdr_field) bpf_op \<Rightarrow> (u32 \<rightharpoonup> http2_hdr_field) \<Rightarrow> (u32 \<rightharpoonup> http2_hdr_field)" where
  "static_step (UpdateStaticTable idx field) m = m(idx \<mapsto> field)"
| "static_step op m = m"

definition static_table :: "h2_trace \<Rightarrow> (u32 \<rightharpoonup> http2_hdr_field)" where
  "static_table tr = fold static_step tr (\<lambda>_. None)"

lemma static_inserts_list:
  "static_inserts = map (\<lambda>i. let (name, val) = rfc_static_table ! i in
     (i + 1, name, if val = [] then None else Some val)) static_order"
  by code_simp

definition static_value :: "(bytes \<Rightarrow> 'enc + bytes) \<Rightarrow> string \<Rightarrow> bytes" where
  "static_value encode val = (if val = [] then [] else coded encode val)"

definition rfc_field :: "(bytes \<Rightarrow> 'enc + bytes) \<Rightarrow> nat \<Rightarrow> http2_hdr_field" where
  "rfc_field encode i =
     static_field (coded encode (fst (rfc_static_table ! i))) (static_value encode (snd (rfc_static_table ! i)))"

lemma static_ops_list:
  "map (static_op encode) static_inserts =
     map (\<lambda>i. UpdateStaticTable (word_of_nat (i + 1)) (rfc_field encode i)) static_order"
  by (simp add: static_inserts_list static_op_def rfc_field_def static_value_def Let_def split_def comp_def)

lemma static_updates:
  assumes "distinct js0" and "\<forall>i \<in> set js0. i < 61" and "i \<in> set js0"
  shows "fold static_step (map (\<lambda>i. UpdateStaticTable (word_of_nat (i + 1)) (rfc_field encode i)) js0) m
    (word_of_nat (i + 1)) = Some (rfc_field encode i)"
  using assms
proof (induction js0 arbitrary: m rule: rev_induct)
  case (snoc j js)
  show ?case
  proof (cases "i = j")
    case False
    have "(word_of_nat (i + 1) :: u32) \<noteq> word_of_nat (j + 1)"
      using u32_of_nat_eq [of "i + 1" "j + 1"] False snoc.prems by auto
    with snoc False show ?thesis by simp
  qed simp
qed simp

lemma static_step_other:
  assumes "\<And>op. op \<in> set ops \<Longrightarrow> \<nexists>idx field. op = UpdateStaticTable idx field"
  shows "fold static_step ops m = m"
  using assms
proof (induction ops arbitrary: m)
  case (Cons op ops)
  then have "static_step op m = m" by (cases op) auto
  with Cons show ?case by simp
qed simp

definition static_tail :: "(bytes \<Rightarrow> 'enc + bytes) \<Rightarrow> h2_trace" where
  "static_tail encode = [StaticTableInfo, StaticTableHandle] @ map (static_op encode) static_inserts @
     [FreezeStaticTable, InfoTableHandle, DynamicTableHandle]"

definition h2_trace_of ::
  "(bytes \<Rightarrow> 'enc + bytes) \<Rightarrow> bool \<Rightarrow> int \<Rightarrow> h2_parser \<Rightarrow> h2_rodata \<Rightarrow> h2_trace" where
  "h2_trace_of encode trace_enabled target p data =
     parser_trace trace_enabled h2_progs target (h2_configured p) data (static_tail encode)"

lemma static_op_silent: "list_all silent_op (map (static_op encode) xs)"
  by (induction xs) (auto simp: static_op_def)

lemma h2_progs_all: "prog \<in> set h2_progs"
  by (cases prog) (simp_all add: h2_progs_def)

lemma h2_trace_of_says:
  assumes "distinct (map fst (h2_parse_fns p))" and "distinct (map fst (h2_get_fns p))"
  shows "autoloads (h2_trace_of encode te target p data) prog \<longleftrightarrow> h2_replaces p prog \<noteq> None"
    and "attach_target (h2_trace_of encode te target p data) prog =
      map_option (\<lambda>func. (target, func)) (h2_replaces p prog)"
    and "loaded_rodata (h2_trace_of encode te target p data) = Some data"
    and "attached (h2_trace_of encode te target p data) = {prog. h2_replaces p prog \<noteq> None}"
proof -
  note d = configured_distinct [OF assms, of "h2_matched_fn p" "h2_get_dynamic_table_entry_fn p", folded h2_configured_def]
  have "list_all silent_op (static_tail encode)" by (simp add: static_tail_def static_op_silent)
  note says = parser_trace_says [OF d this, where progs = h2_progs and te = te and target = target and data = data,
      folded h2_trace_of_def]
  have look: "map_of (h2_configured p) prog = h2_replaces p prog" for prog
    by (simp add: h2_configured_def h2_replaces_def configured_lookup)
  show "autoloads (h2_trace_of encode te target p data) prog \<longleftrightarrow> h2_replaces p prog \<noteq> None"
    using says(1) [OF h2_progs_all] by (simp add: look)
  show "attach_target (h2_trace_of encode te target p data) prog =
      map_option (\<lambda>func. (target, func)) (h2_replaces p prog)"
    using says(2) by (simp add: look)
  show "loaded_rodata (h2_trace_of encode te target p data) = Some data" by (rule says(3))
  have "fst ` set (h2_configured p) = {prog. map_of (h2_configured p) prog \<noteq> None}"
    unfolding dom_map_of_conv_image_fst [symmetric] dom_def ..
  then show "attached (h2_trace_of encode te target p data) = {prog. h2_replaces p prog \<noteq> None}"
    using says(4) by (simp add: look)
qed

lemma static_table_trace_of:
  assumes "i < 61"
  shows "static_table (h2_trace_of encode te target p data) (word_of_nat (i + 1)) = Some (rfc_field encode i)"
proof -
  define pre :: h2_trace where "pre = [OpenSkel] @ map SetLogLevel (if te then [Parse_msg, Parse_skb] else []) @
     map (\<lambda>p. SetAutoload p False) h2_progs @
     configure_ops target (h2_configured p) @ [WriteRodata data, LoadSkel, InitTracing] @
     map AttachProg (map fst (h2_configured p)) @ [StaticTableInfo, StaticTableHandle]"
  have "static_table (h2_trace_of encode te target p data) =
      fold static_step (map (static_op encode) static_inserts) (fold static_step pre (\<lambda>_. None))"
    by (simp add: static_table_def h2_trace_of_def parser_trace_def static_tail_def pre_def)
  then show ?thesis
    unfolding static_ops_list using static_updates [of static_order i] static_order assms by simp
qed

subsection \<open>The actions always fit\<close>

definition hpack_actions :: "h2_action set" where
  "hpack_actions = (\<Union>(s, f) \<in> set hpack_bytes. range (\<lambda>b. snd (f b)))"

lemma card_u8_range: "card (range (f :: u8 \<Rightarrow> 'b)) \<le> 256"
  using card_image_le [of UNIV f] by (simp add: card_word)

lemma continuation_actions:
  "range (\<lambda>b. snd (continuation_byte s k to fl b)) \<subseteq> {Action2 IntCont 0 0, Action2 k 0 (fl OR F_CONT)}"
  by (auto simp: continuation_byte_def)

lemma card_two: "card (range (\<lambda>b. snd (continuation_byte s k to fl b))) \<le> 2"
  using card_mono [OF _ continuation_actions] by (rule order.trans) (auto simp: card_insert_if)

lemma card_Un_le2: "card A \<le> m \<Longrightarrow> card B \<le> n \<Longrightarrow> card (A \<union> B) \<le> m + n"
  by (rule order.trans [OF card_Un_le add_mono])

lemma card_hpack_actions: "card hpack_actions \<le> 784"
proof -
  have "card hpack_actions \<le> 256 + (256 + (256 + (2 + (2 + (2 + (2 + (2 + (2 + (2 + (2 + 0))))))))))"
    unfolding hpack_actions_def hpack_bytes_def list.set UN_insert prod.case UN_empty
    by (intro card_Un_le2 card_u8_range card_two) simp
  then show ?thesis by simp
qed

lemma card_captured_actions: "card (captured_actions p) \<le> 32" if "h2_num_matches p \<le> H2_MAX_MATCHES"
proof -
  have "captured_actions p \<subseteq> (\<lambda>n. action_capture (MatchId (word_of_nat n))) ` {..<32}"
  proof
    fix a assume "a \<in> captured_actions p"
    then obtain mid where mid: "a = action_capture mid" "match_idx mid < h2_num_matches p"
      by (auto simp: captured_actions_def)
    have "unat (match_idx mid) < unat (h2_num_matches p)" using mid(2) by (simp add: word_less_nat_alt)
    moreover have "unat (h2_num_matches p) \<le> unat H2_MAX_MATCHES" using that by (simp only: word_le_nat_alt)
    ultimately have "unat (match_idx mid) \<in> {..<32}" by simp
    moreover have "a = action_capture (MatchId (word_of_nat (unat (match_idx mid))))"
      by (simp add: mid(1))
    ultimately show "a \<in> (\<lambda>n. action_capture (MatchId (word_of_nat n))) ` {..<32}" by blast
  qed
  then have "card (captured_actions p) \<le> card ((\<lambda>n. action_capture (MatchId (word_of_nat n))) ` {..<32})"
    by (intro card_mono) auto
  also have "\<dots> \<le> card {..<32 :: nat}" by (rule card_image_le) simp
  finally show ?thesis by simp
qed

lemma h2_edge_cases:
  assumes "h2_inv encode p" and "dfa_edge (h2_dfa p) s i = Some e"
  shows "i \<le> 0xFF \<and> edge_action e \<in> insert None (Some ` (hpack_actions \<union> captured_actions p))"
proof (cases "s \<in> name_roots \<or> S_RESERVED \<le> s")
  case True
  with h2_invD(6) [OF assms(1)] assms(2) show ?thesis unfolding trie_actions_def by blast
next
  case False
  then have "hpack_edge s i = Some e" using h2_invD(3) [OF assms(1), of s i] assms(2) by (metis not_le)
  then obtain f where f: "map_of hpack_bytes s = Some f" "i \<le> 0xFF"
    "e = \<lparr>edge_to = fst (f (ucast i)), edge_action = Some (snd (f (ucast i)))\<rparr>"
    by (auto simp: hpack_edge_def split: option.splits if_splits)
  have "(s, f) \<in> set hpack_bytes" using f(1) by (rule map_of_SomeD)
  then have "snd (f (ucast i)) \<in> hpack_actions" unfolding hpack_actions_def by blast
  with f show ?thesis by simp
qed

lemma finite_hpack_actions: "finite hpack_actions"
  unfolding hpack_actions_def by auto

lemma h2_fits_iff:
  assumes "h2_inv encode p"
  shows "fits h2_limits (h2_dfa p) \<longleftrightarrow> unat (num_states (h2_dfa p)) \<le> 1024"
proof -
  note wf = wf_dfaD(2) [OF h2_invD(1) [OF assms]]
  have trans: "i \<le> 0xFF \<and> a \<in> insert None (Some ` (hpack_actions \<union> captured_actions p))"
    if "(s, i, t, a) \<in> set (iter_transitions (h2_dfa p))" for s i t a
    using that h2_edge_cases [OF assms] by (auto simp: in_iter_transitions [OF wf])
  have "action_keys (iter_transitions (h2_dfa p)) \<subseteq> insert None (Some ` (hpack_actions \<union> captured_actions p))"
    unfolding action_keys_def using trans by fastforce
  moreover have fin: "finite (captured_actions p)"
  proof -
    have "{mid. match_idx mid < h2_num_matches p} \<subseteq> range MatchId" by (metis match_id.collapse rangeI subsetI)
    then have "finite {mid. match_idx mid < h2_num_matches p}" by (rule finite_subset) simp
    then show ?thesis by (simp add: captured_actions_def)
  qed
  ultimately have "card (action_keys (iter_transitions (h2_dfa p))) \<le>
      card (insert None (Some ` (hpack_actions \<union> captured_actions p)))"
    by (intro card_mono) (simp_all add: finite_hpack_actions)
  also have "\<dots> \<le> Suc (card (hpack_actions \<union> captured_actions p))"
    using card_image_le [of "hpack_actions \<union> captured_actions p" Some] fin finite_hpack_actions
    by (simp add: card_insert_if)
  also have "\<dots> \<le> Suc (784 + 32)"
  proof -
    have "h2_num_matches p \<le> H2_MAX_MATCHES" using h2_invD(4) [OF assms] by (simp add: h2_ids.ids_ok_def)
    from card_Un_le2 [OF card_hpack_actions card_captured_actions [OF this]] show ?thesis by simp
  qed
  finally have "card (action_keys (iter_transitions (h2_dfa p))) \<le> 1024" by simp
  moreover have "\<forall>(s, i, t, a) \<in> set (iter_transitions (h2_dfa p)). unat i < 256"
    using trans by (fastforce simp: word_le_nat_alt)
  ultimately show ?thesis by (simp add: fits_def h2_limits_def)
qed

section \<open>Properties of attaching\<close>

text \<open>
  C16: if \<open>attach\<close> returns, then exactly the programs a
  function was configured for are loaded, each with the target program and the function it
  replaces; exactly these were attached, and the parser holds a link of each; the read-only
  data of the program is what \<open>inject\<close> made of the DFA.
\<close>

theorem h2_attach_replaces_what_is_configured:
  assumes "h2_attach encode env trace_enabled ts target p =
      (Inr (links, tr) :: (h2_action, ('enc, 'bpf, 'plain) beeper_error) failure + prog list \<times> h2_trace)"
    and "distinct (map fst (h2_parse_fns p))" and "distinct (map fst (h2_get_fns p))"
  shows "(autoloads tr prog \<longleftrightarrow> h2_replaces p prog \<noteq> None) \<and>
    attach_target tr prog = map_option (\<lambda>func. (target, func)) (h2_replaces p prog) \<and>
    attached tr = {prog. h2_replaces p prog \<noteq> None} \<and> set links = attached tr \<and> distinct links \<and>
    (\<exists>data. h2_inject ts p = (Inr data :: (h2_action, ('enc, 'bpf, 'plain) beeper_error) failure + h2_rodata) \<and>
       loaded_rodata tr = Some data)"
proof -
  from assms(1) obtain data where
    data: "h2_inject ts p = (Inr data :: (h2_action, ('enc, 'bpf, 'plain) beeper_error) failure + h2_rodata)"
    and links: "links = map fst (h2_configured p)"
    and tr: "tr = h2_trace_of encode trace_enabled target p data"
    unfolding h2_trace_of_def parser_trace_def static_tail_def by (rule h2_attach_trace)
  note says = h2_trace_of_says [OF assms(2,3), of encode trace_enabled target data, folded tr]
  have "map_of (h2_configured p) prog = h2_replaces p prog" for prog
    by (simp add: h2_configured_def h2_replaces_def configured_lookup)
  then have "prog \<in> fst ` set (h2_configured p) \<longleftrightarrow> h2_replaces p prog \<noteq> None" for prog
    by (metis map_of_eq_None_iff)
  then have "set links = attached tr"
    unfolding says(4) links by auto
  moreover have "distinct links"
    using configured_distinct [OF assms(2,3)] by (simp add: links h2_configured_def)
  ultimately show ?thesis using says data by blast
qed

text \<open>
  C28: after \<open>attach\<close>, every index from 1 to 61 of the static
  table of the program holds the entry of appendix A of RFC 7541, and what a program reads
  back of a name or a value, the first \<open>key_len\<close> bytes of the key, is its Huffman coded form,
  as long as that form fits into the 128 bytes of an entry.
\<close>

theorem static_table_holds_appendix_a:
  assumes "h2_attach encode env trace_enabled ts target p =
      (Inr (links, tr) :: (h2_action, ('enc, 'bpf, 'plain) beeper_error) failure + prog list \<times> h2_trace)"
    and "i < 61" and "rfc_static_table ! i = (name, val)"
    and "length (coded encode name) \<le> 128" and "length (static_value encode val) \<le> 128"
  shows "\<exists>field. static_table tr (word_of_nat (i + 1)) = Some field \<and>
    take (unat (hf_key_len field)) (hf_key field) = coded encode name \<and>
    take (unat (hf_val_len field)) (hf_val field) = static_value encode val \<and>
    length (hf_key field) = 128 \<and> length (hf_val field) = 128"
proof -
  from assms(1) obtain data where tr: "tr = h2_trace_of encode trace_enabled target p data"
    unfolding h2_trace_of_def parser_trace_def static_tail_def by (rule h2_attach_trace)
  have read: "take (unat (word_of_nat (length c) :: u8)) (resize 128 c) = c \<and> length (resize 128 c) = 128"
    if "length c \<le> 128" for c
    using that by (simp add: resize_def unsigned_of_nat take_bit_nat_eq_self)
  from assms(3-5) read show ?thesis
    unfolding tr static_table_trace_of [OF assms(2)] by (simp add: rfc_field_def static_field_def)
qed

text \<open>
  C12: \<open>inject\<close> of a parser never panics, whatever it captures
  and in whatever order the hash maps are iterated. It fails exactly if the DFA takes more
  than the 1024 states of the program, its inputs and its actions always fit; otherwise the
  table and the actions it wrote give back every transition, its target and its action, and
  nothing else.
\<close>

theorem h2_inject_represents_the_dfa:
  assumes "h2_new = Inr p0" and "capture_all (h2_capture_hdr encode) names p0 = Inr (rs, p)"
    and "set ts = set (iter_transitions (h2_dfa p))"
  shows "case (h2_inject ts p :: (h2_action, ('enc, 'bpf, 'plain) beeper_error) failure + h2_rodata) of
      Inl f \<Rightarrow> f = Failed ParserExceedsStateLimit \<and> 1024 < unat (num_states (h2_dfa p))
    | Inr (consts, data) \<Rightarrow> consts = h2_rodata_consts \<and> unat (num_states (h2_dfa p)) \<le> 1024 \<and>
        represents h2_limits http2_action_from (h2_dfa p) data \<and> ro_actions data 0 = h2_no_action"
proof -
  have inv: "h2_inv encode p" using assms(2) h2_inv_new(1) [OF assms(1)] by (rule h2_inv_capture_all)
  from h2_inject_result [OF h2_invD(1) [OF inv] assms(3)] show ?thesis
    unfolding h2_fits_iff [OF inv] not_le .
qed

theorem h2_inject_represents_the_dfa_witness:
  "\<exists>(p :: h2_parser) data. represents h2_limits http2_action_from (h2_dfa p) data"
proof -
  obtain p p' where d: "h2_new = Inr p" "capture_all (h2_capture_hdr shifted) demo_names p =
      Inr ([Inr (MatchId 0), Inr (MatchId 1), Inr (MatchId 0)] ::
         ((unit, unit, unit) beeper_error + match_id) list, p')"
    and n: "unat (num_states (h2_dfa p')) \<le> 1024"
    by (rule h2_demo)
  from h2_inject_represents_the_dfa [OF d refl, where 'enc = unit and 'bpf = unit and 'plain = unit] n
  show ?thesis by (auto split: sum.splits)
qed

text \<open>A parser that is configured and attached in an environment without failures, for the witnesses.\<close>

lemma h2_attach_demo:
  obtains p links tr where
    "h2_attach shifted (\<lambda>_ _. None) False (iter_transitions (h2_dfa p)) 7 p =
       (Inr (links, tr) :: (h2_action, (unit, unit, unit) beeper_error) failure + prog list \<times> h2_trace)"
    and "h2_parse_fns p = [(Msg, ''parse'')]" and "h2_matched_fn p = None" and "h2_get_fns p = [(Msg, ''get'')]"
proof -
  obtain p0 p1 where d: "h2_new = Inr p0" "capture_all (h2_capture_hdr shifted) demo_names p0 =
      Inr ([Inr (MatchId 0), Inr (MatchId 1), Inr (MatchId 0)] ::
         ((unit, unit, unit) beeper_error + match_id) list, p1)"
    and n: "unat (num_states (h2_dfa p1)) \<le> 1024"
    by (rule h2_demo)
  define p where "p = h2_get_fn ''get'' Msg (h2_parse_fn ''parse'' Msg
    (p1\<lparr>h2_parse_fns := [], h2_get_fns := [], h2_matched_fn := None, h2_get_dynamic_table_entry_fn := None\<rparr>))"
  have inv: "h2_inv shifted p1" using d(2) h2_inv_new(1) [OF d(1)] by (rule h2_inv_capture_all)
  have p: "h2_dfa p = h2_dfa p1" "h2_parse_fns p = [(Msg, ''parse'')]" "h2_matched_fn p = None"
    "h2_get_fns p = [(Msg, ''get'')]" "h2_get_dynamic_table_entry_fn p = None"
    by (simp_all add: p_def h2_get_fn_def h2_parse_fn_def)
  have "wf_dfa (h2_dfa p)" and "fits h2_limits (h2_dfa p)"
    using h2_invD(1) [OF inv] h2_fits_iff [OF inv] n by (simp_all add: p(1))
  then obtain data where data: "h2_inject (iter_transitions (h2_dfa p)) p =
      (Inr data :: (h2_action, (unit, unit, unit) beeper_error) failure + h2_rodata)"
    using h2_inject_result [OF _ refl, of p, where 'enc = unit and 'bpf = unit and 'plain = unit]
    by (auto split: sum.splits)
  have pop: "\<exists>tr'. fold_res (insert_static shifted (\<lambda>_ _. None)) xs tr =
      (Inr tr' :: (h2_action, (unit, unit, unit) beeper_error) failure + h2_trace)" for xs tr
    by (induction xs arbitrary: tr) (auto simp: insert_static_def shifted_def perform_def split: option.split)
  then have pop': "fold_res (insert_static shifted (\<lambda>_ _. None)) xs tr \<noteq>
      (Inl x :: (h2_action, (unit, unit, unit) beeper_error) failure + h2_trace)" for xs tr x
    by (metis Inr_not_Inl)
  have "\<exists>links tr. h2_attach shifted (\<lambda>_ _. None) False (iter_transitions (h2_dfa p)) 7 p =
       (Inr (links, tr) :: (h2_action, (unit, unit, unit) beeper_error) failure + prog list \<times> h2_trace)"
    using pop'
    by (auto simp: h2_attach_def perform_def record_op_def reset_all log_all data h2_configure_fold h2_links_fold
        h2_configured_def configured_def p(2-) opt_prog_def configure_prog_def attach_prog_def
        populate_static_table_def bind_res_def split: sum.splits)
  with p that show ?thesis by blast
qed

theorem h2_attach_replaces_what_is_configured_witness:
  "\<exists>tr :: h2_trace. autoloads tr Parse_msg \<and> \<not> autoloads tr Parse_skb \<and>
     attach_target tr Parse_msg = Some (7, ''parse'')"
proof -
  obtain p links tr where a: "h2_attach shifted (\<lambda>_ _. None) False (iter_transitions (h2_dfa p)) 7 p =
       (Inr (links, tr) :: (h2_action, (unit, unit, unit) beeper_error) failure + prog list \<times> h2_trace)"
    and p: "h2_parse_fns p = [(Msg, ''parse'')]" "h2_matched_fn p = None" "h2_get_fns p = [(Msg, ''get'')]"
    by (rule h2_attach_demo)
  have "distinct (map fst (h2_parse_fns p))" and "distinct (map fst (h2_get_fns p))" by (simp_all add: p)
  note * = h2_attach_replaces_what_is_configured [OF a this]
  from * [of Parse_msg] * [of Parse_skb] show ?thesis
    by (auto simp: h2_replaces_def replaces_def p)
qed

theorem static_table_holds_appendix_a_witness:
  "\<exists>(tr :: h2_trace) field. static_table tr 2 = Some field \<and>
     take (unat (hf_key_len field)) (hf_key field) = coded shifted '':method'' \<and>
     take (unat (hf_val_len field)) (hf_val field) = coded shifted ''GET''"
proof -
  obtain p links tr where a: "h2_attach shifted (\<lambda>_ _. None) False (iter_transitions (h2_dfa p)) 7 p =
       (Inr (links, tr) :: (h2_action, (unit, unit, unit) beeper_error) failure + prog list \<times> h2_trace)"
    by (rule h2_attach_demo)
  have "rfc_static_table ! 1 = ('':method'', ''GET'')" by (simp add: rfc_static_table_def)
  from static_table_holds_appendix_a [OF a _ this] show ?thesis
    by (auto simp: coded_def static_value_def shifted_def bytes_of_def)
qed

end
