(* ===== verification/Http1_Action.thy ===== *)
theory Http1_Action
  imports Lib_Types
begin

section \<open>The actions of the HTTP/1.1 parser (\<open>beeper/src/http1/action.rs\<close>)\<close>

definition HTTP1A_NONE :: u8 where "HTTP1A_NONE = 0"
definition HTTP1A_START_CAPTURE :: u8 where "HTTP1A_START_CAPTURE = 1"
definition HTTP1A_END_CAPTURE :: u8 where "HTTP1A_END_CAPTURE = 2"
definition HTTP1F_DONE :: u8 where "HTTP1F_DONE = push_bit 0 1"

lemmas http1_consts = HTTP1A_NONE_def HTTP1A_START_CAPTURE_def HTTP1A_END_CAPTURE_def HTTP1F_DONE_def

datatype h1_action =
    StartCapture match_id
  | EndCapture match_id
  | Done
  | EndCaptureAndDone match_id

text \<open>\<open>struct http1_action\<close>, the form the program reads.\<close>

record http1_action =
  h1a_kind :: u8
  h1a_flags :: u8
  h1a_mid :: u8

fun http1_action_from :: "h1_action \<Rightarrow> http1_action" where
  "http1_action_from Done = \<lparr>h1a_kind = HTTP1A_NONE, h1a_flags = HTTP1F_DONE, h1a_mid = 0\<rparr>"
| "http1_action_from (StartCapture mid) =
     \<lparr>h1a_kind = HTTP1A_START_CAPTURE, h1a_flags = 0, h1a_mid = match_idx mid\<rparr>"
| "http1_action_from (EndCapture mid) =
     \<lparr>h1a_kind = HTTP1A_END_CAPTURE, h1a_flags = 0, h1a_mid = match_idx mid\<rparr>"
| "http1_action_from (EndCaptureAndDone mid) =
     \<lparr>h1a_kind = HTTP1A_END_CAPTURE, h1a_flags = HTTP1F_DONE, h1a_mid = match_idx mid\<rparr>"

text \<open>No two actions look the same to the program.\<close>

lemma http1_action_from_inj: "http1_action_from a = http1_action_from b \<longleftrightarrow> a = b"
  by (cases a; cases b) (auto simp: http1_consts match_id.expand)

end
