(* ===== verification/Http1_Parser.thy ===== *)
theory Http1_Parser
  imports Dfa_Patterns Http1_Action Match_Ids
begin

section \<open>Configuring an HTTP/1.1 parser (\<open>beeper/src/http1/parser.rs\<close>)\<close>

text \<open>
  The parser, its builder methods and the patterns it compiles header fields, request lines,
  status lines and the HTTP/2 preface into. A method returns a pair of its \<open>Result\<close> and of
  the parser it leaves, or panics. Names are the bytes of their UTF-8 form; \<open>to_lowercase\<close>,
  which the standard library takes from the Unicode tables, is a parameter.
\<close>

subsection \<open>State\<close>

definition CR :: bytes where "CR = [0x0D]"
definition LF :: bytes where "LF = [0x0A]"
definition TAB :: bytes where "TAB = [0x09]"
definition SP :: bytes where "SP = [0x20]"

definition H1_MAX_MATCHES :: u8 where "H1_MAX_MATCHES = 32"

record h1_parser =
  h1_dfa :: "h1_action dfa"
  h1_num_matches :: u8
  h1_parse_fns :: "(message_buffer \<times> string) list"
  h1_matched_fn :: "string option"
  h1_get_fns :: "(message_buffer \<times> string) list"
  h1_captures :: "(bytes \<times> match_id) list"

definition h1_new :: h1_parser where
  "h1_new = \<lparr>h1_dfa = dfa_new, h1_num_matches = 0, h1_parse_fns = [], h1_matched_fn = None,
     h1_get_fns = [], h1_captures = []\<rparr>"

definition h1_parse_fn :: "string \<Rightarrow> message_buffer \<Rightarrow> h1_parser \<Rightarrow> h1_parser" where
  "h1_parse_fn parse_fn msg_buf p = p\<lparr>h1_parse_fns := AList.update msg_buf parse_fn (h1_parse_fns p)\<rparr>"

definition h1_matched :: "string \<Rightarrow> h1_parser \<Rightarrow> h1_parser" where
  "h1_matched matched_fn p = p\<lparr>h1_matched_fn := Some matched_fn\<rparr>"

definition h1_get_fn :: "string \<Rightarrow> message_buffer \<Rightarrow> h1_parser \<Rightarrow> h1_parser" where
  "h1_get_fn get_fn msg_buf p = p\<lparr>h1_get_fns := AList.update msg_buf get_fn (h1_get_fns p)\<rparr>"

definition h1_new_match :: "h1_parser \<Rightarrow> ('enc, 'bpf, 'plain) beeper_error + match_id \<times> h1_parser" where
  "h1_new_match p =
     (if H1_MAX_MATCHES \<le> h1_num_matches p then Inl (MatchLimitExceeded (unat H1_MAX_MATCHES))
      else Inr (MatchId (h1_num_matches p), p\<lparr>h1_num_matches := h1_num_matches p + 1\<rparr>))"

subsection \<open>Patterns\<close>

text \<open>The methods, as the chain of calls they make on the builder.\<close>

definition methods :: "bytes list" where
  "methods = map bytes_of [''POST'', ''GET'', ''PUT'', ''PATCH'', ''DELETE'', ''HEAD'', ''OPTIONS'', ''TRACE'']"

text \<open>A header field: up to the start of its value, the value, and an empty value.\<close>

definition name_calls :: "bytes \<Rightarrow> match_id \<Rightarrow> h1_action call list" where
  "name_calls name mid =
     [Push LF, Push_ci name, Push_optional TAB True, Push_optional SP True, Push_ci (bytes_of '':''),
      Push_optional TAB True, Push_optional SP True, With (StartCapture mid)]"

definition value_calls :: "match_id \<Rightarrow> h1_action call list" where
  "value_calls mid =
     [Push_any (Included 1) Unbounded, With (EndCapture mid), Push_optional CR False, Restart_with LF]"

definition empty_value_calls :: "h1_action call list" where
  "empty_value_calls = [Push_optional CR False, Restart_with LF]"

definition header_pattern :: "bytes \<Rightarrow> match_id \<Rightarrow> h1_action dfa \<Rightarrow> h1_action panic + h1_action dfa" where
  "header_pattern name mid d =
     bind_res (run_chain (name_calls name mid) (start_pattern d ANY_STATE)) (\<lambda>pattern.
     let val = bstate pattern in
     bind_res (run_chain (value_calls mid) pattern) (\<lambda>pattern.
     bind_res (run_chain empty_value_calls (start_pattern (bdfa pattern) val)) (\<lambda>pattern.
     Inr (bdfa pattern))))"

definition method_calls :: "match_id \<Rightarrow> h1_action call list" where
  "method_calls mid =
     [With (StartCapture mid), Push_options_ci methods, With (EndCapture mid), Push SP,
      Push_any (Included 1) Unbounded, Push_ci (bytes_of '' HTTP/1.1''), Push_optional CR False, Restart_with LF]"

definition path_calls :: "match_id \<Rightarrow> h1_action call list" where
  "path_calls mid =
     [Push_options_ci methods, Push SP, With (StartCapture mid), Push_any (Included 1) Unbounded,
      With (EndCapture mid), Push_ci (bytes_of '' HTTP/1.1''), Push_optional CR False, Restart_with LF]"

definition status_calls :: "match_id \<Rightarrow> h1_action call list" where
  "status_calls mid =
     [Push_ci (bytes_of ''HTTP/1.1 ''), With (StartCapture mid), Push_any (Included 3) (Included 3),
      With (EndCapture mid), Push_any (Included 1) Unbounded, Push_optional CR False, Restart_with LF]"

definition preface_calls :: "match_id \<Rightarrow> h1_action call list" where
  "preface_calls mid =
     [With (StartCapture mid),
      Push (bytes_of ''PRI * HTTP/2.0'' @ CR @ LF @ CR @ LF @ bytes_of ''SM'' @ CR @ LF @ CR @ LF),
      With (EndCaptureAndDone mid)]"

definition hdr_end_calls :: "h1_action call list" where
  "hdr_end_calls = [Push_optional CR False, Push LF, Push_optional CR False, Push LF, With Done]"

text \<open>A pattern of its own, anchored at \<open>state\<close>.\<close>

definition add_pattern ::
  "state_id \<Rightarrow> h1_action call list \<Rightarrow> h1_action dfa \<Rightarrow> h1_action panic + h1_action dfa" where
  "add_pattern state calls d = bind_res (run_chain calls (start_pattern d state)) (\<lambda>b. Inr (bdfa b))"

subsection \<open>Captures\<close>

type_synonym ('enc, 'bpf, 'plain) h1_result =
  "h1_action panic + (('enc, 'bpf, 'plain) beeper_error + match_id) \<times> h1_parser"

text \<open>\<open>let mid = self.new_match()?\<close>, then a pattern for it.\<close>

definition with_new_match ::
  "(match_id \<Rightarrow> h1_action dfa \<Rightarrow> h1_action panic + h1_action dfa) \<Rightarrow> h1_parser \<Rightarrow>
     ('enc, 'bpf, 'plain) h1_result" where
  "with_new_match pattern p =
     (case h1_new_match p of
        Inl e \<Rightarrow> Inr (Inl e, p)
      | Inr (mid, p) \<Rightarrow> bind_res (pattern mid (h1_dfa p)) (\<lambda>d. Inr (Inr mid, p\<lparr>h1_dfa := d\<rparr>)))"

definition capture_status_line :: "bytes \<Rightarrow> h1_parser \<Rightarrow> ('enc, 'bpf, 'plain) h1_result" where
  "capture_status_line name = with_new_match (\<lambda>mid.
     if name = as_ref METHOD then add_pattern INIT_STATE (method_calls mid)
     else if name = as_ref PATH then add_pattern INIT_STATE (path_calls mid)
     else (\<lambda>_. Inl (UnsupportedHeader name)))"

definition capture_status_code :: "h1_parser \<Rightarrow> ('enc, 'bpf, 'plain) h1_result" where
  "capture_status_code = with_new_match (\<lambda>mid. add_pattern INIT_STATE (status_calls mid))"

definition match_http2_preface :: "h1_parser \<Rightarrow> ('enc, 'bpf, 'plain) h1_result" where
  "match_http2_preface = with_new_match (\<lambda>mid. add_pattern INIT_STATE (preface_calls mid))"

definition capture_new_hdr :: "bytes \<Rightarrow> h1_parser \<Rightarrow> ('enc, 'bpf, 'plain) h1_result" where
  "capture_new_hdr name p =
     (if name = as_ref METHOD \<or> name = as_ref PATH then capture_status_line name p
      else if name = as_ref STATUS then capture_status_code p
      else with_new_match (header_pattern name) p)"

definition h1_capture_hdr :: "(bytes \<Rightarrow> bytes) \<Rightarrow> bytes \<Rightarrow> h1_parser \<Rightarrow> ('enc, 'bpf, 'plain) h1_result" where
  "h1_capture_hdr to_lowercase name p =
     (let name = to_lowercase name in
      case map_of (h1_captures p) name of
        Some mid \<Rightarrow> Inr (Inr mid, p)
      | None \<Rightarrow> bind_res (capture_new_hdr name p) (\<lambda>(r, p).
          case r of
            Inl e \<Rightarrow> Inr (Inl e, p)
          | Inr mid \<Rightarrow> Inr (Inr mid, p\<lparr>h1_captures := AList.update name mid (h1_captures p)\<rparr>)))"

definition done_on_hdr_end :: "h1_parser \<Rightarrow> h1_action panic + h1_parser" where
  "done_on_hdr_end p =
     bind_res (add_pattern ANY_STATE hdr_end_calls (h1_dfa p)) (\<lambda>d. Inr (p\<lparr>h1_dfa := d\<rparr>))"

subsection \<open>The interfaces\<close>

lemma u8_of_max [simp]: "unat H1_MAX_MATCHES = 32"
  by (simp add: H1_MAX_MATCHES_def)

interpretation h1_alloc: match_allocator h1_num_matches h1_new_match H1_MAX_MATCHES
  "MatchLimitExceeded 32 :: ('enc, 'bpf, 'plain) beeper_error"
  by unfold_locales (auto simp: h1_new_match_def)

lemma h1_new_match_Inr [res_simps]:
  "h1_new_match p = Inr (mid, p') \<longleftrightarrow> h1_num_matches p < H1_MAX_MATCHES \<and> mid = MatchId (h1_num_matches p) \<and>
     p' = p\<lparr>h1_num_matches := h1_num_matches p + 1\<rparr>"
  by (auto simp: h1_new_match_def)

lemma h1_new_match_Inl [res_simps]:
  "h1_new_match p = Inl e \<longleftrightarrow> H1_MAX_MATCHES \<le> h1_num_matches p \<and> e = MatchLimitExceeded 32"
  by (auto simp: h1_new_match_def)

text \<open>Which pattern a name is captured with: a method that panics for none of them.\<close>

definition hdr_pattern :: "bytes \<Rightarrow> match_id \<Rightarrow> h1_action dfa \<Rightarrow> h1_action panic + h1_action dfa" where
  "hdr_pattern name mid =
     (if name = as_ref METHOD then add_pattern INIT_STATE (method_calls mid)
      else if name = as_ref PATH then add_pattern INIT_STATE (path_calls mid)
      else if name = as_ref STATUS then add_pattern INIT_STATE (status_calls mid)
      else header_pattern name mid)"

lemma capture_new_hdr_pattern: "capture_new_hdr name = with_new_match (hdr_pattern name)"
  by (auto simp: fun_eq_iff capture_new_hdr_def capture_status_line_def capture_status_code_def
      hdr_pattern_def with_new_match_def split: sum.split)

lemma with_new_match_Inr:
  assumes "with_new_match f p = Inr (Inr mid, p')"
  shows "h1_num_matches p < H1_MAX_MATCHES" and "mid = MatchId (h1_num_matches p)"
    and "\<exists>d. f mid (h1_dfa p) = Inr d \<and> p' = p\<lparr>h1_num_matches := h1_num_matches p + 1, h1_dfa := d\<rparr>"
  using assms by (auto simp: with_new_match_def res_simps split: sum.splits)

lemma with_new_match_err:
  "with_new_match f p = Inr (Inl e, p') \<Longrightarrow> p' = p \<and> H1_MAX_MATCHES \<le> h1_num_matches p \<and> e = MatchLimitExceeded 32"
  by (auto simp: with_new_match_def res_simps split: sum.splits)

lemma h1_capture_known:
  "map_of (h1_captures p) (lower name) = Some mid \<Longrightarrow> h1_capture_hdr lower name p = Inr (Inr mid, p)"
  by (simp add: h1_capture_hdr_def)

lemma h1_capture_new:
  assumes "h1_capture_hdr lower name p = (Inr (Inr mid, p') :: ('enc, 'bpf, 'plain) h1_result)" and "map_of (h1_captures p) (lower name) = None"
  obtains d where "h1_num_matches p < H1_MAX_MATCHES" and "mid = MatchId (h1_num_matches p)"
    and "hdr_pattern (lower name) mid (h1_dfa p) = Inr d"
    and "p' = p\<lparr>h1_num_matches := h1_num_matches p + 1, h1_dfa := d,
                h1_captures := AList.update (lower name) mid (h1_captures p)\<rparr>"
proof -
  from assms obtain r p1 where w: "with_new_match (hdr_pattern (lower name)) p = Inr (r, p1)"
    and r: "(case r of Inl e \<Rightarrow> Inr (Inl e, p1)
       | Inr mid \<Rightarrow> Inr (Inr mid, p1\<lparr>h1_captures := AList.update (lower name) mid (h1_captures p1)\<rparr>)) =
       (Inr (Inr mid, p') :: ('enc, 'bpf, 'plain) h1_result)"
    by (auto simp: h1_capture_hdr_def Let_def capture_new_hdr_pattern bind_res_eq_Inr)
  then have m: "r = Inr mid" by (cases r) auto
  note n = with_new_match_Inr [OF w [unfolded m]]
  from n(3) obtain d where "hdr_pattern (lower name) mid (h1_dfa p) = Inr d"
    and "p1 = p\<lparr>h1_num_matches := h1_num_matches p + 1, h1_dfa := d\<rparr>" by blast
  with r n(1,2) show thesis by (intro that [of d]) (simp_all add: m)
qed

lemma h1_capture_err:
  assumes "h1_capture_hdr lower name p = (Inr (Inl e, p') :: ('enc, 'bpf, 'plain) h1_result)"
  shows "p' = p \<and> map_of (h1_captures p) (lower name) = None \<and> H1_MAX_MATCHES \<le> h1_num_matches p \<and>
    e = MatchLimitExceeded 32"
proof -
  from assms obtain r p1 where n: "map_of (h1_captures p) (lower name) = None"
    and w: "with_new_match (hdr_pattern (lower name)) p = Inr (r, p1)"
    and r: "(case r of Inl e \<Rightarrow> Inr (Inl e, p1)
       | Inr mid \<Rightarrow> Inr (Inr mid, p1\<lparr>h1_captures := AList.update (lower name) mid (h1_captures p1)\<rparr>)) =
       (Inr (Inl e, p') :: ('enc, 'bpf, 'plain) h1_result)"
    by (auto simp: h1_capture_hdr_def Let_def capture_new_hdr_pattern bind_res_eq_Inr split: option.splits)
  then have "r = Inl e" by (cases r) auto
  with n w r show ?thesis by (auto dest!: with_new_match_err)
qed

interpretation h1_ids: header_captures "h1_capture_hdr id" "\<lambda>p. map_of (h1_captures p)"
  h1_num_matches H1_MAX_MATCHES
proof unfold_locales
  show "h1_capture_hdr id k p = Inr (Inr mid, p)" if "map_of (h1_captures p) k = Some mid" for p k mid
    using that by (simp add: h1_capture_known)
  show "h1_num_matches p < H1_MAX_MATCHES \<and> mid = MatchId (h1_num_matches p) \<and>
      h1_num_matches p' = h1_num_matches p + 1 \<and> map_of (h1_captures p') = (map_of (h1_captures p))(k \<mapsto> mid)"
    if "map_of (h1_captures p) k = None" "h1_capture_hdr id k p = Inr (Inr mid, p')" for p k mid p'
  proof -
    from that(1) have "map_of (h1_captures p) (id k) = None" by simp
    with that(2) show ?thesis by (rule h1_capture_new) (simp add: map_of_update)
  qed
  show "map_of (h1_captures p') = map_of (h1_captures p) \<and> h1_num_matches p' = h1_num_matches p"
    if "h1_capture_hdr id k p = Inr (Inl e, p')" for p k e p'
    using h1_capture_err [OF that] by simp
qed

lemma h1_capture_lower: "h1_capture_hdr lower name = h1_capture_hdr id (lower name)"
  by (simp add: fun_eq_iff h1_capture_hdr_def)

subsection \<open>What a pattern does to the DFA\<close>

text \<open>
  What the parser relies on of every pattern: it keeps the DFA well formed, only adds to it,
  labels edges with its own actions only, and panics only when patterns clash.
\<close>

definition pattern_ok :: "h1_action set \<Rightarrow> (h1_action dfa \<Rightarrow> h1_action panic + h1_action dfa) \<Rightarrow> bool" where
  "pattern_ok A f \<longleftrightarrow> (\<forall>d. wf_dfa d \<longrightarrow> (case f d of
       Inl p \<Rightarrow> clash p
     | Inr d' \<Rightarrow> wf_dfa d' \<and> extends d d' \<and> (\<forall>B. labelled B d \<longrightarrow> A \<subseteq> B \<longrightarrow> labelled B d')))"

lemma pattern_okD:
  assumes "pattern_ok A f" and "wf_dfa d"
  shows "f d = Inl p \<Longrightarrow> clash p" and "f d = Inr d' \<Longrightarrow> wf_dfa d'" and "f d = Inr d' \<Longrightarrow> extends d d'"
    and "f d = Inr d' \<Longrightarrow> labelled B d \<Longrightarrow> A \<subseteq> B \<Longrightarrow> labelled B d'"
  using assms unfolding pattern_ok_def by (auto dest!: spec [of _ d])

definition calls_ok :: "h1_action set \<Rightarrow> h1_action call list \<Rightarrow> bool" where
  "calls_ok A calls \<longleftrightarrow> (\<forall>c \<in> set calls. call_actions c \<subseteq> A \<and> (\<forall>p. \<not> refuses c p))"

lemma anchor_less: "wf_dfa d \<Longrightarrow> INIT_STATE < num_states d" "wf_dfa d \<Longrightarrow> ANY_STATE < num_states d"
  by (simp_all add: INIT_STATE_def ANY_STATE_def wf_dfaD)

lemma chain_from:
  assumes "calls_ok A calls" and "wf_dfa d" and "s < num_states d"
  shows "case run_chain calls (start_pattern d s) of
      Inl p \<Rightarrow> clash p
    | Inr b \<Rightarrow> wf_builder b \<and> wf_dfa (bdfa b) \<and> extends d (bdfa b) \<and> bstate b < num_states (bdfa b) \<and>
        (\<forall>B. labelled B d \<longrightarrow> A \<subseteq> B \<longrightarrow> labels.PB B b)"
proof (cases "run_chain calls (start_pattern d s)")
  case (Inl p)
  with pattern_panic [OF Inl assms(2,3)] assms(1) show ?thesis by (auto simp: calls_ok_def)
next
  case (Inr b)
  have "labels.PB B b" if "labelled B d" "A \<subseteq> B" for B
    by (rule labels.keeps_chain_on [OF Inr])
      (use that assms(1) in \<open>auto simp: labels.PB_start calls_ok_def\<close>)
  with pattern_grows [OF Inr assms(2,3)] Inr show ?thesis by simp
qed

lemma add_pattern_ok:
  assumes "calls_ok A calls" and "s = INIT_STATE \<or> s = ANY_STATE"
  shows "pattern_ok A (add_pattern s calls)"
  unfolding pattern_ok_def
proof (intro allI impI)
  fix d :: "h1_action dfa" assume wf: "wf_dfa d"
  then have "s < num_states d" using assms(2) by (auto intro: anchor_less)
  from chain_from [OF assms(1) wf this] show "case add_pattern s calls d of
      Inl p \<Rightarrow> clash p
    | Inr d' \<Rightarrow> wf_dfa d' \<and> extends d d' \<and> (\<forall>B. labelled B d \<longrightarrow> A \<subseteq> B \<longrightarrow> labelled B d')"
    by (auto simp: add_pattern_def labels.PB_dfa split: sum.splits)
qed

abbreviation own_actions :: "match_id \<Rightarrow> h1_action set" where
  "own_actions mid \<equiv> {StartCapture mid, EndCapture mid, EndCaptureAndDone mid}"

lemma all_calls_ok:
  "calls_ok (own_actions mid) (name_calls name mid)" "calls_ok (own_actions mid) (value_calls mid)"
  "calls_ok (own_actions mid) empty_value_calls" "calls_ok (own_actions mid) (method_calls mid)"
  "calls_ok (own_actions mid) (path_calls mid)" "calls_ok (own_actions mid) (status_calls mid)"
  "calls_ok (own_actions mid) (preface_calls mid)" "calls_ok {Done} hdr_end_calls"
  by (simp_all add: calls_ok_def name_calls_def value_calls_def empty_value_calls_def method_calls_def
      path_calls_def status_calls_def preface_calls_def hdr_end_calls_def methods_def bytes_of_def
      range_min_def range_max_def)

lemma chain_on:
  assumes "calls_ok A calls" and "wf_builder b"
  shows "case run_chain calls b of
      Inl p \<Rightarrow> clash p
    | Inr b' \<Rightarrow> wf_builder b' \<and> extends (bdfa b) (bdfa b') \<and>
        (\<forall>B. labels.PB B b \<longrightarrow> A \<subseteq> B \<longrightarrow> labels.PB B b')"
proof (cases "run_chain calls b")
  case (Inl p)
  with run_chain_panic [OF Inl assms(2)] assms(1) show ?thesis by (auto simp: calls_ok_def)
next
  case (Inr b')
  have "labels.PB B b'" if "labels.PB B b" "A \<subseteq> B" for B
    by (rule labels.keeps_chain_on [OF Inr that(1)]) (use that(2) assms(1) in \<open>auto simp: calls_ok_def\<close>)
  with run_chain_grows [OF Inr assms(2)] Inr show ?thesis by (simp add: builder_le_def)
qed

lemma header_pattern_ok: "pattern_ok (own_actions mid) (header_pattern name mid)"
  unfolding pattern_ok_def
proof (intro allI impI)
  fix d :: "h1_action dfa" assume wf: "wf_dfa d"
  note ch1 = chain_from [OF all_calls_ok(1) [of mid name] wf anchor_less(2) [OF wf]]
  show "case header_pattern name mid d of
      Inl p \<Rightarrow> clash p
    | Inr d' \<Rightarrow> wf_dfa d' \<and> extends d d' \<and> (\<forall>B. labelled B d \<longrightarrow> own_actions mid \<subseteq> B \<longrightarrow> labelled B d')"
  proof (cases "run_chain (name_calls name mid) (start_pattern d ANY_STATE)")
    case (Inl p)
    with ch1 show ?thesis by (simp add: header_pattern_def)
  next
    case b1: (Inr b1)
    note c1 = ch1 [unfolded b1 sum.case]
    note ch2 = chain_on [OF all_calls_ok(2) [of mid] c1 [THEN conjunct1]]
    show ?thesis
    proof (cases "run_chain (value_calls mid) b1")
      case (Inl p)
      with b1 ch2 show ?thesis by (simp add: header_pattern_def)
    next
      case b2: (Inr b2)
      note c2 = ch2 [unfolded b2 sum.case]
      have wf2: "wf_dfa (bdfa b2)" using c2 by (simp add: wf_builder_def wf_states_def)
      have "bstate b1 < num_states (bdfa b2)" using c1 c2 by (blast intro: extendsD)
      note ch3 = chain_from [OF all_calls_ok(3) [of mid] wf2 this]
      show ?thesis
      proof (cases "run_chain empty_value_calls (start_pattern (bdfa b2) (bstate b1))")
        case (Inl p)
        with b1 b2 ch3 show ?thesis by (simp add: header_pattern_def Let_def)
      next
        case b3: (Inr b3)
        note c3 = ch3 [unfolded b3 sum.case]
        have "header_pattern name mid d = Inr (bdfa b3)"
          by (simp add: header_pattern_def Let_def b1 b2 b3)
        moreover have "labelled B (bdfa b3)" if "labelled B d" "own_actions mid \<subseteq> B" for B
          using c1 c2 c3 that by (blast intro: labels.PB_dfa)
        ultimately show ?thesis
          using c1 c2 c3 by (auto intro: extends_trans)
      qed
    qed
  qed
qed

lemma hdr_pattern_ok: "pattern_ok (own_actions mid) (hdr_pattern name mid)"
  by (simp add: hdr_pattern_def header_pattern_ok add_pattern_ok all_calls_ok)

lemma preface_pattern_ok: "pattern_ok (own_actions mid) (add_pattern INIT_STATE (preface_calls mid))"
  by (simp add: add_pattern_ok all_calls_ok)

subsection \<open>The requests of a client\<close>

text \<open>
  A client asks for headers and for the HTTP/2 preface, in any order. \<open>h1_inv\<close> holds of the
  parser all along: the DFA is well formed, the ids are told apart, and every edge reads a
  byte or any input and runs an action for an id that was handed out.
\<close>

datatype h1_request = Hdr bytes | Http2_preface

fun h1_serve :: "(bytes \<Rightarrow> bytes) \<Rightarrow> h1_request \<Rightarrow> h1_parser \<Rightarrow> ('enc, 'bpf, 'plain) h1_result" where
  "h1_serve lower (Hdr name) = h1_capture_hdr lower name"
| "h1_serve lower Http2_preface = match_http2_preface"

definition h1_actions :: "u8 \<Rightarrow> h1_action set" where
  "h1_actions n = (\<Union>mid \<in> {mid. match_idx mid < n}. own_actions mid)"

definition h1_inv :: "h1_parser \<Rightarrow> bool" where
  "h1_inv p \<longleftrightarrow> wf_dfa (h1_dfa p) \<and> h1_ids.ids_ok p \<and> labelled (h1_actions (h1_num_matches p)) (h1_dfa p)"

lemma h1_invD:
  assumes "h1_inv p"
  shows "wf_dfa (h1_dfa p)" and "h1_ids.ids_ok p" and "labelled (h1_actions (h1_num_matches p)) (h1_dfa p)"
  using assms by (simp_all add: h1_inv_def)

lemma h1_inv_new: "h1_inv h1_new"
  by (simp add: h1_inv_def h1_new_def wf_new labelled_new h1_ids.ids_ok_def)

text \<open>What a request did: nothing, or it took the next id and added a pattern for it.\<close>

definition request_pattern :: "(bytes \<Rightarrow> bytes) \<Rightarrow> h1_request \<Rightarrow> match_id \<Rightarrow> h1_action dfa \<Rightarrow> h1_action panic + h1_action dfa" where
  "request_pattern lower r = (case r of
       Hdr name \<Rightarrow> hdr_pattern (lower name)
     | Http2_preface \<Rightarrow> (\<lambda>mid. add_pattern INIT_STATE (preface_calls mid)))"

definition register :: "(bytes \<Rightarrow> bytes) \<Rightarrow> h1_request \<Rightarrow> match_id \<Rightarrow> (bytes \<rightharpoonup> match_id) \<Rightarrow> bytes \<rightharpoonup> match_id" where
  "register lower r mid ids = (case r of Hdr name \<Rightarrow> ids(lower name \<mapsto> mid) | Http2_preface \<Rightarrow> ids)"

definition known :: "(bytes \<Rightarrow> bytes) \<Rightarrow> h1_request \<Rightarrow> (bytes \<rightharpoonup> match_id) \<Rightarrow> match_id option" where
  "known lower r ids = (case r of Hdr name \<Rightarrow> ids (lower name) | Http2_preface \<Rightarrow> None)"

lemma request_pattern_ok: "pattern_ok (own_actions mid) (request_pattern lower r mid)"
  by (cases r) (simp_all add: request_pattern_def hdr_pattern_ok preface_pattern_ok)

lemma h1_serve_Inl:
  assumes "h1_serve lower r p = (Inr (Inl e, p') :: ('enc, 'bpf, 'plain) h1_result)"
  shows "p' = p" and "H1_MAX_MATCHES \<le> h1_num_matches p" and "e = MatchLimitExceeded 32"
    and "known lower r (map_of (h1_captures p)) = None"
proof -
  have "p' = p \<and> H1_MAX_MATCHES \<le> h1_num_matches p \<and> e = MatchLimitExceeded 32 \<and>
      known lower r (map_of (h1_captures p)) = None"
  proof (cases r)
    case (Hdr name)
    with h1_capture_err [of lower name p e p'] assms show ?thesis by (simp add: known_def)
  next
    case Http2_preface
    with assms with_new_match_err show ?thesis by (simp add: known_def match_http2_preface_def) blast
  qed
  then show "p' = p" and "H1_MAX_MATCHES \<le> h1_num_matches p" and "e = MatchLimitExceeded 32"
    and "known lower r (map_of (h1_captures p)) = None" by blast+
qed

lemma h1_serve_Inr:
  assumes "h1_serve lower r p = (Inr (Inr mid, p') :: ('enc, 'bpf, 'plain) h1_result)"
  obtains (old) "known lower r (map_of (h1_captures p)) = Some mid" and "p' = p"
  | (new) "known lower r (map_of (h1_captures p)) = None" and "h1_num_matches p < H1_MAX_MATCHES"
      and "mid = MatchId (h1_num_matches p)" and "h1_num_matches p' = h1_num_matches p + 1"
      and "request_pattern lower r mid (h1_dfa p) = Inr (h1_dfa p')"
      and "map_of (h1_captures p') = register lower r mid (map_of (h1_captures p))"
proof (cases r)
  case (Hdr name)
  show thesis
  proof (cases "map_of (h1_captures p) (lower name)")
    case (Some m)
    have "h1_capture_hdr lower name p = (Inr (Inr m, p) :: ('enc, 'bpf, 'plain) h1_result)"
      using Some by (rule h1_capture_known)
    with assms have "m = mid" and "p' = p" by (simp_all add: Hdr)
    with Some show thesis by (intro old) (simp_all add: Hdr known_def)
  next
    case None
    with assms obtain d where "h1_num_matches p < H1_MAX_MATCHES" "mid = MatchId (h1_num_matches p)"
      "hdr_pattern (lower name) mid (h1_dfa p) = Inr d"
      "p' = p\<lparr>h1_num_matches := h1_num_matches p + 1, h1_dfa := d,
                h1_captures := AList.update (lower name) mid (h1_captures p)\<rparr>"
      unfolding Hdr h1_serve.simps by (rule h1_capture_new)
    with None show thesis
      by (intro new) (simp_all add: Hdr known_def request_pattern_def register_def map_of_update)
  qed
next
  case Http2_preface
  with assms have w: "with_new_match (\<lambda>mid. add_pattern INIT_STATE (preface_calls mid)) p =
      (Inr (Inr mid, p') :: ('enc, 'bpf, 'plain) h1_result)"
    by (simp add: match_http2_preface_def)
  from with_new_match_Inr(3) [OF w] obtain d where "add_pattern INIT_STATE (preface_calls mid) (h1_dfa p) = Inr d"
    "p' = p\<lparr>h1_num_matches := h1_num_matches p + 1, h1_dfa := d\<rparr>" by blast
  with with_new_match_Inr(1,2) [OF w] show thesis
    by (intro new) (simp_all add: Http2_preface known_def request_pattern_def register_def)
qed

lemma h1_serve_Panic:
  assumes "h1_serve lower r p = (Inl q :: ('enc, 'bpf, 'plain) h1_result)"
  shows "request_pattern lower r (MatchId (h1_num_matches p)) (h1_dfa p) = Inl q"
proof (cases r)
  case (Hdr name)
  with assms have "with_new_match (hdr_pattern (lower name)) p = (Inl q :: ('enc, 'bpf, 'plain) h1_result)"
    by (auto simp: h1_capture_hdr_def Let_def capture_new_hdr_pattern bind_res_eq_Inl split: option.splits)
      (metis (no_types, lifting) Inl_Inr_False old.sum.exhaust old.sum.simps(5,6))
  then show ?thesis
    by (auto simp: Hdr request_pattern_def with_new_match_def bind_res_eq_Inl res_simps split: sum.splits)
next
  case Http2_preface
  with assms show ?thesis
    by (auto simp: request_pattern_def match_http2_preface_def with_new_match_def bind_res_eq_Inl res_simps
        split: sum.splits)
qed

lemma own_actions_next:
  assumes "n < H1_MAX_MATCHES"
  shows "h1_actions n \<subseteq> h1_actions (n + 1)" and "own_actions (MatchId n) \<subseteq> h1_actions (n + 1)"
proof -
  have n: "n < n + 1" using assms unfolding H1_MAX_MATCHES_def by unat_arith simp
  then show "h1_actions n \<subseteq> h1_actions (n + 1)" by (auto simp: h1_actions_def intro: less_trans)
  have "own_actions (MatchId n) \<subseteq> (\<Union>mid \<in> {mid. match_idx mid < n + 1}. own_actions mid)"
    by (rule UN_upper) (use n in simp)
  then show "own_actions (MatchId n) \<subseteq> h1_actions (n + 1)" by (simp add: h1_actions_def)
qed

lemma h1_serve_inv:
  assumes "h1_serve lower r p = (Inr (res, p') :: ('enc, 'bpf, 'plain) h1_result)" and "h1_inv p"
  shows "h1_inv p'" and "extends (h1_dfa p) (h1_dfa p')"
proof -
  have "h1_inv p' \<and> extends (h1_dfa p) (h1_dfa p')"
  proof (cases res)
    case (Inl e)
    with h1_serve_Inl(1) [OF assms(1) [unfolded Inl]] assms(2) show ?thesis by simp
  next
    case (Inr mid)
    from assms(1) [unfolded Inr] show ?thesis
    proof (cases rule: h1_serve_Inr)
      case old
      with assms(2) show ?thesis by simp
    next
      case new
      note inv = h1_invD [OF assms(2)]
      note ok = pattern_okD [OF request_pattern_ok inv(1)] and own = own_actions_next [OF new(2)]
      have lab: "labelled (h1_actions (h1_num_matches p')) (h1_dfa p')"
        unfolding new(4)
        by (rule ok(4) [OF new(5) labelled_mono [OF inv(3) own(1)]]) (use own(2) new(3) in simp)
      have lt: "match_idx m < h1_num_matches p" if "map_of (h1_captures p) k = Some m" for k m
        using inv(2) that by (simp add: h1_ids.ids_ok_def)
      have fresh: "map_of (h1_captures p) k \<noteq> Some mid" for k
        using lt [of k mid] by (auto simp: new(3))
      note room = h1_ids.less_Suc_limit [OF new(2)]
      have "match_idx m < h1_num_matches p + 1" if "map_of (h1_captures p) k = Some m" for k m
        using lt [OF that] room by (blast intro: less_trans)
      then have "h1_ids.ids_ok p'"
        using inv(2) room fresh new(3)
        by (cases r) (auto simp: h1_ids.ids_ok_def new(4,6) register_def)
      with ok(2,3) [OF new(5)] lab show ?thesis by (simp add: h1_inv_def)
    qed
  qed
  then show "h1_inv p'" and "extends (h1_dfa p) (h1_dfa p')" by blast+
qed

lemma h1_serve_clash:
  "h1_serve lower r p = (Inl q :: ('enc, 'bpf, 'plain) h1_result) \<Longrightarrow> h1_inv p \<Longrightarrow> clash q"
  using pattern_okD(1) [OF request_pattern_ok h1_invD(1)] h1_serve_Panic by metis

lemma h1_serve_all_inv:
  assumes "capture_all (h1_serve lower) rs p = Inr (res :: (('enc, 'bpf, 'plain) beeper_error + match_id) list, p')"
    and "h1_inv p"
  shows "h1_inv p'"
  using assms by (rule capture_all_invariant) (rule h1_serve_inv(1))

lemma h1_serve_all_extends:
  assumes "capture_all (h1_serve lower) rs p = Inr (res :: (('enc, 'bpf, 'plain) beeper_error + match_id) list, p')"
    and "h1_inv p"
  shows "extends (h1_dfa p) (h1_dfa p')"
proof -
  have "h1_inv p' \<and> extends (h1_dfa p) (h1_dfa p')"
    by (rule capture_all_invariant [OF assms(1), where I = "\<lambda>q. h1_inv q \<and> extends (h1_dfa p) (h1_dfa q)"])
      (use assms(2) in \<open>auto dest: h1_serve_inv intro: extends_trans\<close>)
  then show ?thesis ..
qed

lemma h1_serve_all_clash:
  "capture_all (h1_serve lower :: h1_request \<Rightarrow> h1_parser \<Rightarrow> ('enc, 'bpf, 'plain) h1_result) rs p = Inl q \<Longrightarrow>
     h1_inv p \<Longrightarrow> clash q"
proof (induction rs arbitrary: p)
  case (Cons r rs)
  show ?case
  proof (cases "h1_serve lower r p :: ('enc, 'bpf, 'plain) h1_result")
    case (Inl q')
    with Cons.prems show ?thesis by (auto dest: h1_serve_clash)
  next
    case (Inr x)
    obtain res p1 where x: "x = (res, p1)" by (cases x)
    have "h1_inv p1" using h1_serve_inv(1) Inr Cons.prems(2) by (auto simp: x)
    with Cons.prems(1) Inr x Cons.IH show ?thesis
      by (auto simp: bind_res_eq_Inl)
  qed
qed simp

subsection \<open>The contract of the parser: an id map\<close>

text \<open>The id map of the headers, next to ids that stand for no header.\<close>

fun spec_serve ::
  "(bytes \<Rightarrow> bytes) \<Rightarrow> h1_request \<Rightarrow> id_map \<Rightarrow> (('enc, 'bpf, 'plain) beeper_error + match_id) \<times> id_map" where
  "spec_serve lower (Hdr name) s = spec_capture Inr (lower name) s"
| "spec_serve lower Http2_preface (ids, n) =
     (if n < 32 then (Inr (MatchId (word_of_nat n)), (ids, n + 1)) else (Inl (MatchLimitExceeded 32), (ids, n)))"

fun spec_serve_all ::
  "(bytes \<Rightarrow> bytes) \<Rightarrow> h1_request list \<Rightarrow> id_map \<Rightarrow> (('enc, 'bpf, 'plain) beeper_error + match_id) list \<times> id_map" where
  "spec_serve_all lower [] s = ([], s)"
| "spec_serve_all lower (r # rs) s =
     (let (x, s) = spec_serve lower r s; (xs, s) = spec_serve_all lower rs s in (x # xs, s))"

definition h1_id_map :: "h1_parser \<Rightarrow> id_map" where
  "h1_id_map p = (map_of (h1_captures p), unat (h1_num_matches p))"

lemma h1_serve_spec:
  assumes "h1_serve lower r p = (Inr (res, p') :: ('enc, 'bpf, 'plain) h1_result)"
  shows "spec_serve lower r (h1_id_map p) = (res, h1_id_map p')"
proof (cases res)
  case (Inl e)
  note err = h1_serve_Inl [OF assms [unfolded Inl]]
  have "\<not> unat (h1_num_matches p) < 32" using err(2) by (simp add: word_le_nat_alt)
  with err Inl show ?thesis by (cases r) (simp_all add: h1_id_map_def spec_capture_def known_def)
next
  case (Inr mid)
  from assms [unfolded Inr] show ?thesis
  proof (cases rule: h1_serve_Inr)
    case old
    with Inr show ?thesis by (cases r) (simp_all add: h1_id_map_def spec_capture_def known_def)
  next
    case new
    have "unat (h1_num_matches p + 1) = unat (h1_num_matches p) + 1"
      using new(2) by (rule h1_alloc.num_Suc)
    moreover have "unat (h1_num_matches p) < 32" using new(2) by (simp add: word_less_nat_alt)
    ultimately show ?thesis
      using new Inr by (cases r) (simp_all add: h1_id_map_def spec_capture_def known_def register_def)
  qed
qed

lemma h1_serve_all_spec:
  "capture_all (h1_serve lower) rs p =
      Inr (res :: (('enc, 'bpf, 'plain) beeper_error + match_id) list, p') \<Longrightarrow>
     spec_serve_all lower rs (h1_id_map p) = (res, h1_id_map p')"
proof (induction rs arbitrary: p res)
  case (Cons r rs)
  then obtain x p1 xs where "h1_serve lower r p = (Inr (x, p1) :: ('enc, 'bpf, 'plain) h1_result)"
    and "capture_all (h1_serve lower) rs p1 = (Inr (xs, p') :: h1_action panic + _ \<times> h1_parser)"
    and "res = x # xs"
    by (auto simp: res_simps)
  with Cons.IH [of p1 xs] h1_serve_spec [of lower r p x p1] show ?case by simp
qed simp

text \<open>
  What has been handed out: an id below the number of matches for each request that did not
  fail, the one under which a header is registered, and one of its own for each preface.
\<close>

definition handed_out ::
  "(bytes \<Rightarrow> bytes) \<Rightarrow> h1_request list \<Rightarrow> (('enc, 'bpf, 'plain) beeper_error + match_id) list \<Rightarrow> h1_parser \<Rightarrow> bool" where
  "handed_out lower rs res p \<longleftrightarrow> length res = length rs \<and>
     (\<forall>i mid. i < length rs \<longrightarrow> res ! i = Inr mid \<longrightarrow> match_idx mid < h1_num_matches p \<and>
        (case rs ! i of
           Hdr name \<Rightarrow> map_of (h1_captures p) (lower name) = Some mid
         | Http2_preface \<Rightarrow> (\<forall>k. map_of (h1_captures p) k \<noteq> Some mid) \<and>
             (\<forall>j < length rs. j \<noteq> i \<longrightarrow> res ! j \<noteq> Inr mid)))"

lemma handed_out_snoc:
  assumes "handed_out lower rs res p" and "h1_inv p"
    and "h1_serve lower r p = (Inr (x, p') :: ('enc, 'bpf, 'plain) h1_result)"
  shows "handed_out lower (rs @ [r]) (res @ [x]) p'"
proof (cases x)
  case (Inl e)
  with h1_serve_Inl(1) [OF assms(3) [unfolded Inl]] assms(1) show ?thesis
    by (auto simp: handed_out_def nth_append less_Suc_eq split: h1_request.splits)
next
  case (Inr mid)
  from assms(3) [unfolded Inr] show ?thesis
  proof (cases rule: h1_serve_Inr)
    case old
    then obtain name where r: "r = Hdr name" and m: "map_of (h1_captures p) (lower name) = Some mid"
      by (cases r) (simp_all add: known_def)
    have "match_idx mid < h1_num_matches p"
      using h1_invD(2) [OF assms(2)] m by (simp add: h1_ids.ids_ok_def)
    with assms(1) m show ?thesis
      by (auto simp: handed_out_def nth_append less_Suc_eq r Inr old(2) split: h1_request.splits)
  next
    case new
    note room = h1_ids.less_Suc_limit [OF new(2)]
    have len: "length res = length rs" using assms(1) by (simp add: handed_out_def)
    have lt: "match_idx m < h1_num_matches p" if "i < length rs" "res ! i = Inr m" for i m
      using assms(1) that by (auto simp: handed_out_def)
    have lt': "match_idx m < h1_num_matches p" if "map_of (h1_captures p) k = Some m" for k m
      using h1_invD(2) [OF assms(2)] that by (simp add: h1_ids.ids_ok_def)
    have fresh: "res ! i \<noteq> Inr mid" if "i < length rs" for i
      using lt [OF that, of mid] by (auto simp: new(3))
    have fresh': "map_of (h1_captures p) k \<noteq> Some mid" for k
      using lt' [of k mid] by (auto simp: new(3))
    show ?thesis
      unfolding handed_out_def
    proof (intro conjI allI impI)
      fix i m assume i: "i < length (rs @ [r])" and m: "(res @ [x]) ! i = Inr m"
      show "match_idx m < h1_num_matches p'"
        using lt [of i m] i m room
        by (auto simp: nth_append len Inr new(3,4) less_Suc_eq split: if_splits intro: less_trans)
      show "case (rs @ [r]) ! i of
           Hdr name \<Rightarrow> map_of (h1_captures p') (lower name) = Some m
         | Http2_preface \<Rightarrow> (\<forall>k. map_of (h1_captures p') k \<noteq> Some m) \<and>
             (\<forall>j < length (rs @ [r]). j \<noteq> i \<longrightarrow> (res @ [x]) ! j \<noteq> Inr m)"
      proof (cases "i < length rs")
        case True
        then have res: "res ! i = Inr m" using m by (simp add: nth_append len)
        then have mm: "m \<noteq> mid" using fresh [OF True] by auto
        show ?thesis
        proof (cases "rs ! i")
          case (Hdr name)
          then have "map_of (h1_captures p) (lower name) = Some m"
            using assms(1) True res by (auto simp: handed_out_def)
          with new(1) Hdr True show ?thesis
            by (cases r) (auto simp: nth_append new(6) register_def known_def)
        next
          case Http2_preface
          then have "\<forall>k. map_of (h1_captures p) k \<noteq> Some m"
            and "\<forall>j < length rs. j \<noteq> i \<longrightarrow> res ! j \<noteq> Inr m"
            using assms(1) True res by (auto simp: handed_out_def split: h1_request.splits)
          with Http2_preface True mm show ?thesis
            by (cases r) (auto simp: nth_append new(6) register_def Inr len less_Suc_eq)
        qed
      next
        case False
        then have "i = length rs" and "m = mid" using i m by (simp_all add: nth_append len Inr)
        with fresh fresh' show ?thesis
          by (cases r) (auto simp: nth_append new(6) register_def len less_Suc_eq)
      qed
    qed (simp add: len)
  qed
qed

lemma h1_serve_all_handed_out:
  assumes "capture_all (h1_serve lower) rs h1_new =
    Inr (res :: (('enc, 'bpf, 'plain) beeper_error + match_id) list, p)"
  shows "handed_out lower rs res p"
  using assms
proof (induction rs arbitrary: res p rule: rev_induct)
  case Nil
  then show ?case by (simp add: handed_out_def)
next
  case (snoc r rs)
  from snoc.prems obtain res1 p1 x where
    c: "capture_all (h1_serve lower) rs h1_new = Inr (res1 :: (('enc, 'bpf, 'plain) beeper_error + match_id) list, p1)"
    "h1_serve lower r p1 = Inr (x, p)" "res = res1 @ [x]"
    by (rule capture_all_snocE)
  from handed_out_snoc [OF snoc.IH [OF c(1)] h1_serve_all_inv [OF c(1) h1_inv_new] c(2)] c(3)
  show ?case by simp
qed

section \<open>Properties of the HTTP/1.1 parser\<close>

text \<open>A client that asks for a header twice, in different spellings, and for the preface in between.\<close>

definition ascii_lower :: "bytes \<Rightarrow> bytes" where
  "ascii_lower = map to_ascii_lowercase"

definition demo_requests :: "h1_request list" where
  "demo_requests = [Hdr [0x74, 0x65], Http2_preface, Hdr [0x54, 0x45]]"

lemma h1_demo:
  obtains p where "capture_all (h1_serve ascii_lower) demo_requests h1_new =
       Inr ([Inr (MatchId 0), Inr (MatchId 1), Inr (MatchId 0)] ::
         ((unit, unit, unit) beeper_error + match_id) list, p)"
proof -
  have "\<not> isl (capture_all (h1_serve ascii_lower :: h1_request \<Rightarrow> h1_parser \<Rightarrow> (unit, unit, unit) h1_result)
      demo_requests h1_new)"
    by code_simp
  then obtain res p where c: "capture_all (h1_serve ascii_lower) demo_requests h1_new =
      Inr (res :: ((unit, unit, unit) beeper_error + match_id) list, p)"
    by (metis isl_def old.prod.exhaust sum.exhaust)
  from h1_serve_all_spec [OF c] have "res = [Inr (MatchId 0), Inr (MatchId 1), Inr (MatchId 0)]"
    by (simp add: demo_requests_def spec_capture_def h1_id_map_def h1_new_def ascii_lower_def
        to_ascii_lowercase_def is_ascii_uppercase_def)
  with c that show thesis by blast
qed

text \<open>
  C21: whatever a client asks for, headers in any spelling or the
  HTTP/2 preface, in any order, the parser implements the contract of an id map: a header
  that is known in some spelling gets the id it has, the 33rd id is refused with
  \<open>MatchLimitExceeded\<close> and changes nothing, and everything else gets the next id.
\<close>

theorem h1_requests_refine_id_map:
  assumes "capture_all (h1_serve lower) rs p =
      Inr (res :: (('enc, 'bpf, 'plain) beeper_error + match_id) list, p')"
  shows "spec_serve_all lower rs (h1_id_map p) = (res, h1_id_map p')"
  using assms by (rule h1_serve_all_spec)

theorem h1_requests_refine_id_map_witness:
  "\<exists>p'. spec_serve_all ascii_lower demo_requests (h1_id_map h1_new) =
     ([Inr (MatchId 0), Inr (MatchId 1), Inr (MatchId 0)] :: ((unit, unit, unit) beeper_error + match_id) list,
      h1_id_map p')"
proof -
  obtain p where "capture_all (h1_serve ascii_lower) demo_requests h1_new =
       Inr ([Inr (MatchId 0), Inr (MatchId 1), Inr (MatchId 0)] ::
         ((unit, unit, unit) beeper_error + match_id) list, p)"
    by (rule h1_demo)
  from h1_requests_refine_id_map [OF this] show ?thesis ..
qed

text \<open>
  Of two requests that were served, the ids are the same exactly
  if both ask for a header, and for the same one up to case; every id is below the number of
  matches the parser program tells apart.
\<close>

theorem h1_same_id_iff_same_header:
  assumes "capture_all (h1_serve lower) rs h1_new =
      Inr (res :: (('enc, 'bpf, 'plain) beeper_error + match_id) list, p)"
    and "i < j" and "j < length rs" and "res ! i = Inr mid" and "res ! j = Inr mid'"
  shows "(mid = mid' \<longleftrightarrow> (\<exists>a b. rs ! i = Hdr a \<and> rs ! j = Hdr b \<and> lower a = lower b)) \<and>
    unat (match_idx mid) < 32"
proof -
  have h: "handed_out lower rs res p" using assms(1) by (rule h1_serve_all_handed_out)
  have ids: "h1_ids.ids_ok p" using h1_serve_all_inv [OF assms(1) h1_inv_new] by (rule h1_invD)
  have i: "match_idx mid < h1_num_matches p" "case rs ! i of
           Hdr name \<Rightarrow> map_of (h1_captures p) (lower name) = Some mid
         | Http2_preface \<Rightarrow> (\<forall>k. map_of (h1_captures p) k \<noteq> Some mid) \<and>
             (\<forall>j < length rs. j \<noteq> i \<longrightarrow> res ! j \<noteq> Inr mid)"
    and j: "case rs ! j of
           Hdr name \<Rightarrow> map_of (h1_captures p) (lower name) = Some mid'
         | Http2_preface \<Rightarrow> (\<forall>k. map_of (h1_captures p) k \<noteq> Some mid') \<and>
             (\<forall>i < length rs. i \<noteq> j \<longrightarrow> res ! i \<noteq> Inr mid')"
    using h assms(2-5) less_trans [OF assms(2,3)] unfolding handed_out_def by blast+
  have "unat (match_idx mid) < unat (h1_num_matches p)" and "unat (h1_num_matches p) \<le> unat H1_MAX_MATCHES"
    using i(1) ids unfolding h1_ids.ids_ok_def word_less_nat_alt word_le_nat_alt by blast+
  moreover have "mid = mid' \<longleftrightarrow> (\<exists>a b. rs ! i = Hdr a \<and> rs ! j = Hdr b \<and> lower a = lower b)"
    using i(2) j ids assms(2-5)
    by (cases "rs ! i"; cases "rs ! j") (auto simp: h1_ids.ids_ok_def)
  ultimately show ?thesis by simp
qed

theorem h1_same_id_iff_same_header_witness:
  "(MatchId 0 = MatchId 0 \<longleftrightarrow> ascii_lower [0x74, 0x65] = ascii_lower [0x54, 0x45]) \<and>
     unat (match_idx (MatchId 0)) < 32"
proof -
  obtain p where d: "capture_all (h1_serve ascii_lower) demo_requests h1_new =
       Inr ([Inr (MatchId 0), Inr (MatchId 1), Inr (MatchId 0)] ::
         ((unit, unit, unit) beeper_error + match_id) list, p)"
    by (rule h1_demo)
  from h1_same_id_iff_same_header [OF d, of 0 2 "MatchId 0" "MatchId 0"] show ?thesis
    by (simp add: demo_requests_def)
qed

text \<open>
  Serving requests panics only if the DFA runs out of state ids or
  if two patterns contradict each other, never because a header is not supported. Otherwise
  the DFA is well formed, and everything the earlier requests had built is still there.
\<close>

theorem h1_requests_only_clash:
  "case capture_all (h1_serve lower :: h1_request \<Rightarrow> h1_parser \<Rightarrow> ('enc, 'bpf, 'plain) h1_result)
      (earlier @ later) h1_new of
     Inl q \<Rightarrow> clash q
   | Inr (res, p') \<Rightarrow> wf_dfa (h1_dfa p') \<and>
       (\<exists>res1 p. capture_all (h1_serve lower) earlier h1_new =
           (Inr (res1, p) :: h1_action panic + (('enc, 'bpf, 'plain) beeper_error + match_id) list \<times> h1_parser) \<and>
         extends (h1_dfa p) (h1_dfa p'))"
proof (cases "capture_all (h1_serve lower :: h1_request \<Rightarrow> h1_parser \<Rightarrow> ('enc, 'bpf, 'plain) h1_result)
      (earlier @ later) h1_new")
  case (Inl q)
  with h1_serve_all_clash [OF Inl h1_inv_new] show ?thesis by simp
next
  case (Inr x)
  obtain res p' where x: "x = (res, p')" by (cases x)
  from Inr obtain res1 p res2 where
    a: "capture_all (h1_serve lower) earlier h1_new =
      (Inr (res1, p) :: h1_action panic + (('enc, 'bpf, 'plain) beeper_error + match_id) list \<times> h1_parser)"
    and b: "capture_all (h1_serve lower) later p =
      (Inr (res2, p') :: h1_action panic + (('enc, 'bpf, 'plain) beeper_error + match_id) list \<times> h1_parser)"
    by (auto simp: x capture_all_append bind_res_eq_Inr)
  have "h1_inv p" using a h1_inv_new by (rule h1_serve_all_inv)
  with h1_serve_all_extends [OF b] h1_serve_all_inv [OF b] a Inr x show ?thesis
    by (auto dest: h1_invD)
qed

text \<open>
  \<open>capture_hdr\<close> documents no panic, but names that differ in
  trailing whitespace clash: asked for \<open>a\<close> and then for \<open>a\<close> with a space behind it, it panics,
  as the second name reads like the first one with optional whitespace behind it, and the
  value of both starts with the same transition.
\<close>

theorem h1_capture_hdr_can_panic:
  "\<exists>p. h1_capture_hdr ascii_lower (bytes_of ''a'') h1_new =
       (Inr (Inr (MatchId 0), p) :: (unit, unit, unit) h1_result) \<and>
     (h1_capture_hdr ascii_lower (bytes_of ''a '') p :: (unit, unit, unit) h1_result) =
       Inl (ActionConflict (StartCapture (MatchId 1)) (StartCapture (MatchId 0)))"
proof -
  let ?run = "\<lambda>name p. h1_capture_hdr ascii_lower (bytes_of name) p :: (unit, unit, unit) h1_result"
  have run: "(case ?run ''a'' h1_new of
      Inr (_, p) \<Rightarrow> ?run ''a '' p = Inl (ActionConflict (StartCapture (MatchId 1)) (StartCapture (MatchId 0)))
    | Inl _ \<Rightarrow> False)"
    by code_simp
  then obtain res p where r: "?run ''a'' h1_new = Inr (res, p)"
    and panic: "?run ''a '' p = Inl (ActionConflict (StartCapture (MatchId 1)) (StartCapture (MatchId 0)))"
    by (auto split: sum.splits prod.splits)
  have "h1_serve ascii_lower (Hdr (bytes_of ''a'')) h1_new = (Inr (res, p) :: (unit, unit, unit) h1_result)"
    using r by simp
  from h1_serve_spec [OF this] have "res = Inr (MatchId 0)"
    by (simp add: spec_capture_def h1_id_map_def h1_new_def)
  with r panic show ?thesis by blast
qed

end
