(* ===== verification/Http1_Attach.thy ===== *)
theory Http1_Attach
  imports Http1_Parser Table_Injection
begin

section \<open>Loading and attaching an HTTP/1.1 parser (\<open>beeper/src/http1/parser.rs\<close>)\<close>

text \<open>
  \<open>inject\<close> and \<open>attach\<close> of the HTTP/1.1 parser. \<open>order\<close> is the order in which the hash maps
  of a DFA are iterated. The parser has no table of its own besides the read-only data.
\<close>

subsection \<open>Loading\<close>

text \<open>The lengths of the arrays of \<open>http1/parser.bpf.c\<close>: a column for each byte and one for any.\<close>

definition h1_limits :: table_limits where
  "h1_limits = \<lparr>max_states = 512, max_edges = 257, max_actions = 256\<rparr>"

definition h1_no_action :: http1_action where
  "h1_no_action = \<lparr>h1a_kind = 0, h1a_flags = 0, h1a_mid = 0\<rparr>"

definition h1_rodata_consts :: "(string \<times> nat) list" where
  "h1_rodata_consts =
     [(''HTTP1A_START_CAPTURE'', unat HTTP1A_START_CAPTURE), (''HTTP1A_END_CAPTURE'', unat HTTP1A_END_CAPTURE),
      (''HTTP1F_DONE'', unat HTTP1F_DONE)]"

type_synonym h1_rodata = "(string \<times> nat) list \<times> http1_action rodata"
type_synonym h1_transitions = "(state_id \<times> input \<times> state_id \<times> h1_action option) list"
type_synonym 'bpf h1_env = "(h1_rodata, unit, 'bpf) bpf_env"
type_synonym h1_trace = "(h1_rodata, unit) trace"
type_synonym ('enc, 'bpf, 'plain) h1_failure = "(h1_action, ('enc, 'bpf, 'plain) beeper_error) failure"

definition h1_inject :: "h1_transitions \<Rightarrow> h1_parser \<Rightarrow> ('enc, 'bpf, 'plain) h1_failure + h1_rodata" where
  "h1_inject ts p =
     (case inject_table h1_limits http1_action_from (h1_dfa p) ts (empty_rodata h1_no_action) of
        Inl f \<Rightarrow> Inl (inject_error f)
      | Inr data \<Rightarrow> Inr (h1_rodata_consts, data))"

definition h1_progs :: "prog list" where
  "h1_progs = [Parse_msg, Parse_skb, Matched, Get_match_msg, Get_match_skb]"

definition h1_configure ::
  "'bpf h1_env \<Rightarrow> int \<Rightarrow> h1_parser \<Rightarrow> h1_trace \<Rightarrow> ('enc, 'bpf, 'plain) h1_failure + h1_trace" where
  "h1_configure env target p tr =
     bind_res (fold_res (\<lambda>(buf, func). configure_prog env target (parse_prog buf) func) (h1_parse_fns p) tr) (\<lambda>tr.
     bind_res (fold_res (\<lambda>(prog, func). configure_prog env target prog func) (opt_prog Matched (h1_matched_fn p)) tr) (\<lambda>tr.
     fold_res (\<lambda>(buf, func). configure_prog env target (get_prog buf) func) (h1_get_fns p) tr))"

definition h1_links ::
  "'bpf h1_env \<Rightarrow> h1_parser \<Rightarrow> h1_trace \<Rightarrow> ('enc, 'bpf, 'plain) h1_failure + prog list \<times> h1_trace" where
  "h1_links env p tr =
     bind_res (fold_res (\<lambda>(buf, _). attach_prog env (parse_prog buf)) (h1_parse_fns p) ([], tr)) (\<lambda>st.
     bind_res (fold_res (\<lambda>(prog, _). attach_prog env prog) (opt_prog Matched (h1_matched_fn p)) st) (\<lambda>st.
     fold_res (\<lambda>(buf, _). attach_prog env (get_prog buf)) (h1_get_fns p) st))"

definition h1_attach ::
  "'bpf h1_env \<Rightarrow> bool \<Rightarrow> (h1_action dfa \<Rightarrow> h1_transitions) \<Rightarrow> int \<Rightarrow> h1_parser \<Rightarrow>
     ('enc, 'bpf, 'plain) h1_failure + prog list \<times> h1_trace" where
  "h1_attach env trace_enabled order target p =
     (case done_on_hdr_end p of
        Inl panic \<Rightarrow> Inl (Panic panic)
      | Inr p \<Rightarrow>
          bind_res (perform env OpenSkel []) (\<lambda>tr.
          bind_res (fold_res (\<lambda>prog. record_op (SetLogLevel prog))
            (if trace_enabled then [Parse_msg, Parse_skb] else []) tr) (\<lambda>tr.
          bind_res (fold_res (\<lambda>prog. record_op (SetAutoload prog False)) h1_progs tr) (\<lambda>tr.
          bind_res (h1_configure env target p tr) (\<lambda>tr.
          bind_res (h1_inject (order (h1_dfa p)) p) (\<lambda>data.
          bind_res (record_op (WriteRodata data) tr) (\<lambda>tr.
          bind_res (perform env LoadSkel tr) (\<lambda>tr.
          bind_res (perform env InitTracing tr) (\<lambda>tr.
          h1_links env p tr)))))))))"

lemma h1_action_nonzero: "http1_action_from a \<noteq> h1_no_action"
  by (cases a) (simp_all add: h1_no_action_def http1_consts)

interpretation h1_table: table_program h1_limits http1_action_from h1_no_action
  by unfold_locales (simp_all add: h1_limits_def h1_action_nonzero)

subsection \<open>The end of the header block\<close>

definition h1_all_actions :: "u8 \<Rightarrow> h1_action set" where
  "h1_all_actions n = insert Done (h1_actions n)"

lemma done_on_hdr_end_ok:
  assumes "h1_inv p"
  shows "case done_on_hdr_end p of
      Inl q \<Rightarrow> clash q
    | Inr p' \<Rightarrow> wf_dfa (h1_dfa p') \<and> extends (h1_dfa p) (h1_dfa p') \<and> p' = p\<lparr>h1_dfa := h1_dfa p'\<rparr> \<and>
        labelled (h1_all_actions (h1_num_matches p)) (h1_dfa p')"
proof -
  note ok = pattern_okD [OF add_pattern_ok [OF all_calls_ok(8) disjI2 [OF refl]] h1_invD(1) [OF assms]]
  have "labelled (h1_all_actions (h1_num_matches p)) (h1_dfa p)"
    using h1_invD(3) [OF assms] by (rule labelled_mono) (auto simp: h1_all_actions_def)
  then show ?thesis
    using ok by (auto simp: done_on_hdr_end_def h1_all_actions_def split: sum.split)
      (auto simp: bind_res_def split: sum.splits)
qed

subsection \<open>The actions always fit\<close>

lemma card_h1_all_actions:
  assumes "n \<le> H1_MAX_MATCHES"
  shows "finite (h1_all_actions n)" and "card (h1_all_actions n) \<le> 97"
proof -
  have "mid \<in> (\<lambda>k. MatchId (word_of_nat k)) ` {..<32}" if "match_idx mid < n" for mid
  proof
    have "unat (match_idx mid) < unat n" using that by (simp add: word_less_nat_alt)
    moreover have "unat n \<le> unat H1_MAX_MATCHES" using assms by (simp only: word_le_nat_alt)
    ultimately show "unat (match_idx mid) \<in> {..<32}" by simp
    show "mid = MatchId (word_of_nat (unat (match_idx mid)))" by simp
  qed
  then have sub: "{mid. match_idx mid < n} \<subseteq> (\<lambda>k. MatchId (word_of_nat k)) ` {..<32}" by blast
  have fin: "finite {mid. match_idx mid < n}" using sub by (rule finite_subset) simp
  have "card {mid. match_idx mid < n} \<le> card ((\<lambda>k. MatchId (word_of_nat k)) ` {..<32 :: nat})"
    using sub by (rule card_mono [rotated]) simp
  also have "\<dots> \<le> 32" using card_image_le [of "{..<32 :: nat}"] by simp
  finally have mids: "card {mid. match_idx mid < n} \<le> 32" .
  have eq: "h1_actions n = StartCapture ` {mid. match_idx mid < n} \<union> (EndCapture ` {mid. match_idx mid < n} \<union>
      EndCaptureAndDone ` {mid. match_idx mid < n})"
    by (auto simp: h1_actions_def)
  show "finite (h1_all_actions n)" using fin by (simp add: h1_all_actions_def eq)
  have im: "card (f ` {mid. match_idx mid < n}) \<le> 32" for f :: "match_id \<Rightarrow> h1_action"
    using card_image_le [OF fin] mids by (rule order.trans)
  have "card (h1_actions n) \<le> 32 + (32 + 32)"
    unfolding eq by (intro order.trans [OF card_Un_le add_mono] im)
  then show "card (h1_all_actions n) \<le> 97"
    by (simp add: h1_all_actions_def card_insert_if eq fin)
qed

lemma h1_fits_iff:
  assumes "wf_dfa d" and "labelled (h1_all_actions n) d" and "n \<le> H1_MAX_MATCHES"
  shows "fits h1_limits d \<longleftrightarrow> unat (num_states d) \<le> 512"
proof -
  have trans: "i \<le> ANY_INPUT \<and> a \<in> insert None (Some ` h1_all_actions n)"
    if "(s, i, t, a) \<in> set (iter_transitions d)" for s i t a
    using that assms(2) by (auto simp: in_iter_transitions [OF wf_dfaD(2) [OF assms(1)]] labelled_def)
  note fin = card_h1_all_actions [OF assms(3)]
  have "action_keys (iter_transitions d) \<subseteq> insert None (Some ` h1_all_actions n)"
    unfolding action_keys_def using trans by fastforce
  then have "card (action_keys (iter_transitions d)) \<le> card (insert None (Some ` h1_all_actions n))"
    by (intro card_mono) (simp_all add: fin)
  also have "\<dots> \<le> Suc (card (h1_all_actions n))"
    using card_image_le [OF fin(1), of Some] fin(1) by (simp add: card_insert_if)
  finally have "card (action_keys (iter_transitions d)) \<le> 256" using fin(2) by simp
  moreover have "unat i < 257" if "(s, i, t, a) \<in> set (iter_transitions d)" for s i t a
    using trans [OF that] by (simp add: word_le_nat_alt ANY_INPUT_def)
  ultimately show ?thesis by (auto simp: fits_def h1_limits_def)
qed

lemma h1_inject_result:
  assumes "wf_dfa (h1_dfa p)" and "set ts = set (iter_transitions (h1_dfa p))"
  shows "case (h1_inject ts p :: ('enc, 'bpf, 'plain) h1_failure + h1_rodata) of
      Inl f \<Rightarrow> f = Failed ParserExceedsStateLimit \<and> \<not> fits h1_limits (h1_dfa p)
    | Inr (consts, data) \<Rightarrow> consts = h1_rodata_consts \<and> fits h1_limits (h1_dfa p) \<and>
        represents h1_limits http1_action_from (h1_dfa p) data \<and> ro_actions data 0 = h1_no_action"
  using h1_table.injected [OF assms] by (auto simp: h1_inject_def split: sum.splits)

subsection \<open>What a successful \<open>attach\<close> has done\<close>

definition h1_configured :: "h1_parser \<Rightarrow> (prog \<times> string) list" where
  "h1_configured p = configured (h1_parse_fns p) (h1_matched_fn p) (h1_get_fns p) None"

definition h1_replaces :: "h1_parser \<Rightarrow> prog \<Rightarrow> string option" where
  "h1_replaces p = replaces (h1_parse_fns p) (h1_matched_fn p) (h1_get_fns p) None"

lemma h1_configure_fold:
  "h1_configure env target p = fold_res (\<lambda>(p, f). configure_prog env target p f) (h1_configured p)"
  by (simp add: fun_eq_iff h1_configure_def h1_configured_def configured_def opt_prog_def [of Get_dt_entry]
      fold_res_fun fold_res_map split_def)

lemma h1_links_fold: "h1_links env p tr = fold_res (attach_prog env) (map fst (h1_configured p)) ([], tr)"
  by (simp add: h1_links_def h1_configured_def configured_def opt_prog_def [of Get_dt_entry]
      fold_res_fun fold_res_map split_def)

lemma h1_attach_trace:
  fixes env :: "'bpf h1_env"
  assumes "h1_attach env trace_enabled order target p =
    (Inr (links, tr) :: ('enc, 'bpf, 'plain) h1_failure + prog list \<times> h1_trace)"
  obtains p' data where "done_on_hdr_end p = Inr p'"
    and "h1_inject (order (h1_dfa p')) p' = (Inr data :: ('enc, 'bpf, 'plain) h1_failure + h1_rodata)"
    and "links = map fst (h1_configured p')"
    and "tr = parser_trace trace_enabled h1_progs target (h1_configured p') data []"
proof -
  from assms obtain p' where p': "done_on_hdr_end p = Inr p'"
    by (auto simp: h1_attach_def split: sum.splits)
  from assms show thesis unfolding h1_attach_def p' sum.case
  proof (elim bind_res_InrE, goal_cases)
    case (1 t1 t2 t3 t4 data t5 t6 t7)
    have t4: "t4 = t3 @ configure_ops target (h1_configured p')"
      using 1(4) unfolding h1_configure_fold by (rule configure_all)
    have tl: "links = map fst (h1_configured p') \<and> tr = t7 @ map AttachProg (map fst (h1_configured p'))"
      using attach_all [OF 1(9) [unfolded h1_links_fold]] by simp
    show thesis
      using 1(1-3,6-8) t4 tl
      by (intro that [OF p' 1(5)])
        (auto simp: res_simps record_op_def reset_all log_all parser_trace_def simp del: map_map)
  qed
qed

text \<open>Why it failed, otherwise.\<close>

lemma h1_attach_failed:
  fixes env :: "'bpf h1_env"
  assumes "h1_attach env trace_enabled order target p =
    (Inl f :: ('enc, 'bpf, 'plain) h1_failure + prog list \<times> h1_trace)"
  obtains q where "done_on_hdr_end p = Inl q" and "f = Panic q"
  | p' where "done_on_hdr_end p = Inr p'"
      and "h1_inject (order (h1_dfa p')) p' = (Inl f :: ('enc, 'bpf, 'plain) h1_failure + h1_rodata)"
  | e where "f = Failed (Bpf e)"
proof (cases "done_on_hdr_end p")
  case (Inl q)
  with assms that(1) show thesis by (simp add: h1_attach_def)
next
  case (Inr p')
  show thesis
  proof (cases "h1_inject (order (h1_dfa p')) p' :: ('enc, 'bpf, 'plain) h1_failure + h1_rodata")
    case Inl': (Inl f')
    have "only_bpf (fold_res (\<lambda>prog. record_op (SetLogLevel prog))
            (if trace_enabled then [Parse_msg, Parse_skb] else []) tr
          :: ('enc, 'bpf, 'plain) h1_failure + h1_trace)" for tr by (intro only_bpf_fold) simp
    moreover have "only_bpf (fold_res (\<lambda>prog. record_op (SetAutoload prog False)) h1_progs tr
          :: ('enc, 'bpf, 'plain) h1_failure + h1_trace)" for tr by (intro only_bpf_fold) simp
    moreover have "only_bpf (h1_configure env target p' tr :: ('enc, 'bpf, 'plain) h1_failure + h1_trace)" for tr
      by (auto simp: h1_configure_fold split_def intro!: only_bpf_fold)
    ultimately have "f = f' \<or> (\<exists>e. f = Failed (Bpf e))"
      using assms Inr Inl' only_bpf_simps(3) [of env OpenSkel "[]"]
      by (auto simp: h1_attach_def bind_res_eq_Inl only_bpf_def)
    with that(2,3) Inr Inl' show thesis by blast
  next
    case data: (Inr data)
    have "only_bpf (h1_attach env trace_enabled order target p
        :: ('enc, 'bpf, 'plain) h1_failure + prog list \<times> h1_trace)"
      by (auto simp: h1_attach_def Inr data h1_configure_fold h1_links_fold split_def
          intro!: only_bpf_bind only_bpf_fold)
    with assms that(3) show thesis by (auto simp: only_bpf_def)
  qed
qed

section \<open>Properties of attaching\<close>

text \<open>
  C23: if \<open>attach\<close> returns, then of the programs of the
  parser exactly those a function was configured for are loaded, each with the target program
  and the function it replaces; exactly these were attached, with one link each.
\<close>

theorem h1_attach_replaces_what_is_configured:
  assumes "h1_attach env trace_enabled order target p =
      (Inr (links, tr) :: ('enc, 'bpf, 'plain) h1_failure + prog list \<times> h1_trace)"
    and "distinct (map fst (h1_parse_fns p))" and "distinct (map fst (h1_get_fns p))" and "prog \<in> set h1_progs"
  shows "(autoloads tr prog \<longleftrightarrow> h1_replaces p prog \<noteq> None) \<and>
    attach_target tr prog = map_option (\<lambda>func. (target, func)) (h1_replaces p prog) \<and>
    (prog \<in> attached tr \<longleftrightarrow> h1_replaces p prog \<noteq> None) \<and> set links = attached tr \<and> distinct links"
proof -
  from assms(1) obtain p' data where p': "done_on_hdr_end p = Inr p'"
    and links: "links = map fst (h1_configured p')"
    and tr: "tr = parser_trace trace_enabled h1_progs target (h1_configured p') data []"
    by (rule h1_attach_trace)
  have "h1_configured p' = h1_configured p"
    using p' by (auto simp: done_on_hdr_end_def bind_res_eq_Inr h1_configured_def)
  note conf = this
  have d: "distinct (map fst (h1_configured p))"
    unfolding h1_configured_def by (rule configured_distinct [OF assms(2,3)])
  have look: "map_of (h1_configured p) q = h1_replaces p q" for q
    by (simp add: h1_configured_def h1_replaces_def configured_lookup)
  have mem: "q \<in> fst ` set (h1_configured p) \<longleftrightarrow> h1_replaces p q \<noteq> None" for q
    using map_of_eq_None_iff [of "h1_configured p" q] by (simp add: look)
  note says = parser_trace_says [OF d, where tail = "[] :: h1_trace" and progs = h1_progs and te = trace_enabled
      and target = target and data = data, simplified]
  show ?thesis
    using says(1) [of prog] says(2,4) assms(4) mem d by (simp add: look links conf tr)
qed

text \<open>
  C22: a parser that served any requests either panics in \<open>attach\<close>
  because the pattern that ends the header block clashes, or fails with an error of libbpf, or
  fails with \<open>ParserExceedsStateLimit\<close> exactly if the DFA takes more than the 512 states of
  the program; otherwise the read-only data the program was loaded with gives back every
  transition of the DFA with its target and its action, and nothing else. Inputs and actions
  always fit, whatever the order the hash maps are iterated in.
\<close>

theorem h1_attach_loads_the_dfa:
  assumes "capture_all (h1_serve lower) rs h1_new =
      Inr (res :: (('enc, 'bpf, 'plain) beeper_error + match_id) list, p0)"
    and "h1_dfa p = h1_dfa p0" and "h1_num_matches p = h1_num_matches p0" and "h1_captures p = h1_captures p0"
    and "\<And>d. set (order d) = set (iter_transitions d)"
  shows "case (h1_attach env trace_enabled order target p
        :: ('enc, 'bpf, 'plain) h1_failure + prog list \<times> h1_trace) of
      Inl (Panic q) \<Rightarrow> clash q \<and> done_on_hdr_end p = Inl q
    | Inl (Failed e) \<Rightarrow> (\<exists>err. e = Bpf err) \<or>
        (e = ParserExceedsStateLimit \<and> (\<exists>p'. done_on_hdr_end p = Inr p' \<and> 512 < unat (num_states (h1_dfa p'))))
    | Inr (links, tr) \<Rightarrow> (\<exists>p' data. done_on_hdr_end p = Inr p' \<and> unat (num_states (h1_dfa p')) \<le> 512 \<and>
        extends (h1_dfa p) (h1_dfa p') \<and> loaded_rodata tr = Some (h1_rodata_consts, data) \<and>
        represents h1_limits http1_action_from (h1_dfa p') data \<and> ro_actions data 0 = h1_no_action)"
proof -
  have inv0: "h1_inv p0" using assms(1) h1_inv_new by (rule h1_serve_all_inv)
  then have inv: "h1_inv p" by (simp add: h1_inv_def h1_ids.ids_ok_def assms(2-4))
  have n: "h1_num_matches p \<le> H1_MAX_MATCHES" using h1_invD(2) [OF inv] by (simp add: h1_ids.ids_ok_def)
  note hdr = done_on_hdr_end_ok [OF inv]
  have inj: "case (h1_inject (order (h1_dfa p')) p' :: ('enc, 'bpf, 'plain) h1_failure + h1_rodata) of
      Inl f \<Rightarrow> f = Failed ParserExceedsStateLimit \<and> 512 < unat (num_states (h1_dfa p'))
    | Inr (consts, data) \<Rightarrow> consts = h1_rodata_consts \<and> unat (num_states (h1_dfa p')) \<le> 512 \<and>
        represents h1_limits http1_action_from (h1_dfa p') data \<and> ro_actions data 0 = h1_no_action"
    if "done_on_hdr_end p = Inr p'" for p'
  proof -
    have wf: "wf_dfa (h1_dfa p')" and lab: "labelled (h1_all_actions (h1_num_matches p)) (h1_dfa p')"
      using hdr that by simp_all
    from h1_inject_result [OF wf assms(5), where 'enc = 'enc and 'bpf = 'bpf and 'plain = 'plain] show ?thesis
      unfolding h1_fits_iff [OF wf lab n] not_le .
  qed
  show ?thesis
  proof (cases "h1_attach env trace_enabled order target p
        :: ('enc, 'bpf, 'plain) h1_failure + prog list \<times> h1_trace")
    case (Inl f)
    from Inl show ?thesis
    proof (cases rule: h1_attach_failed)
      case (1 q)
      with Inl hdr show ?thesis by simp
    next
      case (2 p')
      with Inl inj [OF 2(1)] show ?thesis by auto
    next
      case (3 e)
      with Inl show ?thesis by simp
    qed
  next
    case (Inr x)
    obtain links tr where x: "x = (links, tr)" by (cases x)
    from Inr [unfolded x] obtain p' data where p': "done_on_hdr_end p = Inr p'"
      and data: "h1_inject (order (h1_dfa p')) p' = (Inr data :: ('enc, 'bpf, 'plain) h1_failure + h1_rodata)"
      and tr: "tr = parser_trace trace_enabled h1_progs target (h1_configured p') data []"
      by (rule h1_attach_trace)
    have "loaded_rodata tr = Some data"
      by (simp add: tr trace_defs parser_trace_def trace_steps silent_ops [OF log_silent] del: map_map)
    with Inr x p' inj [OF p'] hdr data show ?thesis by (cases data) auto
  qed
qed

text \<open>Parsers that served requests and are attached in an environment without failures, for the witnesses.\<close>

abbreviation demo_parser :: "h1_parser \<Rightarrow> h1_parser" where
  "demo_parser p0 \<equiv> h1_get_fn ''get'' Msg (h1_parse_fn ''parse'' Msg
     (p0\<lparr>h1_parse_fns := [], h1_get_fns := [], h1_matched_fn := None\<rparr>))"

lemma h1_attach_runs:
  assumes c: "capture_all (h1_serve lower) rs h1_new =
       Inr (res :: ((unit, unit, unit) beeper_error + match_id) list, p0)"
    and d: "add_pattern ANY_STATE hdr_end_calls (h1_dfa p0) = Inr d" and small: "num_states d \<le> 64"
  obtains links tr data where "h1_attach (\<lambda>_ _. None) False iter_transitions 7 (demo_parser p0) =
       (Inr (links, tr) :: (unit, unit, unit) h1_failure + prog list \<times> h1_trace)" and "loaded_rodata tr = Some data"
proof -
  define p where "p = demo_parser p0"
  have p: "h1_dfa p = h1_dfa p0" "h1_num_matches p = h1_num_matches p0" "h1_captures p = h1_captures p0"
    "h1_parse_fns p = [(Msg, ''parse'')]" "h1_matched_fn p = None" "h1_get_fns p = [(Msg, ''get'')]"
    by (simp_all add: p_def h1_get_fn_def h1_parse_fn_def)
  have inv: "h1_inv p"
    using h1_serve_all_inv [OF c h1_inv_new] by (simp add: h1_inv_def h1_ids.ids_ok_def p)
  have p': "done_on_hdr_end p = Inr (p\<lparr>h1_dfa := d\<rparr>)" by (simp add: done_on_hdr_end_def p d)
  have n: "h1_num_matches p \<le> H1_MAX_MATCHES" using h1_invD(2) [OF inv] by (simp add: h1_ids.ids_ok_def)
  have wf: "wf_dfa d" and lab: "labelled (h1_all_actions (h1_num_matches p)) d"
    using done_on_hdr_end_ok [OF inv] by (simp_all add: p')
  have "unat (num_states d) \<le> 512" using small by (simp add: word_le_nat_alt)
  then have "fits h1_limits d" using h1_fits_iff [OF wf lab n] by simp
  then obtain data where data: "h1_inject (iter_transitions d) (p\<lparr>h1_dfa := d\<rparr>) =
      (Inr data :: (unit, unit, unit) h1_failure + h1_rodata)"
    using h1_inject_result [of "p\<lparr>h1_dfa := d\<rparr>", OF _ refl, where 'enc = unit and 'bpf = unit and 'plain = unit] wf
    by (auto split: sum.splits)
  have "\<exists>links tr. h1_attach (\<lambda>_ _. None) False iter_transitions 7 p =
       (Inr (links, tr) :: (unit, unit, unit) h1_failure + prog list \<times> h1_trace)"
    by (auto simp: h1_attach_def p' perform_def record_op_def reset_all log_all data h1_configure_fold h1_links_fold
        h1_configured_def configured_def p(4-) opt_prog_def configure_prog_def attach_prog_def)
  then obtain links tr where a: "h1_attach (\<lambda>_ _. None) False iter_transitions 7 p =
       (Inr (links, tr) :: (unit, unit, unit) h1_failure + prog list \<times> h1_trace)" by blast
  from h1_attach_trace [OF a] obtain data' p'' where "tr = parser_trace False h1_progs 7 (h1_configured p'') data' []"
    by metis
  then have "loaded_rodata tr = Some data'"
    by (simp add: trace_defs parser_trace_def trace_steps silent_ops [OF log_silent] del: map_map)
  with a that show thesis unfolding p_def by blast
qed

lemma h1_attach_demo:
  obtains p0 p links tr where
    "capture_all (h1_serve ascii_lower) demo_requests h1_new =
       Inr ([Inr (MatchId 0), Inr (MatchId 1), Inr (MatchId 0)] ::
         ((unit, unit, unit) beeper_error + match_id) list, p0)"
    and "p = demo_parser p0"
    and "h1_attach (\<lambda>_ _. None) False iter_transitions 7 p =
       (Inr (links, tr) :: (unit, unit, unit) h1_failure + prog list \<times> h1_trace)"
proof -
  obtain p0 where c: "capture_all (h1_serve ascii_lower) demo_requests h1_new =
       Inr ([Inr (MatchId 0), Inr (MatchId 1), Inr (MatchId 0)] ::
         ((unit, unit, unit) beeper_error + match_id) list, p0)"
    by (rule h1_demo)
  have "(case capture_all (h1_serve ascii_lower :: h1_request \<Rightarrow> h1_parser \<Rightarrow> (unit, unit, unit) h1_result)
        demo_requests h1_new of
      Inr (_, q) \<Rightarrow> (case add_pattern ANY_STATE hdr_end_calls (h1_dfa q) of Inr d \<Rightarrow> num_states d \<le> 64 | Inl _ \<Rightarrow> False)
    | Inl _ \<Rightarrow> False)"
    by code_simp
  then obtain d where "add_pattern ANY_STATE hdr_end_calls (h1_dfa p0) = Inr d" and "num_states d \<le> 64"
    unfolding c by (auto split: sum.splits)
  with c that show thesis by (metis h1_attach_runs)
qed

theorem h1_attach_replaces_what_is_configured_witness:
  "\<exists>tr :: h1_trace. autoloads tr Parse_msg \<and> \<not> autoloads tr Parse_skb \<and>
     attach_target tr Parse_msg = Some (7, ''parse'')"
proof -
  obtain p0 p links tr where
    p: "p = demo_parser p0"
    and a: "h1_attach (\<lambda>_ _. None) False iter_transitions 7 p =
       (Inr (links, tr) :: (unit, unit, unit) h1_failure + prog list \<times> h1_trace)"
    by (rule h1_attach_demo)
  have f: "h1_parse_fns p = [(Msg, ''parse'')]" "h1_matched_fn p = None" "h1_get_fns p = [(Msg, ''get'')]"
    by (simp_all add: p h1_get_fn_def h1_parse_fn_def)
  have "distinct (map fst (h1_parse_fns p))" and "distinct (map fst (h1_get_fns p))" by (simp_all add: f)
  note * = h1_attach_replaces_what_is_configured [OF a this]
  from * [of Parse_msg] * [of Parse_skb] show ?thesis
    by (auto simp: h1_replaces_def replaces_def f h1_progs_def)
qed

theorem h1_attach_loads_the_dfa_witness:
  "\<exists>(tr :: h1_trace) (p' :: h1_parser) data. loaded_rodata tr = Some (h1_rodata_consts, data) \<and>
     represents h1_limits http1_action_from (h1_dfa p') data"
proof -
  obtain p0 p links tr where
    c: "capture_all (h1_serve ascii_lower) demo_requests h1_new =
       Inr ([Inr (MatchId 0), Inr (MatchId 1), Inr (MatchId 0)] ::
         ((unit, unit, unit) beeper_error + match_id) list, p0)"
    and p: "p = demo_parser p0"
    and a: "h1_attach (\<lambda>_ _. None) False iter_transitions 7 p =
       (Inr (links, tr) :: (unit, unit, unit) h1_failure + prog list \<times> h1_trace)"
    by (rule h1_attach_demo)
  have "h1_dfa p = h1_dfa p0" "h1_num_matches p = h1_num_matches p0" "h1_captures p = h1_captures p0"
    by (simp_all add: p h1_get_fn_def h1_parse_fn_def)
  from h1_attach_loads_the_dfa [OF c this refl, where env = "\<lambda>_ _. None"
      and trace_enabled = False and target = 7, unfolded a sum.case prod.case]
  show ?thesis by blast
qed

end
