(* ===== verification/Http1_Bpf.thy ===== *)
theory Http1_Bpf
  imports Http1_Attach
begin

section \<open>The HTTP/1.1 parser program (\<open>beeper/src/http1/parser.bpf.c\<close>)\<close>

text \<open>
  The program that walks the tables \<open>inject\<close> writes over the bytes of a message. A buffer of
  the kernel is the list of its bytes; \<open>start\<close>, the loop counter and the length of a walk are
  at most \<open>0x8000\<close> and kept as numbers, what the program stores of them is truncated as it is
  there. A walk returns its result together with what it leaves in the variables it was given
  pointers to. Pulling the rest of a message into the buffer is a call of the kernel and a
  parameter.
\<close>

subsection \<open>State\<close>

definition MAX_BYTES :: nat where "MAX_BYTES = 0x7FFF"
definition MATCHES :: nat where "MATCHES = 32"
definition MAX_MATCH_MASK :: u8 where "MAX_MATCH_MASK = 31"
definition HTTP_SRC_MSG :: u8 where "HTTP_SRC_MSG = 0"

record http_match =
  hm_idx :: u16
  hm_len :: u16
  hm_source :: u8
  hm_huff :: bool

definition no_match :: http_match where
  "no_match = \<lparr>hm_idx = 0, hm_len = 0, hm_source = 0, hm_huff = False\<rparr>"

text \<open>The variables of the caller a walk reads and writes.\<close>

record h1_walk =
  w_ms :: "http_match list"
  w_cidx :: "u32 list"
  w_state :: u16
  w_null_prefix :: "u16 option"

definition walk_start :: "http_match list \<Rightarrow> u16 option \<Rightarrow> h1_walk" where
  "walk_start ms null_prefix =
     \<lparr>w_ms = ms, w_cidx = replicate MATCHES 0, w_state = INIT_STATE, w_null_prefix = null_prefix\<rparr>"

type_synonym h1_tables = "http1_action rodata"

subsection \<open>A step\<close>

definition read_action :: "h1_tables \<Rightarrow> u16 \<Rightarrow> http1_action" where
  "read_action tables i = ro_actions tables (unat (i AND 0xFF))"

definition is_no_trans :: "trans \<Rightarrow> bool" where
  "is_no_trans t \<longleftrightarrow> trans_state t = 0 \<and> trans_action t = 0"

definition next_trans :: "h1_tables \<Rightarrow> u16 \<Rightarrow> u8 \<Rightarrow> u16 \<times> u16" where
  "next_trans tables state input =
     (let state = state AND 0x1FF; t = ro_states tables state (input_of input) in
      if is_no_trans t then
        let t = ro_states tables state ANY_INPUT in
        if is_no_trans t then (ANY_STATE, 0) else (trans_state t, trans_action t)
      else (trans_state t, trans_action t))"

text \<open>\<open>_next\<close> from the current state, and once more from the fallback state.\<close>

definition next_or_any :: "h1_tables \<Rightarrow> u16 \<Rightarrow> u8 \<Rightarrow> u16 \<times> u16" where
  "next_or_any tables state input =
     (case next_trans tables state input of (s, a) \<Rightarrow>
        if s = ANY_STATE then next_trans tables ANY_STATE input else (s, a))"

definition run_action :: "http1_action \<Rightarrow> nat \<Rightarrow> h1_walk \<Rightarrow> h1_walk" where
  "run_action act i w =
     (let mid = unat (h1a_mid act AND MAX_MATCH_MASK) in
      if h1a_kind act = HTTP1A_START_CAPTURE then w\<lparr>w_cidx := (w_cidx w)[mid := word_of_nat (i + 1)]\<rparr>
      else if h1a_kind act = HTTP1A_END_CAPTURE then
        w\<lparr>w_ms := (w_ms w)[mid :=
          \<lparr>hm_idx = ucast (w_cidx w ! mid), hm_len = ucast (word_of_nat i - w_cidx w ! mid + 1),
           hm_source = HTTP_SRC_MSG, hm_huff = False\<rparr>]\<rparr>
      else w)"

subsection \<open>A walk\<close>

text \<open>The loop of \<open>_parse_from\<close> over the bytes from index \<open>i\<close> on; \<open>Some n\<close> is \<open>return n\<close>.\<close>

fun parse_loop :: "h1_tables \<Rightarrow> nat \<Rightarrow> bytes \<Rightarrow> h1_walk \<Rightarrow> nat option \<times> h1_walk" where
  "parse_loop tables i [] w = (None, w)"
| "parse_loop tables i (c # cs) w =
     (if c = 0 \<and> w_null_prefix w = Some (word_of_nat i)
      then parse_loop tables (i + 1) cs (w\<lparr>w_null_prefix := Some (word_of_nat (i + 1))\<rparr>)
      else case next_or_any tables (w_state w) c of (s, a) \<Rightarrow>
        (let act = read_action tables a; w = run_action act i (w\<lparr>w_state := s\<rparr>)
         in if h1a_flags act AND HTTP1F_DONE \<noteq> 0 then (Some (i + 1), w)
            else parse_loop tables (i + 1) cs w))"

text \<open>
  \<open>_parse_from\<close>: the length is clamped to \<open>MAX_BYTES\<close>, but the loop counter runs up to and
  including it, and the loop only ends at the end of the buffer.
\<close>

definition parse_from :: "h1_tables \<Rightarrow> bytes \<Rightarrow> nat \<Rightarrow> h1_walk \<Rightarrow> int \<times> h1_walk" where
  "parse_from tables data start w =
     (let len = min (length data) MAX_BYTES in
      if len \<le> start then (0, w)
      else case parse_loop tables start (drop start (take (len + 1) data)) w of
          (Some n, w) \<Rightarrow> (int n, w)
        | (None, w) \<Rightarrow> (- int len, w))"

subsection \<open>The programs\<close>

text \<open>The error codes of the programs, as \<open>asm-generic\<close> has them.\<close>

definition EAGAIN :: int where "EAGAIN = 11"
definition EFAULT :: int where "EFAULT = 14"
definition EINVAL :: int where "EINVAL = 22"
definition ENOENT :: int where "ENOENT = 2"
definition E2BIG :: int where "E2BIG = 7"

lemmas errnos = EAGAIN_def EFAULT_def EINVAL_def ENOENT_def E2BIG_def

definition too_short :: "nat \<Rightarrow> int" where
  "too_short sz = (if MAX_BYTES \<le> sz then - E2BIG else - EAGAIN)"

text \<open>
  \<open>parse_msg\<close> of a message of \<open>sz\<close> bytes with the linear part \<open>linear\<close>; \<open>pulled\<close> is the
  buffer after \<open>bpf_msg_pull_data\<close>, or \<open>None\<close> if that fails.
\<close>

definition parse_msg :: "h1_tables \<Rightarrow> bytes \<Rightarrow> nat \<Rightarrow> bytes option \<Rightarrow> http_match list \<Rightarrow> int \<times> http_match list" where
  "parse_msg tables linear sz pulled ms =
     (case parse_from tables linear 0 (walk_start ms None) of (res, w) \<Rightarrow>
        if res < 0 \<and> - res < int sz then
          (case pulled of
             None \<Rightarrow> (- EFAULT, w_ms w)
           | Some data \<Rightarrow>
               (case parse_from tables data (nat (- res)) w of (res, w) \<Rightarrow>
                  (if 0 < res then res else too_short sz, w_ms w)))
        else (if 0 < res then res else too_short sz, w_ms w))"

text \<open>
  \<open>parse_skb\<close>, with the number of bytes in the linear part and the buffer after
  \<open>bpf_skb_pull_data\<close>. It returns \<open>null_prefix\<close> as well.
\<close>

definition parse_skb ::
  "h1_tables \<Rightarrow> bytes \<Rightarrow> nat \<Rightarrow> bytes option \<Rightarrow> nat \<Rightarrow> http_match list \<Rightarrow> u16 option \<Rightarrow>
     int \<times> http_match list \<times> u16 option" where
  "parse_skb tables linear sz pulled off ms null_prefix =
     (if MAX_BYTES \<le> off then (- E2BIG, ms, null_prefix)
      else if sz < off then (- EINVAL, ms, null_prefix)
      else if off = sz then (- EAGAIN, ms, null_prefix)
      else case (if length linear < sz then pulled else Some linear) of
          None \<Rightarrow> (- EFAULT, ms, null_prefix)
        | Some data \<Rightarrow>
            (case parse_from tables data off (walk_start ms null_prefix) of (res, w) \<Rightarrow>
               (if 0 < res then res - int off else too_short sz, w_ms w, w_null_prefix w)))"

definition matched_prog :: "http_match list \<Rightarrow> u8 \<Rightarrow> bool" where
  "matched_prog ms idx =
     (if MATCHES \<le> unat idx then False else 0 < hm_len (ms ! unat (idx AND MAX_MATCH_MASK)))"

text \<open>\<open>get_match_msg\<close> and \<open>get_match_skb\<close>: the bytes \<open>str\<close> points to, or an error.\<close>

definition get_match :: "bytes \<Rightarrow> http_match list \<Rightarrow> u8 \<Rightarrow> int + bytes" where
  "get_match data ms idx =
     (if MATCHES \<le> unat idx then Inl (- EINVAL)
      else let m = ms ! unat (idx AND MAX_MATCH_MASK) in
        if hm_len m = 0 then Inl (- ENOENT)
        else if length data < unat (hm_idx m) + unat (hm_len m) then Inl (- EFAULT)
        else Inr (take (unat (hm_len m)) (drop (unat (hm_idx m)) data)))"


section \<open>What the program does\<close>

subsection \<open>A step of the DFA\<close>

text \<open>
  The step the program is to take: the edge for the byte, else the edge for any byte, else
  back to the fallback state, where the byte is read once more. The tables cannot tell an
  edge to state 0 without an action from none.
\<close>

definition live_edge :: "'a dfa \<Rightarrow> state_id \<Rightarrow> input \<Rightarrow> 'a edge option" where
  "live_edge d s i = (case dfa_edge d s i of
       Some e \<Rightarrow> if edge_to e = INIT_STATE \<and> edge_action e = None then None else Some e
     | None \<Rightarrow> None)"

definition dfa_next :: "'a dfa \<Rightarrow> state_id \<Rightarrow> u8 \<Rightarrow> state_id \<times> 'a option" where
  "dfa_next d s c = (case live_edge d s (input_of c) of
       Some e \<Rightarrow> (edge_to e, edge_action e)
     | None \<Rightarrow> (case live_edge d s ANY_INPUT of
         Some e \<Rightarrow> (edge_to e, edge_action e)
       | None \<Rightarrow> (ANY_STATE, None)))"

definition dfa_step :: "'a dfa \<Rightarrow> state_id \<Rightarrow> u8 \<Rightarrow> state_id \<times> 'a option" where
  "dfa_step d s c = (case dfa_next d s c of (t, a) \<Rightarrow> if t = ANY_STATE then dfa_next d ANY_STATE c else (t, a))"

definition program_action :: "h1_action option \<Rightarrow> http1_action" where
  "program_action a = (case a of None \<Rightarrow> h1_no_action | Some a \<Rightarrow> http1_action_from a)"

text \<open>The tables the program was loaded with.\<close>

definition loaded :: "h1_action dfa \<Rightarrow> h1_tables \<Rightarrow> bool" where
  "loaded d tables \<longleftrightarrow> wf_dfa d \<and> unat (num_states d) \<le> 512 \<and>
     represents h1_limits http1_action_from d tables \<and> ro_actions tables 0 = h1_no_action"

lemma mask_id:
  "unat (x :: u16) < 512 \<Longrightarrow> x AND 0x1FF = x" "unat (y :: u16) < 256 \<Longrightarrow> y AND 0xFF = y"
proof -
  have m: "(0x1FF :: u16) = mask 9" "(0xFF :: u16) = mask 8" by (simp_all add: mask_eq_exp_minus_1)
  show "unat x < 512 \<Longrightarrow> x AND 0x1FF = x" "unat y < 256 \<Longrightarrow> y AND 0xFF = y"
    unfolding m take_bit_eq_mask [symmetric]
    by (simp_all add: word_unat_eq_iff unsigned_take_bit_eq take_bit_nat_eq_self)
qed

lemma loaded_any: "loaded d tables \<Longrightarrow> ANY_STATE < num_states d"
  using wf_dfaD(6) [of d] by (simp add: loaded_def ANY_STATE_def)

lemma loaded_trans:
  assumes "loaded d tables" and "s < num_states d" and t_def: "t = ro_states tables s i"
  shows "if is_no_trans t then live_edge d s i = None
    else \<exists>e. live_edge d s i = Some e \<and> trans_state t = edge_to e \<and> edge_to e < num_states d \<and>
      read_action tables (trans_action t) = program_action (edge_action e)"
proof -
  note wf = wf_dfaD(4) [of d s i]
  have lim: "max_actions h1_limits = 256" by (simp add: h1_limits_def)
  have r: "case dfa_edge d s i of None \<Rightarrow> t = no_trans
    | Some e \<Rightarrow> trans_state t = edge_to e \<and> unat (trans_action t) < 256 \<and>
        (case edge_action e of None \<Rightarrow> trans_action t = 0
         | Some a \<Rightarrow> trans_action t \<noteq> 0 \<and> ro_actions tables (unat (trans_action t)) = http1_action_from a)"
    using assms(1) unfolding loaded_def represents_def t_def lim by blast
  show ?thesis
  proof (cases "dfa_edge d s i")
    case None
    with r show ?thesis by (simp add: is_no_trans_def no_trans_def live_edge_def)
  next
    case (Some e)
    with r have t: "trans_state t = edge_to e" "unat (trans_action t) < 256" by simp_all
    have "read_action tables (trans_action t) = program_action (edge_action e)"
      using r Some assms(1) mask_id(2) [OF t(2)]
      by (cases "edge_action e") (simp_all add: read_action_def program_action_def loaded_def)
    with r Some wf assms(1) show ?thesis
      by (cases "edge_action e") (auto simp: is_no_trans_def live_edge_def loaded_def INIT_STATE_def)
  qed
qed

lemma next_trans_dfa:
  assumes "loaded d tables" and "s < num_states d"
  shows "\<exists>t i a. next_trans tables s c = (t, i) \<and> dfa_next d s c = (t, a) \<and>
    read_action tables i = program_action a \<and> t < num_states d"
proof -
  have "unat s < 512" using assms by (simp add: loaded_def word_less_nat_alt)
  then have s: "s AND 0x1FF = s" by (rule mask_id)
  note any = loaded_any [OF assms(1)]
  have zero: "read_action tables 0 = program_action None"
    using assms(1) by (simp add: read_action_def program_action_def loaded_def)
  show ?thesis
    using loaded_trans [OF assms refl, of "input_of c"] loaded_trans [OF assms refl, of ANY_INPUT] any zero
    by (auto simp: next_trans_def s dfa_next_def Let_def split: if_splits)
qed

lemma next_or_any_dfa:
  assumes "loaded d tables" and "s < num_states d"
  shows "\<exists>t i a. next_or_any tables s c = (t, i) \<and> dfa_step d s c = (t, a) \<and>
    read_action tables i = program_action a \<and> t < num_states d"
proof -
  note any = loaded_any [OF assms(1)]
  from next_trans_dfa [OF assms, of c] next_trans_dfa [OF assms(1) any, of c] show ?thesis
    by (auto simp: next_or_any_def dfa_step_def)
qed


subsection \<open>A walk of the DFA\<close>

fun dfa_loop :: "h1_action dfa \<Rightarrow> nat \<Rightarrow> bytes \<Rightarrow> h1_walk \<Rightarrow> nat option \<times> h1_walk" where
  "dfa_loop d i [] w = (None, w)"
| "dfa_loop d i (c # cs) w =
     (if c = 0 \<and> w_null_prefix w = Some (word_of_nat i)
      then dfa_loop d (i + 1) cs (w\<lparr>w_null_prefix := Some (word_of_nat (i + 1))\<rparr>)
      else case dfa_step d (w_state w) c of (s, a) \<Rightarrow>
        (let act = program_action a; w = run_action act i (w\<lparr>w_state := s\<rparr>)
         in if h1a_flags act AND HTTP1F_DONE \<noteq> 0 then (Some (i + 1), w)
            else dfa_loop d (i + 1) cs w))"

definition dfa_parse :: "h1_action dfa \<Rightarrow> bytes \<Rightarrow> nat \<Rightarrow> h1_walk \<Rightarrow> int \<times> h1_walk" where
  "dfa_parse d data start w =
     (if min (length data) MAX_BYTES \<le> start then (0, w)
      else case dfa_loop d start (drop start (take (MAX_BYTES + 1) data)) w of
          (Some n, w) \<Rightarrow> (int n, w)
        | (None, w) \<Rightarrow> (- int (min (length data) MAX_BYTES), w))"

lemma run_action_fields [simp]:
  "w_state (run_action act i w) = w_state w" "w_null_prefix (run_action act i w) = w_null_prefix w"
  "length (w_ms (run_action act i w)) = length (w_ms w)" "length (w_cidx (run_action act i w)) = length (w_cidx w)"
  by (simp_all add: run_action_def Let_def)

lemma parse_loop_dfa:
  assumes "loaded d tables" and "w_state w < num_states d"
  shows "parse_loop tables i cs w = dfa_loop d i cs w"
  using assms(2)
proof (induction cs arbitrary: i w)
  case (Cons c cs)
  obtain t j a where "next_or_any tables (w_state w) c = (t, j)" "dfa_step d (w_state w) c = (t, a)"
    "read_action tables j = program_action a" "t < num_states d"
    using next_or_any_dfa [OF assms(1) Cons.prems, of c] by blast
  with Cons show ?case by (simp add: Let_def)
qed simp

text \<open>A walk can be cut anywhere.\<close>

lemma parse_loop_append:
  "parse_loop tables i (xs @ ys) w = (case parse_loop tables i xs w of
       (Some n, w) \<Rightarrow> (Some n, w)
     | (None, w) \<Rightarrow> parse_loop tables (i + length xs) ys w)"
  by (induction xs arbitrary: i w) (auto simp: Let_def split: prod.split option.split)

lemma parse_loop_Some_bound: "parse_loop tables i cs w = (Some n, w') \<Longrightarrow> i < n \<and> n \<le> i + length cs"
proof (induction cs arbitrary: i w)
  case (Cons c cs)
  then show ?case by (fastforce simp: Let_def split: prod.splits if_splits)
qed simp

lemma parse_from_walk:
  "parse_from tables data start w =
     (if min (length data) MAX_BYTES \<le> start then (0, w)
      else case parse_loop tables start (drop start (take (MAX_BYTES + 1) data)) w of
          (Some n, w) \<Rightarrow> (int n, w)
        | (None, w) \<Rightarrow> (- int (min (length data) MAX_BYTES), w))"
proof -
  have "take (min (length data) MAX_BYTES + 1) data = take (MAX_BYTES + 1) data"
    by (simp add: min_def)
  then show ?thesis by (simp add: parse_from_def Let_def)
qed

lemma parse_from_neg:
  "parse_from tables data start w = (res, w') \<Longrightarrow> res < 0 \<longleftrightarrow>
     start < min (length data) MAX_BYTES \<and> res = - int (min (length data) MAX_BYTES) \<and>
     parse_loop tables start (drop start (take (MAX_BYTES + 1) data)) w = (None, w')"
  by (auto simp: parse_from_walk min_def split: prod.splits option.splits if_splits)


definition parse_result_of :: "int \<times> h1_walk \<Rightarrow> nat \<Rightarrow> int \<times> http_match list" where
  "parse_result_of = (\<lambda>(res, w) sz. (if 0 < res then res else too_short sz, w_ms w))"

lemma parse_msg_whole:
  assumes "data \<noteq> []"
  shows "parse_msg tables data (length data) (Some data) ms =
    parse_result_of (parse_from tables data 0 (walk_start ms None)) (length data)"
proof -
  obtain res w where r: "parse_from tables data 0 (walk_start ms None) = (res, w)" by force
  show ?thesis
  proof (cases "res < 0 \<and> - res < int (length data)")
    case True
    with r have "- res = int MAX_BYTES" "MAX_BYTES < length data"
      using parse_from_neg [OF r] by (auto simp: min_def split: if_splits)
    then have "parse_from tables data (nat (- res)) w = (0, w)" by (simp add: parse_from_walk)
    with True r show ?thesis by (simp add: parse_msg_def parse_result_of_def)
  qed (auto simp: parse_msg_def parse_result_of_def r)
qed

lemma min_eq_0_iff: "min m n = 0 \<longleftrightarrow> m = 0 \<or> n = (0 :: nat)"
  by (auto simp: min_def)

lemma parse_msg_cut:
  assumes "linear \<noteq> []" and "length linear \<noteq> MAX_BYTES"
  shows "parse_msg tables linear (length (linear @ rest)) (Some (linear @ rest)) ms =
    parse_result_of (parse_from tables (linear @ rest) 0 (walk_start ms None)) (length (linear @ rest))"
proof -
  let ?w = "walk_start ms None" and ?data = "linear @ rest"
  consider "MAX_BYTES < length linear" | "rest = []" | "length linear < MAX_BYTES" "rest \<noteq> []"
    using assms(2) by linarith
  then show ?thesis
  proof cases
    case 1
    then have "min (length linear) MAX_BYTES = MAX_BYTES" "min (length ?data) MAX_BYTES = MAX_BYTES"
      "take (MAX_BYTES + 1) ?data = take (MAX_BYTES + 1) linear"
      by simp_all
    then have "parse_from tables linear 0 ?w = parse_from tables ?data 0 ?w"
      by (simp only: parse_from_walk)
    moreover have "parse_msg tables ?data (length ?data) (Some ?data) ms =
        parse_result_of (parse_from tables ?data 0 ?w) (length ?data)"
      using assms(1) by (intro parse_msg_whole) simp
    ultimately show ?thesis by (simp add: parse_msg_def)
  next
    case 2
    with parse_msg_whole [OF assms(1), of tables ms] show ?thesis by simp
  next
    case 3
    define later where "later = take (MAX_BYTES + 1 - length linear) rest"
    have all: "take (MAX_BYTES + 1) ?data = linear @ later" and lin: "take (MAX_BYTES + 1) linear = linear"
      using 3 by (simp_all add: later_def)
    have len: "0 < min (length ?data) MAX_BYTES" "length linear < min (length ?data) MAX_BYTES"
      using 3 assms(1) by auto
    have nle: "\<not> min (length linear + length rest) MAX_BYTES \<le> length linear" using 3 by (auto simp: min_le_iff_disj)
    then have nz: "min (length linear + length rest) MAX_BYTES \<noteq> 0" by (intro notI) simp
    obtain r1 w1 where one: "parse_loop tables 0 linear ?w = (r1, w1)" by force
    show ?thesis
    proof (cases r1)
      case (Some n)
      then have "parse_from tables linear 0 ?w = (int n, w1)" "parse_from tables ?data 0 ?w = (int n, w1)"
        using one 3 assms(1) len(1) all lin
        by (simp_all add: parse_from_walk parse_loop_append min_def)
      moreover have "0 < n" using parse_loop_Some_bound one Some by blast
      ultimately show ?thesis by (simp add: parse_msg_def parse_result_of_def)
    next
      case None
      obtain r2 w2 where two: "parse_loop tables (length linear) later w1 = (r2, w2)" by force
      have first: "parse_from tables linear 0 ?w = (- int (length linear), w1)"
        using one None 3 assms(1) lin by (simp add: parse_from_walk min_def)
      have again: "parse_from tables ?data (length linear) w1 =
          (case r2 of Some n \<Rightarrow> int n | None \<Rightarrow> - int (min (length ?data) MAX_BYTES), w2)"
        using two nle all by (cases r2) (simp_all add: parse_from_walk)
      moreover have "parse_from tables ?data 0 ?w =
          (case r2 of Some n \<Rightarrow> int n | None \<Rightarrow> - int (min (length ?data) MAX_BYTES), w2)"
        using one two None nz all by (cases r2) (auto simp: parse_from_walk parse_loop_append min_eq_0_iff)
      ultimately show ?thesis
        using first 3 assms(1) by (cases r2) (simp_all add: parse_msg_def parse_result_of_def)
    qed
  qed
qed


subsection \<open>Captured ranges\<close>

text \<open>Every open capture starts before the byte that is read, and ranges end there.\<close>

definition starts_ok :: "nat \<Rightarrow> h1_walk \<Rightarrow> bool" where
  "starts_ok i w \<longleftrightarrow> length (w_cidx w) = MATCHES \<and> length (w_ms w) = MATCHES \<and> (\<forall>x \<in> set (w_cidx w). unat x \<le> i)"

definition range_ok :: "nat \<Rightarrow> http_match \<Rightarrow> bool" where
  "range_ok n m \<longleftrightarrow> 0 < unat (hm_len m) \<and> unat (hm_idx m) + unat (hm_len m) \<le> n"

lemma u32_unat: "n < 2 ^ 32 \<Longrightarrow> unat (word_of_nat n :: u32) = n"
  by (simp add: unsigned_of_nat take_bit_nat_eq_self)

lemma u16_unat: "unat (x :: u32) < 2 ^ 16 \<Longrightarrow> unat (ucast x :: u16) = unat x"
  by (simp add: unsigned_ucast_eq take_bit_nat_eq_self)

lemma starts_ok_mono: "starts_ok i w \<Longrightarrow> i \<le> j \<Longrightarrow> starts_ok j w"
  by (auto simp: starts_ok_def intro: order_trans)

lemma range_ok_mono: "range_ok n m \<Longrightarrow> n \<le> k \<Longrightarrow> range_ok k m"
  by (simp add: range_ok_def)

lemma mid_less: "unat (x AND MAX_MATCH_MASK) < MATCHES"
proof -
  have "x AND MAX_MATCH_MASK = take_bit 5 x"
    by (simp add: MAX_MATCH_MASK_def take_bit_eq_mask mask_eq_exp_minus_1)
  then show ?thesis by (simp add: unsigned_take_bit_eq MATCHES_def take_bit_nat_less_exp [of 5, simplified])
qed

lemma run_action_ranges:
  assumes "starts_ok i w" and "i \<le> MAX_BYTES"
  shows "starts_ok (i + 1) (run_action act i w)"
    and "\<forall>mid < MATCHES. w_ms (run_action act i w) ! mid = w_ms w ! mid \<or> range_ok (i + 1) (w_ms (run_action act i w) ! mid)"
proof -
  let ?mid = "unat (h1a_mid act AND MAX_MATCH_MASK)"
  have i: "i + 1 < 2 ^ 16" using assms(2) by (simp add: MAX_BYTES_def)
  have mid: "?mid < MATCHES" by (rule mid_less)
  have "unat (1 + word_of_nat i :: u32) = Suc i" using u32_unat [of "i + 1"] i by simp
  then show "starts_ok (i + 1) (run_action act i w)"
    using assms(1) i
    by (auto simp: starts_ok_def run_action_def Let_def u32_unat dest!: set_update_subset_insert [THEN subsetD])
  have "w_cidx w ! ?mid \<in> set (w_cidx w)" using assms(1) mid by (simp add: starts_ok_def)
  then have c: "unat (w_cidx w ! ?mid) \<le> i" using assms(1) by (simp add: starts_ok_def)
  have "unat (word_of_nat i - w_cidx w ! ?mid + 1) = i + 1 - unat (w_cidx w ! ?mid)"
  proof -
    have "word_of_nat i - w_cidx w ! ?mid + 1 = (word_of_nat (i + 1 - unat (w_cidx w ! ?mid)) :: u32)"
      using c by (simp add: of_nat_diff Suc_diff_le)
    with i show ?thesis by (simp add: u32_unat)
  qed
  with c i have new: "range_ok (i + 1) \<lparr>hm_idx = ucast (w_cidx w ! ?mid), hm_len = ucast (word_of_nat i - w_cidx w ! ?mid + 1),
      hm_source = HTTP_SRC_MSG, hm_huff = False\<rparr>"
    by (simp add: range_ok_def u16_unat)
  show "\<forall>mid < MATCHES. w_ms (run_action act i w) ! mid = w_ms w ! mid \<or>
      range_ok (i + 1) (w_ms (run_action act i w) ! mid)"
  proof (intro allI impI)
    fix mid assume "mid < MATCHES"
    with assms(1) new show "w_ms (run_action act i w) ! mid = w_ms w ! mid \<or>
        range_ok (i + 1) (w_ms (run_action act i w) ! mid)"
      by (cases "mid = ?mid") (simp_all add: run_action_def Let_def starts_ok_def)
  qed
qed

definition walk_end :: "nat option \<Rightarrow> nat \<Rightarrow> bytes \<Rightarrow> nat" where
  "walk_end r i cs = (case r of Some n \<Rightarrow> n | None \<Rightarrow> i + length cs)"

lemma walk_end_simps [simp]:
  "walk_end r i (c # cs) = walk_end r (i + 1) cs" "walk_end None i [] = i" "walk_end (Some n) i cs = n"
  by (simp_all add: walk_end_def split: option.split)

lemma parse_loop_ranges:
  assumes "parse_loop tables i cs w = (r, w')" and "starts_ok i w" and "i + length cs \<le> MAX_BYTES + 1"
  shows "starts_ok (walk_end r i cs) w' \<and>
    (\<forall>mid < MATCHES. w_ms w' ! mid = w_ms w ! mid \<or> range_ok (walk_end r i cs) (w_ms w' ! mid))"
  using assms
proof (induction cs arbitrary: i w)
  case (Cons c cs)
  show ?case
  proof (cases "c = 0 \<and> w_null_prefix w = Some (word_of_nat i)")
    case True
    let ?w = "w\<lparr>w_null_prefix := Some (word_of_nat (i + 1))\<rparr>"
    have "starts_ok (i + 1) ?w" using Cons.prems(2) by (auto simp: starts_ok_def intro: le_SucI)
    from Cons.IH [OF _ this] True Cons.prems(1,3) show ?thesis by simp
  next
    case False
    obtain s j where nx: "next_or_any tables (w_state w) c = (s, j)" by force
    define act where "act = read_action tables j"
    define w1 where "w1 = run_action act i (w\<lparr>w_state := s\<rparr>)"
    have "starts_ok i (w\<lparr>w_state := s\<rparr>)" "i \<le> MAX_BYTES" using Cons.prems(2,3) by (simp_all add: starts_ok_def)
    note step = run_action_ranges [OF this, of act, folded w1_def, simplified]
    have run: "parse_loop tables i (c # cs) w =
        (if h1a_flags act AND HTTP1F_DONE \<noteq> 0 then (Some (i + 1), w1) else parse_loop tables (i + 1) cs w1)"
      using False nx by (auto simp: act_def w1_def Let_def)
    show ?thesis
    proof (cases "h1a_flags act AND HTTP1F_DONE \<noteq> 0")
      case True
      with Cons.prems(1) run step show ?thesis by simp
    next
      case False
      with Cons.prems(1) run have rest: "parse_loop tables (i + 1) cs w1 = (r, w')" by simp
      have "i + 1 \<le> walk_end r (i + 1) cs"
        using parse_loop_Some_bound [of tables "i + 1" cs w1] rest by (cases r) (fastforce simp: walk_end_def)+
      moreover have "starts_ok (walk_end r (i + 1) cs) w' \<and>
          (\<forall>mid < MATCHES. w_ms w' ! mid = w_ms w1 ! mid \<or> range_ok (walk_end r (i + 1) cs) (w_ms w' ! mid))"
        using Cons.prems(3) step(1) by (intro Cons.IH [OF rest]) simp_all
      ultimately show ?thesis
        using step(2) range_ok_mono by (metis Suc_eq_plus1 walk_end_simps(1))
    qed
  qed
qed auto


lemma parse_from_ranges:
  assumes "parse_from tables data start w = (res, w')" and "starts_ok start w" and "0 < res"
  shows "nat res \<le> length data \<and>
    (\<forall>mid < MATCHES. w_ms w' ! mid = w_ms w ! mid \<or> range_ok (nat res) (w_ms w' ! mid))"
proof -
  let ?cs = "drop start (take (MAX_BYTES + 1) data)"
  from assms(1,3) obtain n where n: "parse_loop tables start ?cs w = (Some n, w')" "res = int n"
    and start: "start < length data" "start < MAX_BYTES"
    by (auto simp: parse_from_walk split: if_splits prod.splits option.splits)
  from start have "start + length ?cs \<le> MAX_BYTES + 1" by simp
  from parse_loop_ranges [OF n(1) assms(2) this] parse_loop_Some_bound [OF n(1)] n(2) start show ?thesis
    by auto
qed

section \<open>Properties of the program\<close>

text \<open>
  C18: with the tables of a DFA that fits, a walk of the program over any
  buffer from any offset and any state returns what a walk of the DFA returns, and leaves the
  same state, captures and null prefix: every byte takes the edge for it, else the one for any
  byte, else it is read once more in the fallback state, and runs the action of the edge.
\<close>

theorem program_walks_the_dfa:
  assumes "loaded d tables" and "w_state w < num_states d"
  shows "parse_from tables data start w = dfa_parse d data start w"
  unfolding parse_from_walk dfa_parse_def parse_loop_dfa [OF assms] ..

theorem program_walks_the_dfa_witness:
  "\<exists>tables. loaded (dfa_new :: h1_action dfa) tables \<and>
     parse_from tables [71, 69, 84] 0 (walk_start (replicate MATCHES no_match) None) =
       dfa_parse dfa_new [71, 69, 84] 0 (walk_start (replicate MATCHES no_match) None)"
proof -
  have l: "loaded (dfa_new :: h1_action dfa) (empty_rodata h1_no_action)"
    unfolding loaded_def
    by (intro conjI wf_new) (simp_all add: represents_def dfa_new_def empty_rodata_def)
  have "w_state (walk_start (replicate MATCHES no_match) None) < num_states (dfa_new :: h1_action dfa)"
    by (simp add: walk_start_def INIT_STATE_def dfa_new_def)
  from program_walks_the_dfa [OF l this] l show ?thesis by blast
qed

text \<open>
  C20: as long as there is a linear part, and it is not exactly as long
  as the longest walk, the result of \<open>parse_msg\<close> and the captured ranges do not depend on how
  much of the message is in it: parsing that resumes after the rest was pulled in is one walk
  over the whole message.
\<close>

theorem linear_part_is_irrelevant:
  assumes "linear \<noteq> []" and "length linear \<noteq> MAX_BYTES" and "data = linear @ rest"
  shows "parse_msg tables linear (length data) (Some data) ms = parse_msg tables data (length data) (Some data) ms"
proof -
  have "data \<noteq> []" using assms by simp
  from parse_msg_whole [OF this] parse_msg_cut [OF assms(1,2)] assms(3) show ?thesis by metis
qed

theorem linear_part_is_irrelevant_witness:
  "parse_msg (empty_rodata h1_no_action) [71] 3 (Some [71, 69, 84]) [] =
   parse_msg (empty_rodata h1_no_action) [71, 69, 84] 3 (Some [71, 69, 84]) []"
  using linear_part_is_irrelevant [of "[71]" "[71, 69, 84]" "[69, 84]" "empty_rodata h1_no_action" "[]"]
  by (simp add: MAX_BYTES_def numeral_3_eq_3)

text \<open>
  C19: when \<open>parse_msg\<close> returns a length, the message has that
  many bytes, and every match it changed is not empty and lies within them, whatever the tables
  are: no offset or length is cut off, and \<open>get_match\<close> hands out the bytes of the range.
\<close>

theorem captured_ranges_lie_in_the_header:
  assumes "parse_msg tables linear (length data) (Some data) ms = (res, ms')" and "0 < res"
    and "linear \<noteq> []" and "length linear \<noteq> MAX_BYTES" and "data = linear @ rest" and "length ms = MATCHES"
    and "unat idx < MATCHES" and "ms' ! unat idx \<noteq> ms ! unat idx"
  shows "nat res \<le> length data \<and> range_ok (nat res) (ms' ! unat idx) \<and>
    get_match data ms' idx = Inr (take (unat (hm_len (ms' ! unat idx))) (drop (unat (hm_idx (ms' ! unat idx))) data)) \<and>
    matched_prog ms' idx"
proof -
  obtain r w where walk: "parse_from tables data 0 (walk_start ms None) = (r, w)" by force
  with assms(1,5) parse_msg_cut [OF assms(3,4), of tables rest ms]
  have "res = (if 0 < r then r else too_short (length data))" "ms' = w_ms w"
    by (simp_all add: parse_result_of_def)
  with assms(2) have r: "res = r" "0 < r" "ms' = w_ms w" by (auto simp: too_short_def errnos split: if_splits)
  have "starts_ok 0 (walk_start ms None)"
    using assms(6) by (simp add: starts_ok_def walk_start_def)
  from parse_from_ranges [OF walk this r(2)] assms(7,8) r
  have range: "nat res \<le> length data \<and> range_ok (nat res) (ms' ! unat idx)"
    by (auto simp: walk_start_def)
  have "idx AND MAX_MATCH_MASK = idx"
  proof -
    have "idx AND MAX_MATCH_MASK = take_bit 5 idx"
      by (simp add: MAX_MATCH_MASK_def take_bit_eq_mask mask_eq_exp_minus_1)
    with assms(7) show ?thesis
      by (simp add: word_unat_eq_iff unsigned_take_bit_eq take_bit_nat_eq_self MATCHES_def)
  qed
  with range assms(7) show ?thesis
    by (auto simp: get_match_def matched_prog_def Let_def range_ok_def word_less_nat_alt)
qed

text \<open>Tables that capture what is between an S and an E, and are done at a D.\<close>

definition capture_S_to_E :: h1_tables where
  "capture_S_to_E =
     \<lparr>ro_states = (\<lambda>s i. \<lparr>trans_state = 2,
        trans_action = (if i = input_of 83 then 1 else if i = input_of 69 then 2 else if i = input_of 68 then 3 else 0)\<rparr>),
      ro_actions = (\<lambda>n. \<lparr>h1a_kind = (if n = 1 then 1 else if n = 2 then 2 else 0),
        h1a_flags = (if n = 3 then 1 else 0), h1a_mid = 0\<rparr>)\<rparr>"

lemma capture_S_to_E_walk:
  "next_or_any capture_S_to_E s c = (2, if c = 83 then 1 else if c = 69 then 2 else if c = 68 then 3 else 0)"
  "read_action capture_S_to_E 0 = \<lparr>h1a_kind = 0, h1a_flags = 0, h1a_mid = 0\<rparr>"
  "read_action capture_S_to_E 1 = \<lparr>h1a_kind = 1, h1a_flags = 0, h1a_mid = 0\<rparr>"
  "read_action capture_S_to_E 2 = \<lparr>h1a_kind = 2, h1a_flags = 0, h1a_mid = 0\<rparr>"
  "read_action capture_S_to_E 3 = \<lparr>h1a_kind = 0, h1a_flags = 1, h1a_mid = 0\<rparr>"
  by (simp_all add: capture_S_to_E_def next_or_any_def next_trans_def is_no_trans_def read_action_def ANY_STATE_def)

theorem captured_ranges_lie_in_the_header_witness:
  "\<exists>ms'. parse_msg capture_S_to_E [83] (Suc 4) (Some [83, 1, 2, 69, 68]) (replicate MATCHES no_match) = (5, ms') \<and>
     get_match [83, 1, 2, 69, 68] ms' 0 = Inr [1, 2, 69]"
proof -
  let ?ms = "replicate MATCHES no_match" and ?data = "[83, 1, 2, 69, 68] :: bytes"
  let ?m = "\<lparr>hm_idx = 1, hm_len = 3, hm_source = HTTP_SRC_MSG, hm_huff = False\<rparr>"
  have run: "parse_msg capture_S_to_E [83] (length ?data) (Some ?data) ?ms = (5, ?ms[0 := ?m])"
    by (simp add: parse_msg_def parse_from_def walk_start_def capture_S_to_E_walk run_action_def http1_consts
        MAX_BYTES_def MATCHES_def Let_def)
  have ms: "?ms[0 := ?m] ! unat (0 :: u8) = ?m" "?ms ! unat (0 :: u8) = no_match"
    by (simp_all add: MATCHES_def)
  from captured_ranges_lie_in_the_header [OF run, of "[1, 2, 69, 68]" 0]
  have "get_match ?data (?ms[0 := ?m]) 0 = Inr [1, 2, 69]"
    unfolding ms by (simp add: MATCHES_def MAX_BYTES_def no_match_def)
  with run show ?thesis by (auto simp: eval_nat_numeral)
qed

subsection \<open>The outcomes of \<open>parse_msg\<close>\<close>

text \<open>If the rest of the message cannot be pulled in, a header is found if it ends in the linear part.\<close>

lemma parse_msg_not_pulled:
  assumes "linear \<noteq> []" and "length linear \<noteq> MAX_BYTES" and "data = linear @ rest"
    and "parse_from tables data 0 (walk_start ms None) = (r, w)"
  shows "fst (parse_msg tables linear (length data) None ms) =
    (if 0 < r \<and> r \<le> int (length linear) then r
     else if r \<le> 0 \<and> rest = [] \<and> length data < MAX_BYTES then - EAGAIN else - EFAULT)"
proof -
  let ?w = "walk_start ms None" and ?lin = "take (MAX_BYTES + 1) linear"
  let ?later = "take (MAX_BYTES + 1 - length linear) rest"
  have all: "take (MAX_BYTES + 1) data = ?lin @ ?later" by (simp add: assms(3))
  obtain r1 w1 where one: "parse_loop tables 0 ?lin ?w = (r1, w1)" by force
  obtain r2 w2 where two: "parse_loop tables (length ?lin) ?later w1 = (r2, w2)" by force
  have pos: "0 < min (length linear) MAX_BYTES" "0 < min (length data) MAX_BYTES" using assms(1,3) by (simp_all add: MAX_BYTES_def)
  have first: "parse_from tables linear 0 ?w = (case r1 of Some n \<Rightarrow> int n | None \<Rightarrow> - int (min (length linear) MAX_BYTES), w1)"
    using one pos(1) by (cases r1) (auto simp: parse_from_walk min_eq_0_iff)
  have "parse_loop tables 0 (take (MAX_BYTES + 1) data) ?w = (if r1 = None then (r2, w2) else (r1, w1))"
    unfolding all parse_loop_append one using two by (cases r1) simp_all
  then have whole: "r = (case r1 of Some n \<Rightarrow> int n | None \<Rightarrow> (case r2 of Some n \<Rightarrow> int n | None \<Rightarrow> - int (min (length data) MAX_BYTES)))"
    using assms(4) pos(2) by (cases r1; cases r2) (auto simp: parse_from_walk min_eq_0_iff)
  show ?thesis
  proof (cases r1)
    case (Some n)
    then have "0 < n" "n \<le> length linear" using parse_loop_Some_bound [of tables 0 ?lin ?w n w1] one by auto
    with first whole Some show ?thesis by (simp add: parse_msg_def)
  next
    case None
    have none: "r2 = None" if "MAX_BYTES < length linear" using two that by auto
    have some: "int (length linear) < r" if "r2 = Some n" for n
    proof -
      have "length ?lin = length linear" using none that by force
      then show ?thesis using parse_loop_Some_bound [of tables "length ?lin" ?later w1 n w2] two that whole None by simp
    qed
    have neg: "r2 = None \<Longrightarrow> r < 0" using whole None pos(2) by simp
    have len: "length data = length linear + length rest" by (simp add: assms(3))
    have res: "fst (parse_msg tables linear (length data) None ms) =
        (if min (length linear) MAX_BYTES < length data then - EFAULT else too_short (length data))"
      using first None pos(1) by (simp add: parse_msg_def del: of_nat_min)
    show ?thesis
    proof (cases "min (length linear) MAX_BYTES < length data")
      case True
      then have "\<not> (rest = [] \<and> length data < MAX_BYTES)" using len by auto
      with res True some neg show ?thesis by (cases r2) auto
    next
      case False
      have "min (length linear) MAX_BYTES \<le> length linear" by simp
      then have "length rest = 0" using False len by linarith
      moreover from this False len assms(2) have "length data < MAX_BYTES" by (simp add: min_def split: if_splits)
      ultimately have "rest = []" "length data < MAX_BYTES" by simp_all
      moreover from this have "r2 = None" using two by simp
      ultimately show ?thesis using res False neg by (simp add: too_short_def)
    qed
  qed
qed

text \<open>
  C32: what \<open>parse_msg\<close> returns is settled by one walk of the DFA over the whole
  message, however it is cut into the linear part and the rest. If the rest can be pulled in, it
  returns the length of the header if the walk ends in one, and leaves the captures of the walk;
  else that the message is too long, if it has as many bytes as are read at most, or that more of
  it is needed. If the rest cannot be pulled in, it returns the length of a header that ends in the
  linear part, that more is needed if the linear part is the whole of a message that is short
  enough, and \<open>EFAULT\<close> otherwise. With an empty linear part nothing is pulled in nor read, even
  if the message is complete.
\<close>

theorem parse_msg_errors:
  assumes "loaded d tables" and "linear \<noteq> []" and "length linear \<noteq> MAX_BYTES" and "data = linear @ rest"
    and "dfa_parse d data 0 (walk_start ms None) = (r, w)"
  shows "parse_msg tables linear (length data) (Some data) ms =
      (if 0 < r then r else if MAX_BYTES \<le> length data then - E2BIG else - EAGAIN, w_ms w) \<and>
    fst (parse_msg tables linear (length data) None ms) =
      (if 0 < r \<and> r \<le> int (length linear) then r
       else if r \<le> 0 \<and> rest = [] \<and> length data < MAX_BYTES then - EAGAIN else - EFAULT) \<and>
    parse_msg tables [] (length data) pulled ms = (if MAX_BYTES \<le> length data then - E2BIG else - EAGAIN, ms)"
proof -
  have "w_state (walk_start ms None) < num_states d"
    using assms(1) wf_dfaD(6) [of d] by (cases "num_states d = 0") (auto simp: loaded_def walk_start_def INIT_STATE_def word_gt_0)
  note loop = parse_loop_dfa [OF assms(1) this]
  have walk: "parse_from tables data 0 (walk_start ms None) = (r, w)"
    unfolding parse_from_walk loop assms(5) [symmetric] dfa_parse_def ..
  have "parse_msg tables linear (length data) (Some data) ms = parse_result_of (r, w) (length data)"
    using parse_msg_cut [OF assms(2,3), of tables rest ms] walk by (simp add: assms(4))
  moreover have "parse_msg tables [] (length data) pulled ms = (too_short (length data), ms)"
    by (simp add: parse_msg_def parse_from_def walk_start_def split: option.split)
  ultimately show ?thesis
    using parse_msg_not_pulled [OF assms(2-4) walk] by (simp add: parse_result_of_def too_short_def)
qed

theorem parse_msg_errors_witness:
  "\<exists>tables. loaded (dfa_new :: h1_action dfa) tables \<and> fst (parse_msg tables [71] 3 (Some [71, 69, 84]) []) = - EAGAIN \<and>
     fst (parse_msg tables [71] 3 None []) = - EFAULT \<and> fst (parse_msg tables [] 3 None []) = - EAGAIN"
proof -
  have l: "loaded (dfa_new :: h1_action dfa) (empty_rodata h1_no_action)"
    unfolding loaded_def
    by (intro conjI wf_new) (simp_all add: represents_def dfa_new_def empty_rodata_def)
  obtain r w where walk: "dfa_parse (dfa_new :: h1_action dfa) [71, 69, 84] 0 (walk_start [] None) = (r, w)" by force
  then have "r \<le> 0"
    by (auto simp: dfa_parse_def dfa_step_def dfa_next_def live_edge_def dfa_new_def program_action_def h1_no_action_def run_action_def
        walk_start_def http1_consts Let_def MAX_BYTES_def split: if_splits)
  with parse_msg_errors [OF l _ _ _ walk, of "[71]" "[69, 84]" None] l show ?thesis
    by (intro exI [of _ "empty_rodata h1_no_action"]) (simp add: MAX_BYTES_def numeral_3_eq_3)
qed

end
