(* ===== verification/Http2_Table.thy ===== *)
theory Http2_Table
  imports Http2_Attach Http2_Conn Http1_Bpf
begin

section \<open>The dynamic table in the HTTP/2 parser program (\<open>beeper/src/http2/parser.bpf.c\<close>)\<close>

text \<open>
  The program mirrors the HPACK dynamic table of every connection in two hash maps of the
  kernel: the state of a table, and its entries under the running count of the entries that
  were ever added. The model passes the state of the table at hand and the map of the entries
  on. What the kernel decides is a parameter: whether an update of the map finds room, whether
  a range of memory can be read, and what the static table holds.
\<close>

subsection \<open>State\<close>

definition HEADER_FIELD_MAXLEN :: nat where "HEADER_FIELD_MAXLEN = 128"
definition STATIC_TABLE_SIZE :: u32 where "STATIC_TABLE_SIZE = 61"
definition HTTP_SRC_TABLE :: u8 where "HTTP_SRC_TABLE = 1"
definition HTTP_SRC_BUF :: u8 where "HTTP_SRC_BUF = 2"
definition BLOCK_BUF_SIZE :: nat where "BLOCK_BUF_SIZE = 32764"
definition BLOCK_MAXLEN :: nat where "BLOCK_MAXLEN = BLOCK_BUF_SIZE div 2"

definition EBADMSG :: int where "EBADMSG = 74"
definition ENOSPC :: int where "ENOSPC = 28"

record dynamic_table_entry =
  dte_field :: http2_hdr_field
  dte_size :: u32

record block_buf =
  bb_len :: u32
  bb_data :: bytes

record msg_ctx =
  mc_data :: bytes
  mc_conn :: ip4_conn

type_synonym entry_map = "dynamic_table_key \<rightharpoonup> dynamic_table_entry"

record h2_kernel =
  k_static :: "u32 \<rightharpoonup> http2_hdr_field"
  k_block :: "block_buf option"
  k_scratch :: bool
  k_readable :: "bytes \<Rightarrow> bool"
  k_room :: "entry_map \<Rightarrow> dynamic_table_key \<Rightarrow> bool"

record h2_table =
  tb_info :: dynamic_table_info
  tb_entries :: entry_map

subsection \<open>The length of a Huffman coded string\<close>

definition huff_count :: "u32 list" where
  "huff_count = [0, 0, 0, 0, 0, 10, 26, 32, 6, 0, 5, 3, 2, 6, 2, 3,
     0, 0, 0, 3, 8, 13, 26, 29, 12, 4, 15, 19, 29, 0, 4, 0]"

definition huff_first_code :: "u32 list" where
  "huff_first_code = [0, 0, 0, 0, 0, 0, 20, 92, 248, 508, 1016, 2042, 4090, 8184, 16380, 32764,
     65534, 131068, 262136, 524272, 1048550, 2097116, 4194258, 8388568, 16777194,
     33554412, 67108832, 134217694, 268435426, 536870910, 1073741820, 0]"

definition huff_step :: "u8 \<Rightarrow> nat \<Rightarrow> u32 \<times> nat \<times> u32 \<Rightarrow> u32 \<times> nat \<times> u32" where
  "huff_step c b = (\<lambda>(code, len, n).
     let code = push_bit 1 code OR (ucast (drop_bit b c) AND 1); len = len + 1 in
     if 30 < len then (0, 0, n)
     else let rel = code - huff_first_code ! len in
       if rel < huff_count ! len then (0, 0, n + 1) else (code, len, n))"

definition hpack_huffman_decoded_len :: "http2_hdr_field \<Rightarrow> bool \<Rightarrow> u32 \<Rightarrow> u32" where
  "hpack_huffman_decoded_len hf is_val src_len =
     (let src = if is_val then hf_val hf else hf_key hf;
          (_, _, n) = fold (\<lambda>c. fold (huff_step c) [7, 6, 5, 4, 3, 2, 1, 0])
            (take (min (unat src_len) HEADER_FIELD_MAXLEN) src) (0, 0, 0)
      in n)"

subsection \<open>Indices and lookups\<close>

definition get_dynamic_table_index :: "dynamic_table_info \<Rightarrow> u32 \<Rightarrow> u32" where
  "get_dynamic_table_index info idx =
     (let end_idx = STATIC_TABLE_SIZE + dt_count info + dt_deleted info in (end_idx - idx) + DYNAMIC_TABLE_BASE)"

definition is_valid_hpack_index :: "dynamic_table_info \<Rightarrow> u32 \<Rightarrow> bool" where
  "is_valid_hpack_index info idx \<longleftrightarrow> 0 < idx \<and> idx \<le> STATIC_TABLE_SIZE + dt_count info"

definition get_table_entry :: "h2_kernel \<Rightarrow> ip4_conn \<Rightarrow> h2_table \<Rightarrow> u32 \<Rightarrow> http2_hdr_field option" where
  "get_table_entry kern conn tb idx =
     (if \<not> is_valid_hpack_index (tb_info tb) idx then None
      else if STATIC_TABLE_SIZE < idx then
        (if dt_dirty (tb_info tb) \<noteq> 0 then None
         else map_option dte_field (tb_entries tb \<lparr>dtk_conn = conn, dtk_idx = get_dynamic_table_index (tb_info tb) idx\<rparr>))
      else k_static kern idx)"

text \<open>
  \<open>_get_match\<close>: the bytes from the start of the range on, its length, and whether it is
  Huffman coded, or \<open>None\<close> for \<open>NULL\<close>.
\<close>

definition field_part :: "bool \<Rightarrow> http2_hdr_field \<Rightarrow> bytes \<times> u32 \<times> bool" where
  "field_part is_key hf =
     (if is_key then (hf_key hf, ucast (hf_key_len hf), hf_key_huff hf \<noteq> 0)
      else (hf_val hf, ucast (hf_val_len hf), hf_val_huff hf \<noteq> 0))"

definition match_bytes ::
  "h2_kernel \<Rightarrow> msg_ctx \<Rightarrow> entry_map \<Rightarrow> http_match \<Rightarrow> bool \<Rightarrow> (bytes \<times> u32 \<times> bool) option" where
  "match_bytes kern ctx es m is_key =
     (if hm_source m = HTTP_SRC_MSG then
        (if length (mc_data ctx) < unat (hm_idx m) + unat (hm_len m) then None
         else Some (drop (unat (hm_idx m)) (mc_data ctx), ucast (hm_len m), hm_huff m))
      else if hm_source m = HTTP_SRC_BUF then
        (case k_block kern of
           None \<Rightarrow> None
         | Some buf \<Rightarrow>
             if unat (bb_len buf) < unat (hm_idx m) + unat (hm_len m) then None
             else Some (drop (min (unat (hm_idx m)) BLOCK_MAXLEN) (bb_data buf), ucast (hm_len m), hm_huff m))
      else if DYNAMIC_TABLE_BASE \<le> ucast (hm_idx m) then
        map_option (\<lambda>e. field_part is_key (dte_field e)) (es \<lparr>dtk_conn = mc_conn ctx, dtk_idx = ucast (hm_idx m)\<rparr>)
      else if hm_idx m = 0 then None
      else map_option (field_part is_key) (k_static kern (ucast (hm_idx m))))"

subsection \<open>Eviction\<close>

text \<open>The loop of \<open>_try_evict_dynamic_table_entries\<close>, which runs at most \<open>n\<close> more times.\<close>

fun evict_loop :: "nat \<Rightarrow> ip4_conn \<Rightarrow> u32 \<Rightarrow> h2_table \<times> u32 \<Rightarrow> h2_table \<times> u32" where
  "evict_loop 0 conn new_entry_size (tb, freed) = (tb, freed)"
| "evict_loop (Suc n) conn new_entry_size (tb, freed) =
     (let info = tb_info tb in
      if dt_size info + new_entry_size \<le> dt_max_size info then (tb, freed)
      else let key = \<lparr>dtk_conn = conn, dtk_idx = DYNAMIC_TABLE_BASE + dt_deleted info\<rparr> in
        case tb_entries tb key of
          None \<Rightarrow> (tb, freed)
        | Some entry \<Rightarrow> evict_loop n conn new_entry_size
            (\<lparr>tb_info = info\<lparr>dt_size := dt_size info - dte_size entry, dt_count := dt_count info - 1,
                dt_deleted := dt_deleted info + 1\<rparr>,
              tb_entries = (tb_entries tb)(key := None)\<rparr>, freed + dte_size entry))"

definition try_evict :: "ip4_conn \<Rightarrow> u32 \<Rightarrow> h2_table \<Rightarrow> h2_table \<times> u32" where
  "try_evict conn new_entry_size tb = evict_loop (unat (dt_count (tb_info tb))) conn new_entry_size (tb, 0)"

subsection \<open>Adding an entry\<close>

definition clamp_len :: "u32 \<Rightarrow> nat" where
  "clamp_len len = min (unat len) HEADER_FIELD_MAXLEN"

text \<open>The entry that is put together in the scratch space; an entry is sized by what the peer sent.\<close>

definition new_entry :: "h2_kernel \<Rightarrow> bytes \<times> u32 \<times> bool \<Rightarrow> bytes \<times> u32 \<times> bool \<Rightarrow> dynamic_table_entry" where
  "new_entry kern = (\<lambda>(key, key_len, key_huff) (val, val_len, val_huff).
     let kept = (\<lambda>src len. if k_readable kern (take (clamp_len len) src) then take (clamp_len len) src else []);
         len_of = (\<lambda>src len. if k_readable kern (take (clamp_len len) src) then word_of_nat (clamp_len len) else 0);
         field = \<lparr>hf_key = resize 128 (kept key key_len), hf_key_len = len_of key key_len,
           hf_val = resize 128 (kept val val_len), hf_val_len = len_of val val_len,
           hf_key_huff = (if key_huff then 1 else 0), hf_val_huff = (if val_huff then 1 else 0)\<rparr>;
         key_len_decoded = if key_huff then hpack_huffman_decoded_len field False (word_of_nat (clamp_len key_len)) else key_len;
         val_len_decoded = if val_huff then hpack_huffman_decoded_len field True (word_of_nat (clamp_len val_len)) else val_len
     in \<lparr>dte_field = field, dte_size = key_len_decoded + val_len_decoded + 32\<rparr>)"

definition unresolved :: "http_match \<Rightarrow> int" where
  "unresolved m = (if hm_source m = HTTP_SRC_TABLE then - ENOENT else - EBADMSG)"

definition cut_off :: "bytes \<times> u32 \<times> bool \<Rightarrow> bool" where
  "cut_off = (\<lambda>(_, len, huff). HEADER_FIELD_MAXLEN < unat len \<and> huff)"

definition add_dynamic_table_entry ::
  "h2_kernel \<Rightarrow> msg_ctx \<Rightarrow> http_match \<Rightarrow> http_match \<Rightarrow> h2_table \<Rightarrow> int \<times> h2_table" where
  "add_dynamic_table_entry kern ctx key val tb =
     (if dt_dirty (tb_info tb) \<noteq> 0 then (- EBADMSG, tb)
      else case match_bytes kern ctx (tb_entries tb) key True of
        None \<Rightarrow> (unresolved key, tb)
      | Some k \<Rightarrow>
          (case match_bytes kern ctx (tb_entries tb) val False of
             None \<Rightarrow> (unresolved val, tb)
           | Some v \<Rightarrow>
               if \<not> k_scratch kern then (- ENOSPC, tb)
               else let info = tb_info tb;
                   dt_key = \<lparr>dtk_conn = mc_conn ctx, dtk_idx = DYNAMIC_TABLE_BASE + dt_count info + dt_deleted info\<rparr> in
                 if cut_off k \<or> cut_off v then (- E2BIG, tb\<lparr>tb_info := info\<lparr>dt_dirty := 1\<rparr>\<rparr>)
                 else let entry = new_entry kern k v; (tb, _) = try_evict (mc_conn ctx) (dte_size entry) tb; info = tb_info tb in
                   if dt_max_size info < dt_size info + dte_size entry then (0, tb)
                   else if \<not> k_room kern (tb_entries tb) dt_key then (- ENOSPC, tb)
                   else (0, \<lparr>tb_info = info\<lparr>dt_size := dt_size info + dte_size entry, dt_count := dt_count info + 1\<rparr>,
                             tb_entries = (tb_entries tb)(dt_key \<mapsto> entry)\<rparr>)))"


text \<open>The representation that updates the size of the table, in \<open>_run_action\<close>.\<close>

definition table_size_update :: "ip4_conn \<Rightarrow> u32 \<Rightarrow> h2_table \<Rightarrow> h2_table" where
  "table_size_update conn v tb = fst (try_evict conn 0 (tb\<lparr>tb_info := (tb_info tb)\<lparr>dt_max_size := v\<rparr>\<rparr>))"

section \<open>The dynamic table as a list of entries\<close>

text \<open>
  The table the program mirrors: a list of entries, the oldest one first, which is emptied from
  the front until a new entry fits; an entry that does not fit into an empty table is not added
  (sections 2.3.2, 4.3 and 4.4 of the RFC). What an entry keeps of the field it was made of is the
  matter of \<open>Http2_Mirror\<close>.
\<close>

definition table_size :: "dynamic_table_entry list \<Rightarrow> nat" where
  "table_size es = (\<Sum>e \<leftarrow> es. unat (dte_size e))"

fun rfc_evict :: "nat \<Rightarrow> nat \<Rightarrow> dynamic_table_entry list \<Rightarrow> dynamic_table_entry list" where
  "rfc_evict max_size need [] = []"
| "rfc_evict max_size need (e # es) =
     (if table_size (e # es) + need \<le> max_size then e # es else rfc_evict max_size need es)"

definition rfc_add :: "nat \<Rightarrow> dynamic_table_entry \<Rightarrow> dynamic_table_entry list \<Rightarrow> dynamic_table_entry list" where
  "rfc_add max_size e es =
     (if unat (dte_size e) \<le> max_size then rfc_evict max_size (unat (dte_size e)) es @ [e] else [])"

text \<open>The entries of a connection in the maps are the list \<open>es\<close>.\<close>

definition holds :: "ip4_conn \<Rightarrow> h2_table \<Rightarrow> dynamic_table_entry list \<Rightarrow> bool" where
  "holds conn tb es \<longleftrightarrow>
     unat (dt_count (tb_info tb)) = length es \<and> unat (dt_size (tb_info tb)) = table_size es \<and>
     62 + unat (dt_deleted (tb_info tb)) + length es < 2 ^ 32 \<and>
     (\<forall>i. tb_entries tb \<lparr>dtk_conn = conn, dtk_idx = i\<rparr> =
       (let first = 62 + unat (dt_deleted (tb_info tb)) in
        if first \<le> unat i \<and> unat i < first + length es then Some (es ! (unat i - first)) else None))"

lemma holdsD:
  assumes "holds conn tb es"
  shows "unat (dt_count (tb_info tb)) = length es" and "unat (dt_size (tb_info tb)) = table_size es"
    and "62 + unat (dt_deleted (tb_info tb)) + length es < 2 ^ 32"
    and "tb_entries tb \<lparr>dtk_conn = conn, dtk_idx = i\<rparr> =
       (if 62 + unat (dt_deleted (tb_info tb)) \<le> unat i \<and> unat i < 62 + unat (dt_deleted (tb_info tb)) + length es
        then Some (es ! (unat i - (62 + unat (dt_deleted (tb_info tb))))) else None)"
  using assms unfolding holds_def Let_def by blast+

lemma table_size_simps [simp]: "table_size [] = 0" "table_size (e # es) = unat (dte_size e) + table_size es"
  "table_size (es @ fs) = table_size es + table_size fs"
  by (simp_all add: table_size_def)

lemma unat_add32: "unat (a :: u32) + unat b < 2 ^ 32 \<Longrightarrow> unat (a + b) = unat a + unat b"
  by (simp add: unat_word_ariths)

text \<open>What an operation on the table of a connection leaves as it is.\<close>

definition keeps_rest :: "ip4_conn \<Rightarrow> h2_table \<Rightarrow> h2_table \<Rightarrow> bool" where
  "keeps_rest conn tb tb' \<longleftrightarrow> dt_max_size (tb_info tb') = dt_max_size (tb_info tb) \<and>
     dt_dirty (tb_info tb') = dt_dirty (tb_info tb) \<and>
     (\<forall>key. dtk_conn key \<noteq> conn \<longrightarrow> tb_entries tb' key = tb_entries tb key)"

lemma evict_one:
  assumes h: "holds conn tb (e # es)"
  defines "info \<equiv> tb_info tb"
  defines "tb' \<equiv> \<lparr>tb_info = info\<lparr>dt_size := dt_size info - dte_size e, dt_count := dt_count info - 1,
      dt_deleted := dt_deleted info + 1\<rparr>,
    tb_entries = (tb_entries tb)(\<lparr>dtk_conn = conn, dtk_idx = DYNAMIC_TABLE_BASE + dt_deleted info\<rparr> := None)\<rparr>"
  shows "tb_entries tb \<lparr>dtk_conn = conn, dtk_idx = DYNAMIC_TABLE_BASE + dt_deleted info\<rparr> = Some e"
    and "holds conn tb' es" and "keeps_rest conn tb tb'"
    and "dt_count (tb_info tb') + dt_deleted (tb_info tb') = dt_count info + dt_deleted info"
proof -
  note H = holdsD [OF h, folded info_def]
  have base: "unat (DYNAMIC_TABLE_BASE + dt_deleted info) = 62 + unat (dt_deleted info)"
    using H(3) by (subst unat_add32) (simp_all add: DYNAMIC_TABLE_BASE_def)
  then show "tb_entries tb \<lparr>dtk_conn = conn, dtk_idx = DYNAMIC_TABLE_BASE + dt_deleted info\<rparr> = Some e"
    by (simp add: H(4))
  have del: "unat (dt_deleted info + 1) = unat (dt_deleted info) + 1"
    using H(3) by (subst unat_add32) simp_all
  have "dte_size e \<le> dt_size info" using H(2) by (simp add: word_le_nat_alt)
  then have size: "unat (dt_size info - dte_size e) = table_size es" using H(2) by (simp add: unat_sub)
  have "1 \<le> dt_count info" using H(1) by (simp add: word_le_nat_alt)
  then have count: "unat (dt_count info - 1) = length es" using H(1) by (simp add: unat_sub)
  have row: "tb_entries tb' \<lparr>dtk_conn = conn, dtk_idx = i\<rparr> =
       (if 62 + (unat (dt_deleted info) + 1) \<le> unat i \<and> unat i < 62 + (unat (dt_deleted info) + 1) + length es
        then Some (es ! (unat i - (62 + (unat (dt_deleted info) + 1)))) else None)" for i
  proof (cases "i = DYNAMIC_TABLE_BASE + dt_deleted info")
    case True
    with base show ?thesis by (simp add: tb'_def)
  next
    case False
    then have ne: "unat i \<noteq> 62 + unat (dt_deleted info)" using base by (metis word_unat_eq_iff)
    have "(e # es) ! (unat i - (62 + unat (dt_deleted info))) = es ! (unat i - (62 + (unat (dt_deleted info) + 1)))"
      if "62 + unat (dt_deleted info) < unat i" using that by (simp add: nth_Cons')
    with False ne show ?thesis by (auto simp: tb'_def H(4))
  qed
  show "holds conn tb' es"
    unfolding holds_def Let_def
    using row size count del H(3) by (simp add: tb'_def)
  show "keeps_rest conn tb tb'" by (auto simp: keeps_rest_def tb'_def info_def)
  show "dt_count (tb_info tb') + dt_deleted (tb_info tb') = dt_count info + dt_deleted info"
    by (simp add: tb'_def)
qed

lemma keeps_rest_trans: "keeps_rest conn tb tb1 \<Longrightarrow> keeps_rest conn tb1 tb2 \<Longrightarrow> keeps_rest conn tb tb2"
  by (simp add: keeps_rest_def)

lemma evict_loop_holds:
  assumes "holds conn tb es" and "length es \<le> n" and "table_size es + unat need < 2 ^ 32"
  shows "\<exists>tb' freed'. evict_loop n conn need (tb, freed) = (tb', freed') \<and>
    holds conn tb' (rfc_evict (unat (dt_max_size (tb_info tb))) (unat need) es) \<and> keeps_rest conn tb tb' \<and>
    dt_count (tb_info tb') + dt_deleted (tb_info tb') = dt_count (tb_info tb) + dt_deleted (tb_info tb)"
  using assms
proof (induction es arbitrary: n tb freed)
  case Nil
  show ?case
  proof (cases n)
    case 0
    with Nil show ?thesis by (simp add: keeps_rest_def)
  next
    case (Suc n')
    have "tb_entries tb \<lparr>dtk_conn = conn, dtk_idx = i\<rparr> = None" for i
      using holdsD(4) [OF Nil(1)] by simp
    with Nil Suc show ?thesis by (simp add: keeps_rest_def Let_def)
  qed
next
  case (Cons e es)
  then obtain n' where n: "n = Suc n'" by (cases n) simp_all
  let ?info = "tb_info tb"
  have size: "unat (dt_size ?info + need) = table_size (e # es) + unat need"
    using holdsD(2) [OF Cons.prems(1)] Cons.prems(3) by (subst unat_add32) simp_all
  show ?case
  proof (cases "dt_size ?info + need \<le> dt_max_size ?info")
    case True
    then have "table_size (e # es) + unat need \<le> unat (dt_max_size ?info)"
      using size by (simp add: word_le_nat_alt)
    with True Cons.prems(1) show ?thesis by (simp add: n keeps_rest_def)
  next
    case False
    then have "\<not> table_size (e # es) + unat need \<le> unat (dt_max_size ?info)"
      using size by (simp add: word_le_nat_alt)
    note one = evict_one [OF Cons.prems(1)]
    let ?tb = "\<lparr>tb_info = ?info\<lparr>dt_size := dt_size ?info - dte_size e, dt_count := dt_count ?info - 1,
        dt_deleted := dt_deleted ?info + 1\<rparr>,
      tb_entries = (tb_entries tb)(\<lparr>dtk_conn = conn, dtk_idx = DYNAMIC_TABLE_BASE + dt_deleted ?info\<rparr> := None)\<rparr>"
    have "evict_loop n conn need (tb, freed) = evict_loop n' conn need (?tb, freed + dte_size e)"
      using False one(1) by (simp add: n Let_def)
    moreover obtain tb' freed' where "evict_loop n' conn need (?tb, freed + dte_size e) = (tb', freed')"
      "holds conn tb' (rfc_evict (unat (dt_max_size (tb_info ?tb))) (unat need) es)" "keeps_rest conn ?tb tb'"
      "dt_count (tb_info tb') + dt_deleted (tb_info tb') = dt_count (tb_info ?tb) + dt_deleted (tb_info ?tb)"
      using Cons.IH [OF one(2), of n' "freed + dte_size e"] Cons.prems(2,3) n by auto
    ultimately show ?thesis
      using \<open>\<not> table_size (e # es) + unat need \<le> unat (dt_max_size ?info)\<close> one(3,4) keeps_rest_trans
      by (intro exI [of _ tb'] exI [of _ freed']) (auto intro: keeps_rest_trans)
  qed
qed

lemma try_evict_holds:
  assumes "holds conn tb es" and "table_size es + unat need < 2 ^ 32"
  obtains tb' freed where "try_evict conn need tb = (tb', freed)"
    and "holds conn tb' (rfc_evict (unat (dt_max_size (tb_info tb))) (unat need) es)" and "keeps_rest conn tb tb'"
    and "dt_count (tb_info tb') + dt_deleted (tb_info tb') = dt_count (tb_info tb) + dt_deleted (tb_info tb)"
  using evict_loop_holds [OF assms(1) _ assms(2), of "unat (dt_count (tb_info tb))" 0] holdsD(1) [OF assms(1)]
  by (auto simp: try_evict_def)

lemma rfc_evict_le: "table_size (rfc_evict m need es) \<le> table_size es"
  by (induction es) auto

lemma rfc_evict_fits:
  "need \<le> m \<Longrightarrow> table_size (rfc_evict m need es) + need \<le> m" "m < need \<Longrightarrow> rfc_evict m need es = []"
  by (induction es) auto

lemma add_one:
  assumes h: "holds conn tb es"
  defines "info \<equiv> tb_info tb"
  assumes size: "table_size es + unat (dte_size e) < 2 ^ 32" and room: "62 + unat (dt_deleted info) + length es + 1 < 2 ^ 32"
    and idx: "idx = DYNAMIC_TABLE_BASE + (dt_count info + dt_deleted info)"
  defines "tb' \<equiv> \<lparr>tb_info = info\<lparr>dt_size := dt_size info + dte_size e, dt_count := dt_count info + 1\<rparr>,
    tb_entries = (tb_entries tb)(\<lparr>dtk_conn = conn, dtk_idx = idx\<rparr> \<mapsto> e)\<rparr>"
  shows "holds conn tb' (es @ [e])" and "keeps_rest conn tb tb'"
proof -
  note H = holdsD [OF h, folded info_def]
  have cd: "unat (dt_count info + dt_deleted info) = length es + unat (dt_deleted info)"
    using H(1) room by (subst unat_add32) simp_all
  have i: "unat idx = 62 + unat (dt_deleted info) + length es"
    unfolding idx using cd room by (subst unat_add32) (simp_all add: DYNAMIC_TABLE_BASE_def)
  have count: "unat (dt_count info + 1) = length es + 1"
    using H(1) room by (subst unat_add32) simp_all
  have sz: "unat (dt_size info + dte_size e) = table_size (es @ [e])"
    using H(2) size by (subst unat_add32) simp_all
  have row: "tb_entries tb' \<lparr>dtk_conn = conn, dtk_idx = j\<rparr> =
       (if 62 + unat (dt_deleted info) \<le> unat j \<and> unat j < 62 + unat (dt_deleted info) + length (es @ [e])
        then Some ((es @ [e]) ! (unat j - (62 + unat (dt_deleted info)))) else None)" for j
  proof (cases "j = idx")
    case True
    then show ?thesis by (simp add: tb'_def i)
  next
    case False
    then have "unat j \<noteq> 62 + unat (dt_deleted info) + length es" using i by (metis word_unat_eq_iff)
    with False show ?thesis by (auto simp: tb'_def H(4) nth_append)
  qed
  show "holds conn tb' (es @ [e])"
    unfolding holds_def Let_def using row count sz room by (simp add: tb'_def)
  show "keeps_rest conn tb tb'" by (auto simp: keeps_rest_def tb'_def info_def)
qed

text \<open>A kernel in which nothing fails, and a table of one entry that has to go for the next one.\<close>

definition demo_kernel :: h2_kernel where
  "demo_kernel = \<lparr>k_static = (\<lambda>_. None), k_block = None, k_scratch = True, k_readable = (\<lambda>_. True), k_room = (\<lambda>_ _. True)\<rparr>"

definition demo_conn :: ip4_conn where
  "demo_conn = \<lparr>local_addr = \<lparr>ip4 = 1, port = 80\<rparr>, remote_addr = \<lparr>ip4 = 2, port = 9\<rparr>\<rparr>"

definition demo_entry :: dynamic_table_entry where
  "demo_entry = \<lparr>dte_field = \<lparr>hf_key = [120], hf_key_len = 1, hf_val = [121], hf_val_len = 1, hf_key_huff = 0, hf_val_huff = 0\<rparr>,
     dte_size = 34\<rparr>"

definition demo_table :: h2_table where
  "demo_table = \<lparr>tb_info = \<lparr>dt_count = 1, dt_size = 34, dt_max_size = 50, dt_deleted = 2, dt_dirty = 0\<rparr>,
     tb_entries = [\<lparr>dtk_conn = demo_conn, dtk_idx = 64\<rparr> \<mapsto> demo_entry]\<rparr>"

lemma demo_table_holds: "holds demo_conn demo_table [demo_entry]"
proof -
  have "i = 64 \<longleftrightarrow> 64 \<le> unat i \<and> unat i < 65" for i :: u32
    by (auto simp: word_unat_eq_iff)
  then show ?thesis by (simp add: holds_def demo_table_def demo_entry_def)
qed

lemma add_entry_holds:
  assumes "holds (mc_conn ctx) tb es" and "dt_dirty (tb_info tb) = 0"
    and "match_bytes kern ctx (tb_entries tb) key True = Some k"
    and "match_bytes kern ctx (tb_entries tb) val False = Some v"
    and "\<not> cut_off k" and "\<not> cut_off v" and "k_scratch kern" and "\<And>m i. k_room kern m i"
    and "table_size es + unat (dte_size (new_entry kern k v)) < 2 ^ 32"
    and "62 + unat (dt_deleted (tb_info tb)) + length es + 1 < 2 ^ 32"
  obtains tb' where "add_dynamic_table_entry kern ctx key val tb = (0, tb')" and "keeps_rest (mc_conn ctx) tb tb'"
    and "holds (mc_conn ctx) tb' (rfc_add (unat (dt_max_size (tb_info tb))) (new_entry kern k v) es)"
    and "dt_count (tb_info tb') + dt_deleted (tb_info tb') = dt_count (tb_info tb) + dt_deleted (tb_info tb) +
      (if unat (dte_size (new_entry kern k v)) \<le> unat (dt_max_size (tb_info tb)) then 1 else 0)"
proof -
  let ?c = "mc_conn ctx" and ?e = "new_entry kern k v" and ?max = "unat (dt_max_size (tb_info tb))"
  let ?es = "rfc_evict ?max (unat (dte_size ?e)) es"
  obtain tb1 freed where ev: "try_evict ?c (dte_size ?e) tb = (tb1, freed)" and h1: "holds ?c tb1 ?es"
    and keep: "keeps_rest ?c tb tb1"
    and cd: "dt_count (tb_info tb1) + dt_deleted (tb_info tb1) = dt_count (tb_info tb) + dt_deleted (tb_info tb)"
    by (rule try_evict_holds [OF assms(1,9)])
  note H = holdsD [OF assms(1)] and H1 = holdsD [OF h1]
  have max: "dt_max_size (tb_info tb1) = dt_max_size (tb_info tb)" using keep by (simp add: keeps_rest_def)
  have le: "table_size ?es + unat (dte_size ?e) < 2 ^ 32" using rfc_evict_le [of ?max _ es] assms(9) by (meson add_le_mono1 le_less_trans)
  have sz: "unat (dt_size (tb_info tb1) + dte_size ?e) = table_size ?es + unat (dte_size ?e)"
    using H1(2) le by (subst unat_add32) simp_all
  define idx where "idx = DYNAMIC_TABLE_BASE + dt_count (tb_info tb) + dt_deleted (tb_info tb)"
  have idx: "idx = DYNAMIC_TABLE_BASE + (dt_count (tb_info tb1) + dt_deleted (tb_info tb1))"
    by (simp add: idx_def cd add.assoc)
  have "\<exists>tb'. add_dynamic_table_entry kern ctx key val tb = (0, tb') \<and> keeps_rest ?c tb tb' \<and>
      holds ?c tb' (rfc_add ?max ?e es) \<and>
      dt_count (tb_info tb') + dt_deleted (tb_info tb') = dt_count (tb_info tb) + dt_deleted (tb_info tb) +
        (if unat (dte_size ?e) \<le> ?max then 1 else 0)"
  proof (cases "unat (dte_size ?e) \<le> ?max")
    case True
    then have "\<not> dt_max_size (tb_info tb1) < dt_size (tb_info tb1) + dte_size ?e"
      using rfc_evict_fits(1) [OF True, of es] sz by (simp add: word_less_nat_alt max)
    then have "add_dynamic_table_entry kern ctx key val tb =
        (0, \<lparr>tb_info = (tb_info tb1)\<lparr>dt_size := dt_size (tb_info tb1) + dte_size ?e, dt_count := dt_count (tb_info tb1) + 1\<rparr>,
             tb_entries = (tb_entries tb1)(\<lparr>dtk_conn = ?c, dtk_idx = idx\<rparr> \<mapsto> ?e)\<rparr>)"
      using assms(2-8) by (simp add: add_dynamic_table_entry_def Let_def ev idx_def)
    moreover have "62 + unat (dt_deleted (tb_info tb1)) + length ?es + 1 < 2 ^ 32"
    proof -
      have "unat (dt_count (tb_info tb) + dt_deleted (tb_info tb)) = length es + unat (dt_deleted (tb_info tb))"
        using H(1) assms(10) by (subst unat_add32) simp_all
      moreover have "unat (dt_count (tb_info tb1) + dt_deleted (tb_info tb1)) = length ?es + unat (dt_deleted (tb_info tb1))"
        using H1(1,3) by (subst unat_add32) simp_all
      ultimately show ?thesis using cd assms(10) by simp
    qed
    note new = add_one [OF h1 le this idx]
    moreover have "rfc_add ?max ?e es = ?es @ [?e]" using True by (simp add: rfc_add_def)
    ultimately show ?thesis using keep keeps_rest_trans True cd by auto
  next
    case False
    then have es: "?es = []" by (intro rfc_evict_fits(2)) simp
    have "dt_max_size (tb_info tb1) < dt_size (tb_info tb1) + dte_size ?e"
      using False sz by (simp add: word_less_nat_alt max es)
    then have "add_dynamic_table_entry kern ctx key val tb = (0, tb1)"
      using assms(2-8) by (simp add: add_dynamic_table_entry_def Let_def ev)
    with keep h1 False es cd show ?thesis by (simp add: rfc_add_def)
  qed
  then show thesis using that by blast
qed

lemma size_update_holds:
  assumes "holds conn tb es" and "table_size es < 2 ^ 32"
  shows "holds conn (table_size_update conn max_size tb) (rfc_evict (unat max_size) 0 es)"
    and "keeps_rest conn (tb\<lparr>tb_info := (tb_info tb)\<lparr>dt_max_size := max_size\<rparr>\<rparr>) (table_size_update conn max_size tb)"
    and "dt_count (tb_info (table_size_update conn max_size tb)) + dt_deleted (tb_info (table_size_update conn max_size tb)) =
      dt_count (tb_info tb) + dt_deleted (tb_info tb)"
proof -
  let ?tb = "tb\<lparr>tb_info := (tb_info tb)\<lparr>dt_max_size := max_size\<rparr>\<rparr>"
  have "holds conn ?tb es" using assms(1) by (simp add: holds_def)
  moreover have "table_size es + unat (0 :: u32) < 2 ^ 32" using assms(2) by simp
  ultimately obtain tb2 freed where ev: "try_evict conn 0 ?tb = (tb2, freed)"
    "holds conn tb2 (rfc_evict (unat (dt_max_size (tb_info ?tb))) (unat (0 :: u32)) es)" "keeps_rest conn ?tb tb2"
    "dt_count (tb_info tb2) + dt_deleted (tb_info tb2) = dt_count (tb_info ?tb) + dt_deleted (tb_info ?tb)"
    by (rule try_evict_holds)
  have up: "table_size_update conn max_size tb = tb2" by (simp add: table_size_update_def ev(1))
  show "holds conn (table_size_update conn max_size tb) (rfc_evict (unat max_size) 0 es)"
    and "keeps_rest conn ?tb (table_size_update conn max_size tb)"
    and "dt_count (tb_info (table_size_update conn max_size tb)) + dt_deleted (tb_info (table_size_update conn max_size tb)) =
      dt_count (tb_info tb) + dt_deleted (tb_info tb)"
    using ev by (simp_all add: up)
qed

lemma get_table_entry_holds:
  assumes "holds conn tb es" and "dt_dirty (tb_info tb) = 0"
  shows "get_table_entry kern conn tb idx =
    (if idx = 0 then None
     else if unat idx \<le> 61 then k_static kern idx
     else if unat idx \<le> 61 + length es then Some (dte_field (rev es ! (unat idx - 62)))
     else None)"
proof -
  let ?info = "tb_info tb"
  note H = holdsD [OF assms(1)]
  have end_idx: "unat (STATIC_TABLE_SIZE + dt_count ?info) = 61 + length es"
    using H(1,3) by (subst unat_add32) (simp_all add: STATIC_TABLE_SIZE_def)
  have valid: "is_valid_hpack_index ?info idx \<longleftrightarrow> idx \<noteq> 0 \<and> unat idx \<le> 61 + length es"
    by (simp add: is_valid_hpack_index_def word_le_nat_alt end_idx word_gt_0)
  have static: "STATIC_TABLE_SIZE < idx \<longleftrightarrow> 61 < unat idx"
    by (simp add: STATIC_TABLE_SIZE_def word_less_nat_alt)
  show ?thesis
  proof (cases "61 < unat idx \<and> unat idx \<le> 61 + length es")
    case True
    have last: "unat (STATIC_TABLE_SIZE + dt_count ?info + dt_deleted ?info) = 61 + length es + unat (dt_deleted ?info)"
      using end_idx H(3) by (subst unat_add32) simp_all
    then have "idx \<le> STATIC_TABLE_SIZE + dt_count ?info + dt_deleted ?info"
      using True by (simp add: word_le_nat_alt)
    then have dist: "unat (STATIC_TABLE_SIZE + dt_count ?info + dt_deleted ?info - idx) =
        61 + length es + unat (dt_deleted ?info) - unat idx"
      using last by (simp add: unat_sub)
    have "unat (get_dynamic_table_index ?info idx) = 61 + length es + unat (dt_deleted ?info) - unat idx + 62"
      unfolding get_dynamic_table_index_def Let_def
      using dist H(3) True by (subst unat_add32) (auto simp: DYNAMIC_TABLE_BASE_def)
    moreover have "rev es ! (unat idx - 62) = es ! (61 + length es - unat idx)"
      using True by (subst rev_nth) (auto intro!: arg_cong [where f = "(!) es"])
    ultimately have "tb_entries tb \<lparr>dtk_conn = conn, dtk_idx = get_dynamic_table_index ?info idx\<rparr> =
        Some (rev es ! (unat idx - 62))"
      using H(4) [of "get_dynamic_table_index ?info idx"] True by auto
    with True assms(2) show ?thesis by (auto simp: get_table_entry_def valid static)
  next
    case False
    then show ?thesis by (auto simp: get_table_entry_def valid static)
  qed
qed

section \<open>Properties of the dynamic table\<close>

text \<open>
  The field an HPACK index refers to is looked up right: the first
  61 indices in the static table, the next ones in the dynamic table of the connection from the
  newest entry to the oldest, and no other index has an entry.
\<close>

theorem hpack_index_names_its_entry:
  assumes "holds conn tb es" and "dt_dirty (tb_info tb) = 0"
  shows "get_table_entry kern conn tb idx =
    (if idx = 0 then None
     else if unat idx \<le> 61 then k_static kern idx
     else if unat idx \<le> 61 + length es then Some (dte_field (rev es ! (unat idx - 62)))
     else None)"
  using assms by (rule get_table_entry_holds)

theorem hpack_index_names_its_entry_witness:
  "get_table_entry demo_kernel demo_conn demo_table 62 = Some (dte_field demo_entry) \<and>
   get_table_entry demo_kernel demo_conn demo_table 63 = None"
  using hpack_index_names_its_entry [OF demo_table_holds, of demo_kernel 62]
    hpack_index_names_its_entry [OF demo_table_holds, of demo_kernel 63]
  by (simp add: demo_table_def)

end
