(* ===== verification/Http2_Walk.thy ===== *)
theory Http2_Walk
  imports Http2_Table
begin

section \<open>The walk over a header block (\<open>beeper/src/http2/parser.bpf.c\<close>)\<close>

text \<open>
  The program feeds the bytes of a header block to the automaton one by one; the action of an
  edge collects an integer, looks an index up, or notes where a name or a value starts. A loop
  counter and an offset within a block are at most \<open>0x7FFF\<close> and kept as numbers; what the
  program stores of them is truncated as it is there. \<open>ps_cid\<close> holds \<open>-1\<close> or an id below 32.
\<close>

subsection \<open>State\<close>

record http2_parse_state =
  ps_s :: u16
  ps_k :: u32
  ps_m :: u32
  ps_skip :: u32
  ps_is_key :: bool
  ps_cid :: int
  ps_add_to_dt :: bool
  ps_key :: http_match
  ps_i :: u32
  ps_v :: u32
  ps_kind :: u8
  ps_flags :: u8
  ps_src :: u8

definition HTTP2A_NONE :: u8 where "HTTP2A_NONE = 0"

definition new_parse_state :: "u8 \<Rightarrow> http2_parse_state" where
  "new_parse_state src = \<lparr>ps_s = S_FIELD, ps_k = 0, ps_m = 0, ps_skip = 0, ps_is_key = False, ps_cid = - 1,
     ps_add_to_dt = False, ps_key = \<lparr>hm_idx = 0, hm_len = 0, hm_source = src, hm_huff = False\<rparr>,
     ps_i = 0, ps_v = 0, ps_kind = HTTP2A_NONE, ps_flags = 0, ps_src = src\<rparr>"

text \<open>What \<open>_parse_hdr_byte\<close> changes: the parse state, the matches and the dynamic table.\<close>

record h2_walk =
  hw_ps :: http2_parse_state
  hw_ms :: "http_match list"
  hw_tb :: h2_table

type_synonym h2_tables = "http2_action rodata"

subsection \<open>A step of the automaton\<close>

definition h2_read_action :: "h2_tables \<Rightarrow> u16 \<Rightarrow> http2_action" where
  "h2_read_action tables i = ro_actions tables (unat (i AND 0x3FF))"

definition h2_next :: "h2_tables \<Rightarrow> u16 \<Rightarrow> u8 \<Rightarrow> u16 \<times> u16" where
  "h2_next tables state input =
     (let t = ro_states tables (state AND 0x3FF) (input_of (input AND 0xFF)) in
      if trans_state t = 0 \<and> trans_action t = 0 then (S_DEAD, 0) else (trans_state t, trans_action t))"

definition capture_id :: "http2_action \<Rightarrow> int" where
  "capture_id act =
     (if h2a_kind act = kind_u8 Capture then int (unat (h2a_val act AND ucast MAX_MATCH_MASK)) else - 1)"

definition match_header_key :: "h2_tables \<Rightarrow> bytes \<Rightarrow> nat \<Rightarrow> bool \<Rightarrow> int" where
  "match_header_key tables key key_sz huff =
     snd (fold (\<lambda>c (s, mid). case h2_next tables s c of (s, a) \<Rightarrow> (s, capture_id (h2_read_action tables a)))
       (take key_sz key) (if huff then S_NAME else S_NAME_PLAIN, - ENOENT))"

subsection \<open>The actions\<close>

definition table_slot :: "dynamic_table_info \<Rightarrow> u32 \<Rightarrow> u32" where
  "table_slot info idx =
     (if is_valid_hpack_index info idx then
        let slot = if STATIC_TABLE_SIZE < idx then get_dynamic_table_index info idx else idx
        in if 0xFFFF < slot then 0 else slot
      else 0)"

text \<open>The first branch of \<open>_run_action\<close>: a field, or the name of one, that is an index.\<close>

definition run_index :: "h2_tables \<Rightarrow> h2_kernel \<Rightarrow> msg_ctx \<Rightarrow> h2_walk \<Rightarrow> h2_walk" where
  "run_index tables kern ctx w =
     (let ps = hw_ps w; idx = ps_v ps; slot = table_slot (tb_info (hw_tb w)) idx;
          ps = ps\<lparr>ps_add_to_dt := ps_flags ps AND F_ADD_DT \<noteq> 0, ps_cid := - 1,
            ps_key := \<lparr>hm_idx = ucast slot, hm_len = 0, hm_source = HTTP_SRC_TABLE, hm_huff = False\<rparr>\<rparr>;
          w = w\<lparr>hw_ps := ps\<rparr>
      in case get_table_entry kern (mc_conn ctx) (hw_tb w) idx of
           None \<Rightarrow> w
         | Some hf \<Rightarrow>
             let mid = match_header_key tables (hf_key hf) (min (unat (hf_key_len hf)) HEADER_FIELD_MAXLEN) (hf_key_huff hf \<noteq> 0)
             in if mid < 0 then w
                else if ps_kind ps = kind_u8 IdxName then w\<lparr>hw_ps := ps\<lparr>ps_cid := mid\<rparr>\<rparr>
                else w\<lparr>hw_ms := (hw_ms w)[nat mid := \<lparr>hm_idx = ucast slot, hm_len = word_of_nat (HEADER_FIELD_MAXLEN - 1),
                  hm_source = HTTP_SRC_TABLE, hm_huff = False\<rparr>]\<rparr>)"

text \<open>The match of a string whose length the current byte completes.\<close>

definition string_match :: "http2_parse_state \<Rightarrow> u32 \<Rightarrow> http_match" where
  "string_match ps v = \<lparr>hm_idx = ucast (ps_i ps + 1), hm_len = ucast v, hm_source = ps_src ps,
     hm_huff = ps_flags ps AND F_HUFF \<noteq> 0\<rparr>"

definition run_value :: "h2_kernel \<Rightarrow> msg_ctx \<Rightarrow> u32 \<Rightarrow> h2_walk \<Rightarrow> h2_walk" where
  "run_value kern ctx v w =
     (let ps = hw_ps w; val = string_match ps v;
          w = (if ps_add_to_dt ps then w\<lparr>hw_tb := snd (add_dynamic_table_entry kern ctx (ps_key ps) val (hw_tb w))\<rparr> else w);
          w = (if 0 \<le> ps_cid ps then w\<lparr>hw_ms := (hw_ms w)[nat (ps_cid ps) := val]\<rparr> else w)
      in w\<lparr>hw_ps := ps\<lparr>ps_cid := (if 0 \<le> ps_cid ps then - 1 else ps_cid ps), ps_skip := v, ps_is_key := False\<rparr>\<rparr>)"

definition h2_run_action :: "h2_tables \<Rightarrow> h2_kernel \<Rightarrow> msg_ctx \<Rightarrow> h2_walk \<Rightarrow> int \<times> h2_walk" where
  "h2_run_action tables kern ctx w =
     (let ps = hw_ps w; v = ps_v ps AND word_of_nat MAX_BYTES; kind = ps_kind ps in
      if kind = kind_u8 Indexed \<or> kind = kind_u8 IdxName then (0, run_index tables kern ctx w)
      else if kind = kind_u8 LitName then
        (0, w\<lparr>hw_ps := ps\<lparr>ps_add_to_dt := ps_flags ps AND F_ADD_DT \<noteq> 0, ps_cid := - 1\<rparr>\<rparr>)
      else if kind = kind_u8 KeyLen then
        (0, w\<lparr>hw_ps := ps\<lparr>ps_key := string_match ps v, ps_skip := v, ps_is_key := True,
           ps_s := (if v = 0 then S_VAL_LEN else ps_s ps)\<rparr>\<rparr>)
      else if kind = kind_u8 ValLen then (0, run_value kern ctx v w)
      else if kind = kind_u8 TableSize then (0, w\<lparr>hw_tb := table_size_update (mc_conn ctx) (ps_v ps) (hw_tb w)\<rparr>)
      else if kind = kind_u8 Err then (- EBADMSG, w)
      else (0, w))"

subsection \<open>A byte\<close>

text \<open>A byte of a string that is skipped: one of a name is read by the automaton as well.\<close>

definition skip_byte :: "h2_tables \<Rightarrow> u8 \<Rightarrow> http2_parse_state \<Rightarrow> http2_parse_state" where
  "skip_byte tables c ps =
     (let ps = (if ps_is_key ps then case h2_next tables (ps_s ps) c of (s, a) \<Rightarrow>
                  ps\<lparr>ps_s := s, ps_cid := capture_id (h2_read_action tables a)\<rparr> else ps);
          ps = ps\<lparr>ps_skip := ps_skip ps - 1\<rparr>
      in if ps_skip ps = 0 \<and> ps_is_key ps then ps\<lparr>ps_s := S_VAL_LEN\<rparr> else ps)"

definition parse_hdr_byte :: "h2_tables \<Rightarrow> h2_kernel \<Rightarrow> msg_ctx \<Rightarrow> u8 \<Rightarrow> h2_walk \<Rightarrow> int \<times> h2_walk" where
  "parse_hdr_byte tables kern ctx c w =
     (let ps = hw_ps w in
      if 0 < ps_skip ps then (0, w\<lparr>hw_ps := skip_byte tables c ps\<rparr>)
      else case h2_next tables (ps_s ps) c of (s, a) \<Rightarrow>
        let act = h2_read_action tables a; ps = ps\<lparr>ps_s := s\<rparr> in
        if h2a_kind act = kind_u8 IntStart then
          (0, w\<lparr>hw_ps := ps\<lparr>ps_k := ucast (h2a_val act), ps_m := 0\<rparr>\<rparr>)
        else if h2a_kind act = kind_u8 IntCont then
          (0, w\<lparr>hw_ps := if ps_m ps \<le> 28
             then ps\<lparr>ps_k := ps_k ps + push_bit (unat (ps_m ps)) (ucast (c AND 0x7F)), ps_m := ps_m ps + 7\<rparr> else ps\<rparr>)
        else
          let v = (if h2a_flags act AND F_CONT \<noteq> 0
                   then ps_k ps + (if ps_m ps \<le> 28 then push_bit (unat (ps_m ps)) (ucast (c AND 0x7F)) else 0)
                   else ucast (h2a_val act))
          in h2_run_action tables kern ctx
               (w\<lparr>hw_ps := ps\<lparr>ps_v := v, ps_kind := h2a_kind act, ps_flags := h2a_flags act\<rparr>\<rparr>))"

subsection \<open>The loops\<close>

text \<open>
  The loop of \<open>_parse_hdr_from\<close> over the bytes from index \<open>i\<close> on, and the value of its counter.
\<close>

fun hdr_loop :: "h2_tables \<Rightarrow> h2_kernel \<Rightarrow> msg_ctx \<Rightarrow> nat \<Rightarrow> bytes \<Rightarrow> int \<Rightarrow> u16 option \<Rightarrow> h2_walk \<Rightarrow> int \<times> u16 option \<times> h2_walk" where
  "hdr_loop tables kern ctx i [] res null_prefix w = (res, null_prefix, w)"
| "hdr_loop tables kern ctx i (c # cs) res null_prefix w =
     (if c = 0 \<and> null_prefix = Some (word_of_nat i)
      then hdr_loop tables kern ctx (i + 1) cs (int i) (Some (word_of_nat (i + 1))) w
      else case parse_hdr_byte tables kern ctx c (w\<lparr>hw_ps := (hw_ps w)\<lparr>ps_i := word_of_nat i\<rparr>\<rparr>) of (err, w) \<Rightarrow>
        if err < 0 then (err, null_prefix, w) else hdr_loop tables kern ctx (i + 1) cs (int i) null_prefix w)"

definition parse_hdr_from ::
  "h2_tables \<Rightarrow> h2_kernel \<Rightarrow> msg_ctx \<Rightarrow> nat \<Rightarrow> nat \<Rightarrow> u16 option \<Rightarrow> h2_walk \<Rightarrow> int \<times> u16 option \<times> h2_walk" where
  "parse_hdr_from tables kern ctx start stop null_prefix w =
     hdr_loop tables kern ctx start (drop start (take (min stop (min (length (mc_data ctx)) MAX_BYTES)) (mc_data ctx)))
       (int start) null_prefix w"

text \<open>The loop of \<open>_parse_hdr_buf\<close>.\<close>

fun buf_loop :: "h2_tables \<Rightarrow> h2_kernel \<Rightarrow> msg_ctx \<Rightarrow> nat \<Rightarrow> bytes \<Rightarrow> h2_walk \<Rightarrow> int \<times> h2_walk" where
  "buf_loop tables kern ctx i [] w = (int i, w)"
| "buf_loop tables kern ctx i (c # cs) w =
     (case parse_hdr_byte tables kern ctx c (w\<lparr>hw_ps := (hw_ps w)\<lparr>ps_i := word_of_nat i\<rparr>\<rparr>) of (err, w) \<Rightarrow>
        if err < 0 then (err, w) else buf_loop tables kern ctx (i + 1) cs w)"

definition parse_hdr_buf :: "h2_tables \<Rightarrow> h2_kernel \<Rightarrow> msg_ctx \<Rightarrow> nat \<Rightarrow> h2_walk \<Rightarrow> int \<times> h2_walk" where
  "parse_hdr_buf tables kern ctx len w =
     (case k_block kern of
        None \<Rightarrow> (- ENOSPC, w)
      | Some buf \<Rightarrow> buf_loop tables kern ctx 0 (take (min len BLOCK_MAXLEN) (bb_data buf)) w)"

end
