(* ===== verification/Http2_Block.thy ===== *)
theory Http2_Block
  imports Http2_Walk
begin

section \<open>What the walk makes of a header block\<close>

text \<open>
  A header block as RFC 7541 defines it, a list of representations with their encoding, and what
  a decoder makes of it; the program with the tables of a parser reads the block the same way.
\<close>

subsection \<open>A step of the DFA\<close>

definition h2_dfa_next :: "h2_action dfa \<Rightarrow> state_id \<Rightarrow> u8 \<Rightarrow> state_id \<times> h2_action option" where
  "h2_dfa_next d s c = (case dfa_edge d s (input_of c) of
       Some e \<Rightarrow> (edge_to e, edge_action e) | None \<Rightarrow> (S_DEAD, None))"

definition h2_program_action :: "h2_action option \<Rightarrow> http2_action" where
  "h2_program_action a = (case a of None \<Rightarrow> h2_no_action | Some a \<Rightarrow> http2_action_from a)"

definition name_root :: "bool \<Rightarrow> state_id" where
  "name_root huff = (if huff then S_NAME else S_NAME_PLAIN)"

text \<open>The tables a parser was loaded with.\<close>

definition h2_loaded :: "(bytes \<Rightarrow> 'enc + bytes) \<Rightarrow> h2_parser \<Rightarrow> h2_tables \<Rightarrow> bool" where
  "h2_loaded encode p tables \<longleftrightarrow> h2_inv encode p \<and> unat (num_states (h2_dfa p)) \<le> 1024 \<and>
     represents h2_limits http2_action_from (h2_dfa p) tables \<and> ro_actions tables 0 = h2_no_action"

lemma h2_loadedD:
  assumes "h2_loaded encode p tables"
  shows "h2_inv encode p" and "wf_dfa (h2_dfa p)" and "name_trie S_RESERVED name_roots (h2_dfa p)"
    and "s < S_RESERVED \<Longrightarrow> s < num_states (h2_dfa p)"
    and "unat (num_states (h2_dfa p)) \<le> 1024" and "represents h2_limits http2_action_from (h2_dfa p) tables"
    and "ro_actions tables 0 = h2_no_action"
proof -
  show inv: "h2_inv encode p" and "unat (num_states (h2_dfa p)) \<le> 1024"
    and "represents h2_limits http2_action_from (h2_dfa p) tables" and "ro_actions tables 0 = h2_no_action"
    using assms by (simp_all add: h2_loaded_def)
  from inv show "wf_dfa (h2_dfa p)" and trie: "name_trie S_RESERVED name_roots (h2_dfa p)" by (rule h2_invD)+
  show "s < S_RESERVED \<Longrightarrow> s < num_states (h2_dfa p)" using name_trieD(2) [OF trie] by (rule less_le_trans [rotated])
qed

lemma reserved_names [simp]: "S_DEAD < S_RESERVED" "name_root huff < S_RESERVED"
  by (simp_all add: name_root_def state_defs)

lemma name_root_in [simp]: "name_root huff \<in> name_roots"
  by (simp add: name_root_def)

lemma mask_1024: "unat (x :: u16) < 1024 \<Longrightarrow> x AND 0x3FF = x"
proof -
  have m: "(0x3FF :: u16) = mask 10" by (simp add: mask_eq_exp_minus_1)
  show "unat x < 1024 \<Longrightarrow> x AND 0x3FF = x"
    unfolding m take_bit_eq_mask [symmetric]
    by (simp add: word_unat_eq_iff unsigned_take_bit_eq take_bit_nat_eq_self)
qed

lemma mask_byte [simp]: "(c :: u8) AND 0xFF = c"
proof -
  have "(0xFF :: u8) = - 1" by simp
  then show ?thesis by (simp only: and.right_neutral)
qed

lemma edge_not_empty:
  assumes "h2_inv encode p" and "dfa_edge (h2_dfa p) s i = Some e" and "edge_action e = None"
  shows "edge_to e \<noteq> 0"
proof (cases "s \<in> name_roots \<or> S_RESERVED \<le> s")
  case True
  with name_trieD(3) [OF h2_invD(2) [OF assms(1)] assms(2)] have "S_RESERVED \<le> edge_to e" .
  then show ?thesis by (auto simp: S_RESERVED_def)
next
  case False
  then have "hpack_edge s i = Some e" using h2_invD(3) [OF assms(1), of s i] assms(2) by (metis not_le)
  with hpack_edge_target(2) assms(3) show ?thesis by blast
qed

lemma h2_next_dfa:
  assumes "h2_loaded encode p tables" and "s < num_states (h2_dfa p)"
  obtains t i a where "h2_next tables s c = (t, i)" and "h2_dfa_next (h2_dfa p) s c = (t, a)"
    and "h2_read_action tables i = h2_program_action a" and "t < num_states (h2_dfa p)"
proof -
  let ?d = "h2_dfa p" and ?t = "ro_states tables s (input_of c)"
  note inv = h2_loadedD [OF assms(1)]
  have "unat s < 1024" using assms(2) inv(5) by (simp add: word_less_nat_alt)
  then have s: "s AND 0x3FF = s" by (rule mask_1024)
  have lim: "max_actions h2_limits = 1024" by (simp add: h2_limits_def)
  have r: "case dfa_edge ?d s (input_of c) of None \<Rightarrow> ?t = no_trans
    | Some e \<Rightarrow> trans_state ?t = edge_to e \<and> unat (trans_action ?t) < 1024 \<and>
        (case edge_action e of None \<Rightarrow> trans_action ?t = 0
         | Some a \<Rightarrow> trans_action ?t \<noteq> 0 \<and> ro_actions tables (unat (trans_action ?t)) = http2_action_from a)"
    using inv(6) unfolding represents_def lim by blast
  have zero: "h2_read_action tables 0 = h2_no_action" using inv(7) by (simp add: h2_read_action_def)
  show thesis
  proof (cases "dfa_edge ?d s (input_of c)")
    case None
    with r have "h2_next tables s c = (S_DEAD, 0)" by (simp add: h2_next_def s no_trans_def)
    moreover have "S_DEAD < num_states ?d" by (rule inv(4)) simp
    ultimately show thesis using None zero
      by (intro that [of S_DEAD 0 None]) (simp_all add: h2_dfa_next_def h2_program_action_def)
  next
    case (Some e)
    with r have t: "trans_state ?t = edge_to e" "unat (trans_action ?t) < 1024" by simp_all
    have act: "h2_read_action tables (trans_action ?t) = h2_program_action (edge_action e)"
      using r Some inv(7) mask_1024 [OF t(2)]
      by (cases "edge_action e") (simp_all add: h2_read_action_def h2_program_action_def)
    have "\<not> (trans_state ?t = 0 \<and> trans_action ?t = 0)"
      using r Some edge_not_empty [OF inv(1) Some] by (cases "edge_action e") auto
    with t(1) have "h2_next tables s c = (edge_to e, trans_action ?t)" by (auto simp: h2_next_def s Let_def)
    with Some act wf_dfaD(4) [OF inv(2) Some] show thesis by (intro that) (simp_all add: h2_dfa_next_def)
  qed
qed

text \<open>A byte of a representation.\<close>

lemma ucast_ucast_byte [simp]: "ucast (ucast (c :: u8) :: u16) = c"
  using input_of_ucast [OF input_of_le, of c] by (simp only: input_of_def ucast_u8_u16_inj)

lemma h2_next_hpack:
  assumes "h2_loaded encode p tables" and "(s, f) \<in> set hpack_bytes"
  obtains i where "h2_next tables s c = (fst (f c), i)" and "h2_read_action tables i = http2_action_from (snd (f c))"
proof -
  let ?d = "h2_dfa p"
  note inv = h2_loadedD [OF assms(1)]
  have keys: "distinct (map fst hpack_bytes)" by (simp add: hpack_states)
  have "s \<in> set (map fst hpack_bytes)" using assms(2) by force
  then have s: "s < S_RESERVED" "s \<notin> name_roots"
    by (auto simp: hpack_states name_roots_def state_defs)
  have "map_of hpack_bytes s = Some f" using keys assms(2) by simp
  moreover have "input_of c \<le> 0xFF" by (simp add: input_of_le)
  ultimately have "dfa_edge ?d s (input_of c) = Some \<lparr>edge_to = fst (f c), edge_action = Some (snd (f c))\<rparr>"
    using h2_invD(3) [OF inv(1) s] by (simp add: hpack_edge_def input_of_def ucast_ucast_byte)
  moreover have "s < num_states ?d" using s(1) by (rule inv(4))
  ultimately show thesis
    using h2_next_dfa [OF assms(1), of s c] that by (fastforce simp: h2_dfa_next_def h2_program_action_def)
qed

subsection \<open>Names\<close>

text \<open>The id a name is captured as.\<close>

definition action_id :: "h2_action option \<Rightarrow> int" where
  "action_id a = (case a of Some (Action2 Capture v f) \<Rightarrow> int (unat (v AND 31)) | _ \<Rightarrow> - 1)"

definition name_id :: "h2_parser \<Rightarrow> bool \<Rightarrow> bytes \<Rightarrow> int" where
  "name_id p huff name = action_id (last_action (h2_dfa p) (name_root huff) (map input_of name))"

lemma capture_id_action: "capture_id (h2_program_action a) = action_id a"
  by (cases a rule: option.exhaust; cases "the a"; cases "act_kind (the a)")
    (simp_all add: capture_id_def h2_program_action_def action_id_def http2_action_from_def h2_no_action_def
      MAX_MATCH_MASK_def split: kind.split)

definition trie_state :: "h2_parser \<Rightarrow> bool \<Rightarrow> bytes \<Rightarrow> state_id" where
  "trie_state p huff w = (case walk (h2_dfa p) (name_root huff) (map input_of w) of Some q \<Rightarrow> q | None \<Rightarrow> S_DEAD)"

lemma no_edge_dead: "h2_inv encode p \<Longrightarrow> dfa_edge (h2_dfa p) S_DEAD i = None"
proof -
  assume inv: "h2_inv encode p"
  have "S_DEAD \<notin> set (map fst hpack_bytes)" by (simp add: hpack_states state_defs)
  then have "hpack_edge S_DEAD i = None" using hpack_edge_states by blast
  then show ?thesis using h2_invD(3) [OF inv, of S_DEAD] by (simp add: state_defs name_roots_def)
qed

lemma h2_next_name:
  assumes "h2_loaded encode p tables"
  obtains i where "h2_next tables (trie_state p huff w) c = (trie_state p huff (w @ [c]), i)"
    and "capture_id (h2_read_action tables i) = name_id p huff (w @ [c])"
proof -
  let ?d = "h2_dfa p" and ?r = "name_root huff" and ?w = "map input_of w"
  note inv = h2_loadedD [OF assms(1)]
  have "?r < num_states ?d" and "S_DEAD < num_states ?d" by (rule inv(4), simp)+
  then have lt: "trie_state p huff w < num_states ?d"
    using walk_less [OF inv(2)] by (simp add: trie_state_def split: option.split)
  have step: "h2_dfa_next ?d (trie_state p huff w) c = (trie_state p huff (w @ [c]), last_action ?d ?r (?w @ [input_of c]))"
    using no_edge_dead [OF inv(1)]
    by (auto simp: h2_dfa_next_def trie_state_def walk_snoc last_action_snoc split: option.splits)
  from h2_next_dfa [OF assms lt, of c] obtain t i a where
    "h2_next tables (trie_state p huff w) c = (t, i)" "h2_dfa_next ?d (trie_state p huff w) c = (t, a)"
    "h2_read_action tables i = h2_program_action a" .
  with step show thesis by (intro that [of i]) (simp_all add: name_id_def capture_id_action)
qed

lemma match_header_key_name:
  assumes "h2_loaded encode p tables"
  shows "match_header_key tables key n huff = (if take n key = [] then - ENOENT else name_id p huff (take n key))"
proof -
  have "fold (\<lambda>c (s, mid). case h2_next tables s c of (s, a) \<Rightarrow> (s, capture_id (h2_read_action tables a))) w
      (name_root huff, - ENOENT) = (trie_state p huff w, if w = [] then - ENOENT else name_id p huff w)" for w
  proof (induction w rule: rev_induct)
    case Nil
    show ?case by (simp add: trie_state_def)
  next
    case (snoc c w)
    obtain i where "h2_next tables (trie_state p huff w) c = (trie_state p huff (w @ [c]), i)"
      "capture_id (h2_read_action tables i) = name_id p huff (w @ [c])"
      using h2_next_name [OF assms] .
    with snoc show ?case by simp
  qed
  then show ?thesis by (simp add: match_header_key_def name_root_def)
qed

subsection \<open>Header blocks\<close>

datatype indexing = Incremental | WithoutIndexing | NeverIndexed

record hpack_string =
  str_huff :: bool
  str_octets :: bytes

datatype field_name = NameIndex nat | NameString hpack_string

datatype representation = IndexedField nat | LiteralField indexing field_name hpack_string | SizeUpdate nat

text \<open>The encoding of integers and strings (sections 5.1 and 5.2), and of representations (section 6).\<close>

fun int_tail :: "nat \<Rightarrow> bytes" where
  "int_tail n = (if n < 128 then [word_of_nat n] else word_of_nat (128 + n mod 128) # int_tail (n div 128))"

declare int_tail.simps [simp del]

definition int_bytes :: "nat \<Rightarrow> u8 \<Rightarrow> nat \<Rightarrow> bytes" where
  "int_bytes bits base n =
     (if n < 2 ^ bits - 1 then [base OR word_of_nat n]
      else (base OR word_of_nat (2 ^ bits - 1)) # int_tail (n - (2 ^ bits - 1)))"

definition string_head :: "hpack_string \<Rightarrow> bytes" where
  "string_head s = int_bytes 7 (if str_huff s then 0x80 else 0x00) (length (str_octets s))"

definition string_bytes :: "hpack_string \<Rightarrow> bytes" where
  "string_bytes s = string_head s @ str_octets s"

fun literal_bits :: "indexing \<Rightarrow> nat" where
  "literal_bits Incremental = 6"
| "literal_bits WithoutIndexing = 4"
| "literal_bits NeverIndexed = 4"

fun literal_base :: "indexing \<Rightarrow> u8" where
  "literal_base Incremental = 0x40"
| "literal_base WithoutIndexing = 0x00"
| "literal_base NeverIndexed = 0x10"

fun name_bytes :: "indexing \<Rightarrow> field_name \<Rightarrow> bytes" where
  "name_bytes ix (NameIndex n) = int_bytes (literal_bits ix) (literal_base ix) n"
| "name_bytes ix (NameString s) = literal_base ix # string_bytes s"

fun repr_bytes :: "representation \<Rightarrow> bytes" where
  "repr_bytes (IndexedField n) = int_bytes 7 0x80 n"
| "repr_bytes (SizeUpdate n) = int_bytes 5 0x20 n"
| "repr_bytes (LiteralField ix name v) = name_bytes ix name @ string_bytes v"

subsection \<open>Walks\<close>

lemma buf_loop_append:
  "buf_loop tables kern ctx i (xs @ ys) w = (case buf_loop tables kern ctx i xs w of
     (n, w) \<Rightarrow> if n < 0 then (n, w) else buf_loop tables kern ctx (i + length xs) ys w)"
  by (induction xs arbitrary: i w) (auto split: prod.split)

text \<open>A byte of a representation, for the action it runs.\<close>

definition arrive :: "state_id \<Rightarrow> h2_walk \<Rightarrow> h2_walk" where
  "arrive t w = w\<lparr>hw_ps := (hw_ps w)\<lparr>ps_s := t\<rparr>\<rparr>"

definition announce :: "kind \<Rightarrow> u8 \<Rightarrow> u32 \<Rightarrow> h2_walk \<Rightarrow> h2_walk" where
  "announce k fl v w = w\<lparr>hw_ps := (hw_ps w)\<lparr>ps_v := v, ps_kind := kind_u8 k, ps_flags := fl\<rparr>\<rparr>"

lemma parse_byte_action:
  assumes "h2_loaded encode p tables" and "(ps_s (hw_ps w), f) \<in> set hpack_bytes" and "ps_skip (hw_ps w) = 0"
    and "f c = (t, Action2 k v fl)"
  shows "k = IntStart \<Longrightarrow> parse_hdr_byte tables kern ctx c w =
      (0, w\<lparr>hw_ps := (hw_ps w)\<lparr>ps_s := t, ps_k := ucast v, ps_m := 0\<rparr>\<rparr>)"
    and "k = IntCont \<Longrightarrow> ps_m (hw_ps w) \<le> 28 \<Longrightarrow> parse_hdr_byte tables kern ctx c w =
      (0, w\<lparr>hw_ps := (hw_ps w)\<lparr>ps_s := t, ps_k := ps_k (hw_ps w) + push_bit (unat (ps_m (hw_ps w))) (ucast (c AND 0x7F)),
        ps_m := ps_m (hw_ps w) + 7\<rparr>\<rparr>)"
    and "k \<notin> {IntStart, IntCont} \<Longrightarrow> fl AND F_CONT = 0 \<Longrightarrow> parse_hdr_byte tables kern ctx c w =
      h2_run_action tables kern ctx (announce k fl (ucast v) (arrive t w))"
    and "k \<notin> {IntStart, IntCont} \<Longrightarrow> fl AND F_CONT \<noteq> 0 \<Longrightarrow> ps_m (hw_ps w) \<le> 28 \<Longrightarrow> parse_hdr_byte tables kern ctx c w =
      h2_run_action tables kern ctx (announce k fl
        (ps_k (hw_ps w) + push_bit (unat (ps_m (hw_ps w))) (ucast (c AND 0x7F))) (arrive t w))"
proof -
  obtain i where i: "h2_next tables (ps_s (hw_ps w)) c = (t, i)"
    and a: "h2_read_action tables i = \<lparr>h2a_val = v, h2a_kind = kind_u8 k, h2a_flags = fl\<rparr>"
    using h2_next_hpack [OF assms(1,2), of c] assms(4) by (auto simp: http2_action_from_def)
  note step = parse_hdr_byte_def Let_def i prod.case a assms(3) http2_action.select_convs
  show "k = IntStart \<Longrightarrow> parse_hdr_byte tables kern ctx c w =
      (0, w\<lparr>hw_ps := (hw_ps w)\<lparr>ps_s := t, ps_k := ucast v, ps_m := 0\<rparr>\<rparr>)"
    by (simp add: step)
  show "k = IntCont \<Longrightarrow> ps_m (hw_ps w) \<le> 28 \<Longrightarrow> parse_hdr_byte tables kern ctx c w =
      (0, w\<lparr>hw_ps := (hw_ps w)\<lparr>ps_s := t, ps_k := ps_k (hw_ps w) + push_bit (unat (ps_m (hw_ps w))) (ucast (c AND 0x7F)),
        ps_m := ps_m (hw_ps w) + 7\<rparr>\<rparr>)"
    by (simp add: step)
  show "k \<notin> {IntStart, IntCont} \<Longrightarrow> fl AND F_CONT = 0 \<Longrightarrow> parse_hdr_byte tables kern ctx c w =
      h2_run_action tables kern ctx (announce k fl (ucast v) (arrive t w))"
    by (simp add: step announce_def arrive_def del: kind_u8.simps)
  show "k \<notin> {IntStart, IntCont} \<Longrightarrow> fl AND F_CONT \<noteq> 0 \<Longrightarrow> ps_m (hw_ps w) \<le> 28 \<Longrightarrow> parse_hdr_byte tables kern ctx c w =
      h2_run_action tables kern ctx (announce k fl
        (ps_k (hw_ps w) + push_bit (unat (ps_m (hw_ps w))) (ucast (c AND 0x7F))) (arrive t w))"
    by (simp add: step announce_def arrive_def del: kind_u8.simps)
qed

subsection \<open>Integers\<close>

text \<open>
  The bytes from offset \<open>i\<close> on complete an integer: once they are read, the action of kind \<open>k\<close>
  runs on the value \<open>n\<close> in state \<open>t\<close>. The flag that says where the value is from does not matter to it.
\<close>

definition same_flags :: "u8 \<Rightarrow> u8 \<Rightarrow> bool" where
  "same_flags fl fl' \<longleftrightarrow> fl' AND F_HUFF = fl AND F_HUFF \<and> fl' AND F_ADD_DT = fl AND F_ADD_DT"

definition told :: "state_id \<Rightarrow> u32 \<Rightarrow> u32 \<Rightarrow> u32 \<Rightarrow> u32 \<Rightarrow> kind \<Rightarrow> u8 \<Rightarrow> h2_walk \<Rightarrow> h2_walk" where
  "told t k' m' j v k fl w = w\<lparr>hw_ps := (hw_ps w)\<lparr>ps_s := t, ps_k := k', ps_m := m', ps_i := j, ps_v := v,
     ps_kind := kind_u8 k, ps_flags := fl\<rparr>\<rparr>"

lemma told_announce:
  "announce k fl v (arrive t (w\<lparr>hw_ps := (hw_ps w)\<lparr>ps_i := j\<rparr>\<rparr>)) =
     told t (ps_k (hw_ps w)) (ps_m (hw_ps w)) j v k fl w"
  by (rule h2_walk.equality) (auto intro!: http2_parse_state.equality simp: announce_def arrive_def told_def)

lemma told_absorb:
  "told t k' m' j v k fl (w\<lparr>hw_ps := (hw_ps w)\<lparr>ps_i := a, ps_s := b, ps_k := c, ps_m := d\<rparr>\<rparr>) = told t k' m' j v k fl w"
  "told t k' m' j v k fl (w\<lparr>hw_ps := (hw_ps w)\<lparr>ps_s := b, ps_k := c, ps_m := d, ps_i := a\<rparr>\<rparr>) = told t k' m' j v k fl w"
  by (rule h2_walk.equality; auto intro!: http2_parse_state.equality simp: told_def)+

definition completes ::
  "h2_tables \<Rightarrow> h2_kernel \<Rightarrow> msg_ctx \<Rightarrow> nat \<Rightarrow> bytes \<Rightarrow> h2_walk \<Rightarrow> state_id \<Rightarrow> kind \<Rightarrow> u8 \<Rightarrow> nat \<Rightarrow> bool" where
  "completes tables kern ctx i cs w t k fl n \<longleftrightarrow>
     (\<exists>k' m' fl'. same_flags fl fl' \<and> buf_loop tables kern ctx i cs w =
       (case h2_run_action tables kern ctx (told t k' m' (word_of_nat (i + length cs - 1)) (word_of_nat n) k fl' w) of
          (err, w') \<Rightarrow> if err < 0 then (err, w') else (int (i + length cs), w')))"

lemma completesI:
  "same_flags fl fl' \<Longrightarrow> buf_loop tables kern ctx i cs w =
     (case h2_run_action tables kern ctx (told t k' m' (word_of_nat (i + length cs - 1)) (word_of_nat n) k fl' w) of
        (err, w') \<Rightarrow> if err < 0 then (err, w') else (int (i + length cs), w')) \<Longrightarrow>
   completes tables kern ctx i cs w t k fl n"
  unfolding completes_def by blast

lemma completes_last:
  assumes "same_flags fl fl'" and "parse_hdr_byte tables kern ctx c (w\<lparr>hw_ps := (hw_ps w)\<lparr>ps_i := word_of_nat i\<rparr>\<rparr>) =
     h2_run_action tables kern ctx (told t k' m' (word_of_nat i) (word_of_nat n) k fl' w)"
  shows "completes tables kern ctx i [c] w t k fl n"
  by (rule completesI [OF assms(1), where k' = k' and m' = m']) (simp add: assms(2) split: prod.split)

lemma completes_Cons:
  assumes "parse_hdr_byte tables kern ctx c (w\<lparr>hw_ps := (hw_ps w)\<lparr>ps_i := word_of_nat i\<rparr>\<rparr>) =
      (0, w\<lparr>hw_ps := (hw_ps w)\<lparr>ps_i := word_of_nat i, ps_s := s, ps_k := k', ps_m := m'\<rparr>\<rparr>)"
    and "completes tables kern ctx (i + 1) cs
      (w\<lparr>hw_ps := (hw_ps w)\<lparr>ps_i := word_of_nat i, ps_s := s, ps_k := k', ps_m := m'\<rparr>\<rparr>) t k fl n"
  shows "completes tables kern ctx i (c # cs) w t k fl n"
proof -
  have "i + 1 + length cs = i + length (c # cs)" by simp
  with assms(2) show ?thesis unfolding completes_def told_absorb by (simp only: buf_loop.simps assms(1) prod.case) simp
qed

lemma continuation_word:
  assumes "n < 128"
  shows "(word_of_nat n :: u8) AND 0x7F = word_of_nat n" and "\<not> (0x80 :: u8) \<le> word_of_nat n"
    and "(word_of_nat (128 + n) :: u8) AND 0x7F = word_of_nat n" and "(0x80 :: u8) \<le> word_of_nat (128 + n)"
proof -
  have "list_all (\<lambda>n. (word_of_nat n :: u8) AND 0x7F = word_of_nat n \<and> \<not> (0x80 :: u8) \<le> word_of_nat n \<and>
      (word_of_nat (128 + n) :: u8) AND 0x7F = word_of_nat n \<and> (0x80 :: u8) \<le> word_of_nat (128 + n)) [0..<128]"
    by code_simp
  then show "(word_of_nat n :: u8) AND 0x7F = word_of_nat n" and "\<not> (0x80 :: u8) \<le> word_of_nat n"
    and "(word_of_nat (128 + n) :: u8) AND 0x7F = word_of_nat n" and "(0x80 :: u8) \<le> word_of_nat (128 + n)"
    using assms unfolding list_all_iff by auto
qed

lemma shifted_byte:
  assumes "n < 128"
  shows "push_bit k (ucast (word_of_nat n :: u8)) = (word_of_nat (n * 2 ^ k) :: u32)"
proof -
  have "(ucast (word_of_nat n :: u8) :: u32) = word_of_nat n"
    using assms by (simp add: word_unat_eq_iff unsigned_ucast_eq unsigned_of_nat take_bit_nat_eq_self)
  then show ?thesis by (simp add: push_bit_eq_mult)
qed

lemma unat_u32: "n < 2 ^ 32 \<Longrightarrow> unat (word_of_nat n :: u32) = n"
  by (simp add: unsigned_of_nat take_bit_nat_eq_self)

lemma unat_ucast16: "unat (ucast (v :: u16) :: u32) = unat v"
proof -
  have "unat v < 2 ^ 32" using unsigned_less [of v, where ?'a = nat] by simp
  then show ?thesis by (simp add: unsigned_ucast_eq take_bit_nat_eq_self)
qed

lemma completes_first:
  assumes "h2_loaded encode p tables" and "(ps_s (hw_ps w), f) \<in> set hpack_bytes" and "ps_skip (hw_ps w) = 0"
    and "f c = (t, Action2 k v fl)" and "k \<notin> {IntStart, IntCont}" and "fl AND F_CONT = 0"
  shows "completes tables kern ctx i [c] w t k fl (unat v)"
proof -
  let ?w = "w\<lparr>hw_ps := (hw_ps w)\<lparr>ps_i := word_of_nat i\<rparr>\<rparr>"
  have v: "(ucast v :: u32) = word_of_nat (unat v)" by (simp add: word_unat_eq_iff unsigned_ucast_eq unsigned_of_nat)
  have "parse_hdr_byte tables kern ctx c ?w = h2_run_action tables kern ctx (announce k fl (ucast v) (arrive t ?w))"
    using assms parse_byte_action(3) [OF assms(1), of ?w f c t k v fl] by simp
  then show ?thesis
    unfolding told_announce v by (rule completes_last [rotated]) (simp add: same_flags_def)
qed

lemma completes_tail:
  assumes "h2_loaded encode p tables" and "(s, continuation_byte s k t fl) \<in> set hpack_bytes"
    and "k \<notin> {IntStart, IntCont}" and "same_flags fl (fl OR F_CONT)" and "(fl OR F_CONT) AND F_CONT \<noteq> 0"
    and "ps_s (hw_ps w) = s" and "ps_skip (hw_ps w) = 0" and "ps_m (hw_ps w) = word_of_nat (7 * j)" and "j \<le> 4"
    and "unat (ps_k (hw_ps w)) + r * 2 ^ (7 * j) < 2 ^ 32"
  shows "completes tables kern ctx i (int_tail r) w t k fl (unat (ps_k (hw_ps w)) + r * 2 ^ (7 * j))"
  using assms(6-)
proof (induction r arbitrary: i j w rule: int_tail.induct)
  case (1 r)
  let ?w = "w\<lparr>hw_ps := (hw_ps w)\<lparr>ps_i := word_of_nat i\<rparr>\<rparr>" and ?k = "ps_k (hw_ps w)"
  have m: "unat (ps_m (hw_ps w)) = 7 * j" using 1(5) unfolding 1(4) by (intro unat_u32) simp
  then have le: "ps_m (hw_ps w) \<le> 28" using 1(5) by (simp add: word_le_nat_alt)
  have add: "?k + word_of_nat x = word_of_nat (unat ?k + x)" for x by simp
  show ?case
  proof (cases "r < 128")
    case True
    note c = continuation_word [OF True]
    have "parse_hdr_byte tables kern ctx (word_of_nat r) ?w = h2_run_action tables kern ctx (announce k (fl OR F_CONT)
        (?k + push_bit (unat (ps_m (hw_ps w))) (ucast ((word_of_nat r :: u8) AND 0x7F))) (arrive t ?w))"
      using parse_byte_action(4) [OF assms(1), of ?w "continuation_byte s k t fl" "word_of_nat r" t k 0 "fl OR F_CONT"]
        assms(2,3,5) 1(2,3) le c(2) by (simp add: continuation_byte_def)
    then have "parse_hdr_byte tables kern ctx (word_of_nat r) ?w = h2_run_action tables kern ctx
        (announce k (fl OR F_CONT) (word_of_nat (unat ?k + r * 2 ^ (7 * j))) (arrive t ?w))"
      unfolding c(1) m shifted_byte [OF True] add .
    then show ?thesis
      unfolding int_tail.simps [of r] if_P [OF True] told_announce by (rule completes_last [OF assms(4)])
  next
    case False
    let ?c = "word_of_nat (128 + r mod 128) :: u8" and ?x = "r mod 128 * 2 ^ (7 * j)"
    note c = continuation_word [of "r mod 128"]
    define K :: u32 where "K = ?k + word_of_nat ?x"
    let ?w1 = "w\<lparr>hw_ps := (hw_ps w)\<lparr>ps_i := word_of_nat i, ps_s := s, ps_k := K, ps_m := word_of_nat (7 * (j + 1))\<rparr>\<rparr>"
    have split: "r * 2 ^ (7 * j) = ?x + r div 128 * 2 ^ (7 * (j + 1))"
    proof -
      have "r * 2 ^ (7 * j) = (r mod 128 + r div 128 * 128) * 2 ^ (7 * j)" by simp
      also have "\<dots> = ?x + r div 128 * 128 * 2 ^ (7 * j)" by (rule distrib_right)
      finally show ?thesis by (simp add: power_add)
    qed
    have j: "j + 1 \<le> 4"
    proof (rule ccontr)
      assume "\<not> j + 1 \<le> 4"
      with 1(5) have "j = 4" by simp
      with False 1(6) show False by simp
    qed
    have "parse_hdr_byte tables kern ctx ?c ?w = (0, ?w1)"
      using parse_byte_action(2) [OF assms(1), of ?w "continuation_byte s k t fl" ?c s IntCont 0 0]
        assms(2) 1(2-4) m le c by (simp add: continuation_byte_def shifted_byte K_def)
    moreover have "completes tables kern ctx (i + 1) (int_tail (r div 128)) ?w1 t k fl
        (unat ?k + r * 2 ^ (7 * j))"
    proof -
      have "unat ?k + ?x < 2 ^ 32" using 1(6) split by simp
      then have k: "unat K = unat ?k + ?x" unfolding K_def add by (rule unat_u32)
      from 1(1) [OF False, of ?w1 "j + 1" "i + 1"] 1(3,6) j show ?thesis
        by (simp add: k split add.assoc del: mult_Suc_right)
    qed
    ultimately show ?thesis
      unfolding int_tail.simps [of r] if_not_P [OF False] by (rule completes_Cons)
  qed
qed

lemma flag_facts:
  assumes "fl \<in> {0, F_HUFF, F_ADD_DT}"
  shows "fl AND F_CONT = 0" and "same_flags fl (fl OR F_CONT)" and "(fl OR F_CONT) AND F_CONT \<noteq> 0"
  using assms by (auto simp: flag_values same_flags_def)

lemma completes_int:
  assumes "h2_loaded encode p tables" and "(ps_s (hw_ps w), f) \<in> set hpack_bytes"
    and "(cont, continuation_byte cont k t fl) \<in> set hpack_bytes"
    and "ps_skip (hw_ps w) = 0" and "k \<notin> {IntStart, IntCont}" and "fl \<in> {0, F_HUFF, F_ADD_DT}"
    and "n < 2 ^ bits - 1 \<Longrightarrow> f (base OR word_of_nat n) = (t, Action2 k (word_of_nat n) fl)"
    and "f (base OR word_of_nat (2 ^ bits - 1)) = (cont, Action2 IntStart (word_of_nat (2 ^ bits - 1)) 0)"
    and "n < 2 ^ 32" and "bits \<le> 7"
  shows "completes tables kern ctx i (int_bytes bits base n) w t k fl n"
proof -
  let ?w = "w\<lparr>hw_ps := (hw_ps w)\<lparr>ps_i := word_of_nat i\<rparr>\<rparr>" and ?max = "2 ^ bits - 1 :: nat"
  note fl = flag_facts [OF assms(6)]
  have "(2 :: nat) ^ bits \<le> 2 ^ 7" using assms(10) by (intro power_increasing) simp_all
  then have max: "?max < 128" by simp
  have val: "unat (word_of_nat m :: u16) = m" if "m < 128" for m
    using that by (simp add: unsigned_of_nat take_bit_nat_eq_self)
  show ?thesis
  proof (cases "n < ?max")
    case True
    then have "unat (word_of_nat n :: u16) = n" using max by (intro val) simp
    with completes_first [OF assms(1,2,4) assms(7) [OF True] assms(5) fl(1)] True show ?thesis
      by (simp add: int_bytes_def)
  next
    case False
    define K :: u32 where "K = ucast (word_of_nat ?max :: u16)"
    let ?w1 = "w\<lparr>hw_ps := (hw_ps w)\<lparr>ps_i := word_of_nat i, ps_s := cont, ps_k := K, ps_m := 0\<rparr>\<rparr>"
    have k: "unat K = ?max" unfolding K_def unat_ucast16 by (rule val [OF max])
    have "parse_hdr_byte tables kern ctx (base OR word_of_nat ?max) ?w = (0, ?w1)"
      using parse_byte_action(1) [OF assms(1), of ?w f "base OR word_of_nat ?max" cont IntStart] assms(2,4,8) by (simp add: K_def)
    moreover have "completes tables kern ctx (i + 1) (int_tail (n - ?max)) ?w1 t k fl n"
      using completes_tail [OF assms(1,3,5) fl(2,3), of ?w1 0 "n - ?max" kern ctx "i + 1"] assms(4,9) False
      by (simp add: k)
    ultimately show ?thesis unfolding int_bytes_def if_not_P [OF False] by (rule completes_Cons)
  qed
qed

text \<open>The integers of the representations and of the strings.\<close>

lemma first_bytes:
  "0 < n \<Longrightarrow> n < 127 \<Longrightarrow> first_byte (0x80 OR word_of_nat n) = (S_FIELD, Action2 Indexed (word_of_nat n) 0)"
  "0 < n \<Longrightarrow> n < 63 \<Longrightarrow> first_byte (0x40 OR word_of_nat n) = (S_VAL_LEN, Action2 IdxName (word_of_nat n) F_ADD_DT)"
  "0 < n \<Longrightarrow> n < 15 \<Longrightarrow> first_byte (0x00 OR word_of_nat n) = (S_VAL_LEN, Action2 IdxName (word_of_nat n) 0)"
  "0 < n \<Longrightarrow> n < 15 \<Longrightarrow> first_byte (0x10 OR word_of_nat n) = (S_VAL_LEN, Action2 IdxName (word_of_nat n) 0)"
  "n < 31 \<Longrightarrow> first_byte (0x20 OR word_of_nat n) = (S_FIELD, Action2 TableSize (word_of_nat n) 0)"
proof -
  have "list_all (\<lambda>n. first_byte (0x80 OR word_of_nat n) = (S_FIELD, Action2 Indexed (word_of_nat n) 0)) [1..<127]"
    and "list_all (\<lambda>n. first_byte (0x40 OR word_of_nat n) = (S_VAL_LEN, Action2 IdxName (word_of_nat n) F_ADD_DT)) [1..<63]"
    and "list_all (\<lambda>n. first_byte (0x00 OR word_of_nat n) = (S_VAL_LEN, Action2 IdxName (word_of_nat n) 0)) [1..<15]"
    and "list_all (\<lambda>n. first_byte (0x10 OR word_of_nat n) = (S_VAL_LEN, Action2 IdxName (word_of_nat n) 0)) [1..<15]"
    and "list_all (\<lambda>n. first_byte (0x20 OR word_of_nat n) = (S_FIELD, Action2 TableSize (word_of_nat n) 0)) [0..<31]"
    by code_simp+
  then show "0 < n \<Longrightarrow> n < 127 \<Longrightarrow> first_byte (0x80 OR word_of_nat n) = (S_FIELD, Action2 Indexed (word_of_nat n) 0)"
    and "0 < n \<Longrightarrow> n < 63 \<Longrightarrow> first_byte (0x40 OR word_of_nat n) = (S_VAL_LEN, Action2 IdxName (word_of_nat n) F_ADD_DT)"
    and "0 < n \<Longrightarrow> n < 15 \<Longrightarrow> first_byte (0x00 OR word_of_nat n) = (S_VAL_LEN, Action2 IdxName (word_of_nat n) 0)"
    and "0 < n \<Longrightarrow> n < 15 \<Longrightarrow> first_byte (0x10 OR word_of_nat n) = (S_VAL_LEN, Action2 IdxName (word_of_nat n) 0)"
    and "n < 31 \<Longrightarrow> first_byte (0x20 OR word_of_nat n) = (S_FIELD, Action2 TableSize (word_of_nat n) 0)"
    unfolding list_all_iff by auto
qed

lemma start_bytes:
  "first_byte (0x80 OR word_of_nat 127) = (S_IDX7_CONT, Action2 IntStart (word_of_nat 127) 0)"
  "first_byte (0x40 OR word_of_nat 63) = (S_IDX6_CONT, Action2 IntStart (word_of_nat 63) 0)"
  "first_byte (0x00 OR word_of_nat 15) = (S_IDX4_CONT, Action2 IntStart (word_of_nat 15) 0)"
  "first_byte (0x10 OR word_of_nat 15) = (S_IDX4_CONT, Action2 IntStart (word_of_nat 15) 0)"
  "first_byte (0x20 OR word_of_nat 31) = (S_STG_CONT, Action2 IntStart (word_of_nat 31) 0)"
  "first_byte 0x40 = (S_KEY_LEN, Action2 LitName 0 F_ADD_DT)" "first_byte 0x00 = (S_KEY_LEN, Action2 LitName 0 0)"
  "first_byte 0x10 = (S_KEY_LEN, Action2 LitName 0 0)"
  by code_simp+

lemma length_bytes:
  "n < 127 \<Longrightarrow> length_byte k to c ch (0x00 OR word_of_nat n) = (fst to, Action2 k (word_of_nat n) 0)"
  "n < 127 \<Longrightarrow> length_byte k to c ch (0x80 OR word_of_nat n) = (snd to, Action2 k (word_of_nat n) F_HUFF)"
  "length_byte k to c ch (0x00 OR word_of_nat 127) = (c, Action2 IntStart (word_of_nat 127) 0)"
  "length_byte k to c ch (0x80 OR word_of_nat 127) = (ch, Action2 IntStart (word_of_nat 127) 0)"
proof -
  have "list_all (\<lambda>n. (word_of_nat n :: u8) AND 0x7F = word_of_nat n \<and> \<not> (0x80 :: u8) \<le> word_of_nat n \<and>
      (0x80 OR word_of_nat n :: u8) AND 0x7F = word_of_nat n \<and> (0x80 :: u8) \<le> 0x80 OR word_of_nat n \<and>
      (word_of_nat n :: u8) \<noteq> 0x7F \<and> (ucast (word_of_nat n :: u8) :: u16) = word_of_nat n) [0..<127]" by code_simp
  then have n: "(word_of_nat n :: u8) AND 0x7F = word_of_nat n" "\<not> (0x80 :: u8) \<le> word_of_nat n"
      "(0x80 OR word_of_nat n :: u8) AND 0x7F = word_of_nat n" "(0x80 :: u8) \<le> 0x80 OR word_of_nat n"
      "(word_of_nat n :: u8) \<noteq> 0x7F" "(ucast (word_of_nat n :: u8) :: u16) = word_of_nat n" if "n < 127"
    using that unfolding list_all_iff by auto
  show "n < 127 \<Longrightarrow> length_byte k to c ch (0x00 OR word_of_nat n) = (fst to, Action2 k (word_of_nat n) 0)"
    and "n < 127 \<Longrightarrow> length_byte k to c ch (0x80 OR word_of_nat n) = (snd to, Action2 k (word_of_nat n) F_HUFF)"
    using n by (simp_all add: length_byte_def Let_def)
  show "length_byte k to c ch (0x00 OR word_of_nat 127) = (c, Action2 IntStart (word_of_nat 127) 0)"
    and "length_byte k to c ch (0x80 OR word_of_nat 127) = (ch, Action2 IntStart (word_of_nat 127) 0)"
    by (simp_all add: length_byte_def Let_def)
qed

subsection \<open>Strings\<close>

definition sits :: "state_id \<Rightarrow> u8 \<Rightarrow> http_match list \<Rightarrow> h2_table \<Rightarrow> h2_walk \<Rightarrow> bool" where
  "sits s src ms tb w \<longleftrightarrow> ps_s (hw_ps w) = s \<and> ps_skip (hw_ps w) = 0 \<and> ps_src (hw_ps w) = src \<and> hw_ms w = ms \<and> hw_tb w = tb"

definition field_is :: "int \<Rightarrow> bool \<Rightarrow> http_match \<Rightarrow> h2_walk \<Rightarrow> bool" where
  "field_is cid add key w \<longleftrightarrow> ps_cid (hw_ps w) = cid \<and> ps_add_to_dt (hw_ps w) = add \<and> ps_key (hw_ps w) = key"

definition reads :: "h2_tables \<Rightarrow> h2_kernel \<Rightarrow> msg_ctx \<Rightarrow> nat \<Rightarrow> bytes \<Rightarrow> h2_walk \<Rightarrow> h2_walk \<Rightarrow> bool" where
  "reads tables kern ctx i cs w w' \<longleftrightarrow> buf_loop tables kern ctx i cs w = (int (i + length cs), w')"

lemma reads_append:
  "reads tables kern ctx i xs w w1 \<Longrightarrow> reads tables kern ctx (i + length xs) ys w1 w2 \<Longrightarrow> reads tables kern ctx i (xs @ ys) w w2"
  by (simp add: reads_def buf_loop_append add.assoc)

lemma reads_Cons:
  "parse_hdr_byte tables kern ctx c (w\<lparr>hw_ps := (hw_ps w)\<lparr>ps_i := word_of_nat i\<rparr>\<rparr>) = (0, w1) \<Longrightarrow>
   reads tables kern ctx (i + 1) cs w1 w2 \<Longrightarrow> reads tables kern ctx i (c # cs) w w2"
  by (simp add: reads_def)

lemma reads_completes:
  assumes "completes tables kern ctx i cs w t k fl n"
    and "\<And>k' m' fl'. same_flags fl fl' \<Longrightarrow> \<exists>w'. h2_run_action tables kern ctx
      (told t k' m' (word_of_nat (i + length cs - 1)) (word_of_nat n) k fl' w) = (0, w') \<and> P w'"
  obtains w' where "reads tables kern ctx i cs w w'" and "P w'"
proof -
  from assms(1) obtain k' m' fl' where same: "same_flags fl fl'" and loop: "buf_loop tables kern ctx i cs w =
       (case h2_run_action tables kern ctx (told t k' m' (word_of_nat (i + length cs - 1)) (word_of_nat n) k fl' w) of
          (err, w') \<Rightarrow> if err < 0 then (err, w') else (int (i + length cs), w'))"
    unfolding completes_def by blast
  from assms(2) [OF same] obtain w' where "h2_run_action tables kern ctx
      (told t k' m' (word_of_nat (i + length cs - 1)) (word_of_nat n) k fl' w) = (0, w')" "P w'" by blast
  with loop show thesis by (intro that [of w']) (simp_all add: reads_def)
qed

lemma skip_word: "Suc n < 2 ^ 32 \<Longrightarrow> 0 < (word_of_nat (Suc n) :: u32)"
  unfolding word_less_nat_alt by (simp only: unat_u32 unsigned_0)

lemma reads_skipped:
  assumes "ps_skip (hw_ps w) = word_of_nat (length cs)" and "length cs < 2 ^ 32" and "\<not> ps_is_key (hw_ps w)"
  obtains w' where "reads tables kern ctx i cs w w'" and "sits (ps_s (hw_ps w)) (ps_src (hw_ps w)) (hw_ms w) (hw_tb w) w'"
proof -
  have "\<exists>w'. reads tables kern ctx i cs w w' \<and> sits (ps_s (hw_ps w)) (ps_src (hw_ps w)) (hw_ms w) (hw_tb w) w'"
    using assms
  proof (induction cs arbitrary: i w)
    case Nil
    then show ?case by (auto simp: reads_def sits_def)
  next
    case (Cons c cs)
    let ?w1 = "w\<lparr>hw_ps := skip_byte tables c ((hw_ps w)\<lparr>ps_i := word_of_nat i\<rparr>)\<rparr>"
    have "0 < ps_skip (hw_ps w)" using Cons.prems(1,2) skip_word [of "length cs"] by simp
    then have byte: "parse_hdr_byte tables kern ctx c (w\<lparr>hw_ps := (hw_ps w)\<lparr>ps_i := word_of_nat i\<rparr>\<rparr>) = (0, ?w1)"
      by (simp add: parse_hdr_byte_def)
    have "ps_skip (hw_ps ?w1) = word_of_nat (length cs)" "\<not> ps_is_key (hw_ps ?w1)"
      "ps_s (hw_ps ?w1) = ps_s (hw_ps w)" "ps_src (hw_ps ?w1) = ps_src (hw_ps w)"
      using Cons.prems(1,3) by (simp_all add: skip_byte_def Let_def)
    moreover have "length cs < 2 ^ 32" using Cons.prems(2) by simp
    ultimately obtain w' where "reads tables kern ctx (i + 1) cs ?w1 w'"
      "sits (ps_s (hw_ps w)) (ps_src (hw_ps w)) (hw_ms w) (hw_tb w) w'"
      using Cons.IH [of ?w1 "i + 1"] by auto
    with byte show ?case by (blast intro: reads_Cons)
  qed
  then show thesis using that by blast
qed

lemma reads_name:
  assumes "h2_loaded encode p tables" and "ps_s (hw_ps w) = trie_state p huff u" and "ps_is_key (hw_ps w)"
    and "ps_skip (hw_ps w) = word_of_nat (length cs)" and "length cs < 2 ^ 32" and "cs \<noteq> []"
    and "ps_src (hw_ps w) = src" and "hw_ms w = ms" and "hw_tb w = tb" and "ps_add_to_dt (hw_ps w) = add" and "ps_key (hw_ps w) = key"
  obtains w' where "reads tables kern ctx i cs w w'" and "sits S_VAL_LEN src ms tb w'"
    and "field_is (name_id p huff (u @ cs)) add key w'"
proof -
  have "\<exists>w'. reads tables kern ctx i cs w w' \<and> sits S_VAL_LEN src ms tb w' \<and> field_is (name_id p huff (u @ cs)) add key w'"
    using assms(2-)
  proof (induction cs arbitrary: i u w)
    case Nil
    then show ?case by simp
  next
    case (Cons c cs)
    let ?w1 = "w\<lparr>hw_ps := skip_byte tables c ((hw_ps w)\<lparr>ps_i := word_of_nat i\<rparr>)\<rparr>"
    obtain j where j: "h2_next tables (trie_state p huff u) c = (trie_state p huff (u @ [c]), j)"
      "capture_id (h2_read_action tables j) = name_id p huff (u @ [c])"
      using h2_next_name [OF assms(1)] .
    have "0 < ps_skip (hw_ps w)" using Cons.prems(3,4) skip_word [of "length cs"] by simp
    then have byte: "parse_hdr_byte tables kern ctx c (w\<lparr>hw_ps := (hw_ps w)\<lparr>ps_i := word_of_nat i\<rparr>\<rparr>) = (0, ?w1)"
      by (simp add: parse_hdr_byte_def)
    have len: "length cs < 2 ^ 32" using Cons.prems(4) by simp
    have zero: "(word_of_nat (length cs) :: u32) = 0 \<longleftrightarrow> cs = []"
      using unat_u32 [OF len] by (cases cs) (auto simp: word_unat_eq_iff)
    have w1: "ps_skip (hw_ps ?w1) = word_of_nat (length cs)" "ps_is_key (hw_ps ?w1)"
      "ps_s (hw_ps ?w1) = (if cs = [] then S_VAL_LEN else trie_state p huff (u @ [c]))" "ps_src (hw_ps ?w1) = src"
      "ps_cid (hw_ps ?w1) = name_id p huff (u @ [c])" "ps_add_to_dt (hw_ps ?w1) = add" "ps_key (hw_ps ?w1) = key"
      using Cons.prems j zero by (simp_all add: skip_byte_def Let_def)
    show ?case
    proof (cases "cs = []")
      case True
      with w1 have "sits S_VAL_LEN src ms tb ?w1" and "field_is (name_id p huff (u @ [c])) add key ?w1"
        using Cons.prems by (simp_all add: sits_def field_is_def)
      moreover have "reads tables kern ctx i (c # cs) w ?w1"
        using True by (intro reads_Cons [OF byte]) (simp add: reads_def)
      ultimately show ?thesis unfolding True by blast
    next
      case False
      with Cons.IH [of ?w1 "u @ [c]" "i + 1"] w1 len Cons.prems obtain w' where
        "reads tables kern ctx (i + 1) cs ?w1 w'" "sits S_VAL_LEN src ms tb w'" "field_is (name_id p huff (u @ c # cs)) add key w'"
        by auto
      with byte show ?thesis by (blast intro: reads_Cons)
    qed
  qed
  then show thesis using that by blast
qed

end
