(* ===== verification/Http2_Decode.thy ===== *)
theory Http2_Decode
  imports Http2_Block
begin

section \<open>Decoding header blocks\<close>

text \<open>
  What each part of a representation does to the state of the walk, and that the walk over a
  header block is the decoding of RFC 7541: it leaves the dynamic table the decoder has, and
  for every field whose name is captured the place of its value.
\<close>

subsection \<open>The parts of a field\<close>

definition match_at :: "u8 \<Rightarrow> nat \<Rightarrow> hpack_string \<Rightarrow> http_match" where
  "match_at src i s = \<lparr>hm_idx = word_of_nat i, hm_len = word_of_nat (length (str_octets s)), hm_source = src, hm_huff = str_huff s\<rparr>"

definition string_flags :: "bool \<Rightarrow> u8" where
  "string_flags huff = (if huff then F_HUFF else 0)"

lemma len_mask:
  assumes "n \<le> MAX_BYTES"
  shows "(word_of_nat n :: u32) AND word_of_nat MAX_BYTES = word_of_nat n"
proof -
  have "(word_of_nat MAX_BYTES :: u32) = mask 15" by (simp add: MAX_BYTES_def mask_eq_exp_minus_1)
  moreover have "n < 2 ^ 15" using assms by (simp add: MAX_BYTES_def)
  ultimately show ?thesis unfolding \<open>word_of_nat MAX_BYTES = mask 15\<close> take_bit_eq_mask [symmetric]
    by (simp add: word_unat_eq_iff unsigned_take_bit_eq unsigned_of_nat take_bit_nat_eq_self)
qed

lemma ucast_nat16: "(ucast (word_of_nat n :: u32) :: u16) = word_of_nat n"
  by (simp add: word_unat_eq_iff unsigned_ucast_eq unsigned_of_nat take_bit_take_bit)

lemma int_bytes_not_Nil [simp]: "int_bytes bits base n \<noteq> []"
  by (simp add: int_bytes_def)

lemma string_match_told:
  assumes "same_flags (string_flags (str_huff s)) fl'" and "length (str_octets s) \<le> MAX_BYTES" and "i > 0"
  shows "string_match (hw_ps (told t k' m' (word_of_nat (i - 1)) v k fl' w))
      (word_of_nat (length (str_octets s)) AND word_of_nat MAX_BYTES) = match_at (ps_src (hw_ps w)) i s"
proof -
  have "(word_of_nat (i - 1) :: u32) + 1 = word_of_nat i" using assms(3) by (simp add: of_nat_diff)
  moreover have "fl' AND F_HUFF \<noteq> 0 \<longleftrightarrow> str_huff s"
    using assms(1) by (auto simp: same_flags_def string_flags_def flag_values split: if_splits)
  ultimately show ?thesis
    by (simp add: string_match_def told_def match_at_def ucast_nat16 len_mask [OF assms(2)])
qed

lemma completes_string:
  assumes "h2_loaded encode p tables" and "ps_s (hw_ps w) = (if is_key then S_KEY_LEN else S_VAL_LEN)"
    and "ps_skip (hw_ps w) = 0" and "length (str_octets s) \<le> MAX_BYTES"
  shows "completes tables kern ctx i (string_head s) w (if is_key then name_root (str_huff s) else S_FIELD)
      (if is_key then KeyLen else ValLen) (string_flags (str_huff s)) (length (str_octets s))"
proof -
  let ?n = "length (str_octets s)"
  have n: "?n < 2 ^ 32" using assms(4) by (simp add: MAX_BYTES_def)
  have len: "\<And>k to c ch. ?n < 2 ^ 7 - 1 \<Longrightarrow> length_byte k to c ch (0x00 OR word_of_nat ?n) = (fst to, Action2 k (word_of_nat ?n) 0)"
    "\<And>k to c ch. ?n < 2 ^ 7 - 1 \<Longrightarrow> length_byte k to c ch (0x80 OR word_of_nat ?n) = (snd to, Action2 k (word_of_nat ?n) F_HUFF)"
    by (intro length_bytes; simp)+
  have start: "\<And>k to c ch. length_byte k to c ch (0x00 OR word_of_nat (2 ^ 7 - 1)) = (c, Action2 IntStart (word_of_nat (2 ^ 7 - 1)) 0)"
    "\<And>k to c ch. length_byte k to c ch (0x80 OR word_of_nat (2 ^ 7 - 1)) = (ch, Action2 IntStart (word_of_nat (2 ^ 7 - 1)) 0)"
    using length_bytes(3,4) by simp_all
  show ?thesis
  proof (cases is_key; cases "str_huff s")
    assume k: "is_key" "str_huff s"
    show ?thesis unfolding string_head_def string_flags_def name_root_def
      by (simp only: k if_True, rule completes_int [OF assms(1), where f = "length_byte KeyLen (S_NAME_PLAIN, S_NAME) S_KEY_LEN_CONT S_KEY_LEN_CONT_HUFF"
            and cont = S_KEY_LEN_CONT_HUFF])
        (use assms(2,3) k n len(2) start(2) in \<open>simp_all add: hpack_bytes_def\<close>)
  next
    assume k: "is_key" "\<not> str_huff s"
    show ?thesis unfolding string_head_def string_flags_def name_root_def
      by (simp only: k if_True if_False, rule completes_int [OF assms(1), where f = "length_byte KeyLen (S_NAME_PLAIN, S_NAME) S_KEY_LEN_CONT S_KEY_LEN_CONT_HUFF"
            and cont = S_KEY_LEN_CONT])
        (use assms(2,3) k n len(1) start(1) in \<open>simp_all add: hpack_bytes_def\<close>)
  next
    assume k: "\<not> is_key" "str_huff s"
    show ?thesis unfolding string_head_def string_flags_def
      by (simp only: k if_True if_False, rule completes_int [OF assms(1), where f = "length_byte ValLen (S_FIELD, S_FIELD) S_VAL_LEN_CONT S_VAL_LEN_CONT_HUFF"
            and cont = S_VAL_LEN_CONT_HUFF])
        (use assms(2,3) k n len(2) start(2) in \<open>simp_all add: hpack_bytes_def\<close>)
  next
    assume k: "\<not> is_key" "\<not> str_huff s"
    show ?thesis unfolding string_head_def string_flags_def
      by (simp only: k if_True if_False, rule completes_int [OF assms(1), where f = "length_byte ValLen (S_FIELD, S_FIELD) S_VAL_LEN_CONT S_VAL_LEN_CONT_HUFF"
            and cont = S_VAL_LEN_CONT])
        (use assms(2,3) k n len(1) start(1) in \<open>simp_all add: hpack_bytes_def\<close>)
  qed
qed

lemma told_simps [simp]:
  "hw_ms (told t k' m' j v k fl w) = hw_ms w" "hw_tb (told t k' m' j v k fl w) = hw_tb w"
  "hw_ps (told t k' m' j v k fl w) = (hw_ps w)\<lparr>ps_s := t, ps_k := k', ps_m := m', ps_i := j, ps_v := v,
     ps_kind := kind_u8 k, ps_flags := fl\<rparr>"
  by (simp_all add: told_def)

lemma reads_string:
  "reads tables kern ctx i (string_head s) w w1 \<Longrightarrow>
   reads tables kern ctx (i + length (string_head s)) (str_octets s) w1 w2 \<Longrightarrow> reads tables kern ctx i (string_bytes s) w w2"
  unfolding string_bytes_def by (rule reads_append)

lemma reads_value:
  fixes i :: nat
  assumes "h2_loaded encode p tables" and "sits S_VAL_LEN src ms tb w" and "field_is cid add key w"
    and "length (str_octets v) \<le> MAX_BYTES"
  defines "m \<equiv> match_at src (i + length (string_head v)) v"
  obtains w' where "reads tables kern ctx i (string_bytes v) w w'"
    and "sits S_FIELD src (if 0 \<le> cid then ms[nat cid := m] else ms)
      (if add then snd (add_dynamic_table_entry kern ctx key m tb) else tb) w'"
proof -
  let ?n = "length (str_octets v)"
  let ?ms = "if 0 \<le> cid then ms[nat cid := m] else ms"
    and ?tb = "if add then snd (add_dynamic_table_entry kern ctx key m tb) else tb"
  note w = assms(2,3) [unfolded sits_def field_is_def]
  have c: "completes tables kern ctx i (string_head v) w S_FIELD ValLen (string_flags (str_huff v)) ?n"
    using completes_string [OF assms(1), of w False v kern ctx i] w assms(4) by simp
  obtain w1 where w1: "reads tables kern ctx i (string_head v) w w1"
    and P: "ps_s (hw_ps w1) = S_FIELD \<and> ps_skip (hw_ps w1) = word_of_nat ?n \<and> \<not> ps_is_key (hw_ps w1) \<and>
      ps_src (hw_ps w1) = src \<and> hw_ms w1 = ?ms \<and> hw_tb w1 = ?tb"
  proof (rule reads_completes [OF c])
    fix k' m' fl'
    assume same: "same_flags (string_flags (str_huff v)) fl'"
    let ?w = "told S_FIELD k' m' (word_of_nat (i + length (string_head v) - 1)) (word_of_nat ?n) ValLen fl' w"
    have match: "string_match (hw_ps ?w) (word_of_nat ?n AND word_of_nat MAX_BYTES) = m"
      using string_match_told [OF same assms(4), of "i + length (string_head v)" S_FIELD k' m' "word_of_nat ?n" ValLen w] w
      by (simp add: m_def string_head_def)
    have "h2_run_action tables kern ctx ?w = (0, run_value kern ctx (word_of_nat ?n AND word_of_nat MAX_BYTES) ?w)"
      by (simp add: h2_run_action_def)
    moreover have "(let w' = run_value kern ctx (word_of_nat ?n AND word_of_nat MAX_BYTES) ?w in
        ps_s (hw_ps w') = S_FIELD \<and> ps_skip (hw_ps w') = word_of_nat ?n \<and> \<not> ps_is_key (hw_ps w') \<and>
        ps_src (hw_ps w') = src \<and> hw_ms w' = ?ms \<and> hw_tb w' = ?tb)"
      using w unfolding run_value_def Let_def match by (simp add: len_mask [OF assms(4)])
    ultimately show "\<exists>w'. h2_run_action tables kern ctx ?w = (0, w') \<and> ps_s (hw_ps w') = S_FIELD \<and>
        ps_skip (hw_ps w') = word_of_nat ?n \<and> \<not> ps_is_key (hw_ps w') \<and> ps_src (hw_ps w') = src \<and>
        hw_ms w' = ?ms \<and> hw_tb w' = ?tb" by (simp add: Let_def)
  qed
  have n: "?n < 2 ^ 32" using assms(4) by (simp add: MAX_BYTES_def)
  from P have s: "ps_skip (hw_ps w1) = word_of_nat ?n" "\<not> ps_is_key (hw_ps w1)"
    and st: "sits (ps_s (hw_ps w1)) (ps_src (hw_ps w1)) (hw_ms w1) (hw_tb w1) = sits S_FIELD src ?ms ?tb"
    by simp_all
  obtain w2 where "reads tables kern ctx (i + length (string_head v)) (str_octets v) w1 w2" and "sits S_FIELD src ?ms ?tb w2"
    using reads_skipped [OF s(1) n s(2), of tables kern ctx "i + length (string_head v)"] unfolding st by blast
  then show thesis by (intro that reads_string [OF w1])
qed

lemma reads_name_string:
  assumes "h2_loaded encode p tables" and "sits S_KEY_LEN src ms tb w" and "ps_cid (hw_ps w) = - 1"
    and "ps_add_to_dt (hw_ps w) = add" and "length (str_octets s) \<le> MAX_BYTES"
  obtains w' where "reads tables kern ctx i (string_bytes s) w w'" and "sits S_VAL_LEN src ms tb w'"
    and "field_is (name_id p (str_huff s) (str_octets s)) add (match_at src (i + length (string_head s)) s) w'"
proof -
  let ?n = "length (str_octets s)" and ?m = "match_at src (i + length (string_head s)) s"
  note w = assms(2) [unfolded sits_def]
  have c: "completes tables kern ctx i (string_head s) w (name_root (str_huff s)) KeyLen (string_flags (str_huff s)) ?n"
    using completes_string [OF assms(1), of w True s kern ctx i] w assms(5) by simp
  have n: "?n < 2 ^ 32" using assms(5) by (simp add: MAX_BYTES_def)
  have zero: "(word_of_nat ?n :: u32) = 0 \<longleftrightarrow> str_octets s = []"
    using unat_u32 [OF n] by (cases "str_octets s") (auto simp: word_unat_eq_iff)
  obtain w1 where w1: "reads tables kern ctx i (string_head s) w w1"
    and P: "ps_s (hw_ps w1) = (if str_octets s = [] then S_VAL_LEN else name_root (str_huff s)) \<and>
      ps_skip (hw_ps w1) = word_of_nat ?n \<and> ps_is_key (hw_ps w1) \<and>
      ps_src (hw_ps w1) = src \<and> hw_ms w1 = ms \<and> hw_tb w1 = tb \<and> field_is (- 1) add ?m w1"
  proof (rule reads_completes [OF c])
    fix k' m' fl'
    assume same: "same_flags (string_flags (str_huff s)) fl'"
    let ?w = "told (name_root (str_huff s)) k' m' (word_of_nat (i + length (string_head s) - 1)) (word_of_nat ?n) KeyLen fl' w"
    have match: "string_match (hw_ps ?w) (word_of_nat ?n AND word_of_nat MAX_BYTES) = ?m"
      using string_match_told [OF same assms(5), of "i + length (string_head s)" _ k' m' "word_of_nat ?n" KeyLen w] w
      by (simp add: string_head_def)
    have match: "string_match ((hw_ps w)\<lparr>ps_s := name_root (str_huff s), ps_k := k', ps_m := m',
        ps_i := word_of_nat (i + length (string_head s) - 1), ps_v := word_of_nat ?n, ps_kind := kind_u8 KeyLen,
        ps_flags := fl'\<rparr>) (word_of_nat ?n) = ?m"
      using match unfolding told_simps len_mask [OF assms(5)] .
    show "\<exists>w'. h2_run_action tables kern ctx ?w = (0, w') \<and>
        ps_s (hw_ps w') = (if str_octets s = [] then S_VAL_LEN else name_root (str_huff s)) \<and>
        ps_skip (hw_ps w') = word_of_nat ?n \<and> ps_is_key (hw_ps w') \<and> ps_src (hw_ps w') = src \<and>
        hw_ms w' = ms \<and> hw_tb w' = tb \<and> field_is (- 1) add ?m w'"
      unfolding h2_run_action_def Let_def told_simps using w assms(3,4) zero match
      by (simp add: len_mask [OF assms(5)] field_is_def)
  qed
  show thesis
  proof (cases "str_octets s = []")
    case True
    have "reads tables kern ctx i (string_bytes s) w w1" using w1 True by (simp add: string_bytes_def)
    moreover have "sits S_VAL_LEN src ms tb w1" using P True by (simp add: sits_def)
    moreover have "name_id p (str_huff s) [] = - 1" by (simp add: name_id_def action_id_def)
    ultimately show thesis using that P True by simp
  next
    case False
    have root: "trie_state p (str_huff s) [] = name_root (str_huff s)" by (simp add: trie_state_def)
    from P False have "ps_add_to_dt (hw_ps w1) = add" "ps_key (hw_ps w1) = ?m" by (simp_all add: field_is_def)
    with P False root obtain w2 where "reads tables kern ctx (i + length (string_head s)) (str_octets s) w1 w2"
      and "sits S_VAL_LEN src ms tb w2" and "field_is (name_id p (str_huff s) ([] @ str_octets s)) add ?m w2"
      using reads_name [OF assms(1), of w1 "str_huff s" "[]" "str_octets s" src ms tb add ?m kern ctx "i + length (string_head s)"] n
      by auto
    then show thesis by (intro that reads_string [OF w1]) simp_all
  qed
qed

text \<open>The id of the name of a table entry, and what an index is recorded as.\<close>

definition field_id :: "h2_parser \<Rightarrow> http2_hdr_field \<Rightarrow> int" where
  "field_id p hf = name_id p (hf_key_huff hf \<noteq> 0) (take (min (unat (hf_key_len hf)) HEADER_FIELD_MAXLEN) (hf_key hf))"

definition entry_id :: "h2_parser \<Rightarrow> http2_hdr_field option \<Rightarrow> int" where
  "entry_id p hf = (case hf of None \<Rightarrow> - 1 | Some hf \<Rightarrow> field_id p hf)"

definition table_match :: "u32 \<Rightarrow> u16 \<Rightarrow> http_match" where
  "table_match slot len = \<lparr>hm_idx = ucast slot, hm_len = len, hm_source = HTTP_SRC_TABLE, hm_huff = False\<rparr>"

lemma name_id_cases: "name_id p huff w = - 1 \<or> 0 \<le> name_id p huff w"
  by (auto simp: name_id_def action_id_def split: option.split h2_action.split kind.split)

lemma name_id_Nil [simp]: "name_id p huff [] = - 1"
  by (simp add: name_id_def action_id_def)

lemma found_or_not:
  "x = - 1 \<or> 0 \<le> x \<Longrightarrow> (none \<Longrightarrow> x = - 1) \<Longrightarrow> m = (if none then - ENOENT else x) \<Longrightarrow>
     (m < 0 \<longleftrightarrow> x = - 1) \<and> (0 \<le> m \<longrightarrow> m = x)"
  by (auto simp: ENOENT_def)

lemma run_index_result:
  assumes "h2_loaded encode p tables"
    and cid_def: "cid = entry_id p (get_table_entry kern (mc_conn ctx) (hw_tb w) (ps_v (hw_ps w)))"
    and slot_def: "slot = table_slot (tb_info (hw_tb w)) (ps_v (hw_ps w))"
  shows "run_index tables kern ctx w = w\<lparr>hw_ps := (hw_ps w)\<lparr>ps_add_to_dt := ps_flags (hw_ps w) AND F_ADD_DT \<noteq> 0,
        ps_cid := (if ps_kind (hw_ps w) = kind_u8 IdxName then cid else - 1), ps_key := table_match slot 0\<rparr>,
      hw_ms := (if ps_kind (hw_ps w) = kind_u8 IdxName \<or> cid < 0 then hw_ms w
        else (hw_ms w)[nat cid := table_match slot 127])\<rparr>"
proof (cases "get_table_entry kern (mc_conn ctx) (hw_tb w) (ps_v (hw_ps w))")
  case None
  then show ?thesis
    by (simp add: run_index_def Let_def cid_def entry_id_def slot_def table_match_def)
next
  case (Some hf)
  let ?w = "take (min (unat (hf_key_len hf)) HEADER_FIELD_MAXLEN) (hf_key hf)"
  let ?mid = "match_header_key tables (hf_key hf) (min (unat (hf_key_len hf)) HEADER_FIELD_MAXLEN) (hf_key_huff hf \<noteq> 0)"
  have cid: "cid = name_id p (hf_key_huff hf \<noteq> 0) ?w" by (simp add: cid_def entry_id_def Some field_id_def)
  have eq: "?mid = (if ?w = [] then - ENOENT else cid)" unfolding match_header_key_name [OF assms(1)] cid ..
  have "cid = - 1 \<or> 0 \<le> cid" unfolding cid by (rule name_id_cases)
  moreover have "?w = [] \<Longrightarrow> cid = - 1" unfolding cid by (simp only: name_id_Nil)
  ultimately have "(?mid < 0 \<longleftrightarrow> cid = - 1) \<and> (0 \<le> ?mid \<longrightarrow> ?mid = cid)"
    using eq by (rule found_or_not)
  then have mid: "?mid < 0 \<longleftrightarrow> cid = - 1" "0 \<le> ?mid \<Longrightarrow> ?mid = cid" by simp_all
  show ?thesis
  proof (cases "?mid < 0")
    case True
    with mid(1) show ?thesis by (simp add: run_index_def Let_def Some slot_def table_match_def)
  next
    case False
    then have "?mid = cid" and "0 \<le> cid" using mid(2) by simp_all
    then show ?thesis by (simp add: run_index_def Let_def Some slot_def table_match_def HEADER_FIELD_MAXLEN_def)
  qed
qed

lemma reads_index:
  assumes "h2_loaded encode p tables" and "sits S_FIELD src ms tb w" and "0 < n" and "n < 2 ^ 32"
    and cid_def: "cid = entry_id p (get_table_entry kern (mc_conn ctx) tb (word_of_nat n))"
  obtains w' where "reads tables kern ctx i (int_bytes 7 0x80 n) w w'"
    and "sits S_FIELD src (if cid < 0 then ms
      else ms[nat cid := table_match (table_slot (tb_info tb) (word_of_nat n)) 127]) tb w'"
proof -
  note w = assms(2) [unfolded sits_def]
  have "completes tables kern ctx i (int_bytes 7 0x80 n) w S_FIELD Indexed 0 n"
    by (rule completes_int [OF assms(1), where f = first_byte and cont = S_IDX7_CONT])
      (use w assms(3,4) first_bytes(1) start_bytes(1) in \<open>simp_all add: hpack_bytes_def\<close>)
  then show thesis
  proof (rule reads_completes [OF _ _ that])
    fix k' m' fl'
    let ?w = "told S_FIELD k' m' (word_of_nat (i + length (int_bytes 7 0x80 n) - 1)) (word_of_nat n) Indexed fl' w"
    have "h2_run_action tables kern ctx ?w = (0, run_index tables kern ctx ?w)" by (simp add: h2_run_action_def)
    then show "\<exists>w'. h2_run_action tables kern ctx ?w = (0, w') \<and> sits S_FIELD src (if cid < 0 then ms
        else ms[nat cid := table_match (table_slot (tb_info tb) (word_of_nat n)) 127]) tb w'"
      using w by (simp add: run_index_result [OF assms(1) refl refl] sits_def cid_def)
  qed
qed

lemma reads_name_index:
  assumes "h2_loaded encode p tables" and "sits S_FIELD src ms tb w" and "0 < n" and "n < 2 ^ 32"
  obtains w' where "reads tables kern ctx i (name_bytes ix (NameIndex n)) w w'" and "sits S_VAL_LEN src ms tb w'"
    and "field_is (entry_id p (get_table_entry kern (mc_conn ctx) tb (word_of_nat n))) (ix = Incremental)
      (table_match (table_slot (tb_info tb) (word_of_nat n)) 0) w'"
proof -
  note w = assms(2) [unfolded sits_def]
  let ?fl = "if ix = Incremental then F_ADD_DT else 0"
  have "completes tables kern ctx i (name_bytes ix (NameIndex n)) w S_VAL_LEN IdxName ?fl n"
  proof (cases ix)
    case Incremental
    show ?thesis unfolding Incremental name_bytes.simps literal_bits.simps literal_base.simps
      by (rule completes_int [OF assms(1), where f = first_byte and cont = S_IDX6_CONT])
        (use w assms(3,4) first_bytes(2) start_bytes(2) in \<open>simp_all add: hpack_bytes_def\<close>)
  next
    case WithoutIndexing
    show ?thesis unfolding WithoutIndexing name_bytes.simps literal_bits.simps literal_base.simps
      by (rule completes_int [OF assms(1), where f = first_byte and cont = S_IDX4_CONT])
        (use w assms(3,4) first_bytes(3) start_bytes(3) in \<open>simp_all add: hpack_bytes_def\<close>)
  next
    case NeverIndexed
    show ?thesis unfolding NeverIndexed name_bytes.simps literal_bits.simps literal_base.simps
      by (rule completes_int [OF assms(1), where f = first_byte and cont = S_IDX4_CONT])
        (use w assms(3,4) first_bytes(4) start_bytes(4) in \<open>simp_all add: hpack_bytes_def\<close>)
  qed
  then have "\<exists>w'. reads tables kern ctx i (name_bytes ix (NameIndex n)) w w' \<and> (sits S_VAL_LEN src ms tb w' \<and>
    field_is (entry_id p (get_table_entry kern (mc_conn ctx) tb (word_of_nat n))) (ix = Incremental)
      (table_match (table_slot (tb_info tb) (word_of_nat n)) 0) w')"
  proof (rule reads_completes)
    fix k' m' fl'
    assume same: "same_flags ?fl fl'"
    let ?w = "told S_VAL_LEN k' m' (word_of_nat (i + length (name_bytes ix (NameIndex n)) - 1)) (word_of_nat n) IdxName fl' w"
    have add: "fl' AND F_ADD_DT \<noteq> 0 \<longleftrightarrow> ix = Incremental"
      using same by (auto simp: same_flags_def flag_values split: if_splits)
    have "h2_run_action tables kern ctx ?w = (0, run_index tables kern ctx ?w)" by (simp add: h2_run_action_def)
    then show "\<exists>w'. h2_run_action tables kern ctx ?w = (0, w') \<and> (sits S_VAL_LEN src ms tb w' \<and>
        field_is (entry_id p (get_table_entry kern (mc_conn ctx) tb (word_of_nat n))) (ix = Incremental)
          (table_match (table_slot (tb_info tb) (word_of_nat n)) 0) w')"
      using w add by (simp add: run_index_result [OF assms(1) refl refl] sits_def field_is_def)
  qed blast
  then show thesis using that by blast
qed

lemma reads_literal_start:
  assumes "h2_loaded encode p tables" and "sits S_FIELD src ms tb w"
  obtains w' where "reads tables kern ctx i [literal_base ix] w w'" and "sits S_KEY_LEN src ms tb w'"
    and "ps_cid (hw_ps w') = - 1" and "ps_add_to_dt (hw_ps w') \<longleftrightarrow> ix = Incremental"
proof -
  note w = assms(2) [unfolded sits_def]
  let ?fl = "if ix = Incremental then F_ADD_DT else 0"
  let ?w = "w\<lparr>hw_ps := (hw_ps w)\<lparr>ps_i := word_of_nat i\<rparr>\<rparr>"
  let ?P = "\<lambda>w'. sits S_KEY_LEN src ms tb w' \<and> ps_cid (hw_ps w') = - 1 \<and> (ps_add_to_dt (hw_ps w') \<longleftrightarrow> ix = Incremental)"
  have first: "first_byte (literal_base ix) = (S_KEY_LEN, Action2 LitName 0 ?fl)"
    using start_bytes(6-8) by (cases ix) simp_all
  have "fl \<in> {0, F_ADD_DT} \<Longrightarrow> fl AND F_CONT = 0" for fl by (auto simp: flag_values)
  then have fl: "?fl AND F_CONT = 0" by auto
  have "(S_FIELD, first_byte) \<in> set hpack_bytes" by (simp add: hpack_bytes_def)
  then have byte: "parse_hdr_byte tables kern ctx (literal_base ix) ?w =
      h2_run_action tables kern ctx (announce LitName ?fl (ucast (0 :: u16)) (arrive S_KEY_LEN ?w))"
    using parse_byte_action(3) [OF assms(1), of ?w first_byte, OF _ _ first _ fl] w by simp
  have "\<exists>w'. h2_run_action tables kern ctx (announce LitName ?fl (ucast (0 :: u16)) (arrive S_KEY_LEN ?w)) = (0, w') \<and> ?P w'"
    using w unfolding h2_run_action_def Let_def announce_def arrive_def by (auto simp: sits_def flag_values)
  then obtain w' where "parse_hdr_byte tables kern ctx (literal_base ix) ?w = (0, w')" "?P w'" using byte by auto
  then show thesis by (intro that [of w']) (simp_all add: reads_def)
qed

lemma reads_size_update:
  assumes "h2_loaded encode p tables" and "sits S_FIELD src ms tb w" and "n < 2 ^ 32"
  obtains w' where "reads tables kern ctx i (int_bytes 5 0x20 n) w w'"
    and "sits S_FIELD src ms (table_size_update (mc_conn ctx) (word_of_nat n) tb) w'"
proof -
  note w = assms(2) [unfolded sits_def]
  have "completes tables kern ctx i (int_bytes 5 0x20 n) w S_FIELD TableSize 0 n"
    by (rule completes_int [OF assms(1), where f = first_byte and cont = S_STG_CONT])
      (use w assms(3) first_bytes(5) start_bytes(5) in \<open>simp_all add: hpack_bytes_def\<close>)
  then show thesis
  proof (rule reads_completes [OF _ _ that])
    fix k' m' fl'
    let ?w = "told S_FIELD k' m' (word_of_nat (i + length (int_bytes 5 0x20 n) - 1)) (word_of_nat n) TableSize fl' w"
    show "\<exists>w'. h2_run_action tables kern ctx ?w = (0, w') \<and>
        sits S_FIELD src ms (table_size_update (mc_conn ctx) (word_of_nat n) tb) w'"
      using w by (simp add: h2_run_action_def sits_def)
  qed
qed

end
