(* ===== verification/Http2_Decoder.thy ===== *)
theory Http2_Decoder
  imports Http2_Decode
begin

section \<open>The walk is a decoder\<close>

text \<open>
  The decoder of RFC 7541, as far as the program keeps its state: the dynamic table with the
  oldest entry first, its maximum size, how many entries were ever added, and the places of the
  values captured so far. \<open>idf\<close> is the id a name is captured as, or \<open>-1\<close>. The walk keeps the
  state of the decoder with every representation.
\<close>

subsection \<open>The decoder\<close>

record decoder =
  dec_table :: "dynamic_table_entry list"
  dec_max :: u32
  dec_added :: nat
  dec_ms :: "http_match list"

type_synonym name_ids = "bool \<Rightarrow> bytes \<Rightarrow> int"

definition dec_field :: "h2_kernel \<Rightarrow> decoder \<Rightarrow> nat \<Rightarrow> http2_hdr_field option" where
  "dec_field kern D n =
     (if n = 0 then None
      else if n \<le> 61 then k_static kern (word_of_nat n)
      else if n \<le> 61 + length (dec_table D) then Some (dte_field (rev (dec_table D) ! (n - 62)))
      else None)"

lemma dec_field_pos: "dec_field kern D n \<noteq> None \<Longrightarrow> 0 < n"
  by (cases n) (simp_all add: dec_field_def)

text \<open>Where an entry is stored: an entry of the dynamic table under the count of the entries added before it.\<close>

definition dec_slot :: "decoder \<Rightarrow> nat \<Rightarrow> nat" where
  "dec_slot D n = (if n \<le> 61 then n else 62 + dec_added D - (n - 61))"

definition string_part :: "hpack_string \<Rightarrow> bytes \<times> u32 \<times> bool" where
  "string_part s = (str_octets s, word_of_nat (length (str_octets s)), str_huff s)"

fun dec_name :: "h2_kernel \<Rightarrow> decoder \<Rightarrow> field_name \<Rightarrow> bytes \<times> u32 \<times> bool" where
  "dec_name kern D (NameString s) = string_part s"
| "dec_name kern D (NameIndex n) = (case dec_field kern D n of Some hf \<Rightarrow> field_part True hf | None \<Rightarrow> ([], 0, False))"

definition stored_name_id :: "name_ids \<Rightarrow> http2_hdr_field option \<Rightarrow> int" where
  "stored_name_id idf hf = (case hf of None \<Rightarrow> - 1
     | Some hf \<Rightarrow> idf (hf_key_huff hf \<noteq> 0) (take (min (unat (hf_key_len hf)) HEADER_FIELD_MAXLEN) (hf_key hf)))"

fun dec_name_id :: "name_ids \<Rightarrow> h2_kernel \<Rightarrow> decoder \<Rightarrow> field_name \<Rightarrow> int" where
  "dec_name_id idf kern D (NameString s) = idf (str_huff s) (str_octets s)"
| "dec_name_id idf kern D (NameIndex n) = stored_name_id idf (dec_field kern D n)"

definition dec_capture :: "int \<Rightarrow> http_match \<Rightarrow> decoder \<Rightarrow> decoder" where
  "dec_capture cid m D = (if cid < 0 then D else D\<lparr>dec_ms := (dec_ms D)[nat cid := m]\<rparr>)"

definition dec_add :: "dynamic_table_entry \<Rightarrow> decoder \<Rightarrow> decoder" where
  "dec_add e D = D\<lparr>dec_table := rfc_add (unat (dec_max D)) e (dec_table D),
     dec_added := dec_added D + (if unat (dte_size e) \<le> unat (dec_max D) then 1 else 0)\<rparr>"

text \<open>A representation that starts at offset \<open>i\<close> of the source \<open>src\<close>.\<close>

fun decode :: "name_ids \<Rightarrow> h2_kernel \<Rightarrow> u8 \<Rightarrow> nat \<Rightarrow> representation \<Rightarrow> decoder \<Rightarrow> decoder" where
  "decode idf kern src i (IndexedField n) D =
     dec_capture (stored_name_id idf (dec_field kern D n)) (table_match (word_of_nat (dec_slot D n)) 127) D"
| "decode idf kern src i (LiteralField ix name v) D =
     dec_capture (dec_name_id idf kern D name) (match_at src (i + length (name_bytes ix name) + length (string_head v)) v)
       (if ix = Incremental then dec_add (new_entry kern (dec_name kern D name) (string_part v)) D else D)"
| "decode idf kern src i (SizeUpdate n) D = D\<lparr>dec_table := rfc_evict n 0 (dec_table D), dec_max := word_of_nat n\<rparr>"

text \<open>
  What the program can follow: indices that name an entry, strings of a length it can count, no
  field that is added, Huffman coded and too long to be kept, and counters that do not overflow.
\<close>

fun name_readable :: "h2_kernel \<Rightarrow> decoder \<Rightarrow> field_name \<Rightarrow> bool" where
  "name_readable kern D (NameString s) \<longleftrightarrow> length (str_octets s) \<le> MAX_BYTES"
| "name_readable kern D (NameIndex n) \<longleftrightarrow> n < 2 ^ 32 \<and> dec_field kern D n \<noteq> None"

fun decodable :: "h2_kernel \<Rightarrow> decoder \<Rightarrow> representation \<Rightarrow> bool" where
  "decodable kern D (IndexedField n) \<longleftrightarrow> n < 2 ^ 32 \<and> dec_field kern D n \<noteq> None"
| "decodable kern D (LiteralField ix name v) \<longleftrightarrow> name_readable kern D name \<and> length (str_octets v) \<le> MAX_BYTES \<and>
     (ix = Incremental \<longrightarrow> \<not> cut_off (dec_name kern D name) \<and> \<not> cut_off (string_part v) \<and>
        table_size (dec_table D) + unat (dte_size (new_entry kern (dec_name kern D name) (string_part v))) < 2 ^ 32)"
| "decodable kern D (SizeUpdate n) \<longleftrightarrow> n < 2 ^ 32"

fun decode_all :: "name_ids \<Rightarrow> h2_kernel \<Rightarrow> u8 \<Rightarrow> nat \<Rightarrow> representation list \<Rightarrow> decoder \<Rightarrow> decoder" where
  "decode_all idf kern src i [] D = D"
| "decode_all idf kern src i (r # rs) D = decode_all idf kern src (i + length (repr_bytes r)) rs (decode idf kern src i r D)"

fun decodable_all :: "name_ids \<Rightarrow> h2_kernel \<Rightarrow> u8 \<Rightarrow> nat \<Rightarrow> representation list \<Rightarrow> decoder \<Rightarrow> bool" where
  "decodable_all idf kern src i [] D \<longleftrightarrow> True"
| "decodable_all idf kern src i (r # rs) D \<longleftrightarrow> decodable kern D r \<and> 62 + dec_added D < 0xFFFF \<and> table_size (dec_table D) < 2 ^ 32 \<and>
     decodable_all idf kern src (i + length (repr_bytes r)) rs (decode idf kern src i r D)"

subsection \<open>The state of the walk\<close>

text \<open>
  The maps hold the table of the decoder \<open>D\<close> for \<open>conn\<close>, and what they held before, \<open>es0\<close>, for
  every other connection.
\<close>

definition table_follows :: "ip4_conn \<Rightarrow> entry_map \<Rightarrow> decoder \<Rightarrow> h2_table \<Rightarrow> bool" where
  "table_follows conn es0 D tb \<longleftrightarrow> holds conn tb (dec_table D) \<and>
     dt_dirty (tb_info tb) = 0 \<and> dt_max_size (tb_info tb) = dec_max D \<and>
     unat (dt_count (tb_info tb) + dt_deleted (tb_info tb)) = dec_added D \<and>
     (\<forall>key. dtk_conn key \<noteq> conn \<longrightarrow> tb_entries tb key = es0 key)"

text \<open>The walk stands at the start of a representation, with the state of the decoder \<open>D\<close>.\<close>

definition follows :: "msg_ctx \<Rightarrow> entry_map \<Rightarrow> u8 \<Rightarrow> decoder \<Rightarrow> h2_walk \<Rightarrow> bool" where
  "follows ctx es0 src D w \<longleftrightarrow> sits S_FIELD src (dec_ms D) (hw_tb w) w \<and> table_follows (mc_conn ctx) es0 D (hw_tb w)"

lemma table_followsD:
  assumes "table_follows conn es0 D tb"
  shows "holds conn tb (dec_table D)" and "dt_dirty (tb_info tb) = 0" and "dt_max_size (tb_info tb) = dec_max D"
    and "unat (dt_count (tb_info tb) + dt_deleted (tb_info tb)) = dec_added D"
    and "unat (dt_deleted (tb_info tb)) + length (dec_table D) = dec_added D"
    and "dtk_conn key \<noteq> conn \<Longrightarrow> tb_entries tb key = es0 key"
proof -
  show h: "holds conn tb (dec_table D)"
    and a: "unat (dt_count (tb_info tb) + dt_deleted (tb_info tb)) = dec_added D"
    and "dt_dirty (tb_info tb) = 0" and "dt_max_size (tb_info tb) = dec_max D"
    and "dtk_conn key \<noteq> conn \<Longrightarrow> tb_entries tb key = es0 key"
    using assms by (simp_all add: table_follows_def)
  show "unat (dt_deleted (tb_info tb)) + length (dec_table D) = dec_added D"
    using holdsD(1,3) [OF h] unfolding a [symmetric] by (subst unat_add32) simp_all
qed

lemma followed_entry:
  assumes "table_follows conn es0 D tb" and "n < 2 ^ 32"
  shows "get_table_entry kern conn tb (word_of_nat n) = dec_field kern D n"
proof -
  have "(word_of_nat n :: u32) = 0 \<longleftrightarrow> n = 0" using unat_u32 [OF assms(2)] by (auto simp: word_unat_eq_iff)
  then show ?thesis
    unfolding get_table_entry_holds [OF table_followsD(1) [OF assms(1)] table_followsD(2) [OF assms(1)]] unat_u32 [OF assms(2)]
    by (simp add: dec_field_def)
qed

lemma followed_slot:
  assumes "table_follows conn es0 D tb" and "n < 2 ^ 32" and "dec_field kern D n \<noteq> None" and "62 + dec_added D < 0xFFFF"
  shows "table_slot (tb_info tb) (word_of_nat n) = word_of_nat (dec_slot D n)" and "dec_slot D n \<le> 0xFFFF"
    and "61 < n \<Longrightarrow> n - 61 \<le> length (dec_table D)"
proof -
  let ?info = "tb_info tb" and ?n = "word_of_nat n :: u32"
  note n = unat_u32 [OF assms(2)] and F = table_followsD [OF assms(1)] and H = holdsD [OF table_followsD(1) [OF assms(1)]]
  have range: "n \<noteq> 0" "61 < n \<Longrightarrow> n \<le> 61 + length (dec_table D)"
    using assms(3) by (auto simp: dec_field_def split: if_splits)
  then show "61 < n \<Longrightarrow> n - 61 \<le> length (dec_table D)" by simp
  show slot: "dec_slot D n \<le> 0xFFFF" using assms(4) by (auto simp: dec_slot_def)
  have end_idx: "unat (STATIC_TABLE_SIZE + dt_count ?info) = 61 + length (dec_table D)"
    using H(1,3) by (subst unat_add32) (simp_all add: STATIC_TABLE_SIZE_def)
  have valid: "is_valid_hpack_index ?info ?n"
    using range by (cases "61 < n") (auto simp: is_valid_hpack_index_def word_le_nat_alt word_less_nat_alt end_idx n)
  have dyn: "STATIC_TABLE_SIZE < ?n \<longleftrightarrow> 61 < n" by (simp add: STATIC_TABLE_SIZE_def word_less_nat_alt n)
  have idx: "(if STATIC_TABLE_SIZE < ?n then get_dynamic_table_index ?info ?n else ?n) = word_of_nat (dec_slot D n)"
  proof (cases "61 < n")
    case True
    have last: "unat (STATIC_TABLE_SIZE + dt_count ?info + dt_deleted ?info) = 61 + dec_added D"
      using end_idx H(3) F(5) by (subst unat_add32) simp_all
    then have le: "?n \<le> STATIC_TABLE_SIZE + dt_count ?info + dt_deleted ?info"
      using range(2) [OF True] F(5) by (simp add: word_le_nat_alt n)
    have "unat (STATIC_TABLE_SIZE + dt_count ?info + dt_deleted ?info - ?n) = 61 + dec_added D - n"
      using last le by (simp add: unat_sub n)
    then have "unat (get_dynamic_table_index ?info ?n) = dec_slot D n"
      unfolding get_dynamic_table_index_def Let_def dec_slot_def
      using True range(2) [OF True] F(5) assms(4) by (subst unat_add32) (auto simp: DYNAMIC_TABLE_BASE_def)
    then have "get_dynamic_table_index ?info ?n = word_of_nat (dec_slot D n)"
      using slot by (simp add: word_unat_eq_iff unat_u32)
    with True show ?thesis by (simp add: dyn)
  next
    case False
    then show ?thesis by (simp add: dyn dec_slot_def)
  qed
  have "\<not> 0xFFFF < (word_of_nat (dec_slot D n) :: u32)" using slot by (simp add: word_less_nat_alt unat_u32)
  then show "table_slot ?info ?n = word_of_nat (dec_slot D n)" unfolding table_slot_def Let_def idx using valid by simp
qed

subsection \<open>Names and values\<close>

text \<open>The bytes a match into the source \<open>src\<close> names are those at its offset of \<open>data\<close>.\<close>

definition source_holds :: "h2_kernel \<Rightarrow> msg_ctx \<Rightarrow> u8 \<Rightarrow> bytes \<Rightarrow> bool" where
  "source_holds kern ctx src data \<longleftrightarrow> (\<exists>junk. \<forall>idx len huff es is_key. idx + len \<le> length data \<longrightarrow>
     match_bytes kern ctx es \<lparr>hm_idx = word_of_nat idx, hm_len = word_of_nat len, hm_source = src, hm_huff = huff\<rparr> is_key =
       Some (drop idx (data @ junk), word_of_nat len, huff))"

lemma unat_u16: "n < 2 ^ 16 \<Longrightarrow> unat (word_of_nat n :: u16) = n"
  by (simp add: unsigned_of_nat take_bit_nat_eq_self)

lemma ucast_u16_u32: "n < 2 ^ 16 \<Longrightarrow> (ucast (word_of_nat n :: u16) :: u32) = word_of_nat n"
  unfolding word_unat_eq_iff unat_ucast16 by (simp add: unat_u16 unat_u32 del: of_nat_numeral)

lemma message_source: "source_holds kern ctx HTTP_SRC_MSG (take MAX_BYTES (mc_data ctx))"
proof -
  have "match_bytes kern ctx es \<lparr>hm_idx = word_of_nat idx, hm_len = word_of_nat len, hm_source = HTTP_SRC_MSG, hm_huff = huff\<rparr> is_key =
      Some (drop idx (take MAX_BYTES (mc_data ctx) @ drop MAX_BYTES (mc_data ctx)), word_of_nat len, huff)"
    if "idx + len \<le> length (take MAX_BYTES (mc_data ctx))" for idx len huff es is_key
  proof -
    have "idx < 2 ^ 16" and "len < 2 ^ 16" and "idx + len \<le> length (mc_data ctx)" using that by (simp_all add: MAX_BYTES_def)
    then show ?thesis by (simp add: match_bytes_def unat_u16 ucast_u16_u32)
  qed
  then show ?thesis unfolding source_holds_def by blast
qed

lemma block_source:
  assumes "k_block kern = Some buf" and "unat (bb_len buf) \<le> BLOCK_MAXLEN" and "unat (bb_len buf) \<le> length (bb_data buf)"
  shows "source_holds kern ctx HTTP_SRC_BUF (take (unat (bb_len buf)) (bb_data buf))"
proof -
  have max: "BLOCK_MAXLEN = 16382" by (simp add: BLOCK_MAXLEN_def BLOCK_BUF_SIZE_def)
  have "match_bytes kern ctx es \<lparr>hm_idx = word_of_nat idx, hm_len = word_of_nat len, hm_source = HTTP_SRC_BUF, hm_huff = huff\<rparr> is_key =
      Some (drop idx (take (unat (bb_len buf)) (bb_data buf) @ drop (unat (bb_len buf)) (bb_data buf)), word_of_nat len, huff)"
    if "idx + len \<le> length (take (unat (bb_len buf)) (bb_data buf))" for idx len huff es is_key
  proof -
    have idx: "idx + len \<le> unat (bb_len buf)" using that assms(3) by simp
    then have "idx < 2 ^ 16" and "len < 2 ^ 16" and "idx \<le> BLOCK_MAXLEN" using assms(2) by (simp_all add: max)
    with idx assms(1) show ?thesis
      by (simp add: match_bytes_def unat_u16 ucast_u16_u32 HTTP_SRC_MSG_def HTTP_SRC_BUF_def min_absorb1)
  qed
  then show ?thesis unfolding source_holds_def by blast
qed

text \<open>What of a string an entry keeps.\<close>

definition same_part :: "bytes \<times> u32 \<times> bool \<Rightarrow> bytes \<times> u32 \<times> bool \<Rightarrow> bool" where
  "same_part = (\<lambda>(s, len, huff) (s', len', huff'). len = len' \<and> huff = huff' \<and> take (clamp_len len) s = take (clamp_len len) s')"

lemma same_part_refl [simp]: "same_part x x"
  by (simp add: same_part_def split: prod.split)

lemma same_part_cong:
  assumes "same_part k k'" and "same_part v v'"
  shows "new_entry kern k v = new_entry kern k' v'" and "cut_off k = cut_off k'"
  using assms by (cases k; cases k'; cases v; cases v'; simp add: same_part_def new_entry_def cut_off_def Let_def)+

lemma match_string:
  assumes "source_holds kern ctx src data" and "drop i data = str_octets s @ rest" and "length (str_octets s) \<le> MAX_BYTES"
    and "i \<le> length data"
  obtains k where "match_bytes kern ctx es (match_at src i s) is_key = Some k" and "same_part k (string_part s)"
proof -
  let ?n = "length (str_octets s)"
  obtain junk where src: "\<And>idx len huff es is_key. idx + len \<le> length data \<Longrightarrow>
     match_bytes kern ctx es \<lparr>hm_idx = word_of_nat idx, hm_len = word_of_nat len, hm_source = src, hm_huff = huff\<rparr> is_key =
       Some (drop idx (data @ junk), word_of_nat len, huff)"
    using assms(1) unfolding source_holds_def by blast
  have "length data - i = ?n + length rest" using arg_cong [OF assms(2), of length] by simp
  then have "i + ?n \<le> length data" using assms(4) by simp
  then have "match_bytes kern ctx es (match_at src i s) is_key = Some (drop i (data @ junk), word_of_nat ?n, str_huff s)"
    unfolding match_at_def by (rule src)
  moreover have "take (clamp_len (word_of_nat ?n)) (drop i (data @ junk)) = take (clamp_len (word_of_nat ?n)) (str_octets s)"
  proof -
    have "unat (word_of_nat ?n :: u32) = ?n" using assms(3) by (intro unat_u32) (simp add: MAX_BYTES_def)
    then have "clamp_len (word_of_nat ?n) \<le> ?n" by (simp add: clamp_len_def)
    moreover have "drop i (data @ junk) = str_octets s @ rest @ junk" using assms(2,4) by simp
    ultimately show ?thesis by simp
  qed
  ultimately show thesis using that by (simp add: same_part_def string_part_def)
qed

lemma match_index:
  assumes "table_follows (mc_conn ctx) es0 D tb" and "n < 2 ^ 32" and "dec_field kern D n = Some hf" and "62 + dec_added D < 0xFFFF"
  shows "match_bytes kern ctx (tb_entries tb) (table_match (word_of_nat (dec_slot D n)) len) True = Some (field_part True hf)"
proof -
  have found: "dec_field kern D n \<noteq> None" using assms(3) by simp
  note slot = followed_slot [OF assms(1,2) found assms(4)] and H = holdsD [OF table_followsD(1) [OF assms(1)]]
  have s: "dec_slot D n \<le> 0xFFFF" by (rule slot(2))
  have idx: "(ucast (ucast (word_of_nat (dec_slot D n) :: u32) :: u16) :: u32) = word_of_nat (dec_slot D n)"
    unfolding ucast_nat16 by (rule ucast_u16_u32) (use s in simp)
  have un: "unat (word_of_nat (dec_slot D n) :: u32) = dec_slot D n" using s by (intro unat_u32) simp
  have dyn: "DYNAMIC_TABLE_BASE \<le> word_of_nat (dec_slot D n) \<longleftrightarrow> 61 < n"
    using slot(3) table_followsD(5) [OF assms(1)] unfolding word_le_nat_alt un
    by (auto simp: DYNAMIC_TABLE_BASE_def dec_slot_def)
  show ?thesis
  proof (cases "61 < n")
    case True
    have n: "n - 61 \<le> length (dec_table D)" by (rule slot(3) [OF True])
    let ?k = "n - 62"
    have "rev (dec_table D) ! ?k = dec_table D ! (length (dec_table D) - (n - 61))"
      using n True by (subst rev_nth) (auto intro!: arg_cong [where f = "(!) (dec_table D)"])
    moreover have "tb_entries tb \<lparr>dtk_conn = mc_conn ctx, dtk_idx = word_of_nat (dec_slot D n)\<rparr> =
        Some (dec_table D ! (length (dec_table D) - (n - 61)))"
      unfolding H(4) un using n True table_followsD(5) [OF assms(1)]
      by (auto simp: dec_slot_def intro!: arg_cong [where f = "(!) (dec_table D)"])
    moreover have "hf = dte_field (rev (dec_table D) ! ?k)" using assms(3) True by (auto simp: dec_field_def split: if_splits)
    ultimately show ?thesis using True dyn idx
      by (simp add: match_bytes_def table_match_def HTTP_SRC_TABLE_def HTTP_SRC_MSG_def HTTP_SRC_BUF_def)
  next
    case False
    have n: "n \<noteq> 0" "k_static kern (word_of_nat n) = Some hf" using assms(3) False by (auto simp: dec_field_def split: if_splits)
    have sl: "dec_slot D n = n" using False by (simp add: dec_slot_def)
    have "(word_of_nat n :: u16) \<noteq> 0" using n(1) False by (simp add: word_unat_eq_iff unat_u16)
    then show ?thesis using False dyn idx n(2)
      by (simp add: match_bytes_def table_match_def HTTP_SRC_TABLE_def HTTP_SRC_MSG_def HTTP_SRC_BUF_def sl ucast_nat16)
  qed
qed

subsection \<open>The table of the decoder\<close>

text \<open>What the walk relies on the kernel for.\<close>

definition roomy :: "h2_kernel \<Rightarrow> bool" where
  "roomy kern \<longleftrightarrow> k_scratch kern \<and> (\<forall>es key. k_room kern es key)"

lemma table_follows_ms [simp]: "table_follows conn es0 (dec_capture cid m D) tb = table_follows conn es0 D tb"
  by (simp add: table_follows_def dec_capture_def)

lemma decoder_simps [simp]: "dec_table (dec_capture cid m D) = dec_table D" "dec_ms (dec_add e D) = dec_ms D"
  by (simp_all add: dec_capture_def dec_add_def)

lemma table_follows_add:
  assumes "table_follows (mc_conn ctx) es0 D tb" and "roomy kern"
    and "match_bytes kern ctx (tb_entries tb) key True = Some k" and "same_part k k'"
    and "match_bytes kern ctx (tb_entries tb) val False = Some v" and "same_part v v'"
    and "\<not> cut_off k'" and "\<not> cut_off v'"
    and "table_size (dec_table D) + unat (dte_size (new_entry kern k' v')) < 2 ^ 32" and "62 + dec_added D < 0xFFFF"
  shows "table_follows (mc_conn ctx) es0 (dec_add (new_entry kern k' v') D) (snd (add_dynamic_table_entry kern ctx key val tb))"
proof -
  note F = table_followsD [OF assms(1)]
  have e: "new_entry kern k v = new_entry kern k' v'" and cut: "\<not> cut_off k" "\<not> cut_off v"
    using same_part_cong [OF assms(4,6)] same_part_cong(2) [OF assms(6) same_part_refl] assms(7,8) by simp_all
  have size: "table_size (dec_table D) + unat (dte_size (new_entry kern k v)) < 2 ^ 32" using assms(9) by (simp add: e)
  have room: "62 + unat (dt_deleted (tb_info tb)) + length (dec_table D) + 1 < 2 ^ 32" using F(5) assms(10) by simp
  have kern: "k_scratch kern" "\<And>m i. k_room kern m i" using assms(2) by (simp_all add: roomy_def)
  obtain tb' where add: "add_dynamic_table_entry kern ctx key val tb = (0, tb')" and keep: "keeps_rest (mc_conn ctx) tb tb'"
    and h: "holds (mc_conn ctx) tb' (rfc_add (unat (dt_max_size (tb_info tb))) (new_entry kern k v) (dec_table D))"
    and cd: "dt_count (tb_info tb') + dt_deleted (tb_info tb') = dt_count (tb_info tb) + dt_deleted (tb_info tb) +
      (if unat (dte_size (new_entry kern k v)) \<le> unat (dt_max_size (tb_info tb)) then 1 else 0)"
    by (rule add_entry_holds [OF F(1,2) assms(3,5) cut kern size room])
  have "unat (dt_count (tb_info tb') + dt_deleted (tb_info tb')) =
      dec_added D + (if unat (dte_size (new_entry kern k' v')) \<le> unat (dec_max D) then 1 else 0)"
    unfolding cd e F(3) using F(4) assms(10) by (subst unat_add32) simp_all
  with add keep h F(2,3,6) show ?thesis by (simp add: table_follows_def dec_add_def keeps_rest_def e)
qed

lemma table_follows_size_update:
  assumes "table_follows conn es0 D tb" and "n < 2 ^ 32" and "table_size (dec_table D) < 2 ^ 32"
  shows "table_follows conn es0 (D\<lparr>dec_table := rfc_evict n 0 (dec_table D), dec_max := word_of_nat n\<rparr>)
    (table_size_update conn (word_of_nat n) tb)"
proof -
  note F = table_followsD [OF assms(1)]
  note u = size_update_holds [OF F(1) assms(3), of "word_of_nat n"]
  from u F show ?thesis by (simp add: table_follows_def keeps_rest_def unat_u32 [OF assms(2)])
qed

subsection \<open>A representation\<close>

fun name_match :: "u8 \<Rightarrow> nat \<Rightarrow> decoder \<Rightarrow> field_name \<Rightarrow> http_match" where
  "name_match src i D (NameString s) = match_at src (i + 1 + length (string_head s)) s"
| "name_match src i D (NameIndex n) = table_match (word_of_nat (dec_slot D n)) 0"

lemma entry_id_stored: "entry_id p hf = stored_name_id (name_id p) hf"
  by (simp add: entry_id_def stored_name_id_def field_id_def split: option.split)

lemma reads_field_name:
  assumes "h2_loaded encode p tables" and "follows ctx es0 src D w" and "name_readable kern D name" and "62 + dec_added D < 0xFFFF"
  obtains w' where "reads tables kern ctx i (name_bytes ix name) w w'" and "sits S_VAL_LEN src (dec_ms D) (hw_tb w) w'"
    and "field_is (dec_name_id (name_id p) kern D name) (ix = Incremental) (name_match src i D name) w'"
proof (cases name)
  case (NameIndex n)
  have n: "n < 2 ^ 32" "dec_field kern D n \<noteq> None" using assms(3) by (simp_all add: NameIndex)
  then have "0 < n" using dec_field_pos by blast
  have tb: "table_follows (mc_conn ctx) es0 D (hw_tb w)" and sits: "sits S_FIELD src (dec_ms D) (hw_tb w) w"
    using assms(2) by (simp_all add: follows_def)
  obtain w' where "reads tables kern ctx i (name_bytes ix (NameIndex n)) w w'" "sits S_VAL_LEN src (dec_ms D) (hw_tb w) w'"
    "field_is (entry_id p (get_table_entry kern (mc_conn ctx) (hw_tb w) (word_of_nat n))) (ix = Incremental)
      (table_match (table_slot (tb_info (hw_tb w)) (word_of_nat n)) 0) w'"
    by (rule reads_name_index [OF assms(1) sits \<open>0 < n\<close> n(1)])
  then show thesis
    by (intro that)
      (simp_all add: NameIndex followed_entry [OF tb n(1)] followed_slot(1) [OF tb n assms(4)] entry_id_stored)
next
  case (NameString s)
  have sits: "sits S_FIELD src (dec_ms D) (hw_tb w) w" using assms(2) by (simp add: follows_def)
  have len: "length (str_octets s) \<le> MAX_BYTES" using assms(3) by (simp add: NameString)
  obtain w1 where w1: "reads tables kern ctx i [literal_base ix] w w1" "sits S_KEY_LEN src (dec_ms D) (hw_tb w) w1"
    "ps_cid (hw_ps w1) = - 1" "ps_add_to_dt (hw_ps w1) = (ix = Incremental)"
    using reads_literal_start [OF assms(1) sits] by metis
  obtain w2 where w2: "reads tables kern ctx (i + 1) (string_bytes s) w1 w2" "sits S_VAL_LEN src (dec_ms D) (hw_tb w) w2"
    "field_is (name_id p (str_huff s) (str_octets s)) (ix = Incremental) (match_at src (i + 1 + length (string_head s)) s) w2"
    by (rule reads_name_string [OF assms(1) w1(2-4) len])
  have "reads tables kern ctx i ([literal_base ix] @ string_bytes s) w w2"
    using w2(1) by (intro reads_append [OF w1(1)]) simp
  then show thesis using w2(2,3) by (intro that) (simp_all add: NameString)
qed

lemma match_name:
  assumes "table_follows (mc_conn ctx) es0 D tb" and "source_holds kern ctx src data" and "name_readable kern D name"
    and "62 + dec_added D < 0xFFFF" and "drop i data = name_bytes ix name @ rest" and "i \<le> length data"
  obtains k where "match_bytes kern ctx (tb_entries tb) (name_match src i D name) True = Some k"
    and "same_part k (dec_name kern D name)"
proof (cases name)
  case (NameIndex n)
  then obtain hf where hf: "n < 2 ^ 32" "dec_field kern D n = Some hf" using assms(3) by auto
  from match_index [OF assms(1) hf assms(4)] show thesis
    by (intro that [of "field_part True hf"]) (simp_all add: NameIndex hf(2))
next
  case (NameString s)
  have "drop (i + 1 + length (string_head s)) data = drop (length (string_head s)) (drop 1 (drop i data))" by (simp add: add.commute)
  also have "\<dots> = str_octets s @ rest" unfolding assms(5) by (simp add: NameString string_bytes_def)
  finally have octets: "drop (i + 1 + length (string_head s)) data = str_octets s @ rest" .
  have "length data - i = 1 + length (string_bytes s) + length rest"
    using arg_cong [OF assms(5), of length] by (simp add: NameString)
  then have "i + 1 + length (string_head s) \<le> length data" using assms(6) by (simp add: string_bytes_def)
  from match_string [OF assms(2) octets _ this] assms(3) show thesis
    using that by (auto simp: NameString)
qed

lemma decode_step:
  assumes "h2_loaded encode p tables" and "roomy kern" and "source_holds kern ctx src data"
    and "follows ctx es0 src D w" and "decodable kern D r" and "62 + dec_added D < 0xFFFF" and "table_size (dec_table D) < 2 ^ 32"
    and "drop i data = repr_bytes r @ rest" and "i \<le> length data"
  obtains w' where "reads tables kern ctx i (repr_bytes r) w w'"
    and "follows ctx es0 src (decode (name_id p) kern src i r D) w'"
proof -
  have tb: "table_follows (mc_conn ctx) es0 D (hw_tb w)" and sits: "sits S_FIELD src (dec_ms D) (hw_tb w) w"
    using assms(4) by (simp_all add: follows_def)
  show thesis
  proof (cases r)
    case (IndexedField n)
    have n: "n < 2 ^ 32" "dec_field kern D n \<noteq> None" using assms(5) by (simp_all add: IndexedField)
    then have "0 < n" using dec_field_pos by blast
    let ?cid = "entry_id p (dec_field kern D n)"
    obtain w' where w': "reads tables kern ctx i (int_bytes 7 0x80 n) w w'"
      "sits S_FIELD src (if ?cid < 0 then dec_ms D else (dec_ms D)[nat ?cid := table_match (word_of_nat (dec_slot D n)) 127]) (hw_tb w) w'"
      using reads_index [OF assms(1) sits \<open>0 < n\<close> n(1) refl, of kern ctx i]
      unfolding followed_entry [OF tb n(1)] followed_slot(1) [OF tb n assms(6)] by blast
    then have "hw_tb w' = hw_tb w" by (simp add: sits_def)
    with w' tb show thesis
      by (intro that [of w']) (auto simp: IndexedField follows_def entry_id_stored dec_capture_def table_follows_def)
  next
    case (SizeUpdate n)
    have n: "n < 2 ^ 32" using assms(5) by (simp add: SizeUpdate)
    obtain w' where w': "reads tables kern ctx i (int_bytes 5 0x20 n) w w'"
      "sits S_FIELD src (dec_ms D) (table_size_update (mc_conn ctx) (word_of_nat n) (hw_tb w)) w'"
      by (rule reads_size_update [OF assms(1) sits n])
    then have tb': "hw_tb w' = table_size_update (mc_conn ctx) (word_of_nat n) (hw_tb w)" by (simp add: sits_def)
    from w' table_follows_size_update [OF tb n assms(7)] show thesis
      by (intro that [of w']) (simp_all add: SizeUpdate follows_def tb')
  next
    case (LiteralField ix name v)
    let ?j = "i + length (name_bytes ix name)" and ?cid = "dec_name_id (name_id p) kern D name" and ?key = "name_match src i D name"
    let ?m = "match_at src (?j + length (string_head v)) v"
    let ?tb = "if ix = Incremental then snd (add_dynamic_table_entry kern ctx ?key ?m (hw_tb w)) else hw_tb w"
    have name: "name_readable kern D name" and v: "length (str_octets v) \<le> MAX_BYTES" using assms(5) by (simp_all add: LiteralField)
    obtain w1 where w1: "reads tables kern ctx i (name_bytes ix name) w w1" "sits S_VAL_LEN src (dec_ms D) (hw_tb w) w1"
      "field_is ?cid (ix = Incremental) ?key w1"
      by (rule reads_field_name [OF assms(1,4) name assms(6)])
    obtain w2 where w2: "reads tables kern ctx ?j (string_bytes v) w1 w2"
      "sits S_FIELD src (if 0 \<le> ?cid then (dec_ms D)[nat ?cid := ?m] else dec_ms D) ?tb w2"
      by (rule reads_value [OF assms(1) w1(2,3) v])
    have tb2: "hw_tb w2 = ?tb" using w2(2) by (simp add: sits_def)
    have tb': "table_follows (mc_conn ctx) es0
        (if ix = Incremental then dec_add (new_entry kern (dec_name kern D name) (string_part v)) D else D) ?tb"
    proof (cases "ix = Incremental")
      case True
      have bytes: "drop i data = name_bytes ix name @ string_bytes v @ rest" using assms(8) by (simp add: LiteralField)
      have "length data - i = length (name_bytes ix name) + length (string_bytes v) + length rest"
        using arg_cong [OF bytes, of length] by simp
      then have j: "?j + length (string_head v) \<le> length data" using assms(9) by (simp add: string_bytes_def)
      have "drop (?j + length (string_head v)) data = drop (length (string_head v)) (drop (length (name_bytes ix name)) (drop i data))"
        by (simp add: add.commute add.left_commute)
      then have octets: "drop (?j + length (string_head v)) data = str_octets v @ rest"
        unfolding bytes by (simp add: string_bytes_def)
      obtain kv where kv: "match_bytes kern ctx (tb_entries (hw_tb w)) ?m False = Some kv" "same_part kv (string_part v)"
        by (rule match_string [OF assms(3) octets v j])
      obtain k where k: "match_bytes kern ctx (tb_entries (hw_tb w)) ?key True = Some k" "same_part k (dec_name kern D name)"
        by (rule match_name [OF tb assms(3) name assms(6) bytes assms(9)])
      show ?thesis
        using table_follows_add [OF tb assms(2) k kv] assms(5,6) True by (simp add: LiteralField)
    qed (use tb in simp)
    have "reads tables kern ctx i (repr_bytes r) w w2" unfolding LiteralField repr_bytes.simps by (rule reads_append [OF w1(1) w2(1)])
    moreover have "follows ctx es0 src (decode (name_id p) kern src i r D) w2"
      using w2(2) tb' unfolding follows_def tb2 LiteralField decode.simps table_follows_ms
      by (auto simp: dec_capture_def)
    ultimately show thesis by (rule that)
  qed
qed

lemma decode_block:
  assumes "h2_loaded encode p tables" and "roomy kern" and "source_holds kern ctx src data"
    and "follows ctx es0 src D w" and "decodable_all (name_id p) kern src i rs D"
    and "drop i data = concat (map repr_bytes rs) @ rest" and "i \<le> length data"
  obtains w' where "reads tables kern ctx i (concat (map repr_bytes rs)) w w'"
    and "follows ctx es0 src (decode_all (name_id p) kern src i rs D) w'"
proof -
  have "\<exists>w'. reads tables kern ctx i (concat (map repr_bytes rs)) w w' \<and> follows ctx es0 src (decode_all (name_id p) kern src i rs D) w'"
    using assms(4-)
  proof (induction rs arbitrary: i D w)
    case Nil
    then show ?case by (auto simp: reads_def)
  next
    case (Cons r rs)
    let ?D = "decode (name_id p) kern src i r D" and ?j = "i + length (repr_bytes r)"
    have bytes: "drop i data = repr_bytes r @ concat (map repr_bytes rs) @ rest" using Cons.prems(3) by simp
    have ok: "decodable kern D r" "62 + dec_added D < 0xFFFF" "table_size (dec_table D) < 2 ^ 32"
      "decodable_all (name_id p) kern src ?j rs ?D"
      using Cons.prems(2) by simp_all
    obtain w1 where w1: "reads tables kern ctx i (repr_bytes r) w w1" "follows ctx es0 src ?D w1"
      by (rule decode_step [OF assms(1-3) Cons.prems(1) ok(1-3) bytes Cons.prems(4)])
    have "drop ?j data = drop (length (repr_bytes r)) (drop i data)" by (simp add: add.commute)
    then have "drop ?j data = concat (map repr_bytes rs) @ rest" unfolding bytes by simp
    moreover have "?j \<le> length data" using arg_cong [OF bytes, of length] Cons.prems(4) by simp
    ultimately obtain w2 where "reads tables kern ctx ?j (concat (map repr_bytes rs)) w1 w2"
      "follows ctx es0 src (decode_all (name_id p) kern src ?j rs ?D) w2"
      using Cons.IH [OF w1(2) ok(4)] by blast
    with w1(1) show ?case by (auto intro: reads_append)
  qed
  then show thesis using that by blast
qed

end
