(* ===== verification/Http2_Program.thy ===== *)
theory Http2_Program
  imports Http2_Decoder
begin

section \<open>The frames of the HTTP/2 parser program (\<open>beeper/src/http2/parser.bpf.c\<close>)\<close>

text \<open>
  The programs that read a frame: its header, the header block it carries or starts, and the
  SETTINGS parameters. The maps of the kernel are state that is passed on, the calls that pull
  the bytes of a message into the linear part are parameters. Lengths and offsets are numbers
  where the code bounds them; \<open>start\<close> and \<open>end\<close> of a block are 16 bits wide, as they are there.
\<close>

subsection \<open>State\<close>

definition HTTP2_FRAME_HDR_LEN :: nat where "HTTP2_FRAME_HDR_LEN = 9"
definition HTTP2_HEADERS_FRAME :: u8 where "HTTP2_HEADERS_FRAME = 0x01"
definition HTTP2_SETTINGS_FRAME :: u8 where "HTTP2_SETTINGS_FRAME = 0x04"
definition HTTP2_CONTINUATION_FRAME :: u8 where "HTTP2_CONTINUATION_FRAME = 0x09"
definition HTTP2_END_HEADERS_FLAG :: u8 where "HTTP2_END_HEADERS_FLAG = 0x04"
definition HTTP2_PADDED_FLAG :: u8 where "HTTP2_PADDED_FLAG = 0x08"
definition HTTP2_PRIORITY_FLAG :: u8 where "HTTP2_PRIORITY_FLAG = 0x20"
definition HTTP2_PRIORITY_LEN :: nat where "HTTP2_PRIORITY_LEN = 5"
definition SETTINGS_HEADER_TABLE_SIZE :: u16 where "SETTINGS_HEADER_TABLE_SIZE = 1"

definition EPROTO :: int where "EPROTO = 71"

record http2_frame =
  fr_sid :: u32
  fr_type :: u8
  fr_flags :: u8
  fr_dt_count_before :: u32
  fr_dt_count :: u32
  fr_len :: nat
  fr_need :: nat

record h2_maps =
  mp_infos :: "ip4_conn \<rightharpoonup> dynamic_table_info"
  mp_entries :: entry_map
  mp_block :: "block_buf option"

text \<open>The environment: the kernel, with the block of no CPU, and its answer to a new table.\<close>

record h2_prog_env =
  env_kernel :: h2_kernel
  env_room :: "(ip4_conn \<rightharpoonup> dynamic_table_info) \<Rightarrow> ip4_conn \<Rightarrow> bool"

record h2_run =
  run_ms :: "http_match list"
  run_frame :: http2_frame
  run_maps :: h2_maps

definition kernel_of :: "h2_prog_env \<Rightarrow> h2_maps \<Rightarrow> h2_kernel" where
  "kernel_of env maps = (env_kernel env)\<lparr>k_block := mp_block maps\<rparr>"

text \<open>Big endian numbers.\<close>

definition u24 :: "bytes \<Rightarrow> nat" where
  "u24 bs = (unat (bs ! 0) * 256 + unat (bs ! 1)) * 256 + unat (bs ! 2)"

definition stream_id :: "bytes \<Rightarrow> u32" where
  "stream_id bs = (push_bit 24 (ucast (bs ! 5)) OR push_bit 16 (ucast (bs ! 6)) OR push_bit 8 (ucast (bs ! 7)) OR ucast (bs ! 8))
     AND 0x7FFFFFFF"

definition new_http2_frame :: "bytes \<Rightarrow> http2_frame" where
  "new_http2_frame hdr = \<lparr>fr_sid = stream_id hdr, fr_type = hdr ! 3, fr_flags = hdr ! 4, fr_dt_count_before = 0,
     fr_dt_count = 0, fr_len = u24 hdr, fr_need = 0\<rparr>"

subsection \<open>The dynamic table of a connection\<close>

definition new_table_info :: dynamic_table_info where
  "new_table_info = \<lparr>dt_count = 0, dt_size = 0, dt_max_size = 4096, dt_deleted = 0, dt_dirty = 0\<rparr>"

definition get_dynamic_table :: "h2_prog_env \<Rightarrow> ip4_conn \<Rightarrow> h2_maps \<Rightarrow> dynamic_table_info option \<times> h2_maps" where
  "get_dynamic_table env conn maps =
     (case mp_infos maps conn of
        Some info \<Rightarrow> (Some info, maps)
      | None \<Rightarrow> if env_room env (mp_infos maps) conn
          then (Some new_table_info, maps\<lparr>mp_infos := (mp_infos maps)(conn \<mapsto> new_table_info)\<rparr>)
          else (None, maps))"

definition put_table :: "ip4_conn \<Rightarrow> h2_table \<Rightarrow> h2_maps \<Rightarrow> h2_maps" where
  "put_table conn tb maps = maps\<lparr>mp_infos := (mp_infos maps)(conn \<mapsto> tb_info tb), mp_entries := tb_entries tb\<rparr>"

definition table_count :: "ip4_conn \<Rightarrow> h2_maps \<Rightarrow> u32" where
  "table_count conn maps = (case mp_infos maps conn of Some info \<Rightarrow> dt_count info | None \<Rightarrow> 0)"

text \<open>The walk over a block, on the table of the connection.\<close>

definition start_walk :: "u8 \<Rightarrow> dynamic_table_info \<Rightarrow> h2_run \<Rightarrow> h2_walk" where
  "start_walk src info run = \<lparr>hw_ps = new_parse_state src, hw_ms = run_ms run,
     hw_tb = \<lparr>tb_info = info, tb_entries = mp_entries (run_maps run)\<rparr>\<rparr>"

definition end_walk :: "ip4_conn \<Rightarrow> h2_walk \<Rightarrow> h2_run \<Rightarrow> h2_run" where
  "end_walk conn w run = run\<lparr>run_ms := hw_ms w, run_maps := put_table conn (hw_tb w) (run_maps run)\<rparr>"

subsection \<open>The block of a frame\<close>

definition http2_block :: "bytes \<Rightarrow> nat \<Rightarrow> u8 \<Rightarrow> u8 \<Rightarrow> int + u16 \<times> u16" where
  "http2_block data len ty flags =
     (let padded = ty = HTTP2_HEADERS_FRAME \<and> flags AND HTTP2_PADDED_FLAG \<noteq> 0;
          pad_len = if padded then unat (data ! HTTP2_FRAME_HDR_LEN) else 0;
          off = HTTP2_FRAME_HDR_LEN + (if padded then 1 else 0) +
            (if ty = HTTP2_HEADERS_FRAME \<and> flags AND HTTP2_PRIORITY_FLAG \<noteq> 0 then HTTP2_PRIORITY_LEN else 0)
      in if padded \<and> length data < HTTP2_FRAME_HDR_LEN + 1 then Inl (- EFAULT)
         else if HTTP2_FRAME_HDR_LEN + len < off + pad_len then Inl (- EBADMSG)
         else Inr (word_of_nat off, word_of_nat (HTTP2_FRAME_HDR_LEN + len - pad_len)))"

text \<open>\<open>_parse_stg_from\<close>, the loop over the bytes from index \<open>i\<close> on.\<close>

fun stg_loop :: "nat \<Rightarrow> bytes \<Rightarrow> int \<Rightarrow> nat \<Rightarrow> u16 \<Rightarrow> u32 \<Rightarrow> u16 option \<Rightarrow> dynamic_table_info \<Rightarrow>
    int \<times> u16 option \<times> dynamic_table_info" where
  "stg_loop i [] res j ident v null_prefix info = (res, null_prefix, info)"
| "stg_loop i (c # cs) res j ident v null_prefix info =
     (if c = 0 \<and> null_prefix = Some (word_of_nat i)
      then stg_loop (i + 1) cs (int i) j ident v (Some (word_of_nat (i + 1))) info
      else let (ident, v) = (if j < 2 then (push_bit 8 ident OR ucast c, v) else (ident, push_bit 8 v OR ucast c)); j = j + 1 in
        if j = 6 then stg_loop (i + 1) cs (int i) 0 0 0 null_prefix
          (if ident = SETTINGS_HEADER_TABLE_SIZE then info\<lparr>dt_max_size := v\<rparr> else info)
        else stg_loop (i + 1) cs (int i) j ident v null_prefix info)"

definition parse_stg_from ::
  "h2_prog_env \<Rightarrow> msg_ctx \<Rightarrow> nat \<Rightarrow> nat \<Rightarrow> u16 option \<Rightarrow> h2_run \<Rightarrow> int \<times> u16 option \<times> h2_run" where
  "parse_stg_from env ctx start stop null_prefix run =
     (if length (mc_data ctx) < 9 then (0, null_prefix, run)
      else case get_dynamic_table env (mc_conn ctx) (run_maps run) of
        (None, maps) \<Rightarrow> (- ENOSPC, null_prefix, run\<lparr>run_maps := maps\<rparr>)
      | (Some info, maps) \<Rightarrow>
          (case stg_loop start (drop start (take (min stop (min (length (mc_data ctx)) MAX_BYTES)) (mc_data ctx)))
              (int start) 0 0 0 null_prefix info of (res, null_prefix, info) \<Rightarrow>
             (res, null_prefix, run\<lparr>run_maps := maps\<lparr>mp_infos := (mp_infos maps)(mc_conn ctx \<mapsto> info)\<rparr>\<rparr>)))"

definition parse_hdr_frame ::
  "h2_tables \<Rightarrow> h2_prog_env \<Rightarrow> msg_ctx \<Rightarrow> nat \<Rightarrow> nat \<Rightarrow> u16 option \<Rightarrow> h2_run \<Rightarrow> int \<times> u16 option \<times> h2_run" where
  "parse_hdr_frame tables env ctx start stop null_prefix run =
     (case get_dynamic_table env (mc_conn ctx) (run_maps run) of
        (None, maps) \<Rightarrow> (- ENOSPC, null_prefix, run\<lparr>run_maps := maps\<rparr>)
      | (Some info, maps) \<Rightarrow>
          let run = run\<lparr>run_maps := maps\<rparr> in
          (case parse_hdr_from tables (kernel_of env maps) ctx start stop null_prefix (start_walk HTTP_SRC_MSG info run) of
             (res, null_prefix, w) \<Rightarrow> (res, null_prefix, end_walk (mc_conn ctx) w run)))"

definition parse_frame ::
  "h2_tables \<Rightarrow> h2_prog_env \<Rightarrow> msg_ctx \<Rightarrow> nat \<Rightarrow> nat \<Rightarrow> u8 \<Rightarrow> u8 \<Rightarrow> u16 option \<Rightarrow> h2_run \<Rightarrow> int \<times> u16 option \<times> h2_run" where
  "parse_frame tables env ctx off len ty flags null_prefix run =
     (if MAX_BYTES < off then (- E2BIG, null_prefix, run)
      else case http2_block (drop off (mc_data ctx)) len ty flags of
        Inl err \<Rightarrow> (err, null_prefix, run)
      | Inr (start, stop) \<Rightarrow>
          if MAX_BYTES < off + unat stop then (- E2BIG, null_prefix, run)
          else
            let start = unat (start + word_of_nat off); stop = unat (stop + word_of_nat off); conn = mc_conn ctx;
                (info, maps) = get_dynamic_table env conn (run_maps run);
                run = run\<lparr>run_maps := maps, run_frame := (run_frame run)\<lparr>fr_dt_count_before := table_count conn maps\<rparr>\<rparr>;
                (res, null_prefix, run) = (if ty = HTTP2_SETTINGS_FRAME
                  then parse_stg_from env ctx start stop null_prefix run
                  else parse_hdr_frame tables env ctx start stop null_prefix run);
                run = run\<lparr>run_frame := (run_frame run)\<lparr>fr_dt_count := table_count conn (run_maps run)\<rparr>\<rparr>
            in (if res < 0 then res else if res < int stop - 1 then - EBADMSG else 0, null_prefix, run))"

subsection \<open>A block of several frames\<close>

record collected_block =
  blk_len :: nat
  blk_need :: nat

text \<open>A range of the message, as \<open>bpf_probe_read_kernel\<close> reads it.\<close>

definition probe_read :: "h2_kernel \<Rightarrow> nat \<Rightarrow> nat \<Rightarrow> bytes \<Rightarrow> bytes option" where
  "probe_read kern at n data = (let bs = take n (drop at data) in if k_readable kern bs then Some bs else None)"

definition write_at :: "nat \<Rightarrow> bytes \<Rightarrow> bytes \<Rightarrow> bytes" where
  "write_at pos bs buf = take pos buf @ bs @ drop (pos + length bs) buf"

text \<open>
  A round of the loop of \<open>_collect_block\<close>, where \<open>first\<close> is \<open>k == 0\<close>: the error it returns with the
  number of bytes it needs, or the length of the frame, its fragment of the block, its stream and
  whether it ends the block.
\<close>

definition collect_frame ::
  "h2_kernel \<Rightarrow> bytes \<Rightarrow> nat \<Rightarrow> bool \<Rightarrow> nat \<Rightarrow> nat \<Rightarrow> u32 \<Rightarrow> int \<times> nat + nat \<times> bytes \<times> u32 \<times> bool" where
  "collect_frame kern data off first at pos sid =
     (if MAX_BYTES < at then Inl (- E2BIG, 0)
      else if length data < at + HTTP2_FRAME_HDR_LEN then Inl (- EAGAIN, at - off + HTTP2_FRAME_HDR_LEN)
      else case probe_read kern at HTTP2_FRAME_HDR_LEN data of
        None \<Rightarrow> Inl (- EFAULT, 0)
      | Some hdr \<Rightarrow>
          let flags = hdr ! 4; frame_len = HTTP2_FRAME_HDR_LEN + u24 hdr;
              padded = first \<and> flags AND HTTP2_PADDED_FLAG \<noteq> 0;
              start = HTTP2_FRAME_HDR_LEN + (if padded then 1 else 0) +
                (if first \<and> flags AND HTTP2_PRIORITY_FLAG \<noteq> 0 then HTTP2_PRIORITY_LEN else 0)
          in if \<not> first \<and> (hdr ! 3 \<noteq> HTTP2_CONTINUATION_FRAME \<or> stream_id hdr \<noteq> sid) then Inl (- EPROTO, 0)
             else if length data < at + frame_len then Inl (- EAGAIN, at - off + frame_len)
             else if padded \<and> frame_len < HTTP2_FRAME_HDR_LEN + 1 then Inl (- EBADMSG, 0)
             else case (if padded then probe_read kern (at + HTTP2_FRAME_HDR_LEN) 1 data else Some [0]) of
               None \<Rightarrow> Inl (- EFAULT, 0)
             | Some pad \<Rightarrow>
                 let m = frame_len - unat (pad ! 0) - start in
                 if frame_len < start + unat (pad ! 0) then Inl (- EBADMSG, 0)
                 else if BLOCK_MAXLEN < pos + m then Inl (- E2BIG, 0)
                 else case (if 0 < m then probe_read kern (at + start) m data else Some []) of
                   None \<Rightarrow> Inl (- EFAULT, 0)
                 | Some bs \<Rightarrow> Inr (frame_len, bs, stream_id hdr, flags AND HTTP2_END_HEADERS_FLAG \<noteq> 0))"

text \<open>The loop, which runs \<open>n\<close> more times: its result, the block and the buffer.\<close>

fun collect_loop ::
  "nat \<Rightarrow> h2_kernel \<Rightarrow> bytes \<Rightarrow> nat \<Rightarrow> bool \<Rightarrow> nat \<Rightarrow> nat \<Rightarrow> u32 \<Rightarrow> block_buf \<Rightarrow> int \<times> collected_block \<times> block_buf" where
  "collect_loop 0 kern data off first at pos sid buf = (- E2BIG, \<lparr>blk_len = 0, blk_need = 0\<rparr>, buf)"
| "collect_loop (Suc n) kern data off first at pos sid buf =
     (case collect_frame kern data off first at pos sid of
        Inl (err, need) \<Rightarrow> (err, \<lparr>blk_len = 0, blk_need = need\<rparr>, buf)
      | Inr (frame_len, bs, fsid, ended) \<Rightarrow>
          let buf = buf\<lparr>bb_data := write_at pos bs (bb_data buf)\<rparr>; at = at + frame_len; pos = pos + length bs in
          if ended then (int (at - off), \<lparr>blk_len = pos, blk_need = 0\<rparr>, buf\<lparr>bb_len := word_of_nat pos\<rparr>)
          else collect_loop n kern data off False at pos (if first then fsid else sid) buf)"

definition collect_block :: "h2_kernel \<Rightarrow> msg_ctx \<Rightarrow> nat \<Rightarrow> int \<times> collected_block \<times> block_buf option" where
  "collect_block kern ctx off =
     (case k_block kern of
        None \<Rightarrow> (- ENOSPC, \<lparr>blk_len = 0, blk_need = 0\<rparr>, None)
      | Some buf \<Rightarrow>
          (case collect_loop (MAX_BYTES div HTTP2_FRAME_HDR_LEN + 1) kern (mc_data ctx) off True off 0 0 buf of
             (res, blk, buf) \<Rightarrow> (res, blk, Some buf)))"

definition parse_block :: "h2_tables \<Rightarrow> h2_prog_env \<Rightarrow> msg_ctx \<Rightarrow> nat \<Rightarrow> h2_run \<Rightarrow> int \<times> h2_run" where
  "parse_block tables env ctx off run =
     (let (total, blk, buf) = collect_block (kernel_of env (run_maps run)) ctx off;
          run = run\<lparr>run_maps := (run_maps run)\<lparr>mp_block := buf\<rparr>\<rparr> in
      if total < 0 then
        (total, if total = - EAGAIN then run\<lparr>run_frame := (run_frame run)\<lparr>fr_need := blk_need blk\<rparr>\<rparr> else run)
      else case get_dynamic_table env (mc_conn ctx) (run_maps run) of
        (None, maps) \<Rightarrow> (- ENOSPC, run\<lparr>run_maps := maps\<rparr>)
      | (Some info, maps) \<Rightarrow>
          let run = run\<lparr>run_maps := maps, run_frame := (run_frame run)\<lparr>fr_dt_count_before := dt_count info\<rparr>\<rparr>;
              (res, w) = parse_hdr_buf tables (kernel_of env maps) ctx (blk_len blk) (start_walk HTTP_SRC_BUF info run);
              run = end_walk (mc_conn ctx) w run;
              run = run\<lparr>run_frame := (run_frame run)\<lparr>fr_dt_count := dt_count (tb_info (hw_tb w))\<rparr>\<rparr>
          in (if res < 0 then res else if res < int (blk_len blk) then - EBADMSG else total, run))"

subsection \<open>The programs\<close>

definition violates_block_rules :: "u8 \<Rightarrow> u32 \<Rightarrow> bool" where
  "violates_block_rules ty sid \<longleftrightarrow> ty = HTTP2_CONTINUATION_FRAME \<or> ty = HTTP2_HEADERS_FRAME \<and> sid = 0"

definition is_parsed_frame :: "u8 \<Rightarrow> u8 \<Rightarrow> bool" where
  "is_parsed_frame ty flags \<longleftrightarrow> ty = HTTP2_HEADERS_FRAME \<or> ty = HTTP2_CONTINUATION_FRAME \<or>
     ty = HTTP2_SETTINGS_FRAME \<and> flags = 0"

definition need_more :: "nat \<Rightarrow> h2_run \<Rightarrow> int \<times> h2_run" where
  "need_more n run = (- EAGAIN, run\<lparr>run_frame := (run_frame run)\<lparr>fr_need := n\<rparr>\<rparr>)"

definition reject_frame :: "nat \<Rightarrow> nat \<Rightarrow> h2_run \<Rightarrow> int \<times> h2_run" where
  "reject_frame frame_len avail run = (if frame_len \<le> avail then (- EPROTO, run) else need_more frame_len run)"

definition skip_frame :: "ip4_conn \<Rightarrow> h2_run \<Rightarrow> h2_run" where
  "skip_frame conn run = (let count = table_count conn (run_maps run) in
     run\<lparr>run_frame := (run_frame run)\<lparr>fr_dt_count_before := count, fr_dt_count := count\<rparr>\<rparr>)"

text \<open>
  What \<open>parse_msg\<close> and \<open>parse_skb\<close> do once they know the header of the frame at \<open>off\<close>, of which
  \<open>sz\<close> bytes have arrived; \<open>pull\<close> makes that many bytes of the message linear, or fails.
\<close>

definition parse_frame_at ::
  "h2_tables \<Rightarrow> h2_prog_env \<Rightarrow> ip4_conn \<Rightarrow> (nat \<Rightarrow> bytes option) \<Rightarrow> bytes \<Rightarrow> nat \<Rightarrow> nat \<Rightarrow> nat \<Rightarrow> u16 option \<Rightarrow> h2_run \<Rightarrow>
     int \<times> u16 option \<times> h2_run" where
  "parse_frame_at tables env conn pull hdr off sz pulled null_prefix run =
     (let len = u24 hdr; ty = hdr ! 3; flags = hdr ! 4; frame_len = HTTP2_FRAME_HDR_LEN + len;
          run = run\<lparr>run_frame := new_http2_frame hdr\<rparr> in
      if violates_block_rules ty (stream_id hdr)
      then (case reject_frame frame_len sz run of (res, run) \<Rightarrow> (res, null_prefix, run))
      else if \<not> is_parsed_frame ty flags then (int frame_len, null_prefix, skip_frame conn run)
      else if sz < frame_len then (case need_more frame_len run of (res, run) \<Rightarrow> (res, null_prefix, run))
      else if ty = HTTP2_HEADERS_FRAME \<and> flags AND HTTP2_END_HEADERS_FLAG = 0
      then (case pull pulled of
          None \<Rightarrow> (- EFAULT, null_prefix, run)
        | Some data \<Rightarrow>
            (case parse_block tables env \<lparr>mc_data = data, mc_conn = conn\<rparr> off run of (res, run) \<Rightarrow>
               (if res = - EAGAIN \<and> fr_need (run_frame run) \<le> sz then - E2BIG else res, null_prefix, run)))
      else (case pull (off + frame_len) of
          None \<Rightarrow> (- EFAULT, null_prefix, run)
        | Some data \<Rightarrow>
            (case parse_frame tables env \<lparr>mc_data = data, mc_conn = conn\<rparr> off len ty flags null_prefix run of
               (err, null_prefix, run) \<Rightarrow> (if err < 0 then err else int frame_len, null_prefix, run))))"

definition parse_msg2 ::
  "h2_tables \<Rightarrow> h2_prog_env \<Rightarrow> ip4_conn \<Rightarrow> (nat \<Rightarrow> bytes option) \<Rightarrow> bytes \<Rightarrow> nat \<Rightarrow> h2_run \<Rightarrow> int \<times> h2_run" where
  "parse_msg2 tables env conn pull linear sz run =
     (if length linear < HTTP2_FRAME_HDR_LEN then (0, run)
      else case parse_frame_at tables env conn pull (take HTTP2_FRAME_HDR_LEN linear) 0 sz (min sz MAX_BYTES) None run of
        (res, _, run) \<Rightarrow> (res, run))"

definition parse_skb2 ::
  "h2_tables \<Rightarrow> h2_prog_env \<Rightarrow> ip4_conn \<Rightarrow> (nat \<Rightarrow> bytes option) \<Rightarrow> bytes \<Rightarrow> nat \<Rightarrow> nat \<Rightarrow> u16 option \<Rightarrow> h2_run \<Rightarrow>
     int \<times> u16 option \<times> h2_run" where
  "parse_skb2 tables env conn pull linear skb_len off null_prefix run =
     (if MAX_BYTES < off then (- E2BIG, null_prefix, run)
      else if skb_len < off + HTTP2_FRAME_HDR_LEN then (0, null_prefix, run)
      else case (if length linear < off + HTTP2_FRAME_HDR_LEN then pull (off + HTTP2_FRAME_HDR_LEN) else Some linear) of
        None \<Rightarrow> (- EFAULT, null_prefix, run)
      | Some data \<Rightarrow>
          if length data < off + HTTP2_FRAME_HDR_LEN then (- EFAULT, null_prefix, run)
          else parse_frame_at tables env conn pull (take HTTP2_FRAME_HDR_LEN (drop off data)) off (skb_len - off)
            (min skb_len (off + MAX_BYTES)) null_prefix run)"

text \<open>Reading the results.\<close>

definition get_dt_entry :: "h2_prog_env \<Rightarrow> ip4_conn \<Rightarrow> u32 \<Rightarrow> h2_maps \<Rightarrow> int + http2_hdr_field" where
  "get_dt_entry env conn idx maps =
     (if idx = 0 then Inl (- EINVAL)
      else case mp_infos maps conn of
        None \<Rightarrow> Inl (- ENOENT)
      | Some info \<Rightarrow>
          (case get_table_entry (kernel_of env maps) conn \<lparr>tb_info = info, tb_entries = mp_entries maps\<rparr> idx of
             None \<Rightarrow> Inl (- ENOENT) | Some hf \<Rightarrow> Inr hf))"

definition get_str :: "h2_kernel \<Rightarrow> msg_ctx \<Rightarrow> entry_map \<Rightarrow> http_match \<Rightarrow> int + bytes" where
  "get_str kern ctx es m = (case match_bytes kern ctx es m False of
     None \<Rightarrow> Inl (- ENOENT) | Some (ptr, len, _) \<Rightarrow> Inr (take (unat len) ptr))"

definition is_captured :: "http_match \<Rightarrow> bool" where
  "is_captured m \<longleftrightarrow> 0 < hm_len m \<or> 0 < hm_idx m"

definition h2_matched_prog :: "http_match list \<Rightarrow> u8 \<Rightarrow> bool" where
  "h2_matched_prog ms idx = (if MATCHES \<le> unat idx then False else is_captured (ms ! unat (idx AND MAX_MATCH_MASK)))"

definition h2_get_match :: "h2_kernel \<Rightarrow> msg_ctx \<Rightarrow> entry_map \<Rightarrow> http_match list \<Rightarrow> u8 \<Rightarrow> int + bytes" where
  "h2_get_match kern ctx es ms idx =
     (if MATCHES \<le> unat idx then Inl (- EINVAL)
      else let m = ms ! unat (idx AND MAX_MATCH_MASK) in if \<not> is_captured m then Inl (- ENOENT) else get_str kern ctx es m)"

end
