(* ===== verification/Http2_Frames.thy ===== *)
theory Http2_Frames
  imports Http2_Program
begin

section \<open>What the program makes of frames\<close>

text \<open>
  The frames of RFC 9113 as bytes, and what the program makes of them: of a HEADERS frame that
  carries a whole block, of one that CONTINUATION frames carry on, and of what it rejects.
\<close>

subsection \<open>Frames\<close>

definition u24_bytes :: "nat \<Rightarrow> bytes" where
  "u24_bytes n = [word_of_nat (n div 65536), word_of_nat (n div 256 mod 256), word_of_nat (n mod 256)]"

definition sid_bytes :: "u32 \<Rightarrow> bytes" where
  "sid_bytes sid = [ucast (drop_bit 24 sid), ucast (drop_bit 16 sid), ucast (drop_bit 8 sid), ucast sid]"

definition frame_bytes :: "u8 \<Rightarrow> u8 \<Rightarrow> u32 \<Rightarrow> bytes \<Rightarrow> bytes" where
  "frame_bytes ty flags sid payload = u24_bytes (length payload) @ [ty, flags] @ sid_bytes sid @ payload"

text \<open>The payload of a HEADERS frame, with its padding and its priority.\<close>

definition headers_payload :: "bytes option \<Rightarrow> bytes option \<Rightarrow> bytes \<Rightarrow> bytes" where
  "headers_payload padding prio fragment =
     (case padding of None \<Rightarrow> [] | Some pad \<Rightarrow> [word_of_nat (length pad)]) @ (case prio of None \<Rightarrow> [] | Some bs \<Rightarrow> bs) @
     fragment @ (case padding of None \<Rightarrow> [] | Some pad \<Rightarrow> pad)"

definition headers_ok :: "u8 \<Rightarrow> bytes option \<Rightarrow> bytes option \<Rightarrow> bool" where
  "headers_ok flags padding prio \<longleftrightarrow>
     (flags AND HTTP2_PADDED_FLAG \<noteq> 0 \<longleftrightarrow> padding \<noteq> None) \<and> (flags AND HTTP2_PRIORITY_FLAG \<noteq> 0 \<longleftrightarrow> prio \<noteq> None) \<and>
     (case padding of None \<Rightarrow> True | Some pad \<Rightarrow> length pad < 256) \<and>
     (case prio of None \<Rightarrow> True | Some bs \<Rightarrow> length bs = HTTP2_PRIORITY_LEN)"

definition headers_start :: "bytes option \<Rightarrow> bytes option \<Rightarrow> nat" where
  "headers_start padding prio = 9 + (if padding = None then 0 else 1) + (if prio = None then 0 else 5)"

lemma unat_u8: "n < 256 \<Longrightarrow> unat (word_of_nat n :: u8) = n"
  by (simp add: unsigned_of_nat take_bit_nat_eq_self)

lemma u24_frame:
  assumes "length payload < 2 ^ 24"
  shows "u24 (frame_bytes ty flags sid payload @ rest) = length payload"
proof -
  let ?n = "length payload"
  have "?n div 65536 < 256" using assms by (simp add: div_less_iff_less_mult)
  then have "u24 (frame_bytes ty flags sid payload @ rest) = (?n div 65536 * 256 + ?n div 256 mod 256) * 256 + ?n mod 256"
    by (simp add: u24_def frame_bytes_def u24_bytes_def unat_u8)
  also have "?n div 65536 = ?n div 256 div 256" by (simp add: div_mult2_eq [symmetric])
  finally show ?thesis by simp
qed

lemma stream_id_frame:
  assumes "sid < 0x80000000"
  shows "stream_id (frame_bytes ty flags sid payload @ rest) = sid"
proof -
  have m: "(0x7FFFFFFF :: u32) = mask 31" by (simp add: mask_eq_exp_minus_1)
  have "unat sid < 2 ^ 31" using assms by (simp add: word_less_nat_alt)
  then have small: "take_bit 31 sid = sid" by (simp add: word_unat_eq_iff unsigned_take_bit_eq take_bit_nat_eq_self)
  have join: "push_bit 24 (ucast (ucast (drop_bit 24 sid) :: u8)) OR push_bit 16 (ucast (ucast (drop_bit 16 sid) :: u8)) OR
      push_bit 8 (ucast (ucast (drop_bit 8 sid) :: u8)) OR ucast (ucast sid :: u8) = sid" (is "?join = sid")
  proof (rule bit_word_eqI)
    fix n
    assume "n < LENGTH(32)"
    then consider "n < 8" | "8 \<le> n" "n < 16" | "16 \<le> n" "n < 24" | "24 \<le> n" "n < 32" by fastforce
    then show "bit ?join n = bit sid n" by cases (auto simp: bit_simps)
  qed
  show ?thesis
    unfolding stream_id_def m
    by (simp add: frame_bytes_def u24_bytes_def sid_bytes_def join take_bit_eq_mask [symmetric] small)
qed

lemma frame_nth [simp]:
  "(frame_bytes ty flags sid payload @ rest) ! 3 = ty" "(frame_bytes ty flags sid payload @ rest) ! 4 = flags"
  "length (frame_bytes ty flags sid payload) = 9 + length payload"
  "drop 9 (frame_bytes ty flags sid payload) = payload"
  by (simp_all add: frame_bytes_def u24_bytes_def sid_bytes_def)

lemma u24_take [simp]: "u24 (take 9 bs) = u24 bs" "stream_id (take 9 bs) = stream_id bs"
  by (simp_all add: u24_def stream_id_def)

definition pad_of :: "bytes option \<Rightarrow> bytes" where
  "pad_of padding = (case padding of None \<Rightarrow> [] | Some pad \<Rightarrow> pad)"

lemma headers_payload_length:
  "headers_ok flags padding prio \<Longrightarrow>
   9 + length (headers_payload padding prio fragment) = headers_start padding prio + length fragment + length (pad_of padding)"
  by (auto simp: headers_payload_def headers_start_def headers_ok_def pad_of_def HTTP2_PRIORITY_LEN_def split: option.splits)

lemma headers_fragment:
  assumes "headers_ok flags padding prio"
  shows "drop (headers_start padding prio) (frame_bytes ty fl sid (headers_payload padding prio fragment) @ rest) =
    fragment @ pad_of padding @ rest"
proof -
  let ?payload = "headers_payload padding prio fragment"
  have "headers_start padding prio = (headers_start padding prio - 9) + 9" by (simp add: headers_start_def)
  then have "drop (headers_start padding prio) (frame_bytes ty fl sid ?payload @ rest) =
      drop (headers_start padding prio - 9) (drop 9 (frame_bytes ty fl sid ?payload @ rest))"
    by (simp only: drop_drop)
  also have "drop 9 (frame_bytes ty fl sid ?payload @ rest) = ?payload @ rest" by simp
  finally show ?thesis
    using assms by (auto simp: headers_payload_def headers_start_def headers_ok_def pad_of_def HTTP2_PRIORITY_LEN_def split: option.splits)
qed

lemma http2_block_headers:
  assumes "headers_ok flags padding prio" and "payload = headers_payload padding prio fragment"
  shows "http2_block (frame_bytes ty flags' sid payload @ rest) (length payload) HTTP2_HEADERS_FRAME flags =
    Inr (word_of_nat (headers_start padding prio), word_of_nat (headers_start padding prio + length fragment))"
proof -
  let ?data = "frame_bytes ty flags' sid payload @ rest"
  have pad: "unat (?data ! 9) = length (pad_of padding)" if "padding \<noteq> None"
    using that assms
    by (auto simp: frame_bytes_def u24_bytes_def sid_bytes_def headers_payload_def headers_ok_def pad_of_def unat_u8 split: option.splits)
  have len: "9 + length payload = headers_start padding prio + length fragment + length (pad_of padding)"
    unfolding assms(2) using assms(1) by (rule headers_payload_length)
  have no_pad: "padding = None \<Longrightarrow> pad_of padding = []" by (simp add: pad_of_def)
  have flags: "flags AND HTTP2_PADDED_FLAG \<noteq> 0 \<longleftrightarrow> padding \<noteq> None" "flags AND HTTP2_PRIORITY_FLAG \<noteq> 0 \<longleftrightarrow> prio \<noteq> None"
    using assms(1) by (simp_all add: headers_ok_def)
  have start: "HTTP2_FRAME_HDR_LEN + (if padding \<noteq> None then 1 else 0) + (if prio \<noteq> None then HTTP2_PRIORITY_LEN else 0) =
      headers_start padding prio"
    by (simp add: headers_start_def HTTP2_FRAME_HDR_LEN_def HTTP2_PRIORITY_LEN_def)
  have pad_len: "(if padding \<noteq> None then unat (?data ! HTTP2_FRAME_HDR_LEN) else 0) = length (pad_of padding)"
    using pad no_pad by (auto simp: HTTP2_FRAME_HDR_LEN_def)
  have room: "\<not> (padding \<noteq> None \<and> length ?data < HTTP2_FRAME_HDR_LEN + 1)"
    using len by (auto simp: HTTP2_FRAME_HDR_LEN_def headers_start_def)
  have stop: "HTTP2_FRAME_HDR_LEN + length payload - length (pad_of padding) = headers_start padding prio + length fragment"
    using len by (simp add: HTTP2_FRAME_HDR_LEN_def)
  show ?thesis
    unfolding http2_block_def Let_def flags simp_thms pad_len start stop if_not_P [OF room]
    using len by (simp add: HTTP2_FRAME_HDR_LEN_def)
qed

subsection \<open>The maps of a connection\<close>

text \<open>The maps hold the table of the decoder \<open>D\<close>, which may be the empty one of a new connection.\<close>

definition maps_follow :: "h2_prog_env \<Rightarrow> ip4_conn \<Rightarrow> decoder \<Rightarrow> h2_maps \<Rightarrow> bool" where
  "maps_follow env conn D maps \<longleftrightarrow> (case mp_infos maps conn of
     Some info \<Rightarrow> table_follows conn (mp_entries maps) D \<lparr>tb_info = info, tb_entries = mp_entries maps\<rparr>
   | None \<Rightarrow> env_room env (mp_infos maps) conn \<and> dec_table D = [] \<and> dec_max D = 4096 \<and> dec_added D = 0 \<and>
       (\<forall>i. mp_entries maps \<lparr>dtk_conn = conn, dtk_idx = i\<rparr> = None))"

definition others_kept :: "ip4_conn \<Rightarrow> h2_maps \<Rightarrow> h2_maps \<Rightarrow> bool" where
  "others_kept conn maps maps' \<longleftrightarrow> (\<forall>c. c \<noteq> conn \<longrightarrow> mp_infos maps' c = mp_infos maps c) \<and>
     (\<forall>key. dtk_conn key \<noteq> conn \<longrightarrow> mp_entries maps' key = mp_entries maps key)"

lemma holds_empty:
  assumes "dt_count (tb_info tb) = 0" and "dt_size (tb_info tb) = 0" and "dt_deleted (tb_info tb) = 0"
    and "\<And>i. tb_entries tb \<lparr>dtk_conn = conn, dtk_idx = i\<rparr> = None"
  shows "holds conn tb []"
  unfolding holds_def Let_def assms by simp

lemma maps_follow_table:
  assumes "maps_follow env conn D maps"
  obtains info maps' where "get_dynamic_table env conn maps = (Some info, maps')" and "mp_infos maps' conn = Some info"
    and "table_follows conn (mp_entries maps) D \<lparr>tb_info = info, tb_entries = mp_entries maps\<rparr>"
    and "mp_entries maps' = mp_entries maps" and "mp_block maps' = mp_block maps"
    and "\<And>c. c \<noteq> conn \<Longrightarrow> mp_infos maps' c = mp_infos maps c"
proof (cases "mp_infos maps conn")
  case (Some info)
  show thesis by (rule that [of info maps]) (use Some assms in \<open>simp_all add: maps_follow_def get_dynamic_table_def\<close>)
next
  case None
  with assms have new: "dec_table D = []" "dec_max D = 4096" "dec_added D = 0"
    "\<And>i. mp_entries maps \<lparr>dtk_conn = conn, dtk_idx = i\<rparr> = None"
    by (simp_all add: maps_follow_def)
  have "holds conn \<lparr>tb_info = new_table_info, tb_entries = mp_entries maps\<rparr> []"
    by (rule holds_empty) (simp_all add: new_table_info_def new)
  then have "table_follows conn (mp_entries maps) D \<lparr>tb_info = new_table_info, tb_entries = mp_entries maps\<rparr>"
    by (simp add: table_follows_def new new_table_info_def)
  with None assms show thesis
    by (intro that [of new_table_info "maps\<lparr>mp_infos := (mp_infos maps)(conn \<mapsto> new_table_info)\<rparr>"])
      (simp_all add: maps_follow_def get_dynamic_table_def)
qed

lemma follows_start:
  assumes "table_follows conn es0 D \<lparr>tb_info = info, tb_entries = mp_entries (run_maps run)\<rparr>" and "run_ms run = dec_ms D"
  shows "follows \<lparr>mc_data = data, mc_conn = conn\<rparr> es0 src D (start_walk src info run)"
  using assms by (simp add: follows_def start_walk_def sits_def new_parse_state_def)

lemma hdr_loop_reads:
  assumes "reads tables kern ctx i cs w w'"
  shows "hdr_loop tables kern ctx i cs res None w = (if cs = [] then res else int (i + length cs) - 1, None, w')"
proof -
  have "buf_loop tables kern ctx i cs w = (int (i + length cs), w') \<Longrightarrow>
      hdr_loop tables kern ctx i cs res None w = (if cs = [] then res else int (i + length cs) - 1, None, w')"
  proof (induction cs arbitrary: i res w)
    case (Cons c cs)
    obtain err w1 where byte: "parse_hdr_byte tables kern ctx c (w\<lparr>hw_ps := (hw_ps w)\<lparr>ps_i := word_of_nat i\<rparr>\<rparr>) = (err, w1)"
      by (cases "parse_hdr_byte tables kern ctx c (w\<lparr>hw_ps := (hw_ps w)\<lparr>ps_i := word_of_nat i\<rparr>\<rparr>)")
    have "\<not> err < 0" using Cons.prems byte by (auto split: if_splits)
    with Cons.prems byte Cons.IH [of "i + 1" w1 "int i"] show ?case by (auto split: if_splits)
  qed simp
  then show ?thesis using assms by (simp add: reads_def)
qed

lemma kernel_of_simps [simp]: "k_block (kernel_of env maps) = mp_block maps" "roomy (kernel_of env maps) = roomy (env_kernel env)"
  "dec_field (kernel_of env maps) D n = dec_field (env_kernel env) D n"
  by (simp_all add: kernel_of_def roomy_def dec_field_def)

text \<open>The decoder does not look at the block of the CPU.\<close>

lemma decoder_kernel:
  assumes "k_static kern' = k_static kern" and "k_readable kern' = k_readable kern"
  shows "decode idf kern' src i r D = decode idf kern src i r D" and "decodable kern' D r = decodable kern D r"
proof -
  have f: "dec_field kern' D n = dec_field kern D n" for n using assms(1) by (simp add: dec_field_def)
  have nm: "dec_name kern' D name = dec_name kern D name" for name by (cases name) (simp_all add: f)
  have id: "dec_name_id idf kern' D name = dec_name_id idf kern D name" for name by (cases name) (simp_all add: f)
  have e: "new_entry kern' k v = new_entry kern k v" for k v using assms(2) by (simp add: new_entry_def)
  have nr: "name_readable kern' D name = name_readable kern D name" for name by (cases name) (simp_all add: f)
  show "decode idf kern' src i r D = decode idf kern src i r D" by (cases r) (simp_all add: f nm id e)
  show "decodable kern' D r = decodable kern D r" by (cases r) (simp_all add: f nm e nr)
qed

lemma decoder_kernel_all:
  assumes "k_static kern' = k_static kern" and "k_readable kern' = k_readable kern"
  shows "decode_all idf kern' src i rs D = decode_all idf kern src i rs D"
    and "decodable_all idf kern' src i rs D = decodable_all idf kern src i rs D"
  by (induction rs arbitrary: i D) (simp_all add: decoder_kernel [OF assms])

lemma decoder_kernel_of [simp]:
  "decode_all idf (kernel_of env maps) src i rs D = decode_all idf (env_kernel env) src i rs D"
  "decodable_all idf (kernel_of env maps) src i rs D = decodable_all idf (env_kernel env) src i rs D"
  by (rule decoder_kernel_all; simp add: kernel_of_def)+

subsection \<open>A HEADERS frame with a whole block\<close>

text \<open>What a run leaves once a block is decoded to \<open>D\<close>.\<close>

definition decoded :: "h2_prog_env \<Rightarrow> ip4_conn \<Rightarrow> decoder \<Rightarrow> h2_run \<Rightarrow> h2_run \<Rightarrow> bool" where
  "decoded env conn D run run' \<longleftrightarrow> run_ms run' = dec_ms D \<and> maps_follow env conn D (run_maps run') \<and>
     others_kept conn (run_maps run) (run_maps run')"

lemma table_eta [simp]: "\<lparr>tb_info = tb_info tb, tb_entries = tb_entries tb\<rparr> = tb"
  by (cases tb) simp

lemma end_walk_decoded:
  assumes "follows \<lparr>mc_data = data, mc_conn = conn\<rparr> (mp_entries (run_maps run)) src D w"
  shows "decoded env conn D run (end_walk conn w run)"
proof -
  have "table_follows conn (mp_entries (run_maps run)) D (hw_tb w)" and ms: "hw_ms w = dec_ms D"
    using assms by (simp_all add: follows_def sits_def)
  then have "table_follows conn (tb_entries (hw_tb w)) D (hw_tb w)"
    and "\<And>key. dtk_conn key \<noteq> conn \<Longrightarrow> tb_entries (hw_tb w) key = mp_entries (run_maps run) key"
    by (simp_all add: table_follows_def)
  then show ?thesis
    using ms by (simp add: decoded_def end_walk_def put_table_def maps_follow_def others_kept_def)
qed

lemma others_kept_trans: "others_kept conn a b \<Longrightarrow> others_kept conn b c \<Longrightarrow> others_kept conn a c"
  by (simp add: others_kept_def)

lemma parse_hdr_frame_decodes:
  assumes "h2_loaded encode p tables" and "roomy (env_kernel env)"
    and "maps_follow env conn D (run_maps run)" and "run_ms run = dec_ms D"
    and "decodable_all (name_id p) (env_kernel env) HTTP_SRC_MSG start rs D"
    and "drop start data = concat (map repr_bytes rs) @ rest"
    and "stop = start + length (concat (map repr_bytes rs))" and "start \<le> length data" and "stop \<le> MAX_BYTES"
  obtains res run' where "parse_hdr_frame tables env \<lparr>mc_data = data, mc_conn = conn\<rparr> start stop None run = (res, None, run')"
    and "int stop - 1 \<le> res" and "0 \<le> res" and "run_frame run' = run_frame run"
    and "decoded env conn (decode_all (name_id p) (env_kernel env) HTTP_SRC_MSG start rs D) run run'"
proof -
  let ?block = "concat (map repr_bytes rs)" and ?ctx = "\<lparr>mc_data = data, mc_conn = conn\<rparr>"
  obtain info maps where t: "get_dynamic_table env conn (run_maps run) = (Some info, maps)"
    "table_follows conn (mp_entries (run_maps run)) D \<lparr>tb_info = info, tb_entries = mp_entries (run_maps run)\<rparr>"
    "mp_entries maps = mp_entries (run_maps run)" "\<And>c. c \<noteq> conn \<Longrightarrow> mp_infos maps c = mp_infos (run_maps run) c"
    using maps_follow_table [OF assms(3)] by metis
  let ?run = "run\<lparr>run_maps := maps\<rparr>" and ?kern = "kernel_of env maps"
  let ?data = "take MAX_BYTES (mc_data ?ctx)"
  have len: "stop \<le> length data" using arg_cong [OF assms(6), of length] assms(7,8) by simp
  have start: "follows ?ctx (mp_entries (run_maps ?run)) HTTP_SRC_MSG D (start_walk HTTP_SRC_MSG info ?run)"
    using t(2,3) assms(4) by (intro follows_start) simp_all
  have src: "source_holds ?kern ?ctx HTTP_SRC_MSG ?data" by (rule message_source)
  have bytes: "drop start ?data = ?block @ take (MAX_BYTES - stop) rest"
    using assms(6,7,9) by (simp add: drop_take)
  obtain w' where w': "reads tables ?kern ?ctx start ?block (start_walk HTTP_SRC_MSG info ?run) w'"
    "follows ?ctx (mp_entries (run_maps ?run)) HTTP_SRC_MSG (decode_all (name_id p) ?kern HTTP_SRC_MSG start rs D) w'"
    by (rule decode_block [OF assms(1) _ src start _ bytes]) (use assms(2,5,7,8,9) in simp_all)
  have "drop start (take (min stop (min (length data) MAX_BYTES)) data) = ?block"
    using assms(6,7,9) len by (simp add: drop_take)
  then have run: "parse_hdr_frame tables env ?ctx start stop None run =
      (if ?block = [] then int start else int (start + length ?block) - 1, None, end_walk conn w' ?run)"
    unfolding parse_hdr_frame_def parse_hdr_from_def msg_ctx.select_convs t(1)
    by (simp only: prod.case option.case Let_def hdr_loop_reads [OF w'(1)])
  have "decoded env conn (decode_all (name_id p) ?kern HTTP_SRC_MSG start rs D) ?run (end_walk conn w' ?run)"
    using w'(2) by (rule end_walk_decoded)
  moreover have "others_kept conn (run_maps run) maps" using t(3,4) by (simp add: others_kept_def)
  ultimately have dec: "decoded env conn (decode_all (name_id p) (env_kernel env) HTTP_SRC_MSG start rs D) run (end_walk conn w' ?run)"
    by (auto simp: decoded_def intro: others_kept_trans)
  have res: "int (start + length b) - 1 \<le> (if b = [] then int start else int (start + length b) - 1)"
    "0 \<le> (if b = [] then int start else int (start + length b) - 1)" for b :: bytes
    by (cases b; simp)+
  show thesis
    by (rule that [OF run _ res(2) _ dec]) (unfold assms(7), rule res(1), simp add: end_walk_def)
qed

lemma decoded_trans:
  "decoded env conn D run1 run2 \<Longrightarrow> others_kept conn (run_maps run0) (run_maps run1) \<Longrightarrow> decoded env conn D run0 run2"
  by (auto simp: decoded_def intro: others_kept_trans)

text \<open>An offset in a frame that starts at \<open>off\<close>, in 16 bits.\<close>

lemma unat_offset:
  assumes "off + a < 2 ^ 16"
  shows "unat (word_of_nat a + word_of_nat off :: u16) = off + a"
proof -
  have "(word_of_nat a + word_of_nat off :: u16) = word_of_nat (off + a)" by (simp add: add.commute)
  then show ?thesis using assms by (simp only: unat_u16)
qed

lemma parse_frame_decodes:
  assumes "h2_loaded encode p tables" and "roomy (env_kernel env)"
    and "maps_follow env conn D (run_maps run)" and "run_ms run = dec_ms D"
    and "headers_ok flags padding prio" and "block = concat (map repr_bytes rs)" and "payload = headers_payload padding prio block"
    and "start = off + headers_start padding prio"
    and "decodable_all (name_id p) (env_kernel env) HTTP_SRC_MSG start rs D"
    and "drop off data = frame_bytes ty fl sid payload @ rest" and "off \<le> length data" and "start + length block \<le> MAX_BYTES"
  obtains run' where "parse_frame tables env \<lparr>mc_data = data, mc_conn = conn\<rparr> off (length payload) HTTP2_HEADERS_FRAME flags None run =
      (0, None, run')"
    and "decoded env conn (decode_all (name_id p) (env_kernel env) HTTP_SRC_MSG start rs D) run run'"
proof -
  let ?ctx = "\<lparr>mc_data = data, mc_conn = conn\<rparr>" and ?start = "headers_start padding prio" and ?stop = "start + length block"
  obtain info maps where t: "get_dynamic_table env conn (run_maps run) = (Some info, maps)" "mp_infos maps conn = Some info"
    "table_follows conn (mp_entries (run_maps run)) D \<lparr>tb_info = info, tb_entries = mp_entries (run_maps run)\<rparr>"
    "mp_entries maps = mp_entries (run_maps run)" "\<And>c. c \<noteq> conn \<Longrightarrow> mp_infos maps c = mp_infos (run_maps run) c"
    using maps_follow_table [OF assms(3)] by metis
  let ?run = "run\<lparr>run_maps := maps, run_frame := (run_frame run)\<lparr>fr_dt_count_before := table_count conn maps\<rparr>\<rparr>"
  have follow: "maps_follow env conn D (run_maps ?run)" using t(2-4) by (simp add: maps_follow_def)
  have ms: "run_ms ?run = dec_ms D" using assms(4) by simp
  have small: "?start < 2 ^ 16" "?start + length block < 2 ^ 16" "\<not> MAX_BYTES < off" "\<not> MAX_BYTES < off + (?start + length block)"
    using assms(8,12) by (simp_all add: MAX_BYTES_def)
  have "drop start data = drop ?start (drop off data)" by (simp add: assms(8) add.commute)
  then have bytes: "drop start data = concat (map repr_bytes rs) @ pad_of padding @ rest"
    unfolding assms(10,7) headers_fragment [OF assms(5)] by (simp add: assms(6))
  have "9 + length payload = ?start + length block + length (pad_of padding)"
    unfolding assms(7) using assms(5) by (rule headers_payload_length)
  moreover have "length data - off = 9 + length payload + length rest" using arg_cong [OF assms(10), of length] by simp
  ultimately have start: "start \<le> length data" using assms(8,11) by simp
  have stop: "?stop = start + length (concat (map repr_bytes rs))" by (simp add: assms(6))
  obtain res run' where h: "parse_hdr_frame tables env ?ctx start ?stop None ?run = (res, None, run')"
    "int ?stop - 1 \<le> res" "0 \<le> res" "run_frame run' = run_frame ?run"
    "decoded env conn (decode_all (name_id p) (env_kernel env) HTTP_SRC_MSG start rs D) ?run run'"
    by (rule parse_hdr_frame_decodes [OF assms(1,2) follow ms assms(9) bytes stop start assms(12)])
  have block: "http2_block (drop off data) (length payload) HTTP2_HEADERS_FRAME flags =
      Inr (word_of_nat ?start, word_of_nat (?start + length block))"
    unfolding assms(10) by (rule http2_block_headers [OF assms(5,7)])
  have at: "unat (word_of_nat ?start + word_of_nat off :: u16) = start"
    "unat (word_of_nat (?start + length block) + word_of_nat off :: u16) = ?stop"
    using assms(8,12) by (subst unat_offset; simp add: MAX_BYTES_def)+
  have "parse_frame tables env ?ctx off (length payload) HTTP2_HEADERS_FRAME flags None run =
      (0, None, run'\<lparr>run_frame := (run_frame run')\<lparr>fr_dt_count := table_count conn (run_maps run')\<rparr>\<rparr>)"
    unfolding parse_frame_def msg_ctx.select_convs block sum.case prod.case unat_u16 [OF small(1)] unat_u16 [OF small(2)]
      if_not_P [OF small(3)] if_not_P [OF small(4)] Let_def t(1) at
    using h(1-3) by (simp add: HTTP2_HEADERS_FRAME_def HTTP2_SETTINGS_FRAME_def)
  moreover have "others_kept conn (run_maps run) (run_maps ?run)" using t(4,5) by (simp add: others_kept_def)
  with h(5) have "decoded env conn (decode_all (name_id p) (env_kernel env) HTTP_SRC_MSG start rs D) run
      (run'\<lparr>run_frame := (run_frame run')\<lparr>fr_dt_count := table_count conn (run_maps run')\<rparr>\<rparr>)"
    by (simp add: decoded_def others_kept_def)
  ultimately show thesis by (rule that)
qed

lemma frame_header:
  assumes "length payload < 2 ^ 24" and "sid < 0x80000000" and "hdr = take 9 (frame_bytes ty flags sid payload)"
  shows "u24 hdr = length payload" and "stream_id hdr = sid" and "hdr ! 3 = ty" and "hdr ! 4 = flags"
  using u24_frame [OF assms(1), of ty flags sid "[]"] stream_id_frame [OF assms(2), of ty flags payload "[]"]
    frame_nth(1,2) [of ty flags sid payload "[]"]
  by (simp_all add: assms(3))

lemma headers_frame_decodes:
  assumes "h2_loaded encode p tables" and "roomy (env_kernel env)"
    and "maps_follow env conn D (run_maps run)" and "run_ms run = dec_ms D"
    and "headers_ok flags padding prio" and "flags AND HTTP2_END_HEADERS_FLAG \<noteq> 0" and "sid \<noteq> 0" and "sid < 0x80000000"
    and "block = concat (map repr_bytes rs)" and "frame = frame_bytes HTTP2_HEADERS_FRAME flags sid (headers_payload padding prio block)"
    and "start = off + headers_start padding prio"
    and "decodable_all (name_id p) (env_kernel env) HTTP_SRC_MSG start rs D"
    and "pull (off + length frame) = Some data" and "drop off data = frame @ rest" and "off \<le> length data"
    and "start + length block \<le> MAX_BYTES" and "length frame \<le> sz"
  obtains run' where "parse_frame_at tables env conn pull (take 9 frame) off sz pulled None run = (int (length frame), None, run')"
    and "decoded env conn (decode_all (name_id p) (env_kernel env) HTTP_SRC_MSG start rs D) run run'"
proof -
  let ?payload = "headers_payload padding prio block"
  let ?run = "run\<lparr>run_frame := new_http2_frame (take 9 frame)\<rparr>"
  have len: "length frame = 9 + length ?payload" by (simp add: assms(10))
  have pad: "length (pad_of padding) < 256" using assms(5) by (auto simp: pad_of_def headers_ok_def split: option.splits)
  have "9 + length ?payload = headers_start padding prio + length block + length (pad_of padding)"
    using assms(5) by (rule headers_payload_length)
  then have small: "length ?payload < 2 ^ 24" using assms(11,16) pad by (simp add: MAX_BYTES_def)
  note hdr = frame_header [OF small assms(8) refl, of HTTP2_HEADERS_FRAME flags, folded assms(10)]
  obtain run' where r: "parse_frame tables env \<lparr>mc_data = data, mc_conn = conn\<rparr> off (length ?payload) HTTP2_HEADERS_FRAME flags None ?run =
      (0, None, run')"
    "decoded env conn (decode_all (name_id p) (env_kernel env) HTTP_SRC_MSG start rs D) ?run run'"
    by (rule parse_frame_decodes [OF assms(1,2) _ _ assms(5,9) refl assms(11,12) _ assms(15,16),
        where run = ?run and ty = HTTP2_HEADERS_FRAME and fl = flags and sid = sid and rest = rest])
      (use assms(3,4,10,14) in simp_all)
  have "parse_frame_at tables env conn pull (take 9 frame) off sz pulled None run = (int (length frame), None, run')"
    unfolding parse_frame_at_def hdr Let_def
    using assms(6,7,13,17) r(1)
    by (simp add: len HTTP2_FRAME_HDR_LEN_def violates_block_rules_def is_parsed_frame_def HTTP2_HEADERS_FRAME_def
        HTTP2_CONTINUATION_FRAME_def HTTP2_SETTINGS_FRAME_def)
  moreover have "decoded env conn (decode_all (name_id p) (env_kernel env) HTTP_SRC_MSG start rs D) run run'"
    using r(2) by (simp add: decoded_def)
  ultimately show thesis by (rule that)
qed

end
