(* ===== verification/Http2_Continuation.thy ===== *)
theory Http2_Continuation
  imports Http2_Frames
begin

section \<open>Header blocks of several frames\<close>

text \<open>
  A block that CONTINUATION frames carry on is put together in the buffer of the CPU and decoded
  there, as if it had been sent in one piece.
\<close>

subsection \<open>Fragments\<close>

definition continuation_bytes :: "u32 \<Rightarrow> (u8 \<times> bytes) list \<Rightarrow> bytes" where
  "continuation_bytes sid conts = concat (map (\<lambda>(fl, fragment). frame_bytes HTTP2_CONTINUATION_FRAME fl sid fragment) conts)"

text \<open>Exactly the last frame ends the block.\<close>

fun continuations_ok :: "(u8 \<times> bytes) list \<Rightarrow> bool" where
  "continuations_ok [] \<longleftrightarrow> False"
| "continuations_ok [(fl, _)] \<longleftrightarrow> fl AND HTTP2_END_HEADERS_FLAG \<noteq> 0"
| "continuations_ok ((fl, _) # c # cs) \<longleftrightarrow> fl AND HTTP2_END_HEADERS_FLAG = 0 \<and> continuations_ok (c # cs)"

lemma probe_read_range:
  assumes "\<And>bs. k_readable kern bs" and "drop i data = bs @ rest"
  shows "probe_read kern i (length bs) data = Some bs"
  by (simp add: probe_read_def assms)

lemma read_header:
  assumes "\<And>bs. k_readable kern bs" and "drop i data = frame_bytes ty flags sid payload @ rest"
  shows "probe_read kern i 9 data = Some (take 9 (frame_bytes ty flags sid payload))"
  using assms by (simp add: probe_read_def)

lemma collect_first:
  assumes "\<And>bs. k_readable kern bs" and "headers_ok flags padding prio" and "sid < 0x80000000"
    and "frame = frame_bytes HTTP2_HEADERS_FRAME flags sid (headers_payload padding prio fragment)"
    and "drop i data = frame @ rest" and "i \<le> length data" and "i + length frame \<le> MAX_BYTES" and "length fragment \<le> BLOCK_MAXLEN"
  shows "collect_frame kern data off True i 0 sid0 =
    Inr (length frame, fragment, sid, flags AND HTTP2_END_HEADERS_FLAG \<noteq> 0)"
proof -
  let ?payload = "headers_payload padding prio fragment" and ?start = "headers_start padding prio"
  have len: "length frame = 9 + length ?payload" by (simp add: assms(4))
  have parts: "9 + length ?payload = ?start + length fragment + length (pad_of padding)"
    using assms(2) by (rule headers_payload_length)
  have small: "length ?payload < 2 ^ 24" using assms(7) len by (simp add: MAX_BYTES_def)
  note hdr = frame_header [OF small assms(3) refl, of HTTP2_HEADERS_FRAME flags]
  have data: "i + length frame \<le> length data" using arg_cong [OF assms(5), of length] assms(6) by simp
  have header: "probe_read kern i 9 data = Some (take 9 frame)"
    using read_header [OF assms(1), of i data] assms(4,5) by blast
  have flags: "flags AND HTTP2_PADDED_FLAG \<noteq> 0 \<longleftrightarrow> padding \<noteq> None" "flags AND HTTP2_PRIORITY_FLAG \<noteq> 0 \<longleftrightarrow> prio \<noteq> None"
    using assms(2) by (simp_all add: headers_ok_def)
  have start: "9 + (if padding \<noteq> None then 1 else 0) + (if prio \<noteq> None then HTTP2_PRIORITY_LEN else 0) = ?start"
    by (simp add: headers_start_def HTTP2_PRIORITY_LEN_def)
  have body: "drop (i + 9) data = ?payload @ rest"
  proof -
    have "drop (i + 9) data = drop 9 (drop i data)" by (simp add: add.commute)
    then show ?thesis unfolding assms(5,4) by simp
  qed
  have pad: "(if padding \<noteq> None then probe_read kern (i + 9) 1 data else Some [0]) = Some [word_of_nat (length (pad_of padding))]"
    using body assms(1) by (cases padding) (simp_all add: probe_read_def headers_payload_def pad_of_def)
  have pad_len: "unat ([word_of_nat (length (pad_of padding)) :: u8] ! 0) = length (pad_of padding)"
    using assms(2) by (auto simp: headers_ok_def pad_of_def unat_u8 split: option.splits)
  have room: "padding \<noteq> None \<Longrightarrow> 10 \<le> ?start" by (cases padding) (simp_all add: headers_start_def)
  have m: "length frame - length (pad_of padding) - ?start = length fragment" using len parts by simp
  have "drop (i + ?start) data = drop ?start (drop i data)" by (simp add: add.commute)
  then have "drop (i + ?start) data = fragment @ pad_of padding @ rest"
    unfolding assms(5,4) headers_fragment [OF assms(2)] .
  then have read: "(if 0 < length fragment then probe_read kern (i + ?start) (length fragment) data else Some []) = Some fragment"
    using probe_read_range [OF assms(1), of "i + ?start" data fragment] by auto
  show ?thesis
    unfolding collect_frame_def HTTP2_FRAME_HDR_LEN_def header option.case Let_def
    unfolding assms(4) hdr
    unfolding assms(4) [symmetric] len [symmetric] simp_thms flags start pad option.case pad_len m read
    using data assms(7,8) len parts room by auto
qed

lemma collect_continuation:
  assumes "\<And>bs. k_readable kern bs" and "sid < 0x80000000"
    and "frame = frame_bytes HTTP2_CONTINUATION_FRAME flags sid fragment"
    and "drop i data = frame @ rest" and "i \<le> length data" and "i + length frame \<le> MAX_BYTES" and "pos + length fragment \<le> BLOCK_MAXLEN"
  shows "collect_frame kern data off False i pos sid =
    Inr (length frame, fragment, sid, flags AND HTTP2_END_HEADERS_FLAG \<noteq> 0)"
proof -
  have len: "length frame = 9 + length fragment" by (simp add: assms(3))
  have small: "length fragment < 2 ^ 24" using assms(6) len by (simp add: MAX_BYTES_def)
  note hdr = frame_header [OF small assms(2) refl, of HTTP2_CONTINUATION_FRAME flags]
  have data: "i + length frame \<le> length data" using arg_cong [OF assms(4), of length] assms(5) by simp
  have header: "probe_read kern i 9 data = Some (take 9 frame)"
    using read_header [OF assms(1), of i data] assms(3,4) by blast
  have "drop (i + 9) data = drop 9 (drop i data)" by (simp add: add.commute)
  then have "drop (i + 9) data = fragment @ rest" unfolding assms(4,3) by simp
  then have read: "probe_read kern (i + 9) (length fragment) data = Some fragment" by (rule probe_read_range [OF assms(1)])
  show ?thesis
    unfolding collect_frame_def HTTP2_FRAME_HDR_LEN_def header option.case Let_def
    unfolding assms(3) hdr
    unfolding assms(3) [symmetric] len [symmetric]
    using data assms(6,7) len read by simp
qed

text \<open>The fragments are put one after another in the buffer.\<close>

lemma write_at_end:
  assumes "take pos buf = acc" and "length acc = pos"
  shows "take (pos + length bs) (write_at pos bs buf) = acc @ bs"
  using assms by (simp add: write_at_def)

lemma collect_continuations:
  assumes "\<And>bs. k_readable kern bs" and "sid < 0x80000000" and "continuations_ok conts"
    and "drop i data = continuation_bytes sid conts @ rest" and "i \<le> length data" and "off \<le> i"
    and "i + length (continuation_bytes sid conts) \<le> MAX_BYTES"
    and "take pos (bb_data buf) = acc" and "length acc = pos"
    and "pos + length (concat (map snd conts)) \<le> BLOCK_MAXLEN" and "length conts \<le> n"
  shows "\<exists>buf'. collect_loop n kern data off False i pos sid buf =
      (int (i + length (continuation_bytes sid conts) - off),
       \<lparr>blk_len = pos + length (concat (map snd conts)), blk_need = 0\<rparr>, buf') \<and>
    bb_len buf' = word_of_nat (pos + length (concat (map snd conts))) \<and>
    take (pos + length (concat (map snd conts))) (bb_data buf') = acc @ concat (map snd conts)"
  using assms(3-)
proof (induction conts arbitrary: n i pos acc buf)
  case Nil
  then show ?case by simp
next
  case (Cons c cs)
  obtain fl fragment where c: "c = (fl, fragment)" by fastforce
  define frame where "frame = frame_bytes HTTP2_CONTINUATION_FRAME fl sid fragment"
  obtain m where n: "n = Suc m" using Cons.prems(9) by (cases n) simp_all
  have data: "drop i data = frame @ continuation_bytes sid cs @ rest"
    using Cons.prems(2) by (simp add: c frame_def continuation_bytes_def)
  have size: "length (continuation_bytes sid (c # cs)) = length frame + length (continuation_bytes sid cs)"
    by (simp add: c frame_def continuation_bytes_def)
  have frame: "collect_frame kern data off False i pos sid =
      Inr (length frame, fragment, sid, fl AND HTTP2_END_HEADERS_FLAG \<noteq> 0)"
    by (rule collect_continuation [OF assms(1,2) frame_def data Cons.prems(3)]) (use Cons.prems(5,8) size c in simp_all)
  let ?buf = "buf\<lparr>bb_data := write_at pos fragment (bb_data buf)\<rparr>"
  have taken: "take (pos + length fragment) (bb_data ?buf) = acc @ fragment"
    using write_at_end [OF Cons.prems(6,7)] by simp
  show ?case
  proof (cases cs)
    case Nil
    then show ?thesis
      using Cons.prems(1) taken unfolding size by (simp add: n frame c continuation_bytes_def)
  next
    case (Cons d ds)
    have go: "fl AND HTTP2_END_HEADERS_FLAG = 0" "continuations_ok cs" using Cons.prems(1) by (simp_all add: c Cons)
    have "drop (i + length frame) data = drop (length frame) (drop i data)" by (simp add: add.commute)
    then have rest: "drop (i + length frame) data = continuation_bytes sid cs @ rest" unfolding data by simp
    have at: "i + length frame \<le> length data" using arg_cong [OF data, of length] Cons.prems(3) by simp
    have "\<exists>buf'. collect_loop m kern data off False (i + length frame) (pos + length fragment) sid ?buf =
        (int (i + length frame + length (continuation_bytes sid cs) - off),
         \<lparr>blk_len = pos + length fragment + length (concat (map snd cs)), blk_need = 0\<rparr>, buf') \<and>
      bb_len buf' = word_of_nat (pos + length fragment + length (concat (map snd cs))) \<and>
      take (pos + length fragment + length (concat (map snd cs))) (bb_data buf') = (acc @ fragment) @ concat (map snd cs)"
      by (rule Cons.IH [OF go(2) rest at _ _ taken])
        (use Cons.prems(4,7,8,9) Cons.prems(5) [unfolded size] in \<open>simp_all add: n c\<close>)
    then obtain buf' where buf': "collect_loop m kern data off False (i + length frame) (pos + length fragment) sid ?buf =
        (int (i + length frame + length (continuation_bytes sid cs) - off),
         \<lparr>blk_len = pos + length fragment + length (concat (map snd cs)), blk_need = 0\<rparr>, buf')"
      "bb_len buf' = word_of_nat (pos + length fragment + length (concat (map snd cs)))"
      "take (pos + length fragment + length (concat (map snd cs))) (bb_data buf') = (acc @ fragment) @ concat (map snd cs)"
      by blast
    have "collect_loop n kern data off False i pos sid buf =
        collect_loop m kern data off False (i + length frame) (pos + length fragment) sid ?buf"
      by (simp add: n frame go(1))
    then show ?thesis
      unfolding size using buf' by (intro exI [of _ buf']) (simp add: c add.assoc)
  qed
qed

subsection \<open>The block\<close>

text \<open>What the buffer holds once a block is collected.\<close>

definition buffered :: "bytes \<Rightarrow> block_buf \<Rightarrow> bool" where
  "buffered block buf \<longleftrightarrow> bb_len buf = word_of_nat (length block) \<and> take (length block) (bb_data buf) = block"

lemma continuations_few: "9 * length conts \<le> length (continuation_bytes sid conts)"
  by (induction conts) (auto simp: continuation_bytes_def)

lemma collect_block_result:
  assumes "\<And>bs. k_readable kern bs" and "headers_ok flags padding prio" and "flags AND HTTP2_END_HEADERS_FLAG = 0"
    and "sid < 0x80000000" and "continuations_ok conts"
    and "first = frame_bytes HTTP2_HEADERS_FRAME flags sid (headers_payload padding prio fragment)"
    and "drop off data = first @ continuation_bytes sid conts @ rest" and "off \<le> length data"
    and "whole = length first + length (continuation_bytes sid conts)" and "off + whole \<le> MAX_BYTES"
    and "block = fragment @ concat (map snd conts)" and "length block \<le> BLOCK_MAXLEN" and "k_block kern \<noteq> None"
  obtains buf where "collect_block kern \<lparr>mc_data = data, mc_conn = conn\<rparr> off =
      (int whole, \<lparr>blk_len = length block, blk_need = 0\<rparr>, Some buf)"
    and "buffered block buf"
proof -
  obtain buf0 where buf0: "k_block kern = Some buf0" using assms(13) by blast
  let ?buf = "buf0\<lparr>bb_data := write_at 0 fragment (bb_data buf0)\<rparr>" and ?n = "MAX_BYTES div HTTP2_FRAME_HDR_LEN"
  have frame: "collect_frame kern data off True off 0 0 = Inr (length first, fragment, sid, flags AND HTTP2_END_HEADERS_FLAG \<noteq> 0)"
    by (rule collect_first [OF assms(1,2,4,6,7,8)]) (use assms(9-12) in simp_all)
  have "drop (off + length first) data = drop (length first) (drop off data)" by (simp add: add.commute)
  then have rest: "drop (off + length first) data = continuation_bytes sid conts @ rest" unfolding assms(7) by simp
  have at: "off + length first \<le> length data" using arg_cong [OF assms(7), of length] assms(8) by simp
  have n: "length conts \<le> ?n"
    using continuations_few [of conts sid] assms(9,10) by (simp add: HTTP2_FRAME_HDR_LEN_def MAX_BYTES_def)
  have "\<exists>buf. collect_loop ?n kern data off False (off + length first) (length fragment) sid ?buf =
      (int (off + length first + length (continuation_bytes sid conts) - off),
       \<lparr>blk_len = length fragment + length (concat (map snd conts)), blk_need = 0\<rparr>, buf) \<and>
    bb_len buf = word_of_nat (length fragment + length (concat (map snd conts))) \<and>
    take (length fragment + length (concat (map snd conts))) (bb_data buf) = fragment @ concat (map snd conts)"
    by (rule collect_continuations [OF assms(1,4,5) rest at _ _ _ refl _ n])
      (use assms(9-12) in \<open>simp_all add: write_at_def\<close>)
  then obtain buf where buf: "collect_loop ?n kern data off False (off + length first) (length fragment) sid ?buf =
      (int whole, \<lparr>blk_len = length block, blk_need = 0\<rparr>, buf)" "buffered block buf"
    by (auto simp: assms(9,11) buffered_def)
  then have "collect_block kern \<lparr>mc_data = data, mc_conn = conn\<rparr> off =
      (int whole, \<lparr>blk_len = length block, blk_need = 0\<rparr>, Some buf)"
    unfolding collect_block_def buf0 option.case msg_ctx.select_convs
    by (simp only: Suc_eq_plus1 [symmetric] collect_loop.simps frame sum.case prod.case Let_def assms(3) simp_thms if_False if_True
        add_0 refl)
  with buf(2) that show thesis by blast
qed

lemma maps_follow_block [simp]: "maps_follow env conn D (maps\<lparr>mp_block := b\<rparr>) = maps_follow env conn D maps"
  by (simp add: maps_follow_def split: option.splits)

lemma parse_block_decodes:
  assumes "h2_loaded encode p tables" and "roomy (env_kernel env)"
    and "maps_follow env conn D (run_maps run)" and "run_ms run = dec_ms D"
    and "headers_ok flags padding prio" and "flags AND HTTP2_END_HEADERS_FLAG = 0"
    and "sid < 0x80000000" and "continuations_ok conts"
    and "first = frame_bytes HTTP2_HEADERS_FRAME flags sid (headers_payload padding prio fragment)"
    and "drop off data = first @ continuation_bytes sid conts @ rest" and "off \<le> length data"
    and "whole = length first + length (continuation_bytes sid conts)" and "off + whole \<le> MAX_BYTES"
    and "fragment @ concat (map snd conts) = concat (map repr_bytes rs)" and "length (concat (map repr_bytes rs)) \<le> BLOCK_MAXLEN"
    and "mp_block (run_maps run) \<noteq> None"
    and "decodable_all (name_id p) (env_kernel env) HTTP_SRC_BUF 0 rs D" and "\<And>bs. k_readable (env_kernel env) bs"
  obtains run' buf where "parse_block tables env \<lparr>mc_data = data, mc_conn = conn\<rparr> off run = (int whole, run')"
    and "decoded env conn (decode_all (name_id p) (env_kernel env) HTTP_SRC_BUF 0 rs D) run run'"
    and "mp_block (run_maps run') = Some buf" and "buffered (concat (map repr_bytes rs)) buf"
proof -
  let ?block = "concat (map repr_bytes rs)" and ?ctx = "\<lparr>mc_data = data, mc_conn = conn\<rparr>"
  have kern: "\<And>bs. k_readable (kernel_of env maps) bs" for maps using assms(18) by (simp add: kernel_of_def)
  obtain buf where buf: "collect_block (kernel_of env (run_maps run)) ?ctx off =
      (int whole, \<lparr>blk_len = length ?block, blk_need = 0\<rparr>, Some buf)" "buffered ?block buf"
    by (rule collect_block_result [OF kern assms(5-13) assms(14) [symmetric] assms(15)]) (use assms(16) in simp)
  let ?run = "run\<lparr>run_maps := (run_maps run)\<lparr>mp_block := Some buf\<rparr>\<rparr>"
  have follow: "maps_follow env conn D (run_maps ?run)" using assms(3) by simp
  have same: "mp_infos (run_maps ?run) = mp_infos (run_maps run)" "mp_entries (run_maps ?run) = mp_entries (run_maps run)"
    "mp_block (run_maps ?run) = Some buf"
    by simp_all
  from maps_follow_table [OF follow, unfolded same] obtain info maps where t: "get_dynamic_table env conn (run_maps ?run) = (Some info, maps)"
    "table_follows conn (mp_entries (run_maps run)) D \<lparr>tb_info = info, tb_entries = mp_entries (run_maps run)\<rparr>"
    "mp_entries maps = mp_entries (run_maps run)" "mp_block maps = Some buf"
    "\<And>c. c \<noteq> conn \<Longrightarrow> mp_infos maps c = mp_infos (run_maps run) c"
    by blast
  let ?run2 = "?run\<lparr>run_maps := maps, run_frame := (run_frame ?run)\<lparr>fr_dt_count_before := dt_count info\<rparr>\<rparr>"
  let ?kern = "kernel_of env maps"
  have len: "unat (bb_len buf) = length ?block"
    using buf(2) assms(15) by (simp add: buffered_def unat_u32 BLOCK_MAXLEN_def BLOCK_BUF_SIZE_def)
  have data: "take (length ?block) (bb_data buf) = ?block" using buf(2) by (simp add: buffered_def)
  have enough: "length ?block \<le> length (bb_data buf)" using arg_cong [OF data, of length] by simp
  have src: "source_holds ?kern ?ctx HTTP_SRC_BUF ?block"
    using block_source [of ?kern buf ?ctx] assms(15) enough t(4) unfolding len data by simp
  have start: "follows ?ctx (mp_entries (run_maps ?run2)) HTTP_SRC_BUF D (start_walk HTTP_SRC_BUF info ?run2)"
    by (rule follows_start) (use t(2,3) assms(4) in simp_all)
  have bytes: "drop 0 ?block = ?block @ []" by simp
  obtain w where w: "reads tables ?kern ?ctx 0 ?block (start_walk HTTP_SRC_BUF info ?run2) w"
    "follows ?ctx (mp_entries (run_maps ?run2)) HTTP_SRC_BUF (decode_all (name_id p) ?kern HTTP_SRC_BUF 0 rs D) w"
    by (rule decode_block [OF assms(1) _ src start _ bytes le0]) (use assms(2,17) in simp_all)
  have loop: "parse_hdr_buf tables ?kern ?ctx (length ?block) (start_walk HTTP_SRC_BUF info ?run2) = (int (length ?block), w)"
    using w(1) t(4) assms(15) data by (simp add: parse_hdr_buf_def reads_def min_absorb1)
  let ?run3 = "end_walk conn w ?run2"
  let ?run' = "?run3\<lparr>run_frame := (run_frame ?run3)\<lparr>fr_dt_count := dt_count (tb_info (hw_tb w))\<rparr>\<rparr>"
  have run: "parse_block tables env ?ctx off run = (int whole, ?run')"
    unfolding parse_block_def Let_def buf(1) prod.case collected_block.select_convs msg_ctx.select_convs t(1) option.case loop
    by simp
  have "decoded env conn (decode_all (name_id p) ?kern HTTP_SRC_BUF 0 rs D) ?run2 (end_walk conn w ?run2)"
    using w(2) by (rule end_walk_decoded)
  moreover have "others_kept conn (run_maps run) (run_maps ?run2)" using t(3,5) by (simp add: others_kept_def)
  ultimately have dec: "decoded env conn (decode_all (name_id p) (env_kernel env) HTTP_SRC_BUF 0 rs D) run ?run'"
    by (auto simp: decoded_def intro: others_kept_trans)
  show thesis
    by (rule that [OF run dec _ buf(2)]) (simp add: end_walk_def put_table_def t(4))
qed

lemma continued_frame_decodes:
  assumes "h2_loaded encode p tables" and "roomy (env_kernel env)"
    and "maps_follow env conn D (run_maps run)" and "run_ms run = dec_ms D"
    and "headers_ok flags padding prio" and "flags AND HTTP2_END_HEADERS_FLAG = 0"
    and "sid < 0x80000000" and "continuations_ok conts"
    and "first = frame_bytes HTTP2_HEADERS_FRAME flags sid (headers_payload padding prio fragment)"
    and "drop off data = first @ continuation_bytes sid conts @ rest" and "off \<le> length data"
    and "whole = length first + length (continuation_bytes sid conts)" and "off + whole \<le> MAX_BYTES"
    and "fragment @ concat (map snd conts) = concat (map repr_bytes rs)" and "length (concat (map repr_bytes rs)) \<le> BLOCK_MAXLEN"
    and "mp_block (run_maps run) \<noteq> None"
    and "decodable_all (name_id p) (env_kernel env) HTTP_SRC_BUF 0 rs D" and "\<And>bs. k_readable (env_kernel env) bs"
    and "sid \<noteq> 0" and "pull pulled = Some data" and "length first \<le> sz"
  obtains run' buf where "parse_frame_at tables env conn pull (take 9 first) off sz pulled null_prefix run = (int whole, null_prefix, run')"
    and "decoded env conn (decode_all (name_id p) (env_kernel env) HTTP_SRC_BUF 0 rs D) run run'"
    and "mp_block (run_maps run') = Some buf" and "buffered (concat (map repr_bytes rs)) buf"
proof -
  let ?payload = "headers_payload padding prio fragment"
  let ?run = "run\<lparr>run_frame := new_http2_frame (take 9 first)\<rparr>"
  have len: "length first = 9 + length ?payload" by (simp add: assms(9))
  then have small: "length ?payload < 2 ^ 24" using assms(12,13) by (simp add: MAX_BYTES_def)
  note hdr = frame_header [OF small assms(7) refl, of HTTP2_HEADERS_FRAME flags, folded assms(9)]
  obtain run' buf where r: "parse_block tables env \<lparr>mc_data = data, mc_conn = conn\<rparr> off ?run = (int whole, run')"
    "decoded env conn (decode_all (name_id p) (env_kernel env) HTTP_SRC_BUF 0 rs D) ?run run'"
    "mp_block (run_maps run') = Some buf" "buffered (concat (map repr_bytes rs)) buf"
    by (rule parse_block_decodes [OF assms(1,2) _ _ assms(5-15) _ assms(17,18), where run = ?run])
      (use assms(3,4,16) in simp_all)
  have "parse_frame_at tables env conn pull (take 9 first) off sz pulled null_prefix run = (int whole, null_prefix, run')"
    unfolding parse_frame_at_def hdr Let_def
    using assms(6,19-21) r(1)
    by (simp add: len HTTP2_FRAME_HDR_LEN_def violates_block_rules_def is_parsed_frame_def HTTP2_HEADERS_FRAME_def
        HTTP2_CONTINUATION_FRAME_def HTTP2_SETTINGS_FRAME_def EAGAIN_def)
  moreover have "decoded env conn (decode_all (name_id p) (env_kernel env) HTTP_SRC_BUF 0 rs D) run run'"
    using r(2) by (simp add: decoded_def)
  ultimately show thesis using r(3,4) by (rule that)
qed

end
