(* ===== verification/Http2_Capture.thy ===== *)
theory Http2_Capture
  imports Http2_Continuation
begin

section \<open>From the names asked for to the values of a block\<close>

text \<open>
  A parser that was asked for names, its tables, and the frames the program reads with them: the
  properties of the HTTP/2 parser as a whole.
\<close>

subsection \<open>The names asked for\<close>

text \<open>
  The id of the name a peer sent as \<open>w\<close>, Huffman coded or not, by what \<open>capture_hdr\<close> returned:
  the names with their ids, as the parser keeps them.
\<close>

definition wanted_id :: "(bytes \<Rightarrow> 'enc + bytes) \<Rightarrow> (bytes \<times> match_id) list \<Rightarrow> name_ids" where
  "wanted_id encode caps huff w =
     (case find (\<lambda>name. w \<noteq> [] \<and> (if huff then encode name = Inr w else name = w)) (map fst caps) of
        None \<Rightarrow> - 1
      | Some name \<Rightarrow> int (unat (match_idx (the (map_of caps name)))))"

lemma action_id_capture: "unat (match_idx mid) < 32 \<Longrightarrow> action_id (Some (action_capture mid)) = int (unat (match_idx mid))"
proof -
  have m: "(31 :: u16) = mask 5" by (simp add: mask_eq_exp_minus_1)
  assume "unat (match_idx mid) < 32"
  then have "unat ((ucast (match_idx mid) :: u16) AND 31) = unat (match_idx mid)"
    unfolding m take_bit_eq_mask [symmetric]
    by (simp add: unsigned_take_bit_eq unsigned_ucast_eq take_bit_nat_eq_self)
  then show ?thesis by (simp only: action_id_def action_capture_def action_new_def option.case h2_action.case kind.case)
qed

lemma captured_word:
  assumes "h2_inv encode p"
  shows "last_action (h2_dfa p) (name_root huff) (map input_of w) = Some a \<longleftrightarrow>
    (\<exists>name mid. map_of (h2_captures p) name = Some mid \<and> w \<noteq> [] \<and> (if huff then encode name = Inr w else name = w) \<and>
       a = action_capture mid)"
proof -
  have inj: "map input_of u = map input_of v \<longleftrightarrow> u = v" for u v :: bytes
    by (rule inj_map_eq_map) (simp add: inj_def input_of_inj)
  show ?thesis
    using h2_invD(5) [OF assms] unfolding captures_exactly_def
    by (cases huff) (auto simp: name_root_def inj)
qed

lemma name_id_wanted:
  assumes "h2_inv encode p"
  shows "name_id p huff w = wanted_id encode (h2_captures p) huff w"
proof -
  let ?caps = "h2_captures p" and ?P = "\<lambda>name. w \<noteq> [] \<and> (if huff then encode name = Inr w else name = w)"
  let ?a = "last_action (h2_dfa p) (name_root huff) (map input_of w)"
  note word = captured_word [OF assms, of huff w]
  show ?thesis
  proof (cases "find ?P (map fst ?caps)")
    case None
    then have "\<not> ?P name" if "map_of ?caps name = Some mid" for name mid
      using map_of_SomeD [OF that] unfolding find_None_iff by (metis fst_conv image_eqI list.set_map)
    then have "?a \<noteq> Some a" for a unfolding word by blast
    then have "?a = None" by (metis option.exhaust)
    then show ?thesis by (simp add: name_id_def wanted_id_def None action_id_def)
  next
    case (Some name)
    then have name: "?P name" "name \<in> fst ` set ?caps" by (auto simp: find_Some_iff)
    then obtain mid where mid: "map_of ?caps name = Some mid" by (metis map_of_eq_None_iff option.exhaust)
    have "?a = Some (action_capture mid)" unfolding word using name(1) mid by blast
    moreover have "unat (match_idx mid) < 32"
    proof -
      have "match_idx mid < h2_num_matches p" and "h2_num_matches p \<le> H2_MAX_MATCHES"
        using h2_invD(4) [OF assms] mid by (auto simp: h2_ids.ids_ok_def)
      then show ?thesis by (simp add: word_less_nat_alt word_le_nat_alt)
    qed
    ultimately show ?thesis by (simp add: name_id_def wanted_id_def Some mid action_id_capture)
  qed
qed

text \<open>A configured parser whose tables were injected.\<close>

lemma injected_loaded:
  assumes "h2_new = Inr p0" and "capture_all (h2_capture_hdr encode) names p0 = Inr (rs, p)"
    and "set ts = set (iter_transitions (h2_dfa p))"
    and "h2_inject ts p = (Inr (ro, tables) :: (h2_action, ('enc, 'bpf, 'plain) beeper_error) failure + h2_rodata)"
  shows "h2_loaded encode p tables" and "name_id p = wanted_id encode (h2_captures p)"
proof -
  have inv: "h2_inv encode p" using assms(2) h2_inv_new(1) [OF assms(1)] by (rule h2_inv_capture_all)
  from h2_inject_result [OF h2_invD(1) [OF inv] assms(3), where 'enc = 'enc and 'bpf = 'bpf and 'plain = 'plain] assms(4)
    h2_fits_iff [OF inv]
  show "h2_loaded encode p tables" by (simp add: h2_loaded_def inv split: if_splits)
  show "name_id p = wanted_id encode (h2_captures p)" using name_id_wanted [OF inv] by (intro ext)
qed

subsection \<open>A message in the kernel\<close>

text \<open>
  What the programs rely on: pulling \<open>n\<close> bytes of a message that has them makes at least that
  many of them linear.
\<close>

definition delivers :: "(nat \<Rightarrow> bytes option) \<Rightarrow> bytes \<Rightarrow> bool" where
  "delivers pull msg \<longleftrightarrow> (\<forall>n \<le> length msg. \<exists>m \<ge> n. pull n = Some (take m msg))"

lemma delivered:
  assumes "delivers pull msg" and "msg = before @ x @ rest" and "length before + length x \<le> n" and "n \<le> length msg"
  obtains data rest' where "pull n = Some data" and "drop (length before) data = x @ rest'" and "length before \<le> length data"
proof -
  obtain m where m: "n \<le> m" "pull n = Some (take m msg)" using assms(1,4) by (auto simp: delivers_def)
  show thesis
    by (rule that [OF m(2), of "take (m - length before - length x) rest"]) (use assms(2-) m(1) in \<open>simp_all add: take_all\<close>)
qed

lemma skb_reads:
  assumes "delivers pull msg" and "msg = before @ frame @ rest" and "9 \<le> length frame" and "length before \<le> MAX_BYTES"
  shows "parse_skb2 tables env conn pull (take l msg) (length msg) (length before) null_prefix run =
    parse_frame_at tables env conn pull (take 9 frame) (length before) (length msg - length before)
      (min (length msg) (length before + MAX_BYTES)) null_prefix run"
proof -
  let ?n = "length before + HTTP2_FRAME_HDR_LEN"
  have n: "?n \<le> length msg" using assms(2,3) by (simp add: HTTP2_FRAME_HDR_LEN_def)
  then obtain m where m: "?n \<le> m" "pull ?n = Some (take m msg)" using assms(1) by (auto simp: delivers_def)
  have hdr: "take HTTP2_FRAME_HDR_LEN (drop (length before) (take k msg)) = take 9 frame" if "?n \<le> k" for k
    using that assms(2,3) by (simp add: HTTP2_FRAME_HDR_LEN_def drop_take)
  have "\<exists>k. (if length (take l msg) < ?n then pull ?n else Some (take l msg)) = Some (take k msg) \<and> ?n \<le> k"
    using m by (cases "length (take l msg) < ?n") auto
  then obtain k where k: "(if length (take l msg) < ?n then pull ?n else Some (take l msg)) = Some (take k msg)" "?n \<le> k" by blast
  have bounds: "\<not> MAX_BYTES < length before" "\<not> length msg < ?n" "\<not> length (take k msg) < ?n" using n k(2) assms(4) by simp_all
  show ?thesis
    unfolding parse_skb2_def k(1) option.case bounds [THEN if_not_P] hdr [OF k(2)] ..
qed

lemma msg_reads:
  assumes "msg = frame @ rest" and "9 \<le> length frame" and "9 \<le> l"
  shows "parse_msg2 tables env conn pull (take l msg) (length msg) run =
    (case parse_frame_at tables env conn pull (take 9 frame) 0 (length msg) (min (length msg) MAX_BYTES) None run of
       (res, _, run) \<Rightarrow> (res, run))"
proof -
  have "take 9 (take l msg) = take 9 frame" using assms by simp
  moreover have "\<not> length (take l msg) < 9" using assms by simp
  ultimately show ?thesis by (simp add: parse_msg2_def HTTP2_FRAME_HDR_LEN_def)
qed

subsection \<open>Whole blocks\<close>

text \<open>A HEADERS frame, as a peer may send it.\<close>

definition headers_frame :: "u8 \<Rightarrow> u32 \<Rightarrow> bytes option \<Rightarrow> bytes option \<Rightarrow> bytes \<Rightarrow> bytes" where
  "headers_frame flags sid padding prio fragment =
     frame_bytes HTTP2_HEADERS_FRAME flags sid (headers_payload padding prio fragment)"

definition headers_allowed :: "u8 \<Rightarrow> u32 \<Rightarrow> bytes option \<Rightarrow> bytes option \<Rightarrow> bool" where
  "headers_allowed flags sid padding prio \<longleftrightarrow> headers_ok flags padding prio \<and> sid \<noteq> 0 \<and> sid < 0x80000000"

lemma whole_block_decodes:
  assumes "h2_loaded encode p tables" and "roomy (env_kernel env)"
    and "maps_follow env conn D (run_maps run)" and "run_ms run = dec_ms D"
    and "headers_allowed flags sid padding prio" and "flags AND HTTP2_END_HEADERS_FLAG \<noteq> 0"
    and "frame = headers_frame flags sid padding prio (concat (map repr_bytes rs))"
    and "start = length before + headers_start padding prio"
    and "decodable_all (name_id p) (env_kernel env) HTTP_SRC_MSG start rs D"
    and "start + length (concat (map repr_bytes rs)) \<le> MAX_BYTES"
    and "delivers pull msg" and "msg = before @ frame @ rest"
  obtains run' where "parse_skb2 tables env conn pull (take l msg) (length msg) (length before) None run = (int (length frame), None, run')"
    and "before = [] \<Longrightarrow> 9 \<le> l \<Longrightarrow> parse_msg2 tables env conn pull (take l msg) (length msg) run = (int (length frame), run')"
    and "decoded env conn (decode_all (name_id p) (env_kernel env) HTTP_SRC_MSG start rs D) run run'"
proof -
  have ok: "headers_ok flags padding prio" "sid \<noteq> 0" "sid < 0x80000000" using assms(5) by (simp_all add: headers_allowed_def)
  have frame: "frame = frame_bytes HTTP2_HEADERS_FRAME flags sid (headers_payload padding prio (concat (map repr_bytes rs)))"
    using assms(7) by (simp add: headers_frame_def)
  then have long: "9 \<le> length frame" by simp
  obtain data rest' where data: "pull (length before + length frame) = Some data" "drop (length before) data = frame @ rest'"
    "length before \<le> length data"
    by (rule delivered [OF assms(11,12) le_refl]) (use assms(12) in simp)
  have sz: "length frame \<le> length msg - length before" using assms(12) by simp
  obtain run' where run': "parse_frame_at tables env conn pull (take 9 frame) (length before) (length msg - length before)
      (min (length msg) (length before + MAX_BYTES)) None run = (int (length frame), None, run')"
    "decoded env conn (decode_all (name_id p) (env_kernel env) HTTP_SRC_MSG start rs D) run run'"
    by (rule headers_frame_decodes [where pull = pull, OF assms(1-4) ok(1) assms(6) ok(2,3) refl [of "concat (map repr_bytes rs)"] frame assms(8,9) data assms(10) sz])
  show thesis
  proof (rule that [OF _ _ run'(2)])
    show "parse_skb2 tables env conn pull (take l msg) (length msg) (length before) None run = (int (length frame), None, run')"
      using skb_reads [OF assms(11,12) long] run'(1) assms(8,10) by simp
    show "parse_msg2 tables env conn pull (take l msg) (length msg) run = (int (length frame), run')" if "before = []" "9 \<le> l"
      using msg_reads [OF _ long that(2), of msg rest] run'(1) that(1) assms(12) by simp
  qed
qed

lemma continued_block_decodes:
  assumes "h2_loaded encode p tables" and "roomy (env_kernel env)" and "\<And>bs. k_readable (env_kernel env) bs"
    and "maps_follow env conn D (run_maps run)" and "run_ms run = dec_ms D" and "mp_block (run_maps run) \<noteq> None"
    and "headers_allowed flags sid padding prio" and "flags AND HTTP2_END_HEADERS_FLAG = 0" and "continuations_ok conts"
    and "frames = headers_frame flags sid padding prio fragment @ continuation_bytes sid conts"
    and "fragment @ concat (map snd conts) = concat (map repr_bytes rs)"
    and "decodable_all (name_id p) (env_kernel env) HTTP_SRC_BUF 0 rs D"
    and "length (concat (map repr_bytes rs)) \<le> BLOCK_MAXLEN" and "length before + length frames \<le> MAX_BYTES"
    and "delivers pull msg" and "msg = before @ frames @ rest"
  obtains run' buf where
    "parse_skb2 tables env conn pull (take l msg) (length msg) (length before) None run = (int (length frames), None, run')"
    and "before = [] \<Longrightarrow> 9 \<le> l \<Longrightarrow> parse_msg2 tables env conn pull (take l msg) (length msg) run = (int (length frames), run')"
    and "decoded env conn (decode_all (name_id p) (env_kernel env) HTTP_SRC_BUF 0 rs D) run run'"
    and "mp_block (run_maps run') = Some buf" and "buffered (concat (map repr_bytes rs)) buf"
proof -
  have ok: "headers_ok flags padding prio" "sid \<noteq> 0" "sid < 0x80000000" using assms(7) by (simp_all add: headers_allowed_def)
  define first where "first = headers_frame flags sid padding prio fragment"
  have frames: "frames = first @ continuation_bytes sid conts" using assms(10) by (simp add: first_def)
  have frame: "first = frame_bytes HTTP2_HEADERS_FRAME flags sid (headers_payload padding prio fragment)"
    by (simp add: first_def headers_frame_def)
  then have long: "9 \<le> length first" by simp
  let ?pulled = "min (length msg) (length before + MAX_BYTES)"
  have "length before + length frames \<le> ?pulled" using assms(14,16) by simp
  moreover have "?pulled \<le> length msg" by simp
  ultimately obtain data rest' where data: "pull ?pulled = Some data" "drop (length before) data = frames @ rest'"
    "length before \<le> length data"
    by (rule delivered [OF assms(15,16)])
  have bytes: "drop (length before) data = first @ continuation_bytes sid conts @ rest'" using data(2) by (simp add: frames)
  have whole: "length frames = length first + length (continuation_bytes sid conts)" by (simp add: frames)
  have sz: "length first \<le> length msg - length before" using assms(16) by (simp add: frames)
  obtain run' buf where run': "parse_frame_at tables env conn pull (take 9 first) (length before) (length msg - length before) ?pulled
      None run = (int (length frames), None, run')"
    "decoded env conn (decode_all (name_id p) (env_kernel env) HTTP_SRC_BUF 0 rs D) run run'"
    "mp_block (run_maps run') = Some buf" "buffered (concat (map repr_bytes rs)) buf"
    by (rule continued_frame_decodes [where pull = pull, OF assms(1,2,4,5) ok(1) assms(8) ok(3) assms(9) frame bytes data(3) whole assms(14) assms(11,13,6,12)
        assms(3) ok(2) data(1) sz])
  have msg: "msg = before @ first @ continuation_bytes sid conts @ rest" using assms(16) by (simp add: frames)
  show thesis
  proof (rule that [OF _ _ run'(2-4)])
    show "parse_skb2 tables env conn pull (take l msg) (length msg) (length before) None run = (int (length frames), None, run')"
      using skb_reads [OF assms(15) msg long] run'(1) assms(14) by simp
    show "parse_msg2 tables env conn pull (take l msg) (length msg) run = (int (length frames), run')" if "before = []" "9 \<le> l"
      using msg_reads [OF _ long that(2), of msg "continuation_bytes sid conts @ rest"] run'(1) that(1) msg by simp
  qed
qed

subsection \<open>Reading a value back\<close>

text \<open>The ids that the representations of a block capture, one after the other.\<close>

fun captured_id :: "name_ids \<Rightarrow> h2_kernel \<Rightarrow> representation \<Rightarrow> decoder \<Rightarrow> int" where
  "captured_id idf kern (IndexedField n) D = stored_name_id idf (dec_field kern D n)"
| "captured_id idf kern (LiteralField ix name v) D = dec_name_id idf kern D name"
| "captured_id idf kern (SizeUpdate n) D = - 1"

fun captured_ids :: "name_ids \<Rightarrow> h2_kernel \<Rightarrow> u8 \<Rightarrow> nat \<Rightarrow> representation list \<Rightarrow> decoder \<Rightarrow> int list" where
  "captured_ids idf kern src i [] D = []"
| "captured_ids idf kern src i (r # rs) D =
     captured_id idf kern r D # captured_ids idf kern src (i + length (repr_bytes r)) rs (decode idf kern src i r D)"

lemma decode_all_append:
  "decode_all idf kern src i (rs @ rs') D =
     decode_all idf kern src (i + length (concat (map repr_bytes rs))) rs' (decode_all idf kern src i rs D)"
  by (induction rs arbitrary: i D) (simp_all add: add.assoc)

lemma dec_add_ms [simp]: "dec_ms (dec_add e D) = dec_ms D"
  by (simp add: dec_add_def)

lemma decode_length: "length (dec_ms (decode idf kern src i r D)) = length (dec_ms D)"
  by (cases r) (simp_all add: dec_capture_def)

lemma decode_keeps:
  assumes "0 \<le> cid" and "captured_id idf kern r D \<noteq> cid"
  shows "dec_ms (decode idf kern src i r D) ! nat cid = dec_ms D ! nat cid"
  using assms by (cases r) (auto simp: dec_capture_def nat_eq_iff)

lemma decode_all_length: "length (dec_ms (decode_all idf kern src i rs D)) = length (dec_ms D)"
  by (induction rs arbitrary: i D) (simp_all add: decode_length)

lemma decode_all_keeps:
  assumes "0 \<le> cid" and "cid \<notin> set (captured_ids idf kern src i rs D)"
  shows "dec_ms (decode_all idf kern src i rs D) ! nat cid = dec_ms D ! nat cid"
  using assms(2)
proof (induction rs arbitrary: i D)
  case (Cons r rs)
  then show ?case using decode_keeps [OF assms(1)] by simp
qed simp

text \<open>The last capture of an id is the one that counts.\<close>

lemma last_capture:
  assumes "rs = pre @ LiteralField ix name v # post" and "at = start + length (concat (map repr_bytes pre))"
    and "D1 = decode_all idf kern src start pre D" and "dec_name_id idf kern D1 name = cid" and "0 \<le> cid"
    and "cid \<notin> set (captured_ids idf kern src (at + length (repr_bytes (LiteralField ix name v))) post
      (decode idf kern src at (LiteralField ix name v) D1))"
    and "nat cid < length (dec_ms D)"
  shows "dec_ms (decode_all idf kern src start rs D) ! nat cid =
    match_at src (at + length (name_bytes ix name) + length (string_head v)) v"
proof -
  have "length (dec_ms D1) = length (dec_ms D)" using assms(3) by (simp add: decode_all_length)
  then have "dec_ms (decode idf kern src at (LiteralField ix name v) D1) ! nat cid =
      match_at src (at + length (name_bytes ix name) + length (string_head v)) v"
    using assms(4,5,7) by (simp add: dec_capture_def)
  then show ?thesis
    using decode_all_keeps [OF assms(5,6)] by (simp add: assms(1) decode_all_append flip: assms(2,3))
qed

lemma get_match_reads:
  assumes "source_holds kern ctx src data" and "ms ! unat idx = match_at src i s" and "unat idx < 32"
    and "drop i data = str_octets s @ rest" and "i \<le> length data" and "0 < i" and "length (str_octets s) \<le> MAX_BYTES"
    and "i < 2 ^ 16"
  shows "h2_get_match kern ctx es ms idx = Inr (str_octets s)"
proof -
  have m: "(31 :: u8) = mask 5" by (simp add: mask_eq_exp_minus_1)
  have "unat (idx AND 31) = unat idx"
    unfolding m take_bit_eq_mask [symmetric] using assms(3) by (simp add: unsigned_take_bit_eq take_bit_nat_eq_self)
  then have idx: "ms ! unat (idx AND MAX_MATCH_MASK) = match_at src i s" using assms(2) by (simp add: MAX_MATCH_MASK_def)
  obtain junk where "\<And>idx len huff es is_key. idx + len \<le> length data \<Longrightarrow>
     match_bytes kern ctx es \<lparr>hm_idx = word_of_nat idx, hm_len = word_of_nat len, hm_source = src, hm_huff = huff\<rparr> is_key =
       Some (drop idx (data @ junk), word_of_nat len, huff)"
    using assms(1) unfolding source_holds_def by blast
  moreover have "length data - i = length (str_octets s) + length rest" using arg_cong [OF assms(4), of length] by simp
  then have "i + length (str_octets s) \<le> length data" using assms(5) by simp
  ultimately have "match_bytes kern ctx es (match_at src i s) False =
      Some (drop i (data @ junk), word_of_nat (length (str_octets s)), str_huff s)"
    by (simp add: match_at_def)
  moreover have "unat (word_of_nat (length (str_octets s)) :: u32) = length (str_octets s)"
    using assms(7) by (intro unat_u32) (simp add: MAX_BYTES_def)
  moreover have "drop i (data @ junk) = str_octets s @ rest @ junk" using assms(4,5) by simp
  ultimately have "get_str kern ctx es (match_at src i s) = Inr (str_octets s)" by (simp add: get_str_def)
  moreover have "hm_idx (match_at src i s) = word_of_nat i" by (simp add: match_at_def)
  moreover have "unat (word_of_nat i :: u16) = i" using assms(8) by (rule unat_u16)
  then have "0 < (word_of_nat i :: u16)" using assms(6) by (simp add: word_less_nat_alt)
  ultimately show ?thesis using assms(3) idx by (simp add: h2_get_match_def is_captured_def MATCHES_def)
qed

subsection \<open>An example\<close>

text \<open>A parser that was asked for two names, a new connection, and a field of the second name.\<close>

definition demo_env :: h2_prog_env where
  "demo_env = \<lparr>env_kernel = demo_kernel, env_room = (\<lambda>_ _. True)\<rparr>"

definition demo_ms :: "http_match list" where
  "demo_ms = replicate 32 \<lparr>hm_idx = 0, hm_len = 0, hm_source = 0, hm_huff = False\<rparr>"

definition demo_decoder :: decoder where
  "demo_decoder = \<lparr>dec_table = [], dec_max = 4096, dec_added = 0, dec_ms = demo_ms\<rparr>"

definition demo_run :: h2_run where
  "demo_run = \<lparr>run_ms = demo_ms, run_frame = new_http2_frame (replicate 9 0),
     run_maps = \<lparr>mp_infos = Map.empty, mp_entries = Map.empty, mp_block = Some \<lparr>bb_len = 0, bb_data = []\<rparr>\<rparr>\<rparr>"

definition demo_field :: representation where
  "demo_field = LiteralField Incremental (NameString \<lparr>str_huff = False, str_octets = [0x76]\<rparr>)
     \<lparr>str_huff = False, str_octets = [0x68, 0x69]\<rparr>"

lemma demo_field_bytes: "repr_bytes demo_field = [0x40, 1, 0x76, 2, 0x68, 0x69]"
  by (simp add: demo_field_def string_bytes_def string_head_def int_bytes_def)

lemma demo_follows: "maps_follow demo_env conn demo_decoder (run_maps demo_run)"
  by (simp add: maps_follow_def demo_env_def demo_decoder_def demo_run_def)

lemma demo_roomy: "roomy (env_kernel demo_env)" and demo_readable: "k_readable (env_kernel demo_env) bs"
  and demo_run_ms: "run_ms demo_run = dec_ms demo_decoder" and demo_block: "mp_block (run_maps demo_run) \<noteq> None"
  by (simp_all add: roomy_def demo_env_def demo_kernel_def demo_run_def demo_decoder_def)

lemma demo_entry_size:
  "dte_size (new_entry (env_kernel demo_env) ([0x76], 1, False) ([0x68, 0x69], 2, False)) = 35"
  by (simp add: new_entry_def)

lemma demo_decodable: "decodable_all idf (env_kernel demo_env) src i [demo_field] demo_decoder"
  using demo_entry_size
  by (simp add: demo_field_def string_part_def cut_off_def HEADER_FIELD_MAXLEN_def MAX_BYTES_def demo_decoder_def)

lemma demo_delivers: "delivers (\<lambda>_. Some msg) msg"
  by (auto simp: delivers_def intro: exI [of _ "length msg"])

lemma h2_injected_demo:
  obtains p0 rs p ts ro tables where "h2_new = Inr p0"
    and "capture_all (h2_capture_hdr shifted) demo_names p0 = Inr (rs :: ((unit, unit, unit) beeper_error + match_id) list, p)"
    and "set ts = set (iter_transitions (h2_dfa p))"
    and "h2_inject ts p = (Inr (ro, tables) :: (h2_action, (unit, unit, unit) beeper_error) failure + h2_rodata)"
    and "wanted_id shifted (h2_captures p) False [0x76] = 1"
proof -
  obtain p0 p where d: "h2_new = Inr p0" "capture_all (h2_capture_hdr shifted) demo_names p0 =
      Inr ([Inr (MatchId 0), Inr (MatchId 1), Inr (MatchId 0)] :: ((unit, unit, unit) beeper_error + match_id) list, p)"
    and n: "unat (num_states (h2_dfa p)) \<le> 1024"
    by (rule h2_demo)
  have inv: "h2_inv shifted p" using d(2) h2_inv_new(1) [OF d(1)] by (rule h2_inv_capture_all)
  have "wf_dfa (h2_dfa p)" and "fits h2_limits (h2_dfa p)" using h2_invD(1) [OF inv] h2_fits_iff [OF inv] n by simp_all
  then obtain data where data: "h2_inject (iter_transitions (h2_dfa p)) p =
      (Inr data :: (h2_action, (unit, unit, unit) beeper_error) failure + h2_rodata)"
    using h2_inject_result [OF _ refl, of p, where 'enc = unit and 'bpf = unit and 'plain = unit]
    by (auto split: sum.splits)
  note start = h2_inv_new(2) [OF d(1)] and ids = h2_invD(4) [OF h2_inv_new(1) [OF d(1), of shifted]]
  have "map_of (h2_captures p) [0x76] = Some (MatchId 1)"
    using h2_ids.capture_all_registered [OF d(2) ids, of "[0x76]"] by (simp add: demo_names_def)
  then have "last_action (h2_dfa p) (name_root False) (map input_of [0x76]) = Some (action_capture (MatchId 1))"
    unfolding captured_word [OF inv] by auto
  then have "name_id p False [0x76] = 1" using action_id_capture [of "MatchId 1"] by (simp add: name_id_def)
  then have "wanted_id shifted (h2_captures p) False [0x76] = 1" by (simp add: name_id_wanted [OF inv])
  with d data show thesis by (cases data) (auto intro: that [OF d(1) d(2) refl])
qed

subsection \<open>The properties\<close>

text \<open>
  C2: a HEADERS frame that carries a whole header block, padded or
  not, with a priority or not, wherever it starts in what has arrived on the connection, is
  consumed in full, and the program leaves what an RFC 7541 decoder leaves of the block, whatever
  representations it is made of: for every name that was asked for, and for no other, the place of
  its last value, and in the maps the dynamic table of the connection with its entries, its sizes
  and its evictions. No other connection is touched. \<open>parse_msg\<close> and \<open>parse_skb\<close> do the same.
\<close>

theorem h2_headers_decode_as_rfc7541:
  assumes "h2_new = Inr p0" and "capture_all (h2_capture_hdr encode) names p0 = Inr (ids, p)"
    and "set ts = set (iter_transitions (h2_dfa p))"
    and "h2_inject ts p = (Inr (ro, tables) :: (h2_action, ('enc, 'bpf, 'plain) beeper_error) failure + h2_rodata)"
    and "roomy (env_kernel env)" and "maps_follow env conn D (run_maps run)" and "run_ms run = dec_ms D"
    and "headers_allowed flags sid padding prio" and "flags AND HTTP2_END_HEADERS_FLAG \<noteq> 0"
    and "frame = headers_frame flags sid padding prio (concat (map repr_bytes rs))"
    and "start = length before + headers_start padding prio"
    and "decodable_all (wanted_id encode (h2_captures p)) (env_kernel env) HTTP_SRC_MSG start rs D"
    and "start + length (concat (map repr_bytes rs)) \<le> MAX_BYTES"
    and "delivers pull msg" and "msg = before @ frame @ rest"
  shows "\<exists>run'. parse_skb2 tables env conn pull (take l msg) (length msg) (length before) None run = (int (length frame), None, run') \<and>
    (before = [] \<and> 9 \<le> l \<longrightarrow>
       parse_msg2 tables env conn pull (take l msg) (length msg) run = (int (length frame), run')) \<and>
    run_ms run' = dec_ms (decode_all (wanted_id encode (h2_captures p)) (env_kernel env) HTTP_SRC_MSG start rs D) \<and>
    maps_follow env conn (decode_all (wanted_id encode (h2_captures p)) (env_kernel env) HTTP_SRC_MSG start rs D) (run_maps run') \<and>
    others_kept conn (run_maps run) (run_maps run')"
proof -
  note loaded = injected_loaded [OF assms(1-4)]
  show ?thesis
    by (rule whole_block_decodes [OF loaded(1) assms(5-11) assms(12) [folded loaded(2)] assms(13-15), of l])
      (auto simp: decoded_def loaded(2))
qed

theorem h2_headers_decode_as_rfc7541_witness:
  "\<exists>tables run'. let frame = headers_frame HTTP2_END_HEADERS_FLAG 1 None None (repr_bytes demo_field) in
     parse_msg2 tables demo_env demo_conn (\<lambda>_. Some frame) frame 15 demo_run = (15, run') \<and>
     run_ms run' ! 1 = \<lparr>hm_idx = 13, hm_len = 2, hm_source = HTTP_SRC_MSG, hm_huff = False\<rparr>"
proof -
  obtain p0 rs p ts ro tables where d: "h2_new = Inr p0"
    "capture_all (h2_capture_hdr shifted) demo_names p0 = Inr (rs :: ((unit, unit, unit) beeper_error + match_id) list, p)"
    "set ts = set (iter_transitions (h2_dfa p))"
    "h2_inject ts p = (Inr (ro, tables) :: (h2_action, (unit, unit, unit) beeper_error) failure + h2_rodata)"
    and w: "wanted_id shifted (h2_captures p) False [0x76] = 1"
    by (rule h2_injected_demo)
  let ?frame = "headers_frame HTTP2_END_HEADERS_FLAG 1 None None (repr_bytes demo_field)"
  have len: "length ?frame = 15" by (simp add: headers_frame_def headers_payload_def demo_field_bytes)
  have ok: "headers_allowed HTTP2_END_HEADERS_FLAG 1 None None"
    by (simp add: headers_allowed_def headers_ok_def HTTP2_END_HEADERS_FLAG_def HTTP2_PADDED_FLAG_def HTTP2_PRIORITY_FLAG_def)
  obtain run' where "parse_msg2 tables demo_env demo_conn (\<lambda>_. Some ?frame) (take 15 ?frame) (length ?frame) demo_run = (int (length ?frame), run')"
    "run_ms run' = dec_ms (decode_all (wanted_id shifted (h2_captures p)) (env_kernel demo_env) HTTP_SRC_MSG 9 [demo_field] demo_decoder)"
    using h2_headers_decode_as_rfc7541 [OF d demo_roomy demo_follows demo_run_ms ok _ _ refl demo_decodable _ demo_delivers,
        where before = "[]" and rest = "[]" and l = 15 and frame = ?frame and conn = demo_conn] len
    by (auto simp: HTTP2_END_HEADERS_FLAG_def headers_start_def MAX_BYTES_def demo_field_bytes)
  moreover have "dec_ms (decode_all (wanted_id shifted (h2_captures p)) (env_kernel demo_env) HTTP_SRC_MSG 9 [demo_field] demo_decoder) ! 1 =
      \<lparr>hm_idx = 13, hm_len = 2, hm_source = HTTP_SRC_MSG, hm_huff = False\<rparr>"
    by (simp add: demo_field_def w dec_capture_def match_at_def demo_decoder_def demo_ms_def string_bytes_def string_head_def int_bytes_def)
  ultimately show ?thesis unfolding Let_def using len by (intro exI [of _ tables] exI [of _ run']) simp
qed

text \<open>
  C3: a header block that a HEADERS frame starts and CONTINUATION frames
  carry on, cut anywhere, is consumed with all its frames and decoded as if it had been sent in one
  piece: the state left is that of an RFC 7541 decoder of the fragments put together, and the places
  of the captured values lie in the buffer of the CPU, which holds exactly that block.
\<close>

theorem h2_continued_block_decodes:
  assumes "h2_new = Inr p0" and "capture_all (h2_capture_hdr encode) names p0 = Inr (ids, p)"
    and "set ts = set (iter_transitions (h2_dfa p))"
    and "h2_inject ts p = (Inr (ro, tables) :: (h2_action, ('enc, 'bpf, 'plain) beeper_error) failure + h2_rodata)"
    and "roomy (env_kernel env)" and "\<And>bs. k_readable (env_kernel env) bs"
    and "maps_follow env conn D (run_maps run)" and "run_ms run = dec_ms D" and "mp_block (run_maps run) \<noteq> None"
    and "headers_allowed flags sid padding prio" and "flags AND HTTP2_END_HEADERS_FLAG = 0" and "continuations_ok conts"
    and "frames = headers_frame flags sid padding prio fragment @ continuation_bytes sid conts"
    and "fragment @ concat (map snd conts) = concat (map repr_bytes rs)"
    and "decodable_all (wanted_id encode (h2_captures p)) (env_kernel env) HTTP_SRC_BUF 0 rs D"
    and "length (concat (map repr_bytes rs)) \<le> BLOCK_MAXLEN" and "length before + length frames \<le> MAX_BYTES"
    and "delivers pull msg" and "msg = before @ frames @ rest"
  shows "\<exists>run' buf. parse_skb2 tables env conn pull (take l msg) (length msg) (length before) None run = (int (length frames), None, run') \<and>
    (before = [] \<and> 9 \<le> l \<longrightarrow>
       parse_msg2 tables env conn pull (take l msg) (length msg) run = (int (length frames), run')) \<and>
    run_ms run' = dec_ms (decode_all (wanted_id encode (h2_captures p)) (env_kernel env) HTTP_SRC_BUF 0 rs D) \<and>
    maps_follow env conn (decode_all (wanted_id encode (h2_captures p)) (env_kernel env) HTTP_SRC_BUF 0 rs D) (run_maps run') \<and>
    others_kept conn (run_maps run) (run_maps run') \<and>
    mp_block (run_maps run') = Some buf \<and> bb_len buf = word_of_nat (length (concat (map repr_bytes rs))) \<and>
    take (length (concat (map repr_bytes rs))) (bb_data buf) = concat (map repr_bytes rs)"
proof -
  note loaded = injected_loaded [OF assms(1-4)]
  show ?thesis
    by (rule continued_block_decodes [OF loaded(1) assms(5-14) assms(15) [folded loaded(2)] assms(16-19), of l])
      (auto simp: decoded_def loaded(2) buffered_def)
qed

theorem h2_continued_block_decodes_witness:
  "\<exists>tables run'. let frames = headers_frame 0 1 None None [0x40, 1] @
        continuation_bytes 1 [(0, [0x76, 2]), (HTTP2_END_HEADERS_FLAG, [0x68, 0x69])] in
     parse_msg2 tables demo_env demo_conn (\<lambda>_. Some frames) frames 33 demo_run = (33, run') \<and>
     run_ms run' ! 1 = \<lparr>hm_idx = 4, hm_len = 2, hm_source = HTTP_SRC_BUF, hm_huff = False\<rparr>"
proof -
  obtain p0 rs p ts ro tables where d: "h2_new = Inr p0"
    "capture_all (h2_capture_hdr shifted) demo_names p0 = Inr (rs :: ((unit, unit, unit) beeper_error + match_id) list, p)"
    "set ts = set (iter_transitions (h2_dfa p))"
    "h2_inject ts p = (Inr (ro, tables) :: (h2_action, (unit, unit, unit) beeper_error) failure + h2_rodata)"
    and w: "wanted_id shifted (h2_captures p) False [0x76] = 1"
    by (rule h2_injected_demo)
  let ?conts = "[(0, [0x76, 2]), (HTTP2_END_HEADERS_FLAG, [0x68, 0x69])]"
  let ?frames = "headers_frame 0 1 None None [0x40, 1] @ continuation_bytes 1 ?conts"
  have len: "length ?frames = 33" by (simp add: headers_frame_def headers_payload_def continuation_bytes_def)
  have ok: "headers_allowed 0 1 None None" by (simp add: headers_allowed_def headers_ok_def)
  have conts: "continuations_ok ?conts" by (simp add: HTTP2_END_HEADERS_FLAG_def)
  have block: "[0x40, 1] @ concat (map snd ?conts) = concat (map repr_bytes [demo_field])" by (simp add: demo_field_bytes)
  obtain run' where "parse_msg2 tables demo_env demo_conn (\<lambda>_. Some ?frames) (take 33 ?frames) (length ?frames) demo_run = (int (length ?frames), run')"
    "run_ms run' = dec_ms (decode_all (wanted_id shifted (h2_captures p)) (env_kernel demo_env) HTTP_SRC_BUF 0 [demo_field] demo_decoder)"
    using h2_continued_block_decodes [OF d demo_roomy demo_readable demo_follows demo_run_ms demo_block ok _ conts refl block
        demo_decodable _ _ demo_delivers, where before = "[]" and rest = "[]" and l = 33 and conn = demo_conn] len
    by (auto simp: MAX_BYTES_def demo_field_bytes BLOCK_MAXLEN_def BLOCK_BUF_SIZE_def)
  moreover have "dec_ms (decode_all (wanted_id shifted (h2_captures p)) (env_kernel demo_env) HTTP_SRC_BUF 0 [demo_field] demo_decoder) ! 1 =
      \<lparr>hm_idx = 4, hm_len = 2, hm_source = HTTP_SRC_BUF, hm_huff = False\<rparr>"
    by (simp add: demo_field_def w dec_capture_def match_at_def demo_decoder_def demo_ms_def string_bytes_def string_head_def int_bytes_def)
  ultimately show ?thesis unfolding Let_def using len by (intro exI [of _ tables] exI [of _ run']) simp
qed

text \<open>Where the octets of a value lie in a message.\<close>

lemma value_place:
  assumes "frame = headers_frame flags sid padding prio (concat (map repr_bytes rs))" and "headers_ok flags padding prio"
    and "start = length before + headers_start padding prio" and "rs = pre @ LiteralField ix name v # post"
    and "at = start + length (concat (map repr_bytes pre))"
    and "i = at + length (name_bytes ix name) + length (string_head v)"
    and "start + length (concat (map repr_bytes rs)) \<le> MAX_BYTES"
    and "msg = before @ frame @ rest" and "length before + length frame \<le> k"
  obtains rest' where "drop i (take MAX_BYTES (take k msg)) = str_octets v @ rest'" and "i \<le> length (take MAX_BYTES (take k msg))"
    and "0 < i" and "i < 2 ^ 16" and "length (str_octets v) \<le> MAX_BYTES"
proof -
  let ?block = "concat (map repr_bytes rs)" and ?data = "take MAX_BYTES (take k msg)"
  let ?lead = "concat (map repr_bytes pre) @ name_bytes ix name @ string_head v" and ?tail = "concat (map repr_bytes post)"
  have block: "?block = ?lead @ str_octets v @ ?tail" by (simp add: assms(4) string_bytes_def)
  have i: "i = start + length ?lead" by (simp add: assms(5,6))
  have "drop start msg = drop (headers_start padding prio) (frame @ rest)" by (simp add: assms(3,8) add.commute)
  then have bytes: "drop start msg = ?block @ pad_of padding @ rest"
    unfolding assms(1) headers_frame_def headers_fragment [OF assms(2)] .
  have "drop i msg = drop (length ?lead) (drop start msg)" by (simp add: i add.commute)
  then have octets: "drop i msg = str_octets v @ ?tail @ pad_of padding @ rest" unfolding bytes block by simp
  have size: "length frame = headers_start padding prio + length ?block + length (pad_of padding)"
    using headers_payload_length [OF assms(2), of ?block] by (simp add: assms(1) headers_frame_def)
  have len: "i + length (str_octets v) \<le> start + length ?block" by (simp add: i block)
  then have bound: "i + length (str_octets v) \<le> MAX_BYTES" "i + length (str_octets v) \<le> k" "i + length (str_octets v) \<le> length msg"
    using assms(3,7,8,9) size by simp_all
  have pos: "0 < i" by (simp add: i assms(3) headers_start_def)
  have "drop i ?data = str_octets v @ take (min MAX_BYTES k - (i + length (str_octets v))) (?tail @ pad_of padding @ rest)"
    using octets bound by (simp add: drop_take)
  then show thesis using bound pos by (intro that) (simp_all add: MAX_BYTES_def)
qed

text \<open>
  C4: the value of a field whose name was asked for, sent as a literal
  with its name spelled out or as an index, is what \<open>get_match\<close> returns for the id of the name once
  the block is read, byte for byte as it was sent, as long as no later field of the block has the
  same name.
\<close>

theorem h2_captured_value_is_read_back:
  assumes "h2_new = Inr p0" and "capture_all (h2_capture_hdr encode) names p0 = Inr (ids, p)"
    and "set ts = set (iter_transitions (h2_dfa p))"
    and "h2_inject ts p = (Inr (ro, tables) :: (h2_action, ('enc, 'bpf, 'plain) beeper_error) failure + h2_rodata)"
    and "roomy (env_kernel env)" and "maps_follow env conn D (run_maps run)" and "run_ms run = dec_ms D"
    and "headers_allowed flags sid padding prio" and "flags AND HTTP2_END_HEADERS_FLAG \<noteq> 0"
    and "frame = headers_frame flags sid padding prio (concat (map repr_bytes rs))"
    and "start = length before + headers_start padding prio" and "wanted = wanted_id encode (h2_captures p)"
    and "decodable_all wanted (env_kernel env) HTTP_SRC_MSG start rs D"
    and "start + length (concat (map repr_bytes rs)) \<le> MAX_BYTES"
    and "delivers pull msg" and "msg = before @ frame @ rest"
    and "rs = pre @ LiteralField ix name v # post" and "at = start + length (concat (map repr_bytes pre))"
    and "D1 = decode_all wanted (env_kernel env) HTTP_SRC_MSG start pre D"
    and "dec_name_id wanted (env_kernel env) D1 name = int (unat idx)" and "unat idx < length (dec_ms D)" and "length (dec_ms D) = 32"
    and "int (unat idx) \<notin> set (captured_ids wanted (env_kernel env) HTTP_SRC_MSG (at + length (repr_bytes (LiteralField ix name v))) post
      (decode wanted (env_kernel env) HTTP_SRC_MSG at (LiteralField ix name v) D1))"
    and "length before + length frame \<le> k"
  shows "\<exists>run'. parse_skb2 tables env conn pull (take l msg) (length msg) (length before) None run = (int (length frame), None, run') \<and>
    h2_get_match (kernel_of env (run_maps run')) \<lparr>mc_data = take k msg, mc_conn = conn\<rparr> (mp_entries (run_maps run')) (run_ms run') idx =
      Inr (str_octets v)"
proof -
  note loaded = injected_loaded [OF assms(1-4)]
  let ?ctx = "\<lparr>mc_data = take k msg, mc_conn = conn\<rparr>" and ?i = "at + length (name_bytes ix name) + length (string_head v)"
  have ok: "headers_ok flags padding prio" using assms(8) by (simp add: headers_allowed_def)
  have wanted: "name_id p = wanted" by (simp add: assms(12) loaded(2))
  obtain run' where run': "parse_skb2 tables env conn pull (take l msg) (length msg) (length before) None run = (int (length frame), None, run')"
    "decoded env conn (decode_all wanted (env_kernel env) HTTP_SRC_MSG start rs D) run run'"
    by (rule whole_block_decodes [OF loaded(1) assms(5-11) assms(13) [folded wanted] assms(14-16), of l]) (simp add: wanted)
  have "dec_ms (decode_all wanted (env_kernel env) HTTP_SRC_MSG start rs D) ! nat (int (unat idx)) = match_at HTTP_SRC_MSG ?i v"
    by (rule last_capture [OF assms(17-20) _ assms(23)]) (use assms(21) in simp_all)
  then have m: "run_ms run' ! unat idx = match_at HTTP_SRC_MSG ?i v" using run'(2) by (simp add: decoded_def)
  obtain rest' where place: "drop ?i (take MAX_BYTES (take k msg)) = str_octets v @ rest'" "?i \<le> length (take MAX_BYTES (take k msg))"
    "0 < ?i" "?i < 2 ^ 16" "length (str_octets v) \<le> MAX_BYTES"
    by (rule value_place [OF assms(10) ok assms(11,17,18) refl assms(14,16,24)])
  have src: "source_holds (kernel_of env (run_maps run')) ?ctx HTTP_SRC_MSG (take MAX_BYTES (take k msg))"
    using message_source [of "kernel_of env (run_maps run')" ?ctx] by simp
  have "h2_get_match (kernel_of env (run_maps run')) ?ctx (mp_entries (run_maps run')) (run_ms run') idx = Inr (str_octets v)"
    by (rule get_match_reads [OF src m _ place(1-3,5,4)]) (use assms(21,22) in simp)
  with run'(1) show ?thesis by blast
qed

theorem h2_captured_value_is_read_back_witness:
  "\<exists>tables run'. let frame = headers_frame HTTP2_END_HEADERS_FLAG 1 None None (repr_bytes demo_field) in
     parse_skb2 tables demo_env demo_conn (\<lambda>_. Some frame) frame 15 0 None demo_run = (15, None, run') \<and>
     h2_get_match (kernel_of demo_env (run_maps run')) \<lparr>mc_data = frame, mc_conn = demo_conn\<rparr> (mp_entries (run_maps run'))
       (run_ms run') 1 = Inr [0x68, 0x69]"
proof -
  obtain p0 rs p ts ro tables where d: "h2_new = Inr p0"
    "capture_all (h2_capture_hdr shifted) demo_names p0 = Inr (rs :: ((unit, unit, unit) beeper_error + match_id) list, p)"
    "set ts = set (iter_transitions (h2_dfa p))"
    "h2_inject ts p = (Inr (ro, tables) :: (h2_action, (unit, unit, unit) beeper_error) failure + h2_rodata)"
    and w: "wanted_id shifted (h2_captures p) False [0x76] = 1"
    by (rule h2_injected_demo)
  let ?frame = "headers_frame HTTP2_END_HEADERS_FLAG 1 None None (repr_bytes demo_field)"
  have len: "length ?frame = 15" by (simp add: headers_frame_def headers_payload_def demo_field_bytes)
  have ok: "headers_allowed HTTP2_END_HEADERS_FLAG 1 None None"
    by (simp add: headers_allowed_def headers_ok_def HTTP2_END_HEADERS_FLAG_def HTTP2_PADDED_FLAG_def HTTP2_PRIORITY_FLAG_def)
  have field: "[demo_field] = [] @ LiteralField Incremental (NameString \<lparr>str_huff = False, str_octets = [0x76]\<rparr>)
      \<lparr>str_huff = False, str_octets = [0x68, 0x69]\<rparr> # []" by (simp add: demo_field_def)
  obtain run' where "parse_skb2 tables demo_env demo_conn (\<lambda>_. Some ?frame) (take 15 ?frame) (length ?frame) (length ([] :: bytes)) None
      demo_run = (int (length ?frame), None, run')"
    "h2_get_match (kernel_of demo_env (run_maps run')) \<lparr>mc_data = take 15 ?frame, mc_conn = demo_conn\<rparr> (mp_entries (run_maps run'))
       (run_ms run') 1 = Inr (str_octets \<lparr>str_huff = False, str_octets = [0x68, 0x69]\<rparr>)"
    using h2_captured_value_is_read_back [OF d demo_roomy demo_follows demo_run_ms ok _ _ refl refl demo_decodable _ demo_delivers _ field
        refl refl, where before = "[]" and rest = "[]" and l = 15 and k = 15 and frame = ?frame and conn = demo_conn and idx = 1] len
    by (auto simp: HTTP2_END_HEADERS_FLAG_def headers_start_def MAX_BYTES_def demo_field_bytes w demo_decoder_def demo_ms_def)
  then show ?thesis unfolding Let_def using len by (intro exI [of _ tables] exI [of _ run']) simp
qed

end
