(* ===== verification/Http2_Settings.thy ===== *)
theory Http2_Settings
  imports Http2_Capture
begin

section \<open>SETTINGS frames\<close>

text \<open>
  A SETTINGS frame is a list of parameters (RFC 9113, section 6.5); the program reads the one that
  says how large the dynamic table of the connection may get.
\<close>

definition param_bytes :: "u16 \<times> u32 \<Rightarrow> bytes" where
  "param_bytes = (\<lambda>(ident, v). [ucast (drop_bit 8 ident), ucast ident,
     ucast (drop_bit 24 v), ucast (drop_bit 16 v), ucast (drop_bit 8 v), ucast v])"

definition settings_frame :: "u32 \<Rightarrow> (u16 \<times> u32) list \<Rightarrow> bytes" where
  "settings_frame sid params = frame_bytes HTTP2_SETTINGS_FRAME 0 sid (concat (map param_bytes params))"

text \<open>The size after the parameters: the last one that sets it counts.\<close>

definition settings_max :: "(u16 \<times> u32) list \<Rightarrow> u32 \<Rightarrow> u32" where
  "settings_max params = fold (\<lambda>(ident, v) m. if ident = SETTINGS_HEADER_TABLE_SIZE then v else m) params"

lemma join_u16: "push_bit 8 (push_bit 8 0 OR ucast (ucast (drop_bit 8 x) :: u8)) OR ucast (ucast x :: u8) = (x :: u16)" (is "?join = x")
proof (rule bit_word_eqI)
  fix n
  assume "n < LENGTH(16)"
  then consider "n < 8" | "8 \<le> n" "n < 16" by fastforce
  then show "bit ?join n = bit x n" by cases (auto simp: bit_simps)
qed

lemma join_u32:
  "push_bit 8 (push_bit 8 (push_bit 8 (push_bit 8 0 OR ucast (ucast (drop_bit 24 x) :: u8)) OR ucast (ucast (drop_bit 16 x) :: u8)) OR
     ucast (ucast (drop_bit 8 x) :: u8)) OR ucast (ucast x :: u8) = (x :: u32)" (is "?join = x")
proof (rule bit_word_eqI)
  fix n
  assume "n < LENGTH(32)"
  then consider "n < 8" | "8 \<le> n" "n < 16" | "16 \<le> n" "n < 24" | "24 \<le> n" "n < 32" by fastforce
  then show "bit ?join n = bit x n" by cases (auto simp: bit_simps)
qed

lemma stg_bytes:
  "stg_loop i (c # cs) res 0 ident v None info = stg_loop (i + 1) cs (int i) 1 (push_bit 8 ident OR ucast c) v None info"
  "stg_loop i (c # cs) res 1 ident v None info = stg_loop (i + 1) cs (int i) 2 (push_bit 8 ident OR ucast c) v None info"
  "stg_loop i (c # cs) res 2 ident v None info = stg_loop (i + 1) cs (int i) 3 ident (push_bit 8 v OR ucast c) None info"
  "stg_loop i (c # cs) res 3 ident v None info = stg_loop (i + 1) cs (int i) 4 ident (push_bit 8 v OR ucast c) None info"
  "stg_loop i (c # cs) res 4 ident v None info = stg_loop (i + 1) cs (int i) 5 ident (push_bit 8 v OR ucast c) None info"
  "stg_loop i (c # cs) res 5 ident v None info = stg_loop (i + 1) cs (int i) 0 0 0 None
     (if ident = SETTINGS_HEADER_TABLE_SIZE then info\<lparr>dt_max_size := push_bit 8 v OR ucast c\<rparr> else info)"
  by (simp_all add: Let_def flip: numeral_2_eq_2)

lemma stg_loop_param:
  "stg_loop i (param_bytes (ident, v) @ cs) res 0 0 0 None info =
     stg_loop (i + 6) cs (int (i + 5)) 0 0 0 None
       (if ident = SETTINGS_HEADER_TABLE_SIZE then info\<lparr>dt_max_size := v\<rparr> else info)"
proof -
  have i: "i + 1 + 1 + 1 + 1 + 1 = i + 5" "i + 5 + 1 = i + 6" by simp_all
  show ?thesis
    unfolding param_bytes_def prod.case append_Cons append_Nil stg_bytes join_u16 join_u32 i ..
qed

lemma stg_loop_params:
  "stg_loop i (concat (map param_bytes params)) res 0 0 0 None info =
     (if params = [] then res else int (i + 6 * length params) - 1, None, info\<lparr>dt_max_size := settings_max params (dt_max_size info)\<rparr>)"
proof (induction params arbitrary: i res info)
  case (Cons q params)
  obtain ident v where q: "q = (ident, v)" by fastforce
  show ?case
    unfolding q list.map concat.simps stg_loop_param Cons.IH by (auto simp: settings_max_def)
qed (simp add: settings_max_def)

lemma param_bytes_length [simp]: "length (concat (map param_bytes params)) = 6 * length params"
  by (induction params) (auto simp: param_bytes_def)

lemma params_nonempty: "concat (map param_bytes params) \<noteq> [] \<longleftrightarrow> params \<noteq> []"
  using param_bytes_length [of params] by (cases params) (auto simp: param_bytes_def)

lemma table_follows_max:
  "table_follows conn es0 D \<lparr>tb_info = info, tb_entries = es\<rparr> \<Longrightarrow>
   table_follows conn es0 (D\<lparr>dec_max := m\<rparr>) \<lparr>tb_info = info\<lparr>dt_max_size := m\<rparr>, tb_entries = es\<rparr>"
  by (simp add: table_follows_def holds_def)

lemma parse_stg_from_params:
  assumes "maps_follow env conn D (run_maps run)" and "drop start data = concat (map param_bytes params) @ rest"
    and "stop = start + 6 * length params" and "9 \<le> start" and "start \<le> length data" and "stop \<le> MAX_BYTES"
  obtains res run' where "parse_stg_from env \<lparr>mc_data = data, mc_conn = conn\<rparr> start stop None run = (res, None, run')"
    and "int stop - 1 \<le> res" and "0 \<le> res" and "run_ms run' = run_ms run"
    and "maps_follow env conn (D\<lparr>dec_max := settings_max params (dec_max D)\<rparr>) (run_maps run')"
    and "others_kept conn (run_maps run) (run_maps run')"
proof -
  obtain info maps where t: "get_dynamic_table env conn (run_maps run) = (Some info, maps)"
    "table_follows conn (mp_entries (run_maps run)) D \<lparr>tb_info = info, tb_entries = mp_entries (run_maps run)\<rparr>"
    "mp_entries maps = mp_entries (run_maps run)" "\<And>c. c \<noteq> conn \<Longrightarrow> mp_infos maps c = mp_infos (run_maps run) c"
    using maps_follow_table [OF assms(1)] by metis
  let ?m = "settings_max params (dt_max_size info)"
  let ?run = "run\<lparr>run_maps := maps\<lparr>mp_infos := (mp_infos maps)(conn \<mapsto> info\<lparr>dt_max_size := ?m\<rparr>)\<rparr>\<rparr>"
  let ?res = "if params = [] then int start else int (start + 6 * length params) - 1"
  have len: "stop \<le> length data" using arg_cong [OF assms(2), of length] assms(3,5) by simp
  then have "drop start (take (min stop (min (length data) MAX_BYTES)) data) = concat (map param_bytes params)"
    using assms(2,3,6) by (simp add: drop_take min_absorb1)
  then have run: "parse_stg_from env \<lparr>mc_data = data, mc_conn = conn\<rparr> start stop None run = (?res, None, ?run)"
    using assms(4,5) by (simp add: parse_stg_from_def t(1) stg_loop_params)
  have "dec_max D = dt_max_size info" using t(2) by (simp add: table_follows_def)
  then have "maps_follow env conn (D\<lparr>dec_max := settings_max params (dec_max D)\<rparr>) (run_maps ?run)"
    using table_follows_max [OF t(2), of ?m] t(3) by (simp add: maps_follow_def)
  moreover have "others_kept conn (run_maps run) (run_maps ?run)" using t(3,4) by (simp add: others_kept_def)
  ultimately show thesis by (intro that [OF run]) (use assms(4) in \<open>simp_all add: assms(3)\<close>)
qed

lemma settings_frame_read:
  assumes "maps_follow env conn D (run_maps run)" and "sid < 0x80000000" and "frame = settings_frame sid params"
    and "length before + length frame \<le> MAX_BYTES" and "delivers pull msg" and "msg = before @ frame @ rest"
  shows "\<exists>run'. parse_skb2 tables env conn pull (take l msg) (length msg) (length before) None run = (int (length frame), None, run') \<and>
    run_ms run' = run_ms run \<and> maps_follow env conn (D\<lparr>dec_max := settings_max params (dec_max D)\<rparr>) (run_maps run') \<and>
    others_kept conn (run_maps run) (run_maps run')"
proof -
  let ?off = "length before" and ?n = "6 * length params"
  have frame: "frame = frame_bytes HTTP2_SETTINGS_FRAME 0 sid (concat (map param_bytes params))"
    using assms(3) by (simp add: settings_frame_def)
  then have len: "length frame = 9 + ?n" by simp
  then have long: "9 \<le> length frame" and fits: "?off + 9 + ?n \<le> MAX_BYTES" using assms(4) by simp_all
  have small: "length (concat (map param_bytes params)) < 2 ^ 24" using fits by (simp add: MAX_BYTES_def)
  note hdr = frame_header [OF small assms(2) refl, of HTTP2_SETTINGS_FRAME 0, folded frame]
  obtain data rest' where data: "pull (?off + length frame) = Some data" "drop ?off data = frame @ rest'" "?off \<le> length data"
    by (rule delivered [OF assms(5,6) le_refl]) (use assms(6) in simp)
  let ?ctx = "\<lparr>mc_data = data, mc_conn = conn\<rparr>" and ?run = "run\<lparr>run_frame := new_http2_frame (take 9 frame)\<rparr>"
  obtain info maps where t: "get_dynamic_table env conn (run_maps run) = (Some info, maps)" "mp_infos maps conn = Some info"
    "table_follows conn (mp_entries (run_maps run)) D \<lparr>tb_info = info, tb_entries = mp_entries (run_maps run)\<rparr>"
    "mp_entries maps = mp_entries (run_maps run)" "\<And>c. c \<noteq> conn \<Longrightarrow> mp_infos maps c = mp_infos (run_maps run) c"
    using maps_follow_table [OF assms(1)] by metis
  let ?run2 = "?run\<lparr>run_maps := maps, run_frame := (run_frame ?run)\<lparr>fr_dt_count_before := table_count conn maps\<rparr>\<rparr>"
  have follow: "maps_follow env conn D (run_maps ?run2)" using t(2-4) by (simp add: maps_follow_def)
  have "drop (?off + 9) data = drop 9 (drop ?off data)" by (simp add: add.commute)
  then have bytes: "drop (?off + 9) data = concat (map param_bytes params) @ rest'" unfolding data(2) frame by simp
  have at: "?off + 9 \<le> length data" using arg_cong [OF data(2), of length] data(3) long by simp
  obtain res run' where stg: "parse_stg_from env ?ctx (?off + 9) (?off + 9 + ?n) None ?run2 = (res, None, run')"
    "int (?off + 9 + ?n) - 1 \<le> res" "0 \<le> res" "run_ms run' = run_ms ?run2"
    "maps_follow env conn (D\<lparr>dec_max := settings_max params (dec_max D)\<rparr>) (run_maps run')"
    "others_kept conn (run_maps ?run2) (run_maps run')"
    by (rule parse_stg_from_params [OF follow bytes refl _ at fits]) simp
  have block: "http2_block (drop ?off data) ?n HTTP2_SETTINGS_FRAME 0 = Inr (word_of_nat 9, word_of_nat (9 + ?n))"
    by (simp add: http2_block_def HTTP2_FRAME_HDR_LEN_def HTTP2_HEADERS_FRAME_def HTTP2_SETTINGS_FRAME_def)
  have unats: "unat (word_of_nat 9 + word_of_nat ?off :: u16) = ?off + 9"
    "unat (word_of_nat (9 + ?n) + word_of_nat ?off :: u16) = ?off + 9 + ?n"
    "unat (word_of_nat (9 + ?n) :: u16) = 9 + ?n"
    using fits by (subst unat_offset unat_u16; simp add: MAX_BYTES_def)+
  have bounds: "\<not> MAX_BYTES < ?off" "\<not> MAX_BYTES < ?off + (9 + ?n)" using fits by simp_all
  let ?run' = "run'\<lparr>run_frame := (run_frame run')\<lparr>fr_dt_count := table_count conn (run_maps run')\<rparr>\<rparr>"
  have "parse_frame tables env ?ctx ?off ?n HTTP2_SETTINGS_FRAME 0 None ?run = (0, None, ?run')"
    unfolding parse_frame_def msg_ctx.select_convs block sum.case prod.case unats bounds [THEN if_not_P] Let_def
    using stg(1-3) t(1) by simp
  then have "parse_frame_at tables env conn pull (take 9 frame) ?off (length msg - ?off) (min (length msg) (?off + MAX_BYTES)) None run =
      (int (length frame), None, ?run')"
    unfolding parse_frame_at_def hdr Let_def using assms(6) data(1) len
    by (simp add: HTTP2_FRAME_HDR_LEN_def violates_block_rules_def is_parsed_frame_def HTTP2_HEADERS_FRAME_def
        HTTP2_CONTINUATION_FRAME_def HTTP2_SETTINGS_FRAME_def)
  moreover have "others_kept conn (run_maps run) (run_maps ?run2)" using t(4,5) by (simp add: others_kept_def)
  then have "others_kept conn (run_maps run) (run_maps ?run')" using stg(6) by (auto intro: others_kept_trans)
  ultimately show ?thesis
    using skb_reads [OF assms(5,6) long, of tables env conn l None run] fits stg(4,5) by auto
qed

text \<open>
  C7: a SETTINGS frame that is no acknowledgement is consumed in full,
  wherever it starts, and all it changes is the maximum size of the table of its connection, which
  becomes the value of the last parameter that sets it, or stays as it is if there is none.
\<close>

theorem h2_settings_set_the_table_size:
  assumes "maps_follow env conn D (run_maps run)" and "sid < 0x80000000" and "frame = settings_frame sid params"
    and "length before + length frame \<le> MAX_BYTES" and "delivers pull msg" and "msg = before @ frame @ rest"
  shows "\<exists>run'. parse_skb2 tables env conn pull (take l msg) (length msg) (length before) None run = (int (length frame), None, run') \<and>
    run_ms run' = run_ms run \<and> maps_follow env conn (D\<lparr>dec_max := settings_max params (dec_max D)\<rparr>) (run_maps run') \<and>
    others_kept conn (run_maps run) (run_maps run')"
  by (rule settings_frame_read [OF assms])

theorem h2_settings_set_the_table_size_witness:
  "let frame = settings_frame 0 [(3, 100), (1, 256), (4, 7)] in
   \<exists>run'. parse_skb2 (empty_rodata h2_no_action) demo_env demo_conn (\<lambda>_. Some frame) (take 9 frame) (length frame) 0 None demo_run =
       (27, None, run') \<and> maps_follow demo_env demo_conn (demo_decoder\<lparr>dec_max := 256\<rparr>) (run_maps run')"
proof -
  let ?frame = "settings_frame 0 [(3, 100), (1, 256), (4, 7)]"
  have len: "length ?frame = 27" by (simp add: settings_frame_def param_bytes_def)
  have "settings_max [(3, 100), (1, 256), (4, 7)] (dec_max demo_decoder) = 256"
    by (simp add: settings_max_def SETTINGS_HEADER_TABLE_SIZE_def)
  then show ?thesis
    using h2_settings_set_the_table_size [OF demo_follows _ refl _ demo_delivers, where sid = 0 and before = "[]" and
        params = "[(3, 100), (1, 256), (4, 7)]" and msg = ?frame and rest = "[]" and tables = "empty_rodata h2_no_action" and l = 9 and
        conn = demo_conn] len
    by (auto simp: MAX_BYTES_def Let_def)
qed

end
