(* ===== verification/Http2_Limits.thy ===== *)
theory Http2_Limits
  imports Http2_Capture
begin

section \<open>What the HTTP/2 parser program does with what it cannot decode\<close>

text \<open>
  Frames that break the rules, frames that are not there yet, frames longer than the program can
  count, and the bound of the loop over the frames of a block.
\<close>

subsection \<open>The loop over the frames of a block\<close>

lemma collect_frame_progress:
  "collect_frame kern data off first at pos sid = Inr (frame_len, bs, fsid, ended) \<Longrightarrow> 9 \<le> frame_len"
  by (auto simp: collect_frame_def Let_def HTTP2_FRAME_HDR_LEN_def split: if_splits option.splits)

lemma collect_frame_end:
  "MAX_BYTES < at \<Longrightarrow> collect_frame kern data off first at pos sid = Inl (- E2BIG, 0)"
  by (simp add: collect_frame_def)

lemma collect_loop_enough:
  assumes "MAX_BYTES < at + 9 * m" and "m \<le> n"
  shows "collect_loop n kern data off first at pos sid buf = collect_loop m kern data off first at pos sid buf"
  using assms
proof (induction m arbitrary: n first at pos sid buf)
  case 0
  then show ?case by (cases n) (simp_all add: collect_frame_end)
next
  case (Suc m)
  then obtain n' where n: "n = Suc n'" "m \<le> n'" by (cases n) simp_all
  have "collect_loop n' kern data off False (at + frame_len) pos' sid' buf' = collect_loop m kern data off False (at + frame_len) pos' sid' buf'"
    if "collect_frame kern data off first at pos sid = Inr (frame_len, bs, fsid, ended)" for frame_len bs fsid ended pos' sid' buf'
    using Suc.IH [of "at + frame_len" n'] Suc.prems(1) n(2) collect_frame_progress [OF that] by simp
  then show ?case by (simp add: n(1) Let_def split: sum.split)
qed

text \<open>
  C9: the bound of the loop that puts a block together never cuts a
  block short: with any larger number of rounds, and whatever the frames are, the loop ends with the
  same result, the same block and the same buffer, since every frame takes up at least nine bytes of
  the ones that can be read.
\<close>

theorem h2_block_loop_is_long_enough:
  assumes "MAX_BYTES div HTTP2_FRAME_HDR_LEN + 1 \<le> n" and "k_block kern = Some buf"
  shows "collect_block kern ctx off =
    (case collect_loop n kern (mc_data ctx) off True off 0 0 buf of (res, blk, buf) \<Rightarrow> (res, blk, Some buf))"
proof -
  have "MAX_BYTES < off + 9 * (MAX_BYTES div HTTP2_FRAME_HDR_LEN + 1)" by (simp add: MAX_BYTES_def HTTP2_FRAME_HDR_LEN_def)
  from collect_loop_enough [OF this assms(1)] assms(2) show ?thesis by (simp add: collect_block_def)
qed

theorem h2_block_loop_is_long_enough_witness:
  "let kern = demo_kernel\<lparr>k_block := Some \<lparr>bb_len = 0, bb_data = []\<rparr>\<rparr> in
   collect_block kern \<lparr>mc_data = [0, 0], mc_conn = demo_conn\<rparr> 0 =
     (case collect_loop 10000 kern [0, 0] 0 True 0 0 0 \<lparr>bb_len = 0, bb_data = []\<rparr> of (res, blk, buf) \<Rightarrow> (res, blk, Some buf))"
  using h2_block_loop_is_long_enough [where n = 10000 and kern = "demo_kernel\<lparr>k_block := Some \<lparr>bb_len = 0, bb_data = []\<rparr>\<rparr>"
      and ctx = "\<lparr>mc_data = [0, 0], mc_conn = demo_conn\<rparr>" and off = 0]
  by (simp add: MAX_BYTES_def HTTP2_FRAME_HDR_LEN_def del: collect_loop.simps)

subsection \<open>Errors\<close>

text \<open>What a run leaves as it is: the captures and the tables of every connection.\<close>

definition untouched :: "h2_run \<Rightarrow> h2_run \<Rightarrow> bool" where
  "untouched run run' \<longleftrightarrow> run_ms run' = run_ms run \<and> mp_infos (run_maps run') = mp_infos (run_maps run) \<and>
     mp_entries (run_maps run') = mp_entries (run_maps run)"

lemma h2_run_action_error: "fst (h2_run_action tables kern ctx w) \<in> {0, - EBADMSG}"
  by (simp add: h2_run_action_def Let_def)

lemma parse_hdr_byte_error: "fst (parse_hdr_byte tables kern ctx c w) \<in> {0, - EBADMSG}"
  using h2_run_action_error by (simp add: parse_hdr_byte_def Let_def split: prod.split)

lemma hdr_loop_error: "- EAGAIN < res \<Longrightarrow> fst (hdr_loop tables kern ctx i cs res null_prefix w) \<noteq> - EAGAIN"
proof (induction cs arbitrary: i res null_prefix w)
  case (Cons c cs)
  obtain err w' where step: "parse_hdr_byte tables kern ctx c (w\<lparr>hw_ps := (hw_ps w)\<lparr>ps_i := word_of_nat i\<rparr>\<rparr>) = (err, w')"
    by (cases "parse_hdr_byte tables kern ctx c (w\<lparr>hw_ps := (hw_ps w)\<lparr>ps_i := word_of_nat i\<rparr>\<rparr>)")
  then have "err \<in> {0, - EBADMSG}" using parse_hdr_byte_error by (metis fst_conv)
  with step Cons.IH [of "int i"] show ?case by (auto simp: EAGAIN_def EBADMSG_def)
qed simp

lemma buf_loop_error: "fst (buf_loop tables kern ctx i cs w) \<noteq> - EAGAIN"
proof (induction cs arbitrary: i w)
  case (Cons c cs)
  obtain err w' where step: "parse_hdr_byte tables kern ctx c (w\<lparr>hw_ps := (hw_ps w)\<lparr>ps_i := word_of_nat i\<rparr>\<rparr>) = (err, w')"
    by (cases "parse_hdr_byte tables kern ctx c (w\<lparr>hw_ps := (hw_ps w)\<lparr>ps_i := word_of_nat i\<rparr>\<rparr>)")
  then have "err \<in> {0, - EBADMSG}" using parse_hdr_byte_error by (metis fst_conv)
  with step Cons.IH show ?case by (auto simp: EAGAIN_def EBADMSG_def)
qed (simp add: EAGAIN_def)

lemma stg_loop_error: "- EAGAIN < res \<Longrightarrow> fst (stg_loop i cs res j ident v null_prefix info) \<noteq> - EAGAIN"
  by (induction i cs res j ident v null_prefix info rule: stg_loop.induct) (auto simp: Let_def EAGAIN_def split: if_splits)

lemma loops_no_retry [simp]:
  "hdr_loop tables kern ctx i cs (int k) null_prefix w \<noteq> (- 11, x)" "buf_loop tables kern ctx i cs w \<noteq> (- 11, x')"
  "stg_loop i cs (int k) j ident v null_prefix info \<noteq> (- 11, x'')"
  using hdr_loop_error [of "int k"] buf_loop_error stg_loop_error [of "int k"] unfolding EAGAIN_def
  by (metis fst_conv neg_less_0_iff_less of_nat_0_le_iff order_less_le_trans zero_less_numeral)+

lemma parse_hdr_frame_error: "fst (parse_hdr_frame tables env ctx start stop null_prefix run) \<noteq> - EAGAIN"
  by (auto simp: parse_hdr_frame_def parse_hdr_from_def EAGAIN_def ENOSPC_def Let_def split: prod.split option.split)

lemma parse_stg_from_error: "fst (parse_stg_from env ctx start stop null_prefix run) \<noteq> - EAGAIN"
  by (auto simp: parse_stg_from_def EAGAIN_def ENOSPC_def split: prod.split option.split)

lemma http2_block_error: "http2_block data len ty flags \<noteq> Inl (- EAGAIN)"
  by (simp add: http2_block_def Let_def EAGAIN_def EFAULT_def EBADMSG_def)

lemma parse_frame_error: "fst (parse_frame tables env ctx off len ty flags null_prefix run) \<noteq> - EAGAIN"
proof (cases "http2_block (drop off (mc_data ctx)) len ty flags")
  case (Inl err)
  then have "err \<noteq> - EAGAIN" using http2_block_error by metis
  with Inl show ?thesis by (simp add: parse_frame_def EAGAIN_def E2BIG_def)
next
  case (Inr b)
  obtain start stop where b: "b = (start, stop)" by fastforce
  obtain info maps where t: "get_dynamic_table env (mc_conn ctx) (run_maps run) = (info, maps)" by fastforce
  let ?start = "unat (start + word_of_nat off)" and ?stop = "unat (stop + word_of_nat off)"
  let ?run = "run\<lparr>run_maps := maps, run_frame := (run_frame run)\<lparr>fr_dt_count_before := table_count (mc_conn ctx) maps\<rparr>\<rparr>"
  let ?r = "if ty = HTTP2_SETTINGS_FRAME then parse_stg_from env ctx ?start ?stop null_prefix ?run
    else parse_hdr_frame tables env ctx ?start ?stop null_prefix ?run"
  obtain res np run' where r: "?r = (res, np, run')" by (cases ?r) fastforce
  then have "res \<noteq> - EAGAIN" using parse_hdr_frame_error parse_stg_from_error by (metis fst_conv)
  then show ?thesis
    unfolding parse_frame_def Inr b sum.case prod.case Let_def t r by (simp add: EAGAIN_def E2BIG_def EBADMSG_def)
qed

lemma parse_block_retry:
  assumes "parse_block tables env ctx off run = (- EAGAIN, run')"
  shows "untouched run run'"
proof -
  obtain whole blk buf where c: "collect_block (kernel_of env (run_maps run)) ctx off = (whole, blk, buf)"
    by (cases "collect_block (kernel_of env (run_maps run)) ctx off") fastforce
  show ?thesis
  proof (cases "whole < 0")
    case True
    with assms c show ?thesis by (auto simp: parse_block_def untouched_def Let_def split: if_splits)
  next
    case False
    let ?run = "run\<lparr>run_maps := (run_maps run)\<lparr>mp_block := buf\<rparr>\<rparr>"
    obtain info maps where t: "get_dynamic_table env (mc_conn ctx) (run_maps ?run) = (info, maps)" by fastforce
    have "fst (parse_block tables env ctx off run) \<noteq> - EAGAIN"
      using c False
      by (auto simp: parse_block_def Let_def t parse_hdr_buf_def EAGAIN_def ENOSPC_def EBADMSG_def split: option.split prod.split)
    with assms show ?thesis by simp
  qed
qed

lemma parse_frame_at_retry:
  assumes "parse_frame_at tables env conn pull hdr off sz pulled null_prefix run = (- EAGAIN, np, run')"
  shows "sz < fr_need (run_frame run') \<and> np = null_prefix \<and> untouched run run'"
proof -
  let ?run = "run\<lparr>run_frame := new_http2_frame hdr\<rparr>"
  have no: "- EAGAIN \<noteq> - EPROTO" "- EAGAIN \<noteq> - EFAULT" "- EAGAIN \<noteq> - E2BIG" "- EAGAIN \<noteq> int n" for n
    by (simp_all add: EAGAIN_def EPROTO_def EFAULT_def E2BIG_def)
  have same: "untouched ?run r \<Longrightarrow> untouched run r" for r by (simp add: untouched_def)
  let ?ty = "hdr ! 3" and ?flags = "hdr ! 4" and ?frame_len = "HTTP2_FRAME_HDR_LEN + u24 hdr"
  consider (stray) "violates_block_rules ?ty (stream_id hdr)"
    | (skipped) "\<not> violates_block_rules ?ty (stream_id hdr)" "\<not> is_parsed_frame ?ty ?flags"
    | (short) "\<not> violates_block_rules ?ty (stream_id hdr)" "is_parsed_frame ?ty ?flags" "sz < ?frame_len"
    | (block) "\<not> violates_block_rules ?ty (stream_id hdr)" "is_parsed_frame ?ty ?flags" "\<not> sz < ?frame_len"
        "?ty = HTTP2_HEADERS_FRAME \<and> ?flags AND HTTP2_END_HEADERS_FLAG = 0"
    | (frame) "\<not> violates_block_rules ?ty (stream_id hdr)" "is_parsed_frame ?ty ?flags" "\<not> sz < ?frame_len"
        "\<not> (?ty = HTTP2_HEADERS_FRAME \<and> ?flags AND HTTP2_END_HEADERS_FLAG = 0)"
    by blast
  then show ?thesis
  proof cases
    case stray
    then show ?thesis using assms no by (auto simp: parse_frame_at_def Let_def reject_frame_def need_more_def untouched_def split: if_splits)
  next
    case skipped
    then have "int ?frame_len = - EAGAIN" using assms by (simp add: parse_frame_at_def Let_def del: of_nat_add)
    with no(4) [of ?frame_len] show ?thesis by simp
  next
    case short
    then show ?thesis using assms by (auto simp: parse_frame_at_def Let_def need_more_def untouched_def)
  next
    case block
    then obtain data where pull: "pull pulled = Some data" using assms no by (auto simp: parse_frame_at_def Let_def split: option.splits)
    obtain res r where r: "parse_block tables env \<lparr>mc_data = data, mc_conn = conn\<rparr> off ?run = (res, r)" by fastforce
    have "(if res = - EAGAIN \<and> fr_need (run_frame r) \<le> sz then - E2BIG else res, null_prefix, r) = (- EAGAIN, np, run')"
      using assms block by (auto simp: parse_frame_at_def Let_def pull r split del: if_split)
    then have "res = - EAGAIN" "sz < fr_need (run_frame r)" "np = null_prefix" "run' = r" using no(3) by (auto split: if_splits)
    with parse_block_retry [of tables env _ off ?run] r same show ?thesis by blast
  next
    case frame
    then obtain data where pull: "pull (off + ?frame_len) = Some data"
      using assms no by (auto simp: parse_frame_at_def Let_def split: option.splits)
    obtain err np' r where r: "parse_frame tables env \<lparr>mc_data = data, mc_conn = conn\<rparr> off (u24 hdr) ?ty ?flags null_prefix ?run = (err, np', r)"
      by (cases "parse_frame tables env \<lparr>mc_data = data, mc_conn = conn\<rparr> off (u24 hdr) ?ty ?flags null_prefix ?run")
    then have "err \<noteq> - EAGAIN" using parse_frame_error by (metis fst_conv)
    moreover have "(if err < 0 then err else int ?frame_len, np', r) = (- EAGAIN, np, run')"
      using assms frame by (simp add: parse_frame_at_def Let_def pull r)
    ultimately show ?thesis using no(4) [of ?frame_len] by (auto split: if_splits)
  qed
qed

lemma parse_skb_retry:
  assumes "parse_skb2 tables env conn pull linear skb_len off null_prefix run = (- EAGAIN, np, run')"
  shows "skb_len - off < fr_need (run_frame run') \<and> np = null_prefix \<and> untouched run run'"
proof -
  have no: "- EAGAIN \<noteq> - EFAULT" "- EAGAIN \<noteq> - E2BIG" "- EAGAIN \<noteq> 0" by (simp_all add: EAGAIN_def EFAULT_def E2BIG_def)
  obtain data where "parse_frame_at tables env conn pull (take HTTP2_FRAME_HDR_LEN (drop off data)) off (skb_len - off)
      (min skb_len (off + MAX_BYTES)) null_prefix run = (- EAGAIN, np, run')"
    using assms no unfolding parse_skb2_def by (auto split: if_splits option.splits)
  then show ?thesis by (rule parse_frame_at_retry)
qed

lemma parse_msg_retry:
  assumes "parse_msg2 tables env conn pull linear sz run = (- EAGAIN, run')"
  shows "sz < fr_need (run_frame run') \<and> untouched run run'"
proof -
  have "- EAGAIN \<noteq> 0" by (simp add: EAGAIN_def)
  with assms obtain np where "parse_frame_at tables env conn pull (take HTTP2_FRAME_HDR_LEN linear) 0 sz (min sz MAX_BYTES) None run =
      (- EAGAIN, np, run')"
    unfolding parse_msg2_def by (auto split: if_splits prod.splits)
  from parse_frame_at_retry [OF this] show ?thesis by simp
qed

text \<open>
  C6: when the program asks for more bytes, it has not changed anything that a
  second call could see twice, neither a capture nor a table of any connection, and it asks for more
  than what has arrived, so the caller never gets the same answer for the same bytes: whatever the
  message, the tables of the parser and the state of the maps are.
\<close>

theorem h2_retry_is_safe:
  "(parse_skb2 tables env conn pull linear skb_len off null_prefix run = (- EAGAIN, np, run') \<longrightarrow>
      skb_len - off < fr_need (run_frame run') \<and> np = null_prefix \<and> untouched run run') \<and>
   (parse_msg2 tables env conn pull linear sz run = (- EAGAIN, run') \<longrightarrow> sz < fr_need (run_frame run') \<and> untouched run run')"
  using parse_skb_retry parse_msg_retry by blast

theorem h2_retry_is_safe_witness:
  "let linear = take 12 (headers_frame HTTP2_END_HEADERS_FLAG 1 None None (repr_bytes demo_field));
       (res, run') = parse_msg2 (empty_rodata h2_no_action) demo_env demo_conn (\<lambda>_. Some linear) linear 12 demo_run
   in res = - EAGAIN \<and> 12 < fr_need (run_frame run') \<and> untouched demo_run run'"
proof -
  let ?linear = "take 12 (headers_frame HTTP2_END_HEADERS_FLAG 1 None None (repr_bytes demo_field))"
  let ?tables = "empty_rodata h2_no_action :: h2_tables"
  obtain res run' where r: "parse_msg2 ?tables demo_env demo_conn (\<lambda>_. Some ?linear) ?linear 12 demo_run = (res, run')" by fastforce
  then have "res = - EAGAIN"
    by (auto simp: parse_msg2_def parse_frame_at_def Let_def HTTP2_FRAME_HDR_LEN_def headers_frame_def frame_bytes_def u24_bytes_def
        sid_bytes_def u24_def stream_id_def headers_payload_def demo_field_bytes violates_block_rules_def is_parsed_frame_def need_more_def
        HTTP2_HEADERS_FRAME_def HTTP2_CONTINUATION_FRAME_def HTTP2_SETTINGS_FRAME_def)
  with h2_retry_is_safe [THEN conjunct2, rule_format, of ?tables demo_env demo_conn "\<lambda>_. Some ?linear" ?linear 12 demo_run run'] r
  show ?thesis by (simp add: Let_def)
qed

text \<open>A frame the program does not read: neither a block nor SETTINGS, or none that may stand there.\<close>

definition other_frame :: "u8 \<Rightarrow> u8 \<Rightarrow> u32 \<Rightarrow> bool" where
  "other_frame ty flags sid \<longleftrightarrow> ty = HTTP2_CONTINUATION_FRAME \<or> ty = HTTP2_HEADERS_FRAME \<and> sid = 0 \<or>
     ty = HTTP2_SETTINGS_FRAME \<and> flags \<noteq> 0 \<or> ty \<notin> {HTTP2_HEADERS_FRAME, HTTP2_CONTINUATION_FRAME, HTTP2_SETTINGS_FRAME}"

lemma other_frame_read:
  assumes "other_frame ty flags sid"
    and "length payload < 2 ^ 24" and "sid < 0x80000000" and "length before \<le> MAX_BYTES"
    and "delivers pull msg" and "msg = before @ frame_bytes ty flags sid payload @ rest"
    and "stray = (ty = HTTP2_CONTINUATION_FRAME \<or> ty = HTTP2_HEADERS_FRAME \<and> sid = 0)"
  shows "\<exists>run'. parse_skb2 tables env conn pull (take l msg) (length msg) (length before) null_prefix run =
      (if stray then - EPROTO else 9 + int (length payload), null_prefix, run') \<and> untouched run run' \<and>
    fr_sid (run_frame run') = sid \<and> fr_type (run_frame run') = ty \<and> fr_flags (run_frame run') = flags \<and>
    fr_len (run_frame run') = length payload \<and> fr_dt_count (run_frame run') = fr_dt_count_before (run_frame run')"
proof -
  let ?frame = "frame_bytes ty flags sid payload"
  have long: "9 \<le> length ?frame" and sz: "length ?frame \<le> length msg - length before" using assms(6) by simp_all
  note hdr = frame_header [OF assms(2,3) refl, of ty flags]
  have frame: "new_http2_frame (take 9 ?frame) = \<lparr>fr_sid = sid, fr_type = ty, fr_flags = flags, fr_dt_count_before = 0,
      fr_dt_count = 0, fr_len = length payload, fr_need = 0\<rparr>"
    unfolding new_http2_frame_def hdr ..
  have rule: "violates_block_rules ty sid \<longleftrightarrow> stray" by (simp add: violates_block_rules_def assms(7))
  have skip: "\<not> stray \<Longrightarrow> \<not> is_parsed_frame ty flags" using assms(1,7) 
    by (auto simp: other_frame_def is_parsed_frame_def HTTP2_HEADERS_FRAME_def HTTP2_CONTINUATION_FRAME_def HTTP2_SETTINGS_FRAME_def)
  show ?thesis
    unfolding skb_reads [OF assms(5,6) long assms(4)] parse_frame_at_def Let_def hdr frame rule
    using skip sz by (auto simp: reject_frame_def HTTP2_FRAME_HDR_LEN_def skip_frame_def untouched_def Let_def)
qed

text \<open>
  C8: a frame that is there in full, wherever it starts, and
  that the program does not read is consumed in full if it may stand there, and rejected with
  \<open>EPROTO\<close> if it is a CONTINUATION that carries on no block or a HEADERS frame of stream 0. Either
  way it is described as it was sent, and no capture and no table is touched.
\<close>

theorem h2_other_frames_are_skipped_or_rejected:
  assumes "other_frame ty flags sid"
    and "length payload < 2 ^ 24" and "sid < 0x80000000" and "length before \<le> MAX_BYTES"
    and "delivers pull msg" and "msg = before @ frame_bytes ty flags sid payload @ rest"
    and "stray = (ty = HTTP2_CONTINUATION_FRAME \<or> ty = HTTP2_HEADERS_FRAME \<and> sid = 0)"
  shows "\<exists>run'. parse_skb2 tables env conn pull (take l msg) (length msg) (length before) null_prefix run =
      (if stray then - EPROTO else 9 + int (length payload), null_prefix, run') \<and> untouched run run' \<and>
    fr_sid (run_frame run') = sid \<and> fr_type (run_frame run') = ty \<and> fr_flags (run_frame run') = flags \<and>
    fr_len (run_frame run') = length payload \<and> fr_dt_count (run_frame run') = fr_dt_count_before (run_frame run')"
  by (rule other_frame_read [OF assms])

theorem h2_other_frames_are_skipped_or_rejected_witness:
  "let frame = frame_bytes HTTP2_CONTINUATION_FRAME HTTP2_END_HEADERS_FLAG 1 [0x82] in
   \<exists>run'. parse_skb2 (empty_rodata h2_no_action) demo_env demo_conn (\<lambda>_. Some frame) frame 10 0 None demo_run = (- EPROTO, None, run') \<and>
     untouched demo_run run'"
proof -
  let ?frame = "frame_bytes HTTP2_CONTINUATION_FRAME HTTP2_END_HEADERS_FLAG 1 [0x82]"
  have len: "length ?frame = 10" by simp
  obtain run' where "parse_skb2 (empty_rodata h2_no_action) demo_env demo_conn (\<lambda>_. Some ?frame) (take 10 ?frame) (length ?frame)
      (length ([] :: bytes)) None demo_run = (- EPROTO, None, run')" "untouched demo_run run'"
    using h2_other_frames_are_skipped_or_rejected [OF _ _ _ _ demo_delivers _ refl, of HTTP2_CONTINUATION_FRAME HTTP2_END_HEADERS_FLAG 1
        "[0x82]" "[]" ?frame "[]" "empty_rodata h2_no_action" demo_env demo_conn 10 None demo_run]
    by (auto simp: MAX_BYTES_def other_frame_def)
  then show ?thesis unfolding Let_def using len by (intro exI [of _ run']) simp
qed

subsection \<open>Frames that are too long\<close>

lemma block_length_modulo:
  assumes "http2_block data len ty flags = Inr b"
  shows "http2_block data (len + 65536 * k) ty flags = Inr b"
proof -
  have "(word_of_nat (65536 * k) :: u16) = 0" unfolding word_of_nat_eq_0_iff by simp
  then have "65536 * (word_of_nat k :: u16) = 0" by simp
  with assms show ?thesis by (auto simp: http2_block_def Let_def split: if_splits)
qed

lemma parse_frame_modulo:
  assumes "http2_block (drop off (mc_data ctx)) len ty flags = Inr b"
  shows "parse_frame tables env ctx off (len + 65536 * k) ty flags null_prefix run = parse_frame tables env ctx off len ty flags null_prefix run"
  unfolding parse_frame_def block_length_modulo [OF assms] assms ..

text \<open>
  C10: the end of a block is kept in 16 bits, so a HEADERS frame whose
  payload is a multiple of 65536 bytes long passes the check against \<open>MAX_BYTES\<close> and is reported as
  consumed in full, while not a single byte of its block has been read: no value is captured and no
  entry is added to the table of the connection, which is out of step with the peer from there on.
\<close>

theorem h2_long_frame_is_not_read:
  assumes "flags = HTTP2_END_HEADERS_FLAG" and "sid \<noteq> 0" and "sid < 0x80000000"
    and "length payload = 65536 * k" and "k < 256" and "mp_infos (run_maps run) conn = Some info"
    and "length before + 9 \<le> MAX_BYTES" and "delivers pull msg"
    and "msg = before @ frame @ rest" and "frame = frame_bytes HTTP2_HEADERS_FRAME flags sid payload"
  shows "\<exists>run'. parse_skb2 tables env conn pull (take l msg) (length msg) (length before) None run = (int (length frame), None, run') \<and>
    untouched run run'"
proof -
  let ?off = "length before"
  have long: "9 \<le> length frame" by (simp add: assms(10))
  have len: "length frame = 9 + 65536 * k" by (simp add: assms(4,10))
  have small: "length payload < 2 ^ 24" using assms(4,5) by simp
  note hdr = frame_header [OF small assms(3) refl, of HTTP2_HEADERS_FRAME flags, folded assms(10)]
  obtain data rest' where data: "pull (?off + length frame) = Some data" "drop ?off data = frame @ rest'" "?off \<le> length data"
    by (rule delivered [OF assms(8,9) le_refl]) (use assms(9) in simp)
  let ?ctx = "\<lparr>mc_data = data, mc_conn = conn\<rparr>" and ?run = "run\<lparr>run_frame := new_http2_frame (take 9 frame)\<rparr>"
  have flags: "flags AND HTTP2_PADDED_FLAG = 0" "flags AND HTTP2_PRIORITY_FLAG = 0" "flags AND HTTP2_END_HEADERS_FLAG \<noteq> 0"
    by (simp_all add: assms(1) HTTP2_END_HEADERS_FLAG_def HTTP2_PADDED_FLAG_def HTTP2_PRIORITY_FLAG_def)
  have block: "http2_block (drop ?off data) 0 HTTP2_HEADERS_FRAME flags = Inr (9, 9)"
    by (simp add: http2_block_def flags HTTP2_FRAME_HDR_LEN_def)
  then have block': "http2_block (drop ?off (mc_data ?ctx)) 0 HTTP2_HEADERS_FRAME flags = Inr (9, 9)" by simp
  have at: "unat (9 + word_of_nat ?off :: u16) = ?off + 9"
  proof -
    have "(9 + word_of_nat ?off :: u16) = word_of_nat (?off + 9)" by (simp add: add.commute)
    moreover have "?off + 9 < 2 ^ 16" using assms(7) by (simp add: MAX_BYTES_def)
    ultimately show ?thesis by (simp only: unat_u16)
  qed
  have no_settings: "HTTP2_HEADERS_FRAME \<noteq> HTTP2_SETTINGS_FRAME" by (simp add: HTTP2_HEADERS_FRAME_def HTTP2_SETTINGS_FRAME_def)
  have "\<exists>run'. parse_frame tables env ?ctx ?off 0 HTTP2_HEADERS_FRAME flags None ?run = (0, None, run') \<and> untouched run run'"
    using assms(6,7) no_settings
    by (auto simp: parse_frame_def block at get_dynamic_table_def Let_def parse_hdr_frame_def parse_hdr_from_def end_walk_def put_table_def
        start_walk_def untouched_def)
  then obtain run' where run': "parse_frame tables env ?ctx ?off (65536 * k) HTTP2_HEADERS_FRAME flags None ?run = (0, None, run')"
    "untouched run run'"
    using parse_frame_modulo [OF block', of tables env k None ?run] by auto
  have "parse_frame_at tables env conn pull (take 9 frame) ?off (length msg - ?off) (min (length msg) (?off + MAX_BYTES)) None run =
      (int (length frame), None, run')"
    unfolding parse_frame_at_def hdr Let_def assms(4)
    using run'(1) flags(3) assms(2,9) data(1) len
    by (simp add: HTTP2_FRAME_HDR_LEN_def violates_block_rules_def is_parsed_frame_def HTTP2_HEADERS_FRAME_def
        HTTP2_CONTINUATION_FRAME_def HTTP2_SETTINGS_FRAME_def)
  then show ?thesis
    using skb_reads [OF assms(8,9) long, of tables env conn l None run] assms(7) run'(2) by auto
qed

theorem h2_long_frame_is_not_read_witness:
  "let payload = repr_bytes demo_field @ replicate 65530 0; frame = frame_bytes HTTP2_HEADERS_FRAME HTTP2_END_HEADERS_FLAG 1 payload;
       run = demo_run\<lparr>run_maps := (run_maps demo_run)\<lparr>mp_infos := [demo_conn \<mapsto> new_table_info]\<rparr>\<rparr>
   in \<exists>run'. parse_skb2 (empty_rodata h2_no_action) demo_env demo_conn (\<lambda>_. Some frame) (take 9 frame) (length frame) 0 None run =
       (65545, None, run') \<and> untouched run run'"
proof -
  let ?payload = "repr_bytes demo_field @ replicate 65530 0"
  let ?frame = "frame_bytes HTTP2_HEADERS_FRAME HTTP2_END_HEADERS_FLAG 1 ?payload"
  let ?run = "demo_run\<lparr>run_maps := (run_maps demo_run)\<lparr>mp_infos := [demo_conn \<mapsto> new_table_info]\<rparr>\<rparr>"
  have len: "length ?payload = 65536 * 1" by (simp add: demo_field_bytes)
  then have size: "length ?frame = 65545" by simp
  have "\<exists>run'. parse_skb2 (empty_rodata h2_no_action) demo_env demo_conn (\<lambda>_. Some ?frame) (take 9 ?frame) (length ?frame) (length ([] :: bytes))
      None ?run = (int (length ?frame), None, run') \<and> untouched ?run run'"
    by (rule h2_long_frame_is_not_read [OF refl _ _ len _ _ _ demo_delivers, where info = new_table_info and rest = "[]"])
      (simp_all add: MAX_BYTES_def)
  then show ?thesis unfolding Let_def size by simp
qed

end
