(* ===== verification/Http2_Isolation.thy ===== *)
theory Http2_Isolation
  imports Http2_Limits
begin

section \<open>Connections do not disturb each other\<close>

text \<open>
  Whatever a peer sends, and whatever the program makes of it, a call of the program on a
  connection writes no key of another connection in either map. The same holds of \<open>forget_conn\<close>.
\<close>

subsection \<open>The table\<close>

definition keeps_others :: "ip4_conn \<Rightarrow> h2_table \<Rightarrow> h2_table \<Rightarrow> bool" where
  "keeps_others conn tb tb' \<longleftrightarrow> (\<forall>key. dtk_conn key \<noteq> conn \<longrightarrow> tb_entries tb' key = tb_entries tb key)"

lemma keeps_others_refl [simp]: "keeps_others conn tb tb"
  by (simp add: keeps_others_def)

lemma keeps_others_trans: "keeps_others conn tb tb1 \<Longrightarrow> keeps_others conn tb1 tb2 \<Longrightarrow> keeps_others conn tb tb2"
  by (simp add: keeps_others_def)

lemma evict_loop_others: "keeps_others conn tb (fst (evict_loop n conn need (tb, freed)))"
proof (induction n arbitrary: tb freed)
  case (Suc n)
  have "keeps_others conn tb (fst (evict_loop n conn need (\<lparr>tb_info = info, tb_entries = (tb_entries tb)(\<lparr>dtk_conn = conn, dtk_idx = i\<rparr> := None)\<rparr>, f)))"
    for info i f
    by (rule keeps_others_trans [OF _ Suc.IH]) (auto simp: keeps_others_def)
  then show ?case by (simp add: Let_def split: option.split)
qed simp

lemma try_evict_others: "keeps_others conn tb (fst (try_evict conn need tb))"
  unfolding try_evict_def by (rule evict_loop_others)

lemma add_entry_others: "keeps_others (mc_conn ctx) tb (snd (add_dynamic_table_entry kern ctx key val tb))"
proof -
  have step: "keeps_others (mc_conn ctx) tb tb'" if "try_evict (mc_conn ctx) need tb = (tb', freed)" for need tb' freed
    using try_evict_others [of "mc_conn ctx" tb need] that by simp
  then show ?thesis
    unfolding add_dynamic_table_entry_def Let_def
    by (auto split: option.split prod.split dest!: step simp: keeps_others_def)
qed

lemma table_size_update_others: "keeps_others conn tb (table_size_update conn v tb)"
  unfolding table_size_update_def
  by (rule keeps_others_trans [OF _ try_evict_others]) (simp add: keeps_others_def)

subsection \<open>The walk\<close>

definition walk_others :: "msg_ctx \<Rightarrow> h2_walk \<Rightarrow> h2_walk \<Rightarrow> bool" where
  "walk_others ctx w w' \<longleftrightarrow> keeps_others (mc_conn ctx) (hw_tb w) (hw_tb w')"

lemma run_index_others: "hw_tb (run_index tables kern ctx w) = hw_tb w"
  by (simp add: run_index_def Let_def split: option.split)

lemma run_value_others: "walk_others ctx w (run_value kern ctx v w)"
  by (simp add: walk_others_def run_value_def Let_def add_entry_others)

lemma h2_run_action_others: "walk_others ctx w (snd (h2_run_action tables kern ctx w))"
  using run_value_others [of ctx w kern] table_size_update_others [of "mc_conn ctx" "hw_tb w"]
  by (simp add: h2_run_action_def Let_def walk_others_def run_index_others)

lemma parse_hdr_byte_others: "walk_others ctx w (snd (parse_hdr_byte tables kern ctx c w))"
proof -
  have "walk_others ctx w (snd (h2_run_action tables kern ctx (w\<lparr>hw_ps := ps\<rparr>)))" for ps
    using h2_run_action_others [of ctx "w\<lparr>hw_ps := ps\<rparr>" tables kern] by (simp add: walk_others_def)
  then show ?thesis by (simp add: parse_hdr_byte_def Let_def split: prod.split) (simp add: walk_others_def)
qed

lemma byte_others:
  assumes "parse_hdr_byte tables kern ctx c (w\<lparr>hw_ps := ps\<rparr>) = (err, w')"
  shows "walk_others ctx w w'"
  using parse_hdr_byte_others [of ctx "w\<lparr>hw_ps := ps\<rparr>" tables kern c] assms by (simp add: walk_others_def)

lemma walk_others_trans: "walk_others ctx w w1 \<Longrightarrow> walk_others ctx w1 w2 \<Longrightarrow> walk_others ctx w w2"
  unfolding walk_others_def by (rule keeps_others_trans)

lemma hdr_loop_others: "hdr_loop tables kern ctx i cs res np w = (res', np', w') \<Longrightarrow> walk_others ctx w w'"
proof (induction cs arbitrary: i res np w)
  case Nil
  then show ?case by (simp add: walk_others_def)
next
  case (Cons c cs)
  then show ?case by (auto split: if_splits prod.splits dest!: byte_others intro: walk_others_trans)
qed

lemma buf_loop_others: "buf_loop tables kern ctx i cs w = (res, w') \<Longrightarrow> walk_others ctx w w'"
proof (induction cs arbitrary: i w)
  case Nil
  then show ?case by (simp add: walk_others_def)
next
  case (Cons c cs)
  then show ?case by (auto split: if_splits prod.splits dest!: byte_others intro: walk_others_trans)
qed

subsection \<open>The frames\<close>

text \<open>What every call keeps: the other connections, and that the buffer of the CPU is there.\<close>

definition call_keeps :: "ip4_conn \<Rightarrow> h2_maps \<Rightarrow> h2_maps \<Rightarrow> bool" where
  "call_keeps conn maps maps' \<longleftrightarrow> others_kept conn maps maps' \<and> (mp_block maps \<noteq> None \<longrightarrow> mp_block maps' \<noteq> None)"

lemma call_keeps_refl [simp]: "call_keeps conn maps maps"
  by (simp add: call_keeps_def others_kept_def)

lemma call_keeps_trans: "call_keeps conn maps maps1 \<Longrightarrow> call_keeps conn maps1 maps2 \<Longrightarrow> call_keeps conn maps maps2"
  by (simp add: call_keeps_def others_kept_def)

lemma get_dynamic_table_keeps: "get_dynamic_table env conn maps = (info, maps') \<Longrightarrow> call_keeps conn maps maps'"
  by (auto simp: get_dynamic_table_def call_keeps_def others_kept_def split: option.splits if_splits)

lemma end_walk_keeps:
  assumes "walk_others ctx (start_walk src info run) w" and "mc_conn ctx = conn"
  shows "call_keeps conn (run_maps run) (run_maps (end_walk conn w run))"
  using assms by (auto simp: call_keeps_def others_kept_def end_walk_def put_table_def walk_others_def start_walk_def keeps_others_def)

lemma parse_hdr_frame_keeps:
  assumes "parse_hdr_frame tables env ctx start stop np run = (res, np', run')"
  shows "call_keeps (mc_conn ctx) (run_maps run) (run_maps run')"
proof -
  obtain info maps where t: "get_dynamic_table env (mc_conn ctx) (run_maps run) = (info, maps)" by fastforce
  note keep = get_dynamic_table_keeps [OF t]
  show ?thesis
  proof (cases info)
    case None
    with assms t keep show ?thesis by (auto simp: parse_hdr_frame_def)
  next
    case (Some i)
    let ?run = "run\<lparr>run_maps := maps\<rparr>"
    obtain res1 np1 w where w: "parse_hdr_from tables (kernel_of env maps) ctx start stop np (start_walk HTTP_SRC_MSG i ?run) = (res1, np1, w)"
      by (metis prod_cases3)
    then have "walk_others ctx (start_walk HTTP_SRC_MSG i ?run) w" unfolding parse_hdr_from_def by (rule hdr_loop_others)
    then have "call_keeps (mc_conn ctx) maps (run_maps (end_walk (mc_conn ctx) w ?run))" using end_walk_keeps by fastforce
    with assms t keep w Some show ?thesis by (auto simp: parse_hdr_frame_def Let_def intro: call_keeps_trans)
  qed
qed

lemma parse_stg_from_keeps:
  assumes "parse_stg_from env ctx start stop np run = (res, np', run')"
  shows "call_keeps (mc_conn ctx) (run_maps run) (run_maps run')"
  using assms
  by (auto simp: parse_stg_from_def split: if_splits option.splits prod.splits dest!: get_dynamic_table_keeps)
    (auto simp: call_keeps_def others_kept_def)

lemma parse_frame_keeps:
  assumes "parse_frame tables env ctx off len ty flags np run = (res, np', run')"
  shows "call_keeps (mc_conn ctx) (run_maps run) (run_maps run')"
proof (cases "MAX_BYTES < off \<or> (case http2_block (drop off (mc_data ctx)) len ty flags of Inl _ \<Rightarrow> True
    | Inr (_, stop) \<Rightarrow> MAX_BYTES < off + unat stop)")
  case True
  with assms show ?thesis by (auto simp: parse_frame_def split: sum.splits if_splits)
next
  case False
  then obtain start stop where b: "http2_block (drop off (mc_data ctx)) len ty flags = Inr (start, stop)"
    and ok: "\<not> MAX_BYTES < off" "\<not> MAX_BYTES < off + unat stop" by (auto split: sum.splits)
  obtain info maps where t: "get_dynamic_table env (mc_conn ctx) (run_maps run) = (info, maps)" by fastforce
  let ?start = "unat (start + word_of_nat off)" and ?stop = "unat (stop + word_of_nat off)"
  let ?run = "run\<lparr>run_maps := maps, run_frame := (run_frame run)\<lparr>fr_dt_count_before := table_count (mc_conn ctx) maps\<rparr>\<rparr>"
  let ?r = "if ty = HTTP2_SETTINGS_FRAME then parse_stg_from env ctx ?start ?stop np ?run
    else parse_hdr_frame tables env ctx ?start ?stop np ?run"
  obtain res1 np1 run1 where r: "?r = (res1, np1, run1)" by (cases ?r) fastforce
  then have "call_keeps (mc_conn ctx) (run_maps ?run) (run_maps run1)"
    using parse_stg_from_keeps parse_hdr_frame_keeps by metis
  moreover have "run_maps run' = run_maps run1"
    using assms unfolding parse_frame_def ok [THEN if_not_P] b sum.case prod.case Let_def t r by auto
  ultimately show ?thesis using get_dynamic_table_keeps [OF t] by (auto intro: call_keeps_trans)
qed

lemma parse_block_keeps:
  assumes "parse_block tables env ctx off run = (res, run')"
  shows "call_keeps (mc_conn ctx) (run_maps run) (run_maps run')"
proof -
  obtain whole blk buf where c: "collect_block (kernel_of env (run_maps run)) ctx off = (whole, blk, buf)" by (metis prod_cases3)
  then have "mp_block (run_maps run) \<noteq> None \<Longrightarrow> buf \<noteq> None"
    by (auto simp: collect_block_def split: option.splits prod.splits)
  then have keep: "call_keeps (mc_conn ctx) (run_maps run) ((run_maps run)\<lparr>mp_block := buf\<rparr>)"
    by (simp add: call_keeps_def others_kept_def)
  let ?run = "run\<lparr>run_maps := (run_maps run)\<lparr>mp_block := buf\<rparr>\<rparr>"
  show ?thesis
  proof (cases "whole < 0")
    case True
    with assms c keep show ?thesis by (auto simp: parse_block_def Let_def split: if_splits)
  next
    case False
    obtain info maps where t: "get_dynamic_table env (mc_conn ctx) (run_maps ?run) = (info, maps)" by fastforce
    have keep1: "call_keeps (mc_conn ctx) (run_maps run) maps"
      using get_dynamic_table_keeps [OF t] keep by (auto intro: call_keeps_trans)
    show ?thesis
    proof (cases info)
      case None
      with assms c False t keep1 show ?thesis by (auto simp: parse_block_def)
    next
      case (Some i)
      let ?run2 = "?run\<lparr>run_maps := maps, run_frame := (run_frame ?run)\<lparr>fr_dt_count_before := dt_count i\<rparr>\<rparr>"
      obtain res1 w where w: "parse_hdr_buf tables (kernel_of env maps) ctx (blk_len blk) (start_walk HTTP_SRC_BUF i ?run2) = (res1, w)"
        by fastforce
      then have "walk_others ctx (start_walk HTTP_SRC_BUF i ?run2) w"
        by (auto simp: parse_hdr_buf_def walk_others_def split: option.splits dest: buf_loop_others [unfolded walk_others_def])
      then have "call_keeps (mc_conn ctx) maps (run_maps (end_walk (mc_conn ctx) w ?run2))" using end_walk_keeps by fastforce
      moreover have "run_maps run' = run_maps (end_walk (mc_conn ctx) w ?run2)"
        using assms c False t w Some by (auto simp: parse_block_def Let_def)
      ultimately show ?thesis using keep1 call_keeps_trans by simp
    qed
  qed
qed

lemma parse_frame_at_keeps:
  assumes "parse_frame_at tables env conn pull hdr off sz pulled np run = (res, np', run')"
  shows "call_keeps conn (run_maps run) (run_maps run')"
proof -
  have same: "call_keeps conn (run_maps run) (run_maps run')"
    if "run_maps run' = run_maps run" using that by simp
  have frame: "call_keeps conn (run_maps run) (run_maps r)"
    if "parse_frame tables env \<lparr>mc_data = data, mc_conn = conn\<rparr> off len ty flags np (run\<lparr>run_frame := fr\<rparr>) = (err, np1, r)"
    for data len ty flags fr err np1 r
    using parse_frame_keeps [OF that] by simp
  have block: "call_keeps conn (run_maps run) (run_maps r)"
    if "parse_block tables env \<lparr>mc_data = data, mc_conn = conn\<rparr> off (run\<lparr>run_frame := fr\<rparr>) = (err, r)" for data fr err r
    using parse_block_keeps [OF that] by simp
  from assms show ?thesis
    unfolding parse_frame_at_def Let_def
    by (auto simp: reject_frame_def need_more_def skip_frame_def Let_def split: if_splits option.splits prod.splits dest: frame block)
qed

lemma parse_skb_keeps:
  "parse_skb2 tables env conn pull linear skb_len off np run = (res, np', run') \<Longrightarrow> call_keeps conn (run_maps run) (run_maps run')"
  by (auto simp: parse_skb2_def split: if_splits option.splits dest: parse_frame_at_keeps)

lemma parse_msg_keeps:
  "parse_msg2 tables env conn pull linear sz run = (res, run') \<Longrightarrow> call_keeps conn (run_maps run) (run_maps run')"
  by (auto simp: parse_msg2_def split: if_splits prod.splits dest: parse_frame_at_keeps)

subsection \<open>Connections that are removed\<close>

lemma forget_conn_others:
  assumes "map_laws he gete" and "dtk_conn key \<noteq> conn"
    and "forget_conn hi he from_bytes be local remote (mi, me) =
      (Inr (Inr (mi', me')) :: 'a panic + (('enc, 'bpf, 'plain) beeper_error + 'i \<times> 'e))"
    and "conn_of be local remote = (Inr conn :: 'a panic + ip4_conn)"
  shows "gete me' key = gete me key"
proof -
  have "me' = me \<or> (\<exists>info. fold_res (\<lambda>idx. delete_if_present he \<lparr>dtk_conn = conn, dtk_idx = idx\<rparr>) (entry_indices info) me =
      (Inr me' :: ('enc, 'bpf, 'plain) beeper_error + 'e))"
    using assms(3,4) by (auto simp: forget_conn_def res_simps split: sum.splits option.splits)
  then show ?thesis using assms(2) delete_all_Inr [OF _ assms(1)] by fastforce
qed

section \<open>The property\<close>

text \<open>
  C24: whatever bytes arrive on a connection, whatever the tables of
  the parser hold, and whatever the call returns, an error or a length, no key of another connection
  is written, neither its state nor an entry of its table, by either program.
\<close>

theorem h2_calls_keep_other_connections:
  "(case parse_skb2 tables env conn pull linear skb_len off null_prefix run of
      (_, _, run') \<Rightarrow> others_kept conn (run_maps run) (run_maps run')) \<and>
   (case parse_msg2 tables env conn pull linear sz run of (_, run') \<Rightarrow> others_kept conn (run_maps run) (run_maps run'))"
  using parse_skb_keeps [of tables env conn pull linear skb_len off null_prefix run]
    parse_msg_keeps [of tables env conn pull linear sz run]
  by (simp add: call_keeps_def split: prod.split)

end
