(* ===== verification/Http2_Huffman.thy ===== *)
theory Http2_Huffman
  imports Http2_Table
begin

section \<open>The Huffman code of RFC 7541\<close>

text \<open>
  The code of appendix B of RFC 7541 and the coding of strings (section 5.2), written from the RFC
  and independent of the program, which never decodes: it only counts the symbols of a coded
  string. It counts right, and an entry is sized by the decoded lengths of its name and value.
\<close>

subsection \<open>The code\<close>

text \<open>The code words of the 256 octets with their lengths in bits.\<close>

definition huffman_table :: "(u32 \<times> nat) list" where
  "huffman_table = [
     (0x1ff8, 13), (0x7fffd8, 23), (0xfffffe2, 28), (0xfffffe3, 28), (0xfffffe4, 28), (0xfffffe5, 28), (0xfffffe6, 28), (0xfffffe7, 28),
     (0xfffffe8, 28), (0xffffea, 24), (0x3ffffffc, 30), (0xfffffe9, 28), (0xfffffea, 28), (0x3ffffffd, 30), (0xfffffeb, 28), (0xfffffec, 28),
     (0xfffffed, 28), (0xfffffee, 28), (0xfffffef, 28), (0xffffff0, 28), (0xffffff1, 28), (0xffffff2, 28), (0x3ffffffe, 30), (0xffffff3, 28),
     (0xffffff4, 28), (0xffffff5, 28), (0xffffff6, 28), (0xffffff7, 28), (0xffffff8, 28), (0xffffff9, 28), (0xffffffa, 28), (0xffffffb, 28),
     (0x14, 6), (0x3f8, 10), (0x3f9, 10), (0xffa, 12), (0x1ff9, 13), (0x15, 6), (0xf8, 8), (0x7fa, 11),
     (0x3fa, 10), (0x3fb, 10), (0xf9, 8), (0x7fb, 11), (0xfa, 8), (0x16, 6), (0x17, 6), (0x18, 6),
     (0x0, 5), (0x1, 5), (0x2, 5), (0x19, 6), (0x1a, 6), (0x1b, 6), (0x1c, 6), (0x1d, 6),
     (0x1e, 6), (0x1f, 6), (0x5c, 7), (0xfb, 8), (0x7ffc, 15), (0x20, 6), (0xffb, 12), (0x3fc, 10),
     (0x1ffa, 13), (0x21, 6), (0x5d, 7), (0x5e, 7), (0x5f, 7), (0x60, 7), (0x61, 7), (0x62, 7),
     (0x63, 7), (0x64, 7), (0x65, 7), (0x66, 7), (0x67, 7), (0x68, 7), (0x69, 7), (0x6a, 7),
     (0x6b, 7), (0x6c, 7), (0x6d, 7), (0x6e, 7), (0x6f, 7), (0x70, 7), (0x71, 7), (0x72, 7),
     (0xfc, 8), (0x73, 7), (0xfd, 8), (0x1ffb, 13), (0x7fff0, 19), (0x1ffc, 13), (0x3ffc, 14), (0x22, 6),
     (0x7ffd, 15), (0x3, 5), (0x23, 6), (0x4, 5), (0x24, 6), (0x5, 5), (0x25, 6), (0x26, 6),
     (0x27, 6), (0x6, 5), (0x74, 7), (0x75, 7), (0x28, 6), (0x29, 6), (0x2a, 6), (0x7, 5),
     (0x2b, 6), (0x76, 7), (0x2c, 6), (0x8, 5), (0x9, 5), (0x2d, 6), (0x77, 7), (0x78, 7),
     (0x79, 7), (0x7a, 7), (0x7b, 7), (0x7ffe, 15), (0x7fc, 11), (0x3ffd, 14), (0x1ffd, 13), (0xffffffc, 28),
     (0xfffe6, 20), (0x3fffd2, 22), (0xfffe7, 20), (0xfffe8, 20), (0x3fffd3, 22), (0x3fffd4, 22), (0x3fffd5, 22), (0x7fffd9, 23),
     (0x3fffd6, 22), (0x7fffda, 23), (0x7fffdb, 23), (0x7fffdc, 23), (0x7fffdd, 23), (0x7fffde, 23), (0xffffeb, 24), (0x7fffdf, 23),
     (0xffffec, 24), (0xffffed, 24), (0x3fffd7, 22), (0x7fffe0, 23), (0xffffee, 24), (0x7fffe1, 23), (0x7fffe2, 23), (0x7fffe3, 23),
     (0x7fffe4, 23), (0x1fffdc, 21), (0x3fffd8, 22), (0x7fffe5, 23), (0x3fffd9, 22), (0x7fffe6, 23), (0x7fffe7, 23), (0xffffef, 24),
     (0x3fffda, 22), (0x1fffdd, 21), (0xfffe9, 20), (0x3fffdb, 22), (0x3fffdc, 22), (0x7fffe8, 23), (0x7fffe9, 23), (0x1fffde, 21),
     (0x7fffea, 23), (0x3fffdd, 22), (0x3fffde, 22), (0xfffff0, 24), (0x1fffdf, 21), (0x3fffdf, 22), (0x7fffeb, 23), (0x7fffec, 23),
     (0x1fffe0, 21), (0x1fffe1, 21), (0x3fffe0, 22), (0x1fffe2, 21), (0x7fffed, 23), (0x3fffe1, 22), (0x7fffee, 23), (0x7fffef, 23),
     (0xfffea, 20), (0x3fffe2, 22), (0x3fffe3, 22), (0x3fffe4, 22), (0x7ffff0, 23), (0x3fffe5, 22), (0x3fffe6, 22), (0x7ffff1, 23),
     (0x3ffffe0, 26), (0x3ffffe1, 26), (0xfffeb, 20), (0x7fff1, 19), (0x3fffe7, 22), (0x7ffff2, 23), (0x3fffe8, 22), (0x1ffffec, 25),
     (0x3ffffe2, 26), (0x3ffffe3, 26), (0x3ffffe4, 26), (0x7ffffde, 27), (0x7ffffdf, 27), (0x3ffffe5, 26), (0xfffff1, 24), (0x1ffffed, 25),
     (0x7fff2, 19), (0x1fffe3, 21), (0x3ffffe6, 26), (0x7ffffe0, 27), (0x7ffffe1, 27), (0x3ffffe7, 26), (0x7ffffe2, 27), (0xfffff2, 24),
     (0x1fffe4, 21), (0x1fffe5, 21), (0x3ffffe8, 26), (0x3ffffe9, 26), (0xffffffd, 28), (0x7ffffe3, 27), (0x7ffffe4, 27), (0x7ffffe5, 27),
     (0xfffec, 20), (0xfffff3, 24), (0xfffed, 20), (0x1fffe6, 21), (0x3fffe9, 22), (0x1fffe7, 21), (0x1fffe8, 21), (0x7ffff3, 23),
     (0x3fffea, 22), (0x3fffeb, 22), (0x1ffffee, 25), (0x1ffffef, 25), (0xfffff4, 24), (0xfffff5, 24), (0x3ffffea, 26), (0x7ffff4, 23),
     (0x3ffffeb, 26), (0x7ffffe6, 27), (0x3ffffec, 26), (0x3ffffed, 26), (0x7ffffe7, 27), (0x7ffffe8, 27), (0x7ffffe9, 27), (0x7ffffea, 27),
     (0x7ffffeb, 27), (0xffffffe, 28), (0x7ffffec, 27), (0x7ffffed, 27), (0x7ffffee, 27), (0x7ffffef, 27), (0x7fffff0, 27), (0x3ffffee, 26)]"

text \<open>The bits of a code word and of an octet, the most significant one first.\<close>

definition code_word :: "u32 \<times> nat \<Rightarrow> bool list" where
  "code_word = (\<lambda>(code, len). map (bit code) (rev [0..<len]))"

definition code_bits :: "u8 \<Rightarrow> bool list" where
  "code_bits c = code_word (huffman_table ! unat c)"

definition octet_bits :: "u8 \<Rightarrow> bool list" where
  "octet_bits c = map (bit c) [7, 6, 5, 4, 3, 2, 1, 0]"

definition octet_of :: "bool list \<Rightarrow> u8" where
  "octet_of bs = horner_sum of_bool 2 (rev bs)"

text \<open>Bits as octets; the last octet is filled up with ones.\<close>

fun octets_of :: "bool list \<Rightarrow> bytes" where
  "octets_of [] = []"
| "octets_of (b # bs) = octet_of (take 8 (b # bs) @ replicate (7 - length bs) True) # octets_of (drop 7 bs)"

definition huffman_encode :: "bytes \<Rightarrow> bytes" where
  "huffman_encode octets = octets_of (concat (map code_bits octets))"

subsection \<open>Counting symbols\<close>

text \<open>The counter of the program, bit by bit.\<close>

definition huff_bit :: "bool \<Rightarrow> u32 \<times> nat \<times> u32 \<Rightarrow> u32 \<times> nat \<times> u32" where
  "huff_bit b = (\<lambda>(code, len, n).
     let code = push_bit 1 code OR of_bool b; len = len + 1 in
     if 30 < len then (0, 0, n)
     else let rel = code - huff_first_code ! len in
       if rel < huff_count ! len then (0, 0, n + 1) else (code, len, n))"

lemma huff_step_bit: "huff_step c k = huff_bit (bit c k)"
proof -
  have "ucast (drop_bit k c) AND 1 = (of_bool (bit c k) :: u32)"
    by (rule bit_word_eqI) (auto simp: bit_simps)
  then show ?thesis by (simp add: huff_step_def huff_bit_def)
qed

lemma huff_fold_bits:
  "fold (\<lambda>c. fold (huff_step c) [7, 6, 5, 4, 3, 2, 1, 0]) cs st = fold huff_bit (concat (map octet_bits cs)) st"
  by (induction cs arbitrary: st) (simp_all add: octet_bits_def huff_step_bit)

lemma octet_bits_of:
  assumes "length bs = 8"
  shows "octet_bits (octet_of bs) = bs"
proof (rule nth_equalityI)
  show "length (octet_bits (octet_of bs)) = length bs" using assms by (simp add: octet_bits_def)
  fix i
  assume "i < length (octet_bits (octet_of bs))"
  then have i: "i < 8" by (simp add: octet_bits_def)
  then have "octet_bits (octet_of bs) ! i = bit (octet_of bs) (7 - i)"
    by (auto simp: octet_bits_def less_Suc_eq numeral_eq_Suc)
  also have "\<dots> = bs ! i" using i assms by (auto simp: octet_of_def bit_horner_sum_bit_word_iff rev_nth)
  finally show "octet_bits (octet_of bs) ! i = bs ! i" .
qed

lemma octets_of_bits: "\<exists>k < 8. concat (map octet_bits (octets_of bs)) = bs @ replicate k True"
proof (induction bs rule: octets_of.induct)
  case (2 b bs)
  let ?bs = "take 8 (b # bs) @ replicate (7 - length bs) True"
  have "length ?bs = 8" by simp
  note bits = octet_bits_of [OF this]
  from 2 obtain k where k: "k < 8" "concat (map octet_bits (octets_of (drop 7 bs))) = drop 7 bs @ replicate k True" by blast
  show ?case
  proof (cases "7 \<le> length bs")
    case True
    then have "?bs @ drop 7 bs = b # bs" by simp
    with k bits show ?thesis by (intro exI [of _ k]) simp
  next
    case False
    then have "octets_of (drop 7 bs) = []" by simp
    with False bits show ?thesis by (intro exI [of _ "7 - length bs"]) simp
  qed
qed simp

text \<open>
  The code words of a length are consecutive numbers, and what the longer ones start with comes
  after them, so the counter sees the end of a word when it is there, and not before.
\<close>

definition coded_lens :: "nat list" where
  "coded_lens = [5, 6, 7, 8, 10, 11, 12, 13, 14, 15, 19, 20, 21, 22, 23, 24, 25, 26, 27, 28, 30]"

lemma code_ranges: "list_all (\<lambda>(code, len). List.member coded_lens len \<and> drop_bit len code = 0 \<and>
    huff_first_code ! len \<le> code \<and> code - huff_first_code ! len < huff_count ! len) huffman_table"
  by code_simp

lemma code_lens: "list_all (\<lambda>len. list_all (\<lambda>j. let first = huff_first_code ! j; end = first + huff_count ! j in
    first \<le> end \<and> end \<le> drop_bit (len - j) (huff_first_code ! len)) [1..<len]) coded_lens"
  by code_simp

lemma huff_bit_step:
  assumes "c = push_bit 1 code OR of_bool b" and "l < 30"
  shows "\<not> c - huff_first_code ! Suc l < huff_count ! Suc l \<Longrightarrow> huff_bit b (code, l, n) = (c, Suc l, n)"
    and "c - huff_first_code ! Suc l < huff_count ! Suc l \<Longrightarrow> huff_bit b (code, l, n) = (0, 0, n + 1)"
  using assms(2) unfolding assms(1) huff_bit_def by (simp_all del: push_bit_Suc)

lemma drop_bit_mono: "a \<le> b \<Longrightarrow> drop_bit k a \<le> drop_bit k (b :: u32)"
  unfolding word_le_nat_alt unat_drop_bit_eq by (simp add: drop_bit_eq_div div_le_mono)

lemma push_next_bit: "push_bit 1 (drop_bit (Suc k) code) OR of_bool (bit code k) = drop_bit k (code :: u32)" (is "?l = ?r")
proof (rule bit_word_eqI)
  fix m
  assume "m < LENGTH(32)"
  then show "bit ?l m = bit ?r m" by (cases m) (auto simp: bit_simps simp del: push_bit_Suc)
qed

lemma code_prefix:
  assumes "(code, len) \<in> set huffman_table" and "0 < k" and "k \<le> len"
  shows "fold huff_bit (map (bit code) (rev [k..<len])) (0, 0, n) = (drop_bit k code, len - k, n)"
  using assms(3,2)
proof (induction k rule: inc_induct)
  case base
  then show ?case using code_ranges assms(1) by (auto simp: list_all_iff)
next
  case (step k)
  have range: "len \<in> set coded_lens" "huff_first_code ! len \<le> code" using code_ranges assms(1) by (auto simp: list_all_iff)
  let ?j = "len - k"
  have j: "?j \<in> set [1..<len]" "len - ?j = k" "len \<le> 30" using step.hyps(2) step.prems range(1) by (auto simp: coded_lens_def)
  then have "huff_first_code ! ?j \<le> huff_first_code ! ?j + huff_count ! ?j"
    and "huff_first_code ! ?j + huff_count ! ?j \<le> drop_bit k (huff_first_code ! len)"
    using code_lens [unfolded list_all_iff Let_def, rule_format, OF range(1) j(1)] unfolding j(2) by blast+
  moreover have "drop_bit k (huff_first_code ! len) \<le> drop_bit k code" using range(2) by (rule drop_bit_mono)
  ultimately have "\<not> drop_bit k code - huff_first_code ! ?j < huff_count ! ?j" by uint_arith
  moreover have "Suc (len - Suc k) = ?j" using step.hyps(2) by simp
  moreover have "rev [k..<len] = rev [Suc k..<len] @ [k]" using step.hyps(2) by (simp add: upt_conv_Cons)
  ultimately show ?case
    using step.IH huff_bit_step(1) [OF push_next_bit [symmetric], of "len - Suc k" k code n] j(3) step.prems by simp
qed

lemma code_counted:
  assumes "(code, len) \<in> set huffman_table"
  shows "fold huff_bit (code_word (code, len)) (0, 0, n) = (0, 0, n + 1)"
proof -
  have range: "len \<in> set coded_lens" "code - huff_first_code ! len < huff_count ! len"
    using code_ranges assms by (auto simp: list_all_iff)
  then obtain l where l: "len = Suc l" "l \<le> 29" by (cases len) (auto simp: coded_lens_def)
  have "rev [0..<len] = rev [1..<len] @ [0]" using l by (simp add: upt_conv_Cons)
  then show ?thesis
    using code_prefix [OF assms, of 1 n] huff_bit_step(2) [OF push_next_bit [symmetric], of l 0 code n] range(2) l
    by (simp add: code_word_def)
qed

lemma ones_uncounted: "list_all (\<lambda>k. \<not> mask (Suc k) - huff_first_code ! Suc k < huff_count ! Suc k) [0..<7]"
  by code_simp

lemma padding_uncounted: "k < 8 \<Longrightarrow> fold huff_bit (replicate k True) (0, 0, n) = (mask k, k, n)"
proof (induction k)
  case (Suc k)
  have "mask (Suc k) = push_bit 1 (mask k) OR (of_bool True :: u32)" by (simp add: mask_Suc_double or.commute mult.commute)
  moreover have "\<not> mask (Suc k) - huff_first_code ! Suc k < huff_count ! Suc k"
    using ones_uncounted Suc.prems by (simp add: list_all_iff del: mask_Suc_double)
  ultimately have "huff_bit True (mask k, k, n) = (mask (Suc k), Suc k, n)" using Suc.prems by (intro huff_bit_step(1)) simp_all
  moreover have "replicate (Suc k) True = replicate k True @ [True]" by (simp add: replicate_append_same)
  ultimately show ?case using Suc by (simp del: replicate_Suc fold_replicate)
qed simp

lemma huffman_table_length [simp]: "length huffman_table = 256"
  by (simp add: huffman_table_def)

lemma huffman_encode_Nil [simp]: "huffman_encode [] = []"
  by (simp add: huffman_encode_def)

text \<open>No octet takes more than four octets.\<close>

lemma huffman_encode_length: "length (huffman_encode octets) \<le> 4 * length octets"
proof -
  have "length (code_bits c) \<le> 30" for c
  proof -
    have "huffman_table ! unat c \<in> set huffman_table" using unsigned_less [of c, where ?'a = nat] by simp
    moreover have "len \<in> set coded_lens \<Longrightarrow> len \<le> 30" for len by (auto simp: coded_lens_def)
    ultimately show ?thesis using code_ranges by (fastforce simp: list_all_iff code_bits_def code_word_def split: prod.split)
  qed
  then have "length (concat (map code_bits octets)) \<le> 30 * length octets"
    by (induction octets) (simp, metis add_le_mono concat.simps(2) length_append list.map(2) length_Cons mult_Suc_right)
  moreover obtain k where "k < 8" "concat (map octet_bits (huffman_encode octets)) = concat (map code_bits octets) @ replicate k True"
    using octets_of_bits unfolding huffman_encode_def by blast
  then have "length (concat (map octet_bits (huffman_encode octets))) < length (concat (map code_bits octets)) + 8" by simp
  moreover have "length (concat (map octet_bits cs)) = 8 * length cs" for cs by (induction cs) (simp_all add: octet_bits_def)
  ultimately show ?thesis by simp
qed

lemma text_counted: "fold huff_bit (concat (map code_bits octets)) (0, 0, n) = (0, 0, n + word_of_nat (length octets))"
proof (induction octets arbitrary: n)
  case (Cons c octets)
  have "huffman_table ! unat c \<in> set huffman_table" using unsigned_less [of c, where ?'a = nat] by simp
  then have "fold huff_bit (code_bits c) (0, 0, n) = (0, 0, n + 1)"
    using code_counted by (metis code_bits_def surj_pair)
  with Cons show ?case by (simp add: add.assoc)
qed simp

text \<open>The program counts the octets of the text.\<close>

lemma decoded_len_encoded:
  assumes "take (min (unat len) HEADER_FIELD_MAXLEN) (if is_val then hf_val hf else hf_key hf) = huffman_encode octets"
  shows "hpack_huffman_decoded_len hf is_val len = word_of_nat (length octets)"
proof -
  obtain k where "k < 8" "concat (map octet_bits (huffman_encode octets)) = concat (map code_bits octets) @ replicate k True"
    using octets_of_bits unfolding huffman_encode_def by blast
  with padding_uncounted [of k] assms show ?thesis
    unfolding hpack_huffman_decoded_len_def Let_def assms huff_fold_bits by (simp add: text_counted split_def)
qed

end
