(* ===== verification/Http2_Mirror.thy ===== *)
theory Http2_Mirror
  imports Http2_Huffman
begin

section \<open>The dynamic table of RFC 7541, over the texts of its fields\<close>

text \<open>
  A table of RFC 7541 as its sections 2.3.2 and 4 define it: fields are pairs of texts, sized by
  the lengths of the texts, whatever form they were sent in. Nothing here refers to the entries of
  the program. What the program keeps of a field is a relation between a text and the octets of an
  entry, and the maps of the kernel mirror a table if they hold an entry for each of its fields.
\<close>

subsection \<open>Tables of fields\<close>

type_synonym header_field = "bytes \<times> bytes"

definition field_size :: "header_field \<Rightarrow> nat" where
  "field_size = (\<lambda>(name, val). length name + length val + 32)"

definition fields_size :: "header_field list \<Rightarrow> nat" where
  "fields_size fs = (\<Sum>f \<leftarrow> fs. field_size f)"

text \<open>The oldest field comes first; it is the first one to be evicted.\<close>

fun evict_fields :: "nat \<Rightarrow> nat \<Rightarrow> header_field list \<Rightarrow> header_field list" where
  "evict_fields max_size need [] = []"
| "evict_fields max_size need (f # fs) =
     (if fields_size (f # fs) + need \<le> max_size then f # fs else evict_fields max_size need fs)"

definition add_field :: "nat \<Rightarrow> header_field \<Rightarrow> header_field list \<Rightarrow> header_field list" where
  "add_field max_size f fs =
     (if field_size f \<le> max_size then evict_fields max_size (field_size f) fs @ [f] else [])"

subsection \<open>What an entry keeps of a field\<close>

text \<open>
  A text that was sent Huffman coded is kept whole in its coded form, one that was sent plain is
  kept up to the 128 octets an entry has room for.
\<close>

definition text_kept :: "bytes \<Rightarrow> bytes \<Rightarrow> u8 \<Rightarrow> bool \<Rightarrow> bool" where
  "text_kept octets src len huff \<longleftrightarrow>
     (if huff then unat len = length (huffman_encode octets) \<and> unat len \<le> 128 \<and> take (unat len) src = huffman_encode octets
      else unat len = min 128 (length octets) \<and> take (unat len) src = take 128 octets)"

definition field_kept :: "header_field \<Rightarrow> http2_hdr_field \<Rightarrow> bool" where
  "field_kept = (\<lambda>(name, val) hf. text_kept name (hf_key hf) (hf_key_len hf) (hf_key_huff hf \<noteq> 0) \<and>
     text_kept val (hf_val hf) (hf_val_len hf) (hf_val_huff hf \<noteq> 0))"

definition keeps :: "header_field \<Rightarrow> dynamic_table_entry \<Rightarrow> bool" where
  "keeps f e \<longleftrightarrow> field_kept f (dte_field e) \<and> unat (dte_size e) = field_size f"

text \<open>The maps mirror the table \<open>fs\<close> of a connection.\<close>

definition mirrors :: "ip4_conn \<Rightarrow> h2_table \<Rightarrow> header_field list \<Rightarrow> bool" where
  "mirrors conn tb fs \<longleftrightarrow> (\<exists>es. holds conn tb es \<and> list_all2 keeps fs es)"

lemma kept_size: "list_all2 keeps fs es \<Longrightarrow> table_size es = fields_size fs"
  by (induction rule: list_all2_induct) (simp_all add: fields_size_def keeps_def)

lemma kept_evict: "list_all2 keeps fs es \<Longrightarrow> list_all2 keeps (evict_fields m need fs) (rfc_evict m need es)"
proof (induction rule: list_all2_induct)
  case (Cons f fs e es)
  then have "list_all2 keeps (f # fs) (e # es)" by simp
  with Cons kept_size [OF this] show ?case by simp
qed simp

lemma kept_add:
  assumes "list_all2 keeps fs es" and "keeps f e"
  shows "list_all2 keeps (add_field m f fs) (rfc_add m e es)"
proof -
  have "unat (dte_size e) = field_size f" using assms(2) by (simp add: keeps_def)
  with assms kept_evict show ?thesis by (auto simp: add_field_def rfc_add_def intro: list_all2_appendI)
qed

lemma kept_nth:
  "list_all2 keeps fs es \<Longrightarrow> i < length fs \<Longrightarrow> field_kept (rev fs ! i) (dte_field (rev es ! i))"
  using list_all2_nthD [of keeps "rev fs" "rev es" i] by (simp add: keeps_def)

subsection \<open>The entry of a field\<close>

text \<open>The octets a name or a value is given as, with their length, are the text in one of its forms.\<close>

definition sent :: "bytes \<Rightarrow> bytes \<times> u32 \<times> bool \<Rightarrow> bool" where
  "sent octets = (\<lambda>(src, len, huff).
     if huff then unat len = length (huffman_encode octets) \<and> unat len \<le> 128 \<and> take (unat len) src = huffman_encode octets
     else unat len = length octets \<and> take (unat len) src = octets)"

lemma sent_not_cut: "sent octets k \<Longrightarrow> \<not> cut_off k"
  by (cases k) (auto simp: sent_def cut_off_def HEADER_FIELD_MAXLEN_def split: if_splits)

text \<open>A name or a value in the scratch space, and its length as the table counts it.\<close>

lemma sent_kept:
  assumes "sent octets (src, len, huff)"
  shows "text_kept octets (resize 128 (take (clamp_len len) src)) (word_of_nat (clamp_len len)) huff"
proof -
  have "clamp_len len \<le> 128" by (simp add: clamp_len_def HEADER_FIELD_MAXLEN_def)
  then have u: "unat (word_of_nat (clamp_len len) :: u8) = clamp_len len" by (simp add: unsigned_of_nat take_bit_nat_eq_self)
  show ?thesis
  proof (cases huff)
    case True
    then have l: "unat len \<le> 128" "unat len = length (huffman_encode octets)" "take (unat len) src = huffman_encode octets"
      using assms by (auto simp: sent_def)
    then have "clamp_len len = unat len" by (simp add: clamp_len_def HEADER_FIELD_MAXLEN_def)
    with True u l show ?thesis by (simp add: text_kept_def resize_def)
  next
    case False
    then have "unat len = length octets" "octets = take (length octets) src" using assms by (auto simp: sent_def)
    moreover from this have "take (clamp_len len) src = take 128 octets"
      by (metis clamp_len_def HEADER_FIELD_MAXLEN_def min.commute take_take)
    moreover have "take (min (length octets) 128) octets = take 128 octets" by (simp add: min_def)
    ultimately show ?thesis using False u
      by (simp add: text_kept_def clamp_len_def HEADER_FIELD_MAXLEN_def resize_def min.commute)
  qed
qed

lemma sent_counted:
  assumes "sent octets (src, len, huff)"
    and "resize 128 (take (clamp_len len) src) = (if is_val then hf_val hf else hf_key hf)"
  shows "(if huff then hpack_huffman_decoded_len hf is_val (word_of_nat (clamp_len len)) else len) = word_of_nat (length octets)"
proof (cases huff)
  case True
  with assms(1) have l: "unat len \<le> 128" "unat len = length (huffman_encode octets)" "take (unat len) src = huffman_encode octets"
    by (auto simp: sent_def)
  then have c: "clamp_len len = unat len" by (simp add: clamp_len_def HEADER_FIELD_MAXLEN_def)
  then have "take (min (unat (word_of_nat (clamp_len len) :: u32)) HEADER_FIELD_MAXLEN) (if is_val then hf_val hf else hf_key hf) =
      huffman_encode octets"
    unfolding assms(2) [symmetric] using l by (simp add: HEADER_FIELD_MAXLEN_def resize_def unsigned_of_nat take_bit_nat_eq_self)
  with decoded_len_encoded True show ?thesis by metis
next
  case False
  then have "unat len = length octets" using assms(1) by (simp add: sent_def)
  then have "word_of_nat (length octets) = (word_of_nat (unat len) :: u32)" by simp
  with False show ?thesis by simp
qed

lemma new_entry_keeps:
  assumes "sent name k" and "sent val v" and "\<And>bs. k_readable kern bs" and "field_size (name, val) < 2 ^ 32"
  shows "keeps (name, val) (new_entry kern k v)"
proof -
  obtain key kl kh where k: "k = (key, kl, kh)" by (cases k)
  obtain src vl vh where v: "v = (src, vl, vh)" by (cases v)
  let ?hf = "\<lparr>hf_key = resize 128 (take (clamp_len kl) key), hf_key_len = word_of_nat (clamp_len kl),
    hf_val = resize 128 (take (clamp_len vl) src), hf_val_len = word_of_nat (clamp_len vl),
    hf_key_huff = (if kh then 1 else 0), hf_val_huff = (if vh then 1 else 0)\<rparr>"
  note name = assms(1) [unfolded k] and val = assms(2) [unfolded v]
  have "new_entry kern k v = \<lparr>dte_field = ?hf, dte_size = word_of_nat (length name) + word_of_nat (length val) + 32\<rparr>"
    unfolding k v new_entry_def prod.case Let_def
    using sent_counted [OF name, of False ?hf] sent_counted [OF val, of True ?hf]
    by (cases kh; cases vh) (simp_all add: assms(3))
  moreover have "field_kept (name, val) ?hf" using sent_kept [OF name] sent_kept [OF val]
    by (cases kh; cases vh) (simp_all add: field_kept_def)
  moreover have "word_of_nat (length name) + word_of_nat (length val) + 32 = (word_of_nat (field_size (name, val)) :: u32)"
    by (simp add: field_size_def)
  ultimately show ?thesis using assms(4) by (simp add: keeps_def unsigned_of_nat take_bit_nat_eq_self)
qed

section \<open>The table the program keeps\<close>

text \<open>Adding a field that was sent, and updating the size of the table.\<close>

lemma add_entry_mirrors:
  assumes "mirrors (mc_conn ctx) tb fs" and "dt_dirty (tb_info tb) = 0"
    and "match_bytes kern ctx (tb_entries tb) key True = Some k" and "match_bytes kern ctx (tb_entries tb) val False = Some v"
    and "sent name k" and "sent text v"
    and "k_scratch kern" and "\<And>m i. k_room kern m i" and "\<And>bs. k_readable kern bs"
    and "fields_size fs + field_size (name, text) < 2 ^ 32" and "62 + unat (dt_deleted (tb_info tb)) + length fs + 1 < 2 ^ 32"
  shows "\<exists>tb'. add_dynamic_table_entry kern ctx key val tb = (0, tb') \<and> keeps_rest (mc_conn ctx) tb tb' \<and>
    mirrors (mc_conn ctx) tb' (add_field (unat (dt_max_size (tb_info tb))) (name, text) fs)"
proof -
  obtain es where es: "holds (mc_conn ctx) tb es" "list_all2 keeps fs es" using assms(1) by (auto simp: mirrors_def)
  have e: "keeps (name, text) (new_entry kern k v)" by (rule new_entry_keeps [OF assms(5,6,9)]) (use assms(10) in simp)
  have "table_size es + unat (dte_size (new_entry kern k v)) < 2 ^ 32"
    using assms(10) e kept_size [OF es(2)] by (simp add: keeps_def)
  moreover have "62 + unat (dt_deleted (tb_info tb)) + length es + 1 < 2 ^ 32"
    using assms(11) list_all2_lengthD [OF es(2)] by simp
  ultimately obtain tb' where "add_dynamic_table_entry kern ctx key val tb = (0, tb')" "keeps_rest (mc_conn ctx) tb tb'"
    "holds (mc_conn ctx) tb' (rfc_add (unat (dt_max_size (tb_info tb))) (new_entry kern k v) es)"
    using add_entry_holds [OF es(1) assms(2-4) sent_not_cut [OF assms(5)] sent_not_cut [OF assms(6)] assms(7,8)] by blast
  with kept_add [OF es(2) e] show ?thesis by (auto simp: mirrors_def)
qed

lemma size_update_mirrors:
  assumes "mirrors conn tb fs" and "fields_size fs < 2 ^ 32"
  shows "mirrors conn (table_size_update conn max_size tb) (evict_fields (unat max_size) 0 fs)"
proof -
  obtain es where es: "holds conn tb es" "list_all2 keeps fs es" using assms(1) by (auto simp: mirrors_def)
  then have "holds conn (table_size_update conn max_size tb) (rfc_evict (unat max_size) 0 es)"
    using assms(2) kept_size by (intro size_update_holds(1)) simp_all
  with kept_evict [OF es(2)] show ?thesis by (auto simp: mirrors_def)
qed

text \<open>
  C14: adding a field, and updating the size of the table, do to the
  maps what RFC 7541 does to the table of the texts that were sent: the oldest fields go until the
  new one fits, where a field counts the lengths of its decoded name and value and 32 octets more,
  in whatever form it was sent; a field larger than the table empties it; every entry keeps the
  name and the value as they were sent, the name as the name and the value as the value; no other
  connection is touched, and what is left in the maps is exactly the table, in the order of the
  indices. This holds as long as the kernel finds room, a Huffman coded name or value has at most
  128 octets, an indexed name is known in full, and the counters do not wrap.
\<close>

theorem dynamic_table_refines_rfc7541:
  assumes "mirrors (mc_conn ctx) tb fs" and "dt_dirty (tb_info tb) = 0"
    and "match_bytes kern ctx (tb_entries tb) key True = Some k" and "match_bytes kern ctx (tb_entries tb) val False = Some v"
    and "sent name k" and "sent text v"
    and "k_scratch kern" and "\<And>m i. k_room kern m i" and "\<And>bs. k_readable kern bs"
    and "fields_size fs + field_size (name, text) < 2 ^ 32" and "62 + unat (dt_deleted (tb_info tb)) + length fs + 1 < 2 ^ 32"
  shows "(\<exists>tb'. add_dynamic_table_entry kern ctx key val tb = (0, tb') \<and> keeps_rest (mc_conn ctx) tb tb' \<and>
      mirrors (mc_conn ctx) tb' (add_field (unat (dt_max_size (tb_info tb))) (name, text) fs)) \<and>
    mirrors (mc_conn ctx) (table_size_update (mc_conn ctx) max_size tb) (evict_fields (unat max_size) 0 fs)"
proof
  show "\<exists>tb'. add_dynamic_table_entry kern ctx key val tb = (0, tb') \<and> keeps_rest (mc_conn ctx) tb tb' \<and>
      mirrors (mc_conn ctx) tb' (add_field (unat (dt_max_size (tb_info tb))) (name, text) fs)"
    by (rule add_entry_mirrors [OF assms])
  show "mirrors (mc_conn ctx) (table_size_update (mc_conn ctx) max_size tb) (evict_fields (unat max_size) 0 fs)"
    by (rule size_update_mirrors [OF assms(1)]) (use assms(10) in simp)
qed

text \<open>For the witness, the value \<open>hi\<close>, Huffman coded, and a table of one field that has to go for the next one.\<close>

lemma hi_coded: "huffman_encode [0x68, 0x69] = [0x9C, 0xDF]"
  by code_simp

lemma demo_table_mirrors: "mirrors demo_conn demo_table [([120], [121])]"
proof -
  have "keeps ([120], [121]) demo_entry"
    by (simp add: keeps_def field_kept_def text_kept_def field_size_def demo_entry_def)
  with demo_table_holds show ?thesis by (auto simp: mirrors_def)
qed

theorem dynamic_table_refines_rfc7541_witness:
  "let ctx = \<lparr>mc_data = [0x76, 0x9C, 0xDF], mc_conn = demo_conn\<rparr>;
       key = \<lparr>hm_idx = 0, hm_len = 1, hm_source = HTTP_SRC_MSG, hm_huff = False\<rparr>;
       val = \<lparr>hm_idx = 1, hm_len = 2, hm_source = HTTP_SRC_MSG, hm_huff = True\<rparr>
   in \<exists>tb'. add_dynamic_table_entry demo_kernel ctx key val demo_table = (0, tb') \<and>
     mirrors demo_conn tb' [([0x76], [0x68, 0x69])]"
proof -
  let ?ctx = "\<lparr>mc_data = [0x76, 0x9C, 0xDF], mc_conn = demo_conn\<rparr>"
  let ?key = "\<lparr>hm_idx = 0, hm_len = 1, hm_source = HTTP_SRC_MSG, hm_huff = False\<rparr> :: http_match"
  let ?val = "\<lparr>hm_idx = 1, hm_len = 2, hm_source = HTTP_SRC_MSG, hm_huff = True\<rparr> :: http_match"
  have "match_bytes demo_kernel ?ctx (tb_entries demo_table) ?key True = Some ([0x76, 0x9C, 0xDF], 1, False)"
    and "match_bytes demo_kernel ?ctx (tb_entries demo_table) ?val False = Some ([0x9C, 0xDF], 2, True)"
    by (simp_all add: match_bytes_def)
  moreover have "mirrors (mc_conn ?ctx) demo_table [([120], [121])]" by (simp add: demo_table_mirrors)
  moreover have "sent [0x76] ([0x76, 0x9C, 0xDF], 1, False)" and "sent [0x68, 0x69] ([0x9C, 0xDF], 2, True)"
    by (simp_all add: sent_def hi_coded)
  ultimately have "\<exists>tb'. add_dynamic_table_entry demo_kernel ?ctx ?key ?val demo_table = (0, tb') \<and>
      keeps_rest demo_conn demo_table tb' \<and>
      mirrors demo_conn tb' (add_field (unat (dt_max_size (tb_info demo_table))) ([0x76], [0x68, 0x69]) [([120], [121])])"
    using dynamic_table_refines_rfc7541 [of ?ctx demo_table "[([120], [121])]" demo_kernel ?key _ ?val _ "[0x76]" "[0x68, 0x69]" 0]
    by (simp add: demo_kernel_def fields_size_def field_size_def demo_table_def)
  moreover have "add_field (unat (dt_max_size (tb_info demo_table))) ([0x76], [0x68, 0x69]) [([120], [121])] = [([0x76], [0x68, 0x69])]"
    by (simp add: add_field_def field_size_def fields_size_def demo_table_def)
  ultimately show ?thesis by auto
qed

end
