(* ===== verification/Http2_Texts.thy ===== *)
theory Http2_Texts
  imports Http2_Mirror Http2_Capture
begin

section \<open>A decoder of RFC 7541 over texts\<close>

text \<open>
  The decoder of RFC 7541 as the peer's encoder sees it: header blocks are given by the texts of
  their names and values and by how each is coded, the tables hold texts. It is independent of the
  program. The decoder that the walk of the program follows keeps an entry for every field of it.
\<close>

subsection \<open>Representations\<close>

record coded_text =
  ct_huff :: bool
  ct_text :: bytes

datatype text_name = NamedBy nat | NamedAs coded_text

datatype text_repr = Refer nat | Define indexing text_name coded_text | Resize nat

text \<open>The octets they are sent as.\<close>

definition wire :: "coded_text \<Rightarrow> hpack_string" where
  "wire s = \<lparr>str_huff = ct_huff s, str_octets = (if ct_huff s then huffman_encode (ct_text s) else ct_text s)\<rparr>"

fun wire_name :: "text_name \<Rightarrow> field_name" where
  "wire_name (NamedBy n) = NameIndex n"
| "wire_name (NamedAs s) = NameString (wire s)"

fun wire_repr :: "text_repr \<Rightarrow> representation" where
  "wire_repr (Refer n) = IndexedField n"
| "wire_repr (Define ix name v) = LiteralField ix (wire_name name) (wire v)"
| "wire_repr (Resize n) = SizeUpdate n"

definition block_bytes :: "text_repr list \<Rightarrow> bytes" where
  "block_bytes rs = concat (map (\<lambda>r. repr_bytes (wire_repr r)) rs)"

subsection \<open>The decoder\<close>

definition appendix_a :: "header_field list" where
  "appendix_a = map (\<lambda>(name, val). (bytes_of name, bytes_of val)) rfc_static_table"

text \<open>The table, the oldest field first, its maximum size, and how many fields were ever added.\<close>

record rfc_decoder =
  rd_table :: "header_field list"
  rd_max :: nat
  rd_added :: nat

definition new_rfc :: rfc_decoder where
  "new_rfc = \<lparr>rd_table = [], rd_max = 4096, rd_added = 0\<rparr>"

definition rd_field :: "rfc_decoder \<Rightarrow> nat \<Rightarrow> header_field option" where
  "rd_field R n =
     (if n = 0 then None
      else if n \<le> 61 then Some (appendix_a ! (n - 1))
      else if n \<le> 61 + length (rd_table R) then Some (rev (rd_table R) ! (n - 62))
      else None)"

fun rd_name :: "rfc_decoder \<Rightarrow> text_name \<Rightarrow> bytes" where
  "rd_name R (NamedAs s) = ct_text s"
| "rd_name R (NamedBy n) = (case rd_field R n of None \<Rightarrow> [] | Some f \<Rightarrow> fst f)"

definition rd_add :: "header_field \<Rightarrow> rfc_decoder \<Rightarrow> rfc_decoder" where
  "rd_add f R = R\<lparr>rd_table := add_field (rd_max R) f (rd_table R),
     rd_added := rd_added R + (if field_size f \<le> rd_max R then 1 else 0)\<rparr>"

fun rd_step :: "text_repr \<Rightarrow> rfc_decoder \<Rightarrow> rfc_decoder" where
  "rd_step (Refer n) R = R"
| "rd_step (Define ix name v) R = (if ix = Incremental then rd_add (rd_name R name, ct_text v) R else R)"
| "rd_step (Resize n) R = R\<lparr>rd_table := evict_fields n 0 (rd_table R), rd_max := n\<rparr>"

text \<open>
  What the program can follow: indices that name a field; of a field that is added, coded forms of
  at most 128 octets, and an indexed name of at most 128; numbers of 32 bits; and fewer than 65473
  fields added on a connection.
\<close>

definition text_fits :: "coded_text \<Rightarrow> bool" where
  "text_fits s \<longleftrightarrow> (ct_huff s \<longrightarrow> length (huffman_encode (ct_text s)) \<le> 128)"

fun name_known :: "rfc_decoder \<Rightarrow> text_name \<Rightarrow> bool" where
  "name_known R (NamedAs s) \<longleftrightarrow> True"
| "name_known R (NamedBy n) \<longleftrightarrow> n < 2 ^ 32 \<and> rd_field R n \<noteq> None"

fun name_fits :: "rfc_decoder \<Rightarrow> text_name \<Rightarrow> bool" where
  "name_fits R (NamedAs s) \<longleftrightarrow> text_fits s"
| "name_fits R (NamedBy n) \<longleftrightarrow> length (rd_name R (NamedBy n)) \<le> 128"

fun rd_ready :: "rfc_decoder \<Rightarrow> text_repr \<Rightarrow> bool" where
  "rd_ready R (Refer n) \<longleftrightarrow> n < 2 ^ 32 \<and> rd_field R n \<noteq> None"
| "rd_ready R (Define ix name v) \<longleftrightarrow> name_known R name \<and>
     (ix = Incremental \<longrightarrow> name_fits R name \<and> text_fits v \<and>
        fields_size (rd_table R) + field_size (rd_name R name, ct_text v) < 2 ^ 32)"
| "rd_ready R (Resize n) \<longleftrightarrow> n < 2 ^ 32"

fun rd_ready_all :: "rfc_decoder \<Rightarrow> text_repr list \<Rightarrow> bool" where
  "rd_ready_all R [] \<longleftrightarrow> True"
| "rd_ready_all R (r # rs) \<longleftrightarrow> rd_ready R r \<and> rd_added R < 65473 \<and> fields_size (rd_table R) < 2 ^ 32 \<and>
     rd_ready_all (rd_step r R) rs"

subsection \<open>The static table\<close>

text \<open>The static table of the kernel keeps the fields of appendix A.\<close>

definition static_kept :: "(u32 \<rightharpoonup> http2_hdr_field) \<Rightarrow> bool" where
  "static_kept static \<longleftrightarrow> (\<forall>i < 61. \<exists>hf. static (word_of_nat (i + 1)) = Some hf \<and> field_kept (appendix_a ! i) hf)"

text \<open>An encoder that codes as the RFC says.\<close>

definition rfc_encode :: "bytes \<Rightarrow> 'enc + bytes" where
  "rfc_encode octets = Inr (huffman_encode octets)"

lemma static_texts_short: "list_all (\<lambda>(name, val). length name \<le> 32 \<and> length val \<le> 32) rfc_static_table"
  by code_simp

lemma huffman_encode_short: "length octets \<le> 32 \<Longrightarrow> length (huffman_encode octets) \<le> 128"
  using huffman_encode_length [of octets] by simp

lemma static_field_keeps:
  assumes "i < 61"
  shows "field_kept (appendix_a ! i) (rfc_field (rfc_encode :: bytes \<Rightarrow> 'enc + bytes) i)"
proof -
  have len: "length rfc_static_table = 61" by (simp add: rfc_static_table_def)
  obtain name val where e: "rfc_static_table ! i = (name, val)" by fastforce
  then have a: "appendix_a ! i = (bytes_of name, bytes_of val)" using assms len by (simp add: appendix_a_def)
  have "rfc_static_table ! i \<in> set rfc_static_table" using assms len by simp
  then have "length (bytes_of name) \<le> 32" "length (bytes_of val) \<le> 32"
    using static_texts_short unfolding e list_all_iff by (auto simp: bytes_of_def)
  then have short: "length (huffman_encode (bytes_of name)) \<le> 128" "length (huffman_encode (bytes_of val)) \<le> 128"
    by (simp_all only: huffman_encode_short)
  have kept: "text_kept octets (resize 128 (huffman_encode octets)) (word_of_nat (length (huffman_encode octets))) True"
    if "length (huffman_encode octets) \<le> 128" for octets
    using that by (simp add: text_kept_def resize_def unsigned_of_nat take_bit_nat_eq_self)
  have "static_value (rfc_encode :: bytes \<Rightarrow> 'enc + bytes) val = huffman_encode (bytes_of val)"
    by (simp add: static_value_def coded_def rfc_encode_def bytes_of_def)
  then show ?thesis
    using short kept by (simp add: a field_kept_def rfc_field_def e static_field_def coded_def rfc_encode_def)
qed

lemma attached_static_kept:
  assumes "h2_attach rfc_encode env trace_enabled ts target p =
      (Inr (links, tr) :: (h2_action, ('enc, 'bpf, 'plain) beeper_error) failure + prog list \<times> h2_trace)"
  shows "static_kept (static_table tr)"
proof -
  from assms obtain data where tr: "tr = h2_trace_of (rfc_encode :: bytes \<Rightarrow> 'enc + bytes) trace_enabled target p data"
    unfolding h2_trace_of_def parser_trace_def static_tail_def by (rule h2_attach_trace)
  show ?thesis unfolding static_kept_def tr using static_table_trace_of static_field_keeps by blast
qed

subsection \<open>The decoder of the walk keeps the fields\<close>

definition same_table :: "decoder \<Rightarrow> rfc_decoder \<Rightarrow> bool" where
  "same_table D R \<longleftrightarrow> list_all2 keeps (rd_table R) (dec_table D) \<and> unat (dec_max D) = rd_max R \<and> dec_added D = rd_added R"

lemma same_field:
  assumes "same_table D R" and "static_kept (k_static kern)"
  shows "rel_option field_kept (rd_field R n) (dec_field kern D n)"
proof -
  have t: "list_all2 keeps (rd_table R) (dec_table D)" "length (rd_table R) = length (dec_table D)"
    using assms(1) by (auto simp: same_table_def dest: list_all2_lengthD)
  consider "n = 0" | "0 < n" "n \<le> 61" | "61 < n" by linarith
  then show ?thesis
  proof cases
    case 2
    then have "n - 1 < 61" "n - 1 + 1 = n" by simp_all
    with assms(2) obtain hf where "k_static kern (word_of_nat n) = Some hf" "field_kept (appendix_a ! (n - 1)) hf"
      unfolding static_kept_def by metis
    with 2 show ?thesis by (simp add: rd_field_def dec_field_def)
  next
    case 3
    with t kept_nth [OF t(1), of "n - 62"] show ?thesis by (simp add: rd_field_def dec_field_def)
  qed (simp add: rd_field_def dec_field_def)
qed

text \<open>Names and values.\<close>

lemma kept_sent:
  assumes "text_kept octets src len huff" and "length octets \<le> 128"
  shows "sent octets (src, ucast len, huff)"
  using assms by (auto simp: text_kept_def sent_def unsigned_ucast_eq take_bit_nat_eq_self unsigned_less split: if_splits)

lemma wire_sent:
  assumes "text_fits s" and "length (str_octets (wire s)) < 2 ^ 32"
  shows "sent (ct_text s) (string_part (wire s))"
  using assms by (auto simp: sent_def string_part_def wire_def text_fits_def unat_u32)

lemma name_sent:
  assumes "same_table D R" and "static_kept (k_static kern)" and "name_known R name" and "name_fits R name"
    and "\<And>s. name = NamedAs s \<Longrightarrow> length (str_octets (wire s)) < 2 ^ 32"
  shows "sent (rd_name R name) (dec_name kern D (wire_name name))"
proof (cases name)
  case (NamedBy n)
  with assms(3) obtain name' val where f: "rd_field R n = Some (name', val)" by auto
  with same_field [OF assms(1,2), of n] obtain hf where hf: "dec_field kern D n = Some hf" "field_kept (name', val) hf"
    by (auto simp: option_rel_Some1)
  have "length name' \<le> 128" using assms(4) by (simp add: NamedBy f)
  with hf kept_sent show ?thesis by (simp add: NamedBy f field_part_def field_kept_def)
next
  case (NamedAs s)
  with assms(4,5) wire_sent show ?thesis by simp
qed

text \<open>A representation whose octets are no more than the program reads.\<close>

lemma decode_same:
  assumes "same_table D R" and "static_kept (k_static kern)" and "\<And>bs. k_readable kern bs"
    and "rd_ready R r" and "length (repr_bytes (wire_repr r)) \<le> MAX_BYTES"
  shows "decodable kern D (wire_repr r)" and "same_table (decode idf kern src i (wire_repr r) D) (rd_step r R)"
proof -
  have known: "rd_field R n \<noteq> None \<Longrightarrow> dec_field kern D n \<noteq> None" for n
    using same_field [OF assms(1,2), of n] by (cases "rd_field R n"; cases "dec_field kern D n") auto
  have capture: "same_table (dec_capture cid m D') R' = same_table D' R'" for cid m D' R'
    by (simp add: dec_capture_def same_table_def)
  have t: "list_all2 keeps (rd_table R) (dec_table D)" "unat (dec_max D) = rd_max R" "dec_added D = rd_added R"
    using assms(1) by (simp_all add: same_table_def)
  have "decodable kern D (wire_repr r) \<and> same_table (decode idf kern src i (wire_repr r) D) (rd_step r R)"
  proof (cases r)
    case (Refer n)
    with assms(1,4) known show ?thesis by (simp add: capture)
  next
    case (Resize n)
    with assms(4) t kept_evict show ?thesis by (simp add: same_table_def unat_u32)
  next
    case (Define ix name v)
    have len: "length (str_octets (wire v)) \<le> MAX_BYTES" "name = NamedAs s \<Longrightarrow> length (str_octets (wire s)) \<le> MAX_BYTES" for s
      using assms(5) by (auto simp: Define string_bytes_def)
    then have small: "length (str_octets (wire v)) < 2 ^ 32" "name = NamedAs s \<Longrightarrow> length (str_octets (wire s)) < 2 ^ 32" for s
      by (fastforce simp: MAX_BYTES_def)+
    have readable: "name_readable kern D (wire_name name)"
      using assms(4) len(2) known by (cases name) (simp_all add: Define)
    show ?thesis
    proof (cases "ix = Incremental")
      case False
      with assms(1) readable len(1) show ?thesis by (simp add: Define capture)
    next
      case True
      let ?f = "(rd_name R name, ct_text v)" and ?e = "new_entry kern (dec_name kern D (wire_name name)) (string_part (wire v))"
      have ready: "name_known R name" "name_fits R name" "text_fits v" "fields_size (rd_table R) + field_size ?f < 2 ^ 32"
        using assms(4) True by (simp_all add: Define)
      have name: "sent (rd_name R name) (dec_name kern D (wire_name name))"
        by (rule name_sent [OF assms(1,2) ready(1,2)]) (rule small(2))
      note val = wire_sent [OF ready(3) small(1)]
      have "field_size ?f < 2 ^ 32" using ready(4) by linarith
      then have e: "keeps ?f ?e" by (rule new_entry_keeps [OF name val assms(3)])
      then have size: "unat (dte_size ?e) = field_size ?f" by (simp add: keeps_def)
      have "same_table (dec_add ?e D) (rd_add ?f R)"
        using kept_add [OF t(1) e] by (simp add: same_table_def dec_add_def rd_add_def t size)
      moreover have "decodable kern D (wire_repr r)"
        using True readable len(1) sent_not_cut [OF name] sent_not_cut [OF val] ready(4)
        by (simp add: Define size kept_size [OF t(1)])
      ultimately show ?thesis by (simp add: Define True capture)
    qed
  qed
  then show "decodable kern D (wire_repr r)" and "same_table (decode idf kern src i (wire_repr r) D) (rd_step r R)" by simp_all
qed

lemma decode_all_same:
  assumes "same_table D R" and "static_kept (k_static kern)" and "\<And>bs. k_readable kern bs"
    and "rd_ready_all R rs" and "length (block_bytes rs) \<le> MAX_BYTES"
  shows "decodable_all idf kern src i (map wire_repr rs) D"
    and "same_table (decode_all idf kern src i (map wire_repr rs) D) (fold rd_step rs R)"
proof -
  have "decodable_all idf kern src i (map wire_repr rs) D \<and> same_table (decode_all idf kern src i (map wire_repr rs) D) (fold rd_step rs R)"
    using assms(1,4,5)
  proof (induction rs arbitrary: i D R)
    case (Cons r rs)
    have len: "length (repr_bytes (wire_repr r)) \<le> MAX_BYTES" "length (block_bytes rs) \<le> MAX_BYTES"
      using Cons.prems(3) by (simp_all add: block_bytes_def)
    have ready: "rd_ready R r" "rd_ready_all (rd_step r R) rs" using Cons.prems(2) by simp_all
    note step = decode_same [OF Cons.prems(1) assms(2,3) ready(1) len(1)]
    have "table_size (dec_table D) = fields_size (rd_table R)" "dec_added D = rd_added R"
      using Cons.prems(1) kept_size by (simp_all add: same_table_def)
    with Cons.prems(2) step Cons.IH [OF step(2) ready(2) len(2)] show ?case by simp
  qed simp
  then show "decodable_all idf kern src i (map wire_repr rs) D"
    and "same_table (decode_all idf kern src i (map wire_repr rs) D) (fold rd_step rs R)" by simp_all
qed

lemma block_wire: "block_bytes rs = concat (map repr_bytes (map wire_repr rs))"
  by (simp add: block_bytes_def comp_def)

subsection \<open>The maps of a connection\<close>

text \<open>
  The maps of the kernel hold what the decoder \<open>R\<close> of the connection holds: nothing for a new one,
  and else its fields, their number and size, the maximum size, and the count of the fields added.
\<close>

definition maps_mirror :: "ip4_conn \<Rightarrow> rfc_decoder \<Rightarrow> h2_maps \<Rightarrow> bool" where
  "maps_mirror conn R maps \<longleftrightarrow> (case mp_infos maps conn of
     None \<Rightarrow> R = new_rfc \<and> (\<forall>i. mp_entries maps \<lparr>dtk_conn = conn, dtk_idx = i\<rparr> = None)
   | Some info \<Rightarrow> mirrors conn \<lparr>tb_info = info, tb_entries = mp_entries maps\<rparr> (rd_table R) \<and> dt_dirty info = 0 \<and>
       unat (dt_max_size info) = rd_max R \<and> unat (dt_count info + dt_deleted info) = rd_added R)"

lemma followed_mirror:
  assumes "maps_follow env conn D maps" and "same_table D R"
  shows "maps_mirror conn R maps"
proof (cases "mp_infos maps conn")
  case None
  then have "dec_table D = []" "dec_max D = 4096" "dec_added D = 0" "\<forall>i. mp_entries maps \<lparr>dtk_conn = conn, dtk_idx = i\<rparr> = None"
    using assms(1) by (simp_all add: maps_follow_def)
  moreover from this assms(2) have "R = new_rfc" by (simp add: same_table_def new_rfc_def)
  ultimately show ?thesis by (simp add: maps_mirror_def None)
next
  case (Some info)
  then have "table_follows conn (mp_entries maps) D \<lparr>tb_info = info, tb_entries = mp_entries maps\<rparr>"
    using assms(1) by (simp add: maps_follow_def)
  with assms(2) show ?thesis by (auto simp: maps_mirror_def Some table_follows_def same_table_def mirrors_def)
qed

text \<open>What \<open>get_dt_entry\<close> returns for an index keeps the field of the index.\<close>

lemma followed_lookup:
  assumes "maps_follow env conn D maps" and "same_table D R" and "static_kept (k_static (env_kernel env))"
    and "mp_infos maps conn \<noteq> None" and "idx \<noteq> 0"
  shows "case rd_field R (unat idx) of None \<Rightarrow> get_dt_entry env conn idx maps = Inl (- ENOENT)
    | Some f \<Rightarrow> (\<exists>hf. get_dt_entry env conn idx maps = Inr hf \<and> field_kept f hf)"
proof -
  obtain info where info: "mp_infos maps conn = Some info" using assms(4) by blast
  then have "table_follows conn (mp_entries maps) D \<lparr>tb_info = info, tb_entries = mp_entries maps\<rparr>"
    using assms(1) by (simp add: maps_follow_def)
  moreover have "unat idx < 2 ^ 32" using unsigned_less [of idx, where ?'a = nat] by simp
  ultimately have "get_dt_entry env conn idx maps =
      (case dec_field (env_kernel env) D (unat idx) of None \<Rightarrow> Inl (- ENOENT) | Some hf \<Rightarrow> Inr hf)"
    using followed_entry [of conn _ D _ "unat idx" "kernel_of env maps"] assms(5) by (simp add: get_dt_entry_def info)
  with same_field [OF assms(2,3), of "unat idx"] show ?thesis by (auto split: option.splits elim: option.rel_cases)
qed

end
