(* ===== verification/Http2_Session.thy ===== *)
theory Http2_Session
  imports Http2_Settings Http2_Isolation Http2_Texts
begin

section \<open>All connections of a program\<close>

text \<open>
  The program and user space over time: calls of both programs on any connections in any order, and
  connections that \<open>forget_conn\<close> removes. The state is the maps of the kernel. Beside it stand the
  decoders of RFC 7541 of the connections that are tracked: a connection is tracked as long as what
  arrives on it is decoded; once a call is made on it of which nothing is known, it is not.
\<close>

subsection \<open>Sessions\<close>

type_synonym rfc_session = "ip4_conn \<Rightarrow> rfc_decoder option"

text \<open>A call of \<open>parse_msg\<close> or \<open>parse_skb\<close>, the result of which comes with what the run leaves.\<close>

fun call_program :: "message_buffer \<Rightarrow> h2_tables \<Rightarrow> h2_prog_env \<Rightarrow> ip4_conn \<Rightarrow> (nat \<Rightarrow> bytes option) \<Rightarrow> bytes \<Rightarrow> nat \<Rightarrow> nat \<Rightarrow>
    u16 option \<Rightarrow> h2_run \<Rightarrow> int \<times> h2_run" where
  "call_program Msg tables env conn pull linear n off null_prefix run = parse_msg2 tables env conn pull linear n run"
| "call_program Skb tables env conn pull linear n off null_prefix run =
     (case parse_skb2 tables env conn pull linear n off null_prefix run of (res, _, run) \<Rightarrow> (res, run))"

text \<open>Where a program can be called on a frame: \<open>parse_msg\<close> reads the first one, whose header is linear.\<close>

definition call_at :: "message_buffer \<Rightarrow> nat \<Rightarrow> nat \<Rightarrow> bool" where
  "call_at prog off l \<longleftrightarrow> prog = Msg \<longrightarrow> off = 0 \<and> 9 \<le> l"

text \<open>The size the parameters of a SETTINGS frame announce.\<close>

definition announced :: "(u16 \<times> u32) list \<Rightarrow> nat \<Rightarrow> nat" where
  "announced params = fold (\<lambda>(ident, v) m. if ident = SETTINGS_HEADER_TABLE_SIZE then unat v else m) params"

text \<open>
  The steps: a block in one frame or in several, SETTINGS, whose size the program lets count at
  once, frames the parser skips, calls that ask to be repeated or change nothing, any other call
  with any bytes, \<open>forget_conn\<close>, and that a connection the maps hold nothing of is a new one.
\<close>

inductive h2_session ::
  "h2_tables \<Rightarrow> h2_prog_env \<Rightarrow> (ip4_conn \<Rightarrow> h2_maps \<Rightarrow> h2_maps \<Rightarrow> bool) \<Rightarrow> rfc_session \<Rightarrow> h2_maps \<Rightarrow> bool"
  for tables env forgets where
  session_new:
    "h2_session tables env forgets (\<lambda>_. Some new_rfc) \<lparr>mp_infos = Map.empty, mp_entries = Map.empty, mp_block = Some buf\<rparr>"
| session_block:
    "h2_session tables env forgets Rs maps \<Longrightarrow> Rs conn = Some R \<Longrightarrow>
     headers_allowed flags sid padding prio \<Longrightarrow> flags AND HTTP2_END_HEADERS_FLAG \<noteq> 0 \<Longrightarrow> rd_ready_all R rs \<Longrightarrow>
     length before + headers_start padding prio + length (block_bytes rs) \<le> MAX_BYTES \<Longrightarrow>
     delivers pull msg \<Longrightarrow> msg = before @ headers_frame flags sid padding prio (block_bytes rs) @ rest \<Longrightarrow> call_at prog (length before) l \<Longrightarrow>
     call_program prog tables env conn pull (take l msg) (length msg) (length before) None
       \<lparr>run_ms = ms, run_frame = fr, run_maps = maps\<rparr> = (res, run') \<Longrightarrow>
     h2_session tables env forgets (Rs(conn \<mapsto> fold rd_step rs R)) (run_maps run')"
| session_continued:
    "h2_session tables env forgets Rs maps \<Longrightarrow> Rs conn = Some R \<Longrightarrow>
     headers_allowed flags sid padding prio \<Longrightarrow> flags AND HTTP2_END_HEADERS_FLAG = 0 \<Longrightarrow> continuations_ok conts \<Longrightarrow>
     fragment @ concat (map snd conts) = block_bytes rs \<Longrightarrow> rd_ready_all R rs \<Longrightarrow> length (block_bytes rs) \<le> BLOCK_MAXLEN \<Longrightarrow>
     frames = headers_frame flags sid padding prio fragment @ continuation_bytes sid conts \<Longrightarrow>
     length before + length frames \<le> MAX_BYTES \<Longrightarrow> delivers pull msg \<Longrightarrow> msg = before @ frames @ rest \<Longrightarrow> call_at prog (length before) l \<Longrightarrow>
     call_program prog tables env conn pull (take l msg) (length msg) (length before) None
       \<lparr>run_ms = ms, run_frame = fr, run_maps = maps\<rparr> = (res, run') \<Longrightarrow>
     h2_session tables env forgets (Rs(conn \<mapsto> fold rd_step rs R)) (run_maps run')"
| session_settings:
    "h2_session tables env forgets Rs maps \<Longrightarrow> Rs conn = Some R \<Longrightarrow> sid < 0x80000000 \<Longrightarrow> frame = settings_frame sid params \<Longrightarrow>
     length before + length frame \<le> MAX_BYTES \<Longrightarrow> delivers pull msg \<Longrightarrow> msg = before @ frame @ rest \<Longrightarrow> call_at prog (length before) l \<Longrightarrow>
     call_program prog tables env conn pull (take l msg) (length msg) (length before) None
       \<lparr>run_ms = ms, run_frame = fr, run_maps = maps\<rparr> = (res, run') \<Longrightarrow>
     h2_session tables env forgets (Rs(conn \<mapsto> R\<lparr>rd_max := announced params (rd_max R)\<rparr>)) (run_maps run')"
| session_other:
    "h2_session tables env forgets Rs maps \<Longrightarrow> other_frame ty flags sid \<Longrightarrow>
     length payload < 2 ^ 24 \<Longrightarrow> sid < 0x80000000 \<Longrightarrow> length before \<le> MAX_BYTES \<Longrightarrow>
     delivers pull msg \<Longrightarrow> msg = before @ frame_bytes ty flags sid payload @ rest \<Longrightarrow> call_at prog (length before) l \<Longrightarrow>
     call_program prog tables env conn pull (take l msg) (length msg) (length before) None
       \<lparr>run_ms = ms, run_frame = fr, run_maps = maps\<rparr> = (res, run') \<Longrightarrow>
     h2_session tables env forgets Rs (run_maps run')"
| session_waits:
    "h2_session tables env forgets Rs maps \<Longrightarrow>
     call_program prog tables env conn pull linear n off null_prefix \<lparr>run_ms = ms, run_frame = fr, run_maps = maps\<rparr> = (res, run') \<Longrightarrow>
     res = - EAGAIN \<or> run_maps run' = maps \<Longrightarrow> h2_session tables env forgets Rs (run_maps run')"
| session_any:
    "h2_session tables env forgets Rs maps \<Longrightarrow>
     call_program prog tables env conn pull linear n off null_prefix \<lparr>run_ms = ms, run_frame = fr, run_maps = maps\<rparr> = (res, run') \<Longrightarrow>
     h2_session tables env forgets (Rs(conn := None)) (run_maps run')"
| session_forget:
    "h2_session tables env forgets Rs maps \<Longrightarrow> forgets conn maps maps' \<Longrightarrow>
     h2_session tables env forgets (Rs(conn := map_option (\<lambda>_. new_rfc) (Rs conn))) maps'"
| session_unknown:
    "h2_session tables env forgets Rs maps \<Longrightarrow> mp_infos maps conn = None \<Longrightarrow>
     (\<forall>i. mp_entries maps \<lparr>dtk_conn = conn, dtk_idx = i\<rparr> = None) \<Longrightarrow> h2_session tables env forgets (Rs(conn \<mapsto> new_rfc)) maps"

subsection \<open>The tables of the other connections\<close>

lemma maps_follow_ms [simp]: "maps_follow env conn (D\<lparr>dec_ms := ms\<rparr>) maps = maps_follow env conn D maps"
  by (simp add: maps_follow_def table_follows_def split: option.split)

lemma maps_follow_others:
  assumes "others_kept conn maps maps'" and "c \<noteq> conn" and "maps_follow env c D maps" and "\<And>infos c. env_room env infos c"
  shows "maps_follow env c D maps'"
proof -
  have "mp_infos maps' c = mp_infos maps c" and "mp_entries maps' \<lparr>dtk_conn = c, dtk_idx = i\<rparr> = mp_entries maps \<lparr>dtk_conn = c, dtk_idx = i\<rparr>" for i
    using assms(1,2) by (simp_all add: others_kept_def)
  with assms(3,4) show ?thesis
    by (simp add: maps_follow_def table_follows_def holds_def split: option.splits)
qed

lemma maps_follow_untouched:
  assumes "untouched run run'" and "maps_follow env c D (run_maps run)"
  shows "maps_follow env c D (run_maps run')"
  using assms by (simp add: untouched_def maps_follow_def split: option.splits)

text \<open>The maps follow a decoder that keeps the fields of \<open>R\<close>.\<close>

definition tracks :: "h2_prog_env \<Rightarrow> ip4_conn \<Rightarrow> rfc_decoder \<Rightarrow> h2_maps \<Rightarrow> bool" where
  "tracks env conn R maps \<longleftrightarrow> (\<exists>D. maps_follow env conn D maps \<and> same_table D R)"

text \<open>Every tracked connection is mirrored.\<close>

definition all_tracked :: "h2_prog_env \<Rightarrow> rfc_session \<Rightarrow> h2_maps \<Rightarrow> bool" where
  "all_tracked env Rs maps \<longleftrightarrow> mp_block maps \<noteq> None \<and> (\<forall>conn R. Rs conn = Some R \<longrightarrow> tracks env conn R maps)"

lemma all_tracked_step:
  assumes "all_tracked env Rs maps" and "\<And>infos c. env_room env infos c" and "call_keeps conn maps maps'"
    and "\<And>R. r = Some R \<Longrightarrow> tracks env conn R maps'"
  shows "all_tracked env (Rs(conn := r)) maps'"
  using assms(1,3,4) maps_follow_others [OF _ _ _ assms(2)] unfolding all_tracked_def call_keeps_def tracks_def by (metis fun_upd_apply)

lemma all_tracked_untouched:
  assumes "all_tracked env Rs (run_maps run)" and "untouched run run'" and "call_keeps conn (run_maps run) (run_maps run')"
  shows "all_tracked env Rs (run_maps run')"
  using assms(1,3) maps_follow_untouched [OF assms(2)] unfolding all_tracked_def tracks_def call_keeps_def by blast

text \<open>A connection the maps hold nothing of is a new one.\<close>

definition new_decoder :: decoder where
  "new_decoder = \<lparr>dec_table = [], dec_max = 4096, dec_added = 0, dec_ms = []\<rparr>"

lemma tracks_new:
  assumes "\<And>infos c. env_room env infos c" and "mp_infos maps conn = None"
    and "\<And>i. mp_entries maps \<lparr>dtk_conn = conn, dtk_idx = i\<rparr> = None"
  shows "tracks env conn new_rfc maps"
proof -
  have "maps_follow env conn new_decoder maps" using assms by (simp add: maps_follow_def new_decoder_def)
  moreover have "same_table new_decoder new_rfc" by (simp add: same_table_def new_decoder_def new_rfc_def)
  ultimately show ?thesis unfolding tracks_def by blast
qed

definition removed :: "ip4_conn \<Rightarrow> h2_maps \<Rightarrow> h2_maps \<Rightarrow> bool" where
  "removed conn maps maps' \<longleftrightarrow> mp_infos maps' conn = None \<and> (\<forall>i. mp_entries maps' \<lparr>dtk_conn = conn, dtk_idx = i\<rparr> = None)"

subsection \<open>Calls\<close>

lemma call_program_keeps:
  "call_program prog tables env conn pull linear n off null_prefix run = (res, run') \<Longrightarrow> call_keeps conn (run_maps run) (run_maps run')"
  by (cases prog) (auto split: prod.splits dest: parse_msg_keeps parse_skb_keeps)

lemma call_program_retry:
  "call_program prog tables env conn pull linear n off null_prefix run = (- EAGAIN, run') \<Longrightarrow> untouched run run'"
  by (cases prog) (auto split: prod.splits dest: parse_msg_retry parse_skb_retry)

text \<open>Both programs read a frame alike.\<close>

lemma call_reads:
  assumes "delivers pull msg" and "msg = before @ frame @ rest" and "9 \<le> length frame" and "length before \<le> MAX_BYTES"
    and "call_at prog (length before) l"
    and "call_program prog tables env conn pull (take l msg) (length msg) (length before) None run = (res, run')"
  shows "\<exists>np. parse_skb2 tables env conn pull (take l msg) (length msg) (length before) None run = (res, np, run')"
proof (cases prog)
  case Msg
  then have "before = []" "9 \<le> l" using assms(5) by (simp_all add: call_at_def)
  with assms(6) msg_reads [OF _ assms(3) \<open>9 \<le> l\<close>, of msg rest] assms(2) skb_reads [OF assms(1-4), of tables env conn l None run]
  show ?thesis by (auto simp: Msg split: prod.splits)
next
  case Skb
  with assms(6) show ?thesis by (auto split: prod.splits)
qed

lemma announced_max: "unat (settings_max params m) = announced params (unat m)"
  unfolding settings_max_def announced_def by (induction params arbitrary: m) auto

text \<open>A block that is decoded.\<close>

lemma block_tracks:
  assumes "tracks env conn R maps" and "static_kept (k_static (env_kernel env))" and "\<And>bs. k_readable (env_kernel env) bs"
    and "rd_ready_all R rs" and "length (block_bytes rs) \<le> MAX_BYTES"
  obtains D where "maps_follow env conn (D\<lparr>dec_ms := ms\<rparr>) maps"
    and "decodable_all idf (env_kernel env) src i (map wire_repr rs) (D\<lparr>dec_ms := ms\<rparr>)"
    and "same_table (decode_all idf (env_kernel env) src i (map wire_repr rs) (D\<lparr>dec_ms := ms\<rparr>)) (fold rd_step rs R)"
proof -
  obtain D where "maps_follow env conn D maps" "same_table D R" using assms(1) by (auto simp: tracks_def)
  moreover from this have same: "same_table (D\<lparr>dec_ms := ms\<rparr>) R" by (simp add: same_table_def)
  ultimately show thesis using decode_all_same [OF same assms(2-5)] by (intro that) simp_all
qed

lemma session_tracks:
  assumes "h2_session tables env forgets Rs maps"
    and "h2_loaded encode p tables" and "roomy (env_kernel env)" and "\<And>bs. k_readable (env_kernel env) bs"
    and "\<And>infos c. env_room env infos c" and "static_kept (k_static (env_kernel env))"
    and "\<And>conn maps maps'. forgets conn maps maps' \<Longrightarrow> call_keeps conn maps maps'"
    and "\<And>conn R maps maps'. forgets conn maps maps' \<Longrightarrow> tracks env conn R maps \<Longrightarrow> removed conn maps maps'"
  shows "all_tracked env Rs maps"
  using assms(1)
proof (induction rule: h2_session.induct)
  case (session_new buf)
  show ?case by (simp add: all_tracked_def tracks_new [OF assms(5)])
next
  case (session_block Rs maps conn R flags sid padding prio rs before pull msg rest prog l ms fr res run')
  let ?run = "\<lparr>run_ms = ms, run_frame = fr, run_maps = maps\<rparr>" and ?start = "length before + headers_start padding prio"
  let ?frame = "headers_frame flags sid padding prio (block_bytes rs)"
  have "tracks env conn R maps" using session_block.IH session_block.hyps(2) by (simp add: all_tracked_def)
  from block_tracks [OF this assms(6,4) session_block.hyps(5), of ms "name_id p" HTTP_SRC_MSG ?start] session_block.hyps(6)
  obtain D where D: "maps_follow env conn (D\<lparr>dec_ms := ms\<rparr>) (run_maps ?run)" "run_ms ?run = dec_ms (D\<lparr>dec_ms := ms\<rparr>)"
    "decodable_all (name_id p) (env_kernel env) HTTP_SRC_MSG ?start (map wire_repr rs) (D\<lparr>dec_ms := ms\<rparr>)"
    "same_table (decode_all (name_id p) (env_kernel env) HTTP_SRC_MSG ?start (map wire_repr rs) (D\<lparr>dec_ms := ms\<rparr>)) (fold rd_step rs R)"
    by auto
  obtain np where skb: "parse_skb2 tables env conn pull (take l msg) (length msg) (length before) None ?run = (res, np, run')"
    using call_reads [OF session_block.hyps(7,8) _ _ session_block.hyps(9,10)] session_block.hyps(6)
    by (auto simp: headers_frame_def)
  from whole_block_decodes [OF assms(2,3) D(1,2) session_block.hyps(3,4) _ refl D(3) _ session_block.hyps(7,8), of l]
    session_block.hyps(6) skb
  have "decoded env conn (decode_all (name_id p) (env_kernel env) HTTP_SRC_MSG ?start (map wire_repr rs) (D\<lparr>dec_ms := ms\<rparr>)) ?run run'"
    by (auto simp: block_wire)
  with D(4) have "tracks env conn (fold rd_step rs R) (run_maps run')" by (auto simp: decoded_def tracks_def)
  then show ?case
    using call_program_keeps [OF session_block.hyps(10)] by (intro all_tracked_step [OF session_block.IH assms(5)]) simp_all
next
  case (session_continued Rs maps conn R flags sid padding prio conts fragment rs frames before pull msg rest prog l ms fr res run')
  let ?run = "\<lparr>run_ms = ms, run_frame = fr, run_maps = maps\<rparr>"
  have "tracks env conn R maps" using session_continued.IH session_continued.hyps(2) by (simp add: all_tracked_def)
  moreover have "length (block_bytes rs) \<le> MAX_BYTES"
    using session_continued.hyps(8) by (simp add: BLOCK_MAXLEN_def BLOCK_BUF_SIZE_def MAX_BYTES_def)
  ultimately obtain D where D: "maps_follow env conn (D\<lparr>dec_ms := ms\<rparr>) (run_maps ?run)"
    "decodable_all (name_id p) (env_kernel env) HTTP_SRC_BUF 0 (map wire_repr rs) (D\<lparr>dec_ms := ms\<rparr>)"
    "same_table (decode_all (name_id p) (env_kernel env) HTTP_SRC_BUF 0 (map wire_repr rs) (D\<lparr>dec_ms := ms\<rparr>)) (fold rd_step rs R)"
    using block_tracks [OF _ assms(6,4) session_continued.hyps(7), of conn maps ms "name_id p" HTTP_SRC_BUF 0] by auto
  obtain np where skb: "parse_skb2 tables env conn pull (take l msg) (length msg) (length before) None ?run = (res, np, run')"
    using call_reads [OF session_continued.hyps(11,12) _ _ session_continued.hyps(13,14)] session_continued.hyps(9,10)
    by (auto simp: headers_frame_def)
  have "mp_block (run_maps ?run) \<noteq> None" using session_continued.IH by (simp add: all_tracked_def)
  from continued_block_decodes [OF assms(2-4) D(1) _ this session_continued.hyps(3-5,9) _ D(2) _ session_continued.hyps(10-12), of l]
    session_continued.hyps(6,8) skb
  have "decoded env conn (decode_all (name_id p) (env_kernel env) HTTP_SRC_BUF 0 (map wire_repr rs) (D\<lparr>dec_ms := ms\<rparr>)) ?run run'"
    by (auto simp: block_wire)
  with D(3) have "tracks env conn (fold rd_step rs R) (run_maps run')" by (auto simp: decoded_def tracks_def)
  then show ?case
    using call_program_keeps [OF session_continued.hyps(14)] by (intro all_tracked_step [OF session_continued.IH assms(5)]) simp_all
next
  case (session_settings Rs maps conn R sid frame params before pull msg rest prog l ms fr res run')
  let ?run = "\<lparr>run_ms = ms, run_frame = fr, run_maps = maps\<rparr>"
  obtain D where D: "maps_follow env conn D (run_maps ?run)" "same_table D R"
    using session_settings.IH session_settings.hyps(2) by (auto simp: all_tracked_def tracks_def)
  obtain np where skb: "parse_skb2 tables env conn pull (take l msg) (length msg) (length before) None ?run = (res, np, run')"
    using call_reads [OF session_settings.hyps(6,7) _ _ session_settings.hyps(8,9)] session_settings.hyps(4,5)
    by (auto simp: settings_frame_def)
  from settings_frame_read [OF D(1) session_settings.hyps(3-7), of tables l] skb
  have "maps_follow env conn (D\<lparr>dec_max := settings_max params (dec_max D)\<rparr>) (run_maps run')" by auto
  moreover have "same_table (D\<lparr>dec_max := settings_max params (dec_max D)\<rparr>) (R\<lparr>rd_max := announced params (rd_max R)\<rparr>)"
    using D(2) announced_max by (simp add: same_table_def)
  ultimately have "tracks env conn (R\<lparr>rd_max := announced params (rd_max R)\<rparr>) (run_maps run')" by (auto simp: tracks_def)
  then show ?case
    using call_program_keeps [OF session_settings.hyps(9)] by (intro all_tracked_step [OF session_settings.IH assms(5)]) simp_all
next
  case (session_other Rs maps ty flags sid payload before pull msg rest prog l conn ms fr res run')
  let ?run = "\<lparr>run_ms = ms, run_frame = fr, run_maps = maps\<rparr>"
  obtain np where skb: "parse_skb2 tables env conn pull (take l msg) (length msg) (length before) None ?run = (res, np, run')"
    using call_reads [OF session_other.hyps(6,7) _ session_other.hyps(5,8,9)] by auto
  from other_frame_read [OF session_other.hyps(2-7) refl, of tables env conn l None ?run] skb
  have "untouched ?run run'" by auto
  with session_other.IH call_program_keeps [OF session_other.hyps(9)] show ?case using all_tracked_untouched [of env Rs ?run] by simp
next
  case (session_waits Rs maps prog conn pull linear n off null_prefix ms fr res run')
  let ?run = "\<lparr>run_ms = ms, run_frame = fr, run_maps = maps\<rparr>"
  from session_waits.hyps(3) show ?case
  proof
    assume "res = - EAGAIN"
    with call_program_retry session_waits.hyps(2) have "untouched ?run run'" by blast
    with session_waits.IH call_program_keeps [OF session_waits.hyps(2)] show ?thesis using all_tracked_untouched [of env Rs ?run] by simp
  qed (use session_waits.IH in simp)
next
  case (session_any Rs maps prog conn pull linear n off null_prefix ms fr res run')
  show ?case
    using call_program_keeps [OF session_any.hyps(2)] by (intro all_tracked_step [OF session_any.IH assms(5)]) simp_all
next
  case (session_forget Rs maps conn maps')
  have "tracks env conn R' maps'" if "map_option (\<lambda>_. new_rfc) (Rs conn) = Some R'" for R'
  proof -
    from that obtain R where "Rs conn = Some R" "R' = new_rfc" by auto
    then have "tracks env conn R maps" using session_forget.IH by (simp add: all_tracked_def)
    with assms(8) session_forget.hyps(2) have "removed conn maps maps'" by blast
    with tracks_new [OF assms(5)] \<open>R' = new_rfc\<close> show ?thesis by (simp add: removed_def)
  qed
  with assms(7) session_forget.hyps(2) show ?case by (intro all_tracked_step [OF session_forget.IH assms(5)])
next
  case (session_unknown Rs maps conn)
  then show ?case using tracks_new [OF assms(5)] by (intro all_tracked_step [OF session_unknown.IH assms(5)]) auto
qed

subsection \<open>Connections that user space removes\<close>

text \<open>
  The handles of user space read the maps of the kernel, the state of a connection as bytes; what
  a call leaves of their keys is what is left in the kernel.
\<close>

definition maps_held :: "('i \<Rightarrow> ip4_conn \<Rightarrow> bytes option) \<Rightarrow> ('e \<Rightarrow> dynamic_table_key \<Rightarrow> bytes option) \<Rightarrow>
    (dynamic_table_info \<Rightarrow> bytes) \<Rightarrow> 'i \<Rightarrow> 'e \<Rightarrow> h2_maps \<Rightarrow> bool" where
  "maps_held geti gete to_bytes mi me maps \<longleftrightarrow> geti mi = (\<lambda>conn. map_option to_bytes (mp_infos maps conn)) \<and>
     (\<forall>key. gete me key = None \<longleftrightarrow> mp_entries maps key = None)"

definition left_over :: "('i \<Rightarrow> ip4_conn \<Rightarrow> bytes option) \<Rightarrow> ('e \<Rightarrow> dynamic_table_key \<Rightarrow> bytes option) \<Rightarrow> 'i \<Rightarrow> 'e \<Rightarrow> h2_maps \<Rightarrow> h2_maps" where
  "left_over geti gete mi me maps = maps\<lparr>mp_infos := (\<lambda>conn. if geti mi conn = None then None else mp_infos maps conn),
     mp_entries := (\<lambda>key. if gete me key = None then None else mp_entries maps key)\<rparr>"

text \<open>A call of \<open>forget_conn\<close> that succeeds.\<close>

definition forgotten :: "bool \<Rightarrow> (ip4_conn, 'i, 'bpf) map_handle \<Rightarrow> (dynamic_table_key, 'e, 'bpf) map_handle \<Rightarrow>
    (bytes \<Rightarrow> 'plain + dynamic_table_info) \<Rightarrow> ('i \<Rightarrow> ip4_conn \<Rightarrow> bytes option) \<Rightarrow> ('e \<Rightarrow> dynamic_table_key \<Rightarrow> bytes option) \<Rightarrow>
    (dynamic_table_info \<Rightarrow> bytes) \<Rightarrow> ip4_conn \<Rightarrow> h2_maps \<Rightarrow> h2_maps \<Rightarrow> bool" where
  "forgotten big_endian hi he from_bytes geti gete to_bytes conn maps maps' \<longleftrightarrow>
     (\<exists>local remote mi me mi' me'. conn_of big_endian local remote = (Inr conn :: unit panic + ip4_conn) \<and>
        maps_held geti gete to_bytes mi me maps \<and>
        forget_conn hi he from_bytes big_endian local remote (mi, me) =
          (Inr (Inr (mi', me')) :: unit panic + ((unit, 'bpf, 'plain) beeper_error + 'i \<times> 'e)) \<and>
        maps' = left_over geti gete mi' me' maps)"

text \<open>All entries of a connection the program mirrors lie where \<open>forget_conn\<close> looks for them.\<close>

lemma live_entries:
  assumes "maps_follow env conn D maps" and "mp_infos maps conn = Some info"
  shows "62 + unat (dt_deleted info) + unat (dt_count info) < 2 ^ 32"
    and "\<not> (62 + unat (dt_deleted info) \<le> unat i \<and> unat i < 62 + unat (dt_deleted info) + unat (dt_count info)) \<Longrightarrow>
      mp_entries maps \<lparr>dtk_conn = conn, dtk_idx = i\<rparr> = None"
proof -
  have "holds conn \<lparr>tb_info = info, tb_entries = mp_entries maps\<rparr> (dec_table D)"
    using assms by (simp add: maps_follow_def table_follows_def)
  note H = holdsD [OF this, simplified]
  show "62 + unat (dt_deleted info) + unat (dt_count info) < 2 ^ 32" using H(1,3) by simp
  show "\<not> (62 + unat (dt_deleted info) \<le> unat i \<and> unat i < 62 + unat (dt_deleted info) + unat (dt_count info)) \<Longrightarrow>
      mp_entries maps \<lparr>dtk_conn = conn, dtk_idx = i\<rparr> = None"
    using H(1,4) by auto
qed

text \<open>A call of \<open>forget_conn\<close> keeps the other connections, and of one that is mirrored nothing is left.\<close>

lemma forgotten_keeps:
  assumes "map_laws hi geti" and "map_laws he gete" and "forgotten be hi he from_bytes geti gete to_bytes conn maps maps'"
  shows "call_keeps conn maps maps'"
proof -
  obtain local remote mi me mi' me' where conn: "conn_of be local remote = (Inr conn :: unit panic + ip4_conn)"
    and held: "maps_held geti gete to_bytes mi me maps" and maps': "maps' = left_over geti gete mi' me' maps"
    and run: "forget_conn hi he from_bytes be local remote (mi, me) =
      (Inr (Inr (mi', me')) :: unit panic + ((unit, 'b, 'd) beeper_error + 'a \<times> 'c))"
    using assms(3) unfolding forgotten_def by blast
  have get: "geti mi c = map_option to_bytes (mp_infos maps c)" "gete me key = None \<longleftrightarrow> mp_entries maps key = None" for c key
    using held by (simp_all add: maps_held_def)
  have infos: "geti mi' = (geti mi)(conn := None)" by (rule forget_conn_info [OF assms(1) run conn])
  have "dtk_conn key \<noteq> conn \<Longrightarrow> gete me' key = gete me key" for key by (rule forget_conn_others [OF assms(2) _ run conn])
  with infos show ?thesis by (auto simp: call_keeps_def others_kept_def maps' left_over_def get)
qed

lemma forgotten_removed:
  assumes "map_laws hi geti" and "map_laws he gete" and "\<And>info. from_bytes (to_bytes info) = Inr info"
    and "forgotten be hi he from_bytes geti gete to_bytes conn maps maps'" and "maps_follow env conn D maps"
  shows "removed conn maps maps'"
proof -
  obtain local remote mi me mi' me' where conn: "conn_of be local remote = (Inr conn :: unit panic + ip4_conn)"
    and held: "maps_held geti gete to_bytes mi me maps" and maps': "maps' = left_over geti gete mi' me' maps"
    and run: "forget_conn hi he from_bytes be local remote (mi, me) =
      (Inr (Inr (mi', me')) :: unit panic + ((unit, 'b, 'd) beeper_error + 'a \<times> 'c))"
    using assms(4) unfolding forgotten_def by blast
  have get: "geti mi c = map_option to_bytes (mp_infos maps c)" "gete me key = None \<longleftrightarrow> mp_entries maps key = None" for c key
    using held by (simp_all add: maps_held_def)
  have "\<forall>val info. geti mi conn = Some val \<longrightarrow> from_bytes val = Inr info \<longrightarrow> 62 + unat (dt_deleted info) + unat (dt_count info) < 2 ^ 32"
    using live_entries(1) [OF assms(5)] assms(3) by (auto simp: get)
  note F = forget_conn_maps [OF assms(1,2) run conn this]
  have "geti mi' = (geti mi)(conn := None)" using F by blast
  then have infos: "mp_infos maps' c = (if c = conn then None else mp_infos maps c)" for c
    by (auto simp: maps' left_over_def get)
  have entries: "mp_entries maps' key = (if dtk_conn key = conn then None else mp_entries maps key)" for key
  proof (cases "mp_infos maps conn")
    case None
    then have "gete me' = gete me" using F by (simp add: get)
    then have "mp_entries maps' key = mp_entries maps key" by (simp add: maps' left_over_def get)
    moreover have "mp_entries maps \<lparr>dtk_conn = conn, dtk_idx = i\<rparr> = None" for i
      using assms(5) None by (simp add: maps_follow_def)
    ultimately show ?thesis by (cases key) auto
  next
    case (Some info)
    then have "gete me' key = (if dtk_conn key = conn \<and> 62 + unat (dt_deleted info) \<le> unat (dtk_idx key) \<and>
        unat (dtk_idx key) < 62 + unat (dt_deleted info) + unat (dt_count info) then None else gete me key)"
      using F assms(3) by (simp add: get)
    moreover have "mp_entries maps key = None"
      if "dtk_conn key = conn" "\<not> (62 + unat (dt_deleted info) \<le> unat (dtk_idx key) \<and>
        unat (dtk_idx key) < 62 + unat (dt_deleted info) + unat (dt_count info))"
      using live_entries(2) [OF assms(5) Some, of "dtk_idx key"] that by (cases key) simp
    ultimately show ?thesis by (auto simp: maps' left_over_def get)
  qed
  show ?thesis using infos entries by (simp add: removed_def)
qed

subsection \<open>The property\<close>

text \<open>
  C5: calls of both programs on any connections in any order, with
  whatever bytes, and calls of \<open>forget_conn\<close>, never make the maps of the kernel differ from what
  RFC 7541 says of a connection that is tracked, that is one on which only blocks the program can
  follow, SETTINGS, frames the parser skips or rejects, and calls to be repeated have arrived since
  it was new or forgotten: the maps hold exactly the fields of its RFC 7541 decoder, as they were sent,
  with their number and size, and \<open>get_dt_entry\<close> returns, for every index, an entry that keeps the
  field of that index, and \<open>ENOENT\<close> if there is none. An arbitrary call may leave anything on its
  own connection, which is not tracked any more, and changes no other. SETTINGS count at once, and
  for the connection they are sent on, as the program has it.
\<close>

theorem h2_maps_mirror_every_connection:
  assumes "h2_new = Inr p0" and "capture_all (h2_capture_hdr encode) names p0 = Inr (ids, p)"
    and "set ts = set (iter_transitions (h2_dfa p))"
    and "h2_inject ts p = (Inr (ro, tables) :: (h2_action, ('enc, 'b, 'p) beeper_error) failure + h2_rodata)"
    and "roomy (env_kernel env)" and "\<And>bs. k_readable (env_kernel env) bs" and "\<And>infos c. env_room env infos c"
    and "static_kept (k_static (env_kernel env))"
    and "map_laws hi geti" and "map_laws he gete" and "\<And>info. from_bytes (to_bytes info) = Inr info"
    and "h2_session tables env (forgotten be hi he from_bytes geti gete to_bytes) Rs maps" and "Rs conn = Some R"
  shows "maps_mirror conn R maps \<and>
    (mp_infos maps conn \<noteq> None \<and> idx \<noteq> 0 \<longrightarrow> (case rd_field R (unat idx) of
       None \<Rightarrow> get_dt_entry env conn idx maps = Inl (- ENOENT)
     | Some f \<Rightarrow> \<exists>hf. get_dt_entry env conn idx maps = Inr hf \<and> field_kept f hf))"
proof -
  note loaded = injected_loaded [OF assms(1-4)]
  have "all_tracked env Rs maps"
  proof (rule session_tracks [OF assms(12) loaded(1) assms(5,6,7,8)])
    show "call_keeps conn maps maps'" if "forgotten be hi he from_bytes geti gete to_bytes conn maps maps'" for conn maps maps'
      by (rule forgotten_keeps [OF assms(9,10) that])
    show "removed conn maps maps'" if "forgotten be hi he from_bytes geti gete to_bytes conn maps maps'" "tracks env conn R maps"
      for conn R maps maps'
      using that(2) forgotten_removed [OF assms(9-11) that(1)] unfolding tracks_def by blast
  qed
  then obtain D where "maps_follow env conn D maps" "same_table D R" using assms(13) by (auto simp: all_tracked_def tracks_def)
  with followed_mirror followed_lookup [OF _ _ assms(8)] show ?thesis by blast
qed

text \<open>The state of a table as bytes, for the witness.\<close>

definition join_bytes :: "u8 \<Rightarrow> u8 \<Rightarrow> u8 \<Rightarrow> u8 \<Rightarrow> u32" where
  "join_bytes a b c d = push_bit 8 (push_bit 8 (push_bit 8 (push_bit 8 0 OR ucast a) OR ucast b) OR ucast c) OR ucast d"

definition word_bytes :: "u32 \<Rightarrow> bytes" where
  "word_bytes v = [ucast (drop_bit 24 v), ucast (drop_bit 16 v), ucast (drop_bit 8 v), ucast v]"

definition info_bytes :: "dynamic_table_info \<Rightarrow> bytes" where
  "info_bytes info = word_bytes (dt_count info) @ word_bytes (dt_size info) @ word_bytes (dt_max_size info) @
     word_bytes (dt_deleted info) @ word_bytes (dt_dirty info)"

definition word_at :: "bytes \<Rightarrow> nat \<Rightarrow> u32" where
  "word_at bs i = join_bytes (bs ! i) (bs ! (i + 1)) (bs ! (i + 2)) (bs ! (i + 3))"

definition info_of :: "bytes \<Rightarrow> unit + dynamic_table_info" where
  "info_of bs = Inr \<lparr>dt_count = word_at bs 0, dt_size = word_at bs 4, dt_max_size = word_at bs 8, dt_deleted = word_at bs 12,
     dt_dirty = word_at bs 16\<rparr>"

lemma join_word: "join_bytes (ucast (drop_bit 24 v)) (ucast (drop_bit 16 v)) (ucast (drop_bit 8 v)) (ucast v) = v"
  unfolding join_bytes_def by (rule join_u32)

lemma info_of_bytes: "info_of (info_bytes info) = Inr info"
  by (simp add: info_of_def info_bytes_def word_at_def word_bytes_def join_word)

text \<open>A kernel whose static table was filled, a second connection, and a field whose value is Huffman coded.\<close>

definition text_env :: h2_prog_env where
  "text_env = demo_env\<lparr>env_kernel := demo_kernel\<lparr>k_static := (\<lambda>idx. if 0 < idx \<and> idx \<le> 61
     then Some (rfc_field (rfc_encode :: bytes \<Rightarrow> unit + bytes) (unat idx - 1)) else None)\<rparr>\<rparr>"

definition other_conn :: ip4_conn where
  "other_conn = \<lparr>local_addr = \<lparr>ip4 = 1, port = 80\<rparr>, remote_addr = \<lparr>ip4 = 2, port = 10\<rparr>\<rparr>"

definition text_field :: text_repr where
  "text_field = Define Incremental (NamedAs \<lparr>ct_huff = False, ct_text = [0x76]\<rparr>) \<lparr>ct_huff = True, ct_text = [0x68, 0x69]\<rparr>"

lemma text_static: "static_kept (k_static (env_kernel text_env))"
  unfolding static_kept_def
proof (intro allI impI)
  fix i :: nat
  assume i: "i < 61"
  then have "unat (word_of_nat (i + 1) :: u32) = i + 1" by (intro unat_u32) simp
  with i have "k_static (env_kernel text_env) (word_of_nat (i + 1)) = Some (rfc_field (rfc_encode :: bytes \<Rightarrow> unit + bytes) i)"
    by (simp add: text_env_def demo_env_def word_less_nat_alt word_le_nat_alt)
  with static_field_keeps [OF i] show "\<exists>hf. k_static (env_kernel text_env) (word_of_nat (i + 1)) = Some hf \<and> field_kept (appendix_a ! i) hf"
    by blast
qed

lemma text_field_bytes: "block_bytes [text_field] = [0x40, 1, 0x76, 0x82, 0x9C, 0xDF]"
  by (simp add: block_bytes_def text_field_def wire_def hi_coded string_bytes_def string_head_def int_bytes_def)

lemma text_ready: "rd_ready_all new_rfc [text_field]"
  by (simp add: text_field_def text_fits_def hi_coded new_rfc_def fields_size_def field_size_def)

theorem h2_maps_mirror_every_connection_witness:
  "\<exists>tables Rs maps hf. h2_session tables text_env (forgotten False fun_map fun_map info_of (\<lambda>m. m) (\<lambda>m. m) info_bytes) Rs maps \<and>
     Rs other_conn = None \<and> get_dt_entry text_env demo_conn 62 maps = Inr hf \<and> field_kept ([0x76], [0x68, 0x69]) hf"
proof -
  obtain p0 rs p ts ro tables where d: "h2_new = Inr p0"
    "capture_all (h2_capture_hdr shifted) demo_names p0 = Inr (rs :: ((unit, unit, unit) beeper_error + match_id) list, p)"
    "set ts = set (iter_transitions (h2_dfa p))"
    "h2_inject ts p = (Inr (ro, tables) :: (h2_action, (unit, unit, unit) beeper_error) failure + h2_rodata)"
    by (rule h2_injected_demo)
  let ?forgets = "forgotten False fun_map fun_map info_of (\<lambda>m. m) (\<lambda>m. m) info_bytes"
  let ?maps = "\<lparr>mp_infos = Map.empty, mp_entries = Map.empty, mp_block = Some \<lparr>bb_len = 0, bb_data = []\<rparr>\<rparr>"
  let ?frame = "headers_frame HTTP2_END_HEADERS_FLAG 1 None None (block_bytes [text_field])"
  let ?R = "fold rd_step [text_field] new_rfc"
  let ?fr = "new_http2_frame (replicate 9 0)"
  obtain res run where call: "call_program Skb tables text_env demo_conn (\<lambda>_. Some ?frame) (take 9 ?frame) (length ?frame)
      (length ([] :: bytes)) None \<lparr>run_ms = demo_ms, run_frame = ?fr, run_maps = ?maps\<rparr> = (res, run)" by fastforce
  have "h2_session tables text_env ?forgets (\<lambda>_. Some new_rfc) ?maps" by (rule h2_session.session_new)
  then have one: "h2_session tables text_env ?forgets ((\<lambda>_. Some new_rfc)(demo_conn \<mapsto> ?R)) (run_maps run)"
    by (rule h2_session.session_block [OF _ refl _ _ text_ready _ demo_delivers _ _ call, where rest = "[]"])
      (simp_all add: text_field_bytes headers_allowed_def headers_ok_def headers_start_def call_at_def MAX_BYTES_def
        HTTP2_END_HEADERS_FLAG_def HTTP2_PADDED_FLAG_def HTTP2_PRIORITY_FLAG_def)
  obtain res2 run2 where call2: "call_program Skb tables text_env other_conn (\<lambda>_. None) (replicate 9 255) 9 0 None
      \<lparr>run_ms = demo_ms, run_frame = ?fr, run_maps = run_maps run\<rparr> = (res2, run2)" by fastforce
  note two = h2_session.session_any [OF one call2]
  have conns: "demo_conn \<noteq> other_conn" by (simp add: demo_conn_def other_conn_def)
  have env: "roomy (env_kernel text_env)" "\<And>bs. k_readable (env_kernel text_env) bs" "\<And>infos c. env_room text_env infos c"
    by (simp_all add: text_env_def demo_env_def demo_kernel_def roomy_def)
  note mirror = h2_maps_mirror_every_connection [OF d env text_static fun_map_laws fun_map_laws info_of_bytes two, of demo_conn ?R 62]
  have table: "rd_table ?R = [([0x76], [0x68, 0x69])]"
    by (simp add: text_field_def rd_add_def add_field_def new_rfc_def field_size_def)
  then have "rd_field ?R 62 = Some ([0x76], [0x68, 0x69])" and "?R \<noteq> new_rfc" by (auto simp: rd_field_def new_rfc_def)
  with mirror conns obtain hf where "get_dt_entry text_env demo_conn 62 (run_maps run2) = Inr hf" "field_kept ([0x76], [0x68, 0x69]) hf"
    by (auto simp: maps_mirror_def split: option.splits)
  with two show ?thesis by (metis fun_upd_same)
qed

end
