(* ===== verification/Dfa_Sketch.thy ===== *)
theory Dfa_Sketch
  imports Dfa_Patterns
begin

section \<open>A DFA as an automaton over named places\<close>

text \<open>
  What a pattern makes of a DFA is easier to say over states that have names than over state
  ids, which depend on everything built before. A \<open>sketch\<close> is a builder over named places;
  \<open>depicts\<close> relates it to a builder by an injective map from places to state ids. Each
  operation of the builder that does not panic is an operation of the sketch, up to the ids
  of the places it adds.
\<close>

subsection \<open>Automata\<close>

type_synonym ('s, 'a) automaton = "'s \<Rightarrow> input \<Rightarrow> ('s \<times> 'a option) option"

definition link :: "'s \<Rightarrow> input set \<Rightarrow> 's \<Rightarrow> ('s, 'a) automaton \<Rightarrow> ('s, 'a) automaton" where
  "link s I t \<delta> = (\<lambda>s' i. if s' = s \<and> i \<in> I then Some (t, Option.bind (\<delta> s' i) snd) else \<delta> s' i)"

definition label :: "'a \<Rightarrow> 's \<Rightarrow> input set \<Rightarrow> ('s, 'a) automaton \<Rightarrow> ('s, 'a) automaton" where
  "label a s I \<delta> = (\<lambda>s' i. if s' = s \<and> i \<in> I then map_option (\<lambda>(t, _). (t, Some a)) (\<delta> s' i) else \<delta> s' i)"

lemma link_apply: "link s I t \<delta> s' i = (if s' = s \<and> i \<in> I then Some (t, Option.bind (\<delta> s' i) snd) else \<delta> s' i)"
  by (simp add: link_def)

lemma label_apply:
  "label a s I \<delta> s' i = (if s' = s \<and> i \<in> I then map_option (\<lambda>(t, _). (t, Some a)) (\<delta> s' i) else \<delta> s' i)"
  by (simp add: label_def)

definition edge_at :: "('s \<Rightarrow> state_id) \<Rightarrow> 's \<times> 'a option \<Rightarrow> 'a edge" where
  "edge_at st = (\<lambda>(t, a). \<lparr>edge_to = st t, edge_action = a\<rparr>)"

definition models :: "('s \<Rightarrow> state_id) \<Rightarrow> 's set \<Rightarrow> ('s, 'a) automaton \<Rightarrow> 'a dfa \<Rightarrow> bool" where
  "models st A \<delta> d \<longleftrightarrow> wf_dfa d \<and> inj_on st A \<and> (\<forall>s \<in> A. st s < num_states d) \<and>
     (\<forall>s \<in> A. \<forall>i. dfa_edge d (st s) i = map_option (edge_at st) (\<delta> s i)) \<and>
     (\<forall>s i t a. \<delta> s i = Some (t, a) \<longrightarrow> s \<in> A \<and> t \<in> A)"

lemma modelsD:
  assumes "models st A \<delta> d"
  shows "wf_dfa d" and "inj_on st A" and "s \<in> A \<Longrightarrow> st s < num_states d"
    and "s \<in> A \<Longrightarrow> dfa_edge d (st s) i = map_option (edge_at st) (\<delta> s i)"
    and "\<delta> s i = Some (t, a) \<Longrightarrow> s \<in> A \<and> t \<in> A"
  using assms unfolding models_def by blast+

lemma edge_at_cong: "(\<And>x. x \<in> A \<Longrightarrow> st' x = st x) \<Longrightarrow> (\<And>t a. y = Some (t, a) \<Longrightarrow> t \<in> A) \<Longrightarrow>
    map_option (edge_at st') y = map_option (edge_at st) y"
  by (cases y) (auto simp: edge_at_def)

subsection \<open>Sketches\<close>

record ('s, 'a) sketch =
  places :: "'s set"
  paths :: "('s, 'a) automaton"
  at :: 's
  pending :: "optional_prefix list"
  skips :: "'s list"
  lasts :: "('s \<times> input \<times> bool) list"

definition depicts :: "('s \<Rightarrow> state_id) \<Rightarrow> ('s, 'a) sketch \<Rightarrow> 'a builder \<Rightarrow> bool" where
  "depicts st k b \<longleftrightarrow> models st (places k) (paths k) (bdfa b) \<and>
     bstate b = st (at k) \<and> at k \<in> places k \<and> optional_prefixes b = pending k \<and>
     optional_states b = map st (skips k) \<and> set (skips k) \<subseteq> places k \<and>
     last_edges b = map (\<lambda>(s, i, cs). (st s, i, cs)) (lasts k) \<and> fst ` set (lasts k) \<subseteq> places k"

text \<open>A map that gives the places there were the ids they had.\<close>

definition keeps_ids :: "('s, 'a) sketch \<Rightarrow> ('s \<Rightarrow> state_id) \<Rightarrow> ('s \<Rightarrow> state_id) \<Rightarrow> bool" where
  "keeps_ids k st st' \<longleftrightarrow> (\<forall>s \<in> places k. st' s = st s)"

definition draw_edge :: "'s \<Rightarrow> input set \<Rightarrow> 's \<Rightarrow> ('s, 'a) sketch \<Rightarrow> ('s, 'a) sketch" where
  "draw_edge s I t k = k\<lparr>places := insert t (places k), paths := link s I t (paths k)\<rparr>"

text \<open>A place an edge may lead to: the one it leads to already, else a new one.\<close>

definition fits :: "('s, 'a) sketch \<Rightarrow> 's \<Rightarrow> input \<Rightarrow> 's \<Rightarrow> bool" where
  "fits k s i t \<longleftrightarrow> (case paths k s i of Some (t', _) \<Rightarrow> t' = t | None \<Rightarrow> t \<notin> places k)"

lemma fits_fields [simp]:
  "fits (k\<lparr>lasts := x\<rparr>) = fits k" "fits (k\<lparr>pending := y\<rparr>) = fits k" "fits (k\<lparr>skips := z\<rparr>) = fits k"
  "fits (k\<lparr>at := s\<rparr>) = fits k"
  by (simp_all add: fits_def fun_eq_iff cong: option.case_cong)

lemma keeps_ids_fields [simp]:
  "keeps_ids (k\<lparr>lasts := x\<rparr>) = keeps_ids k" "keeps_ids (k\<lparr>pending := y\<rparr>) = keeps_ids k"
  "keeps_ids (k\<lparr>skips := z\<rparr>) = keeps_ids k" "keeps_ids (k\<lparr>at := s\<rparr>) = keeps_ids k"
  by (simp_all add: keeps_ids_def fun_eq_iff)

lemma keeps_ids_refl [simp]: "keeps_ids k st st"
  by (simp add: keeps_ids_def)

lemma keeps_ids_trans:
  "keeps_ids k st st1 \<Longrightarrow> keeps_ids k1 st1 st2 \<Longrightarrow> places k \<subseteq> places k1 \<Longrightarrow> keeps_ids k st st2"
  by (auto simp: keeps_ids_def)

lemma depictsD:
  assumes "depicts st k b"
  shows "models st (places k) (paths k) (bdfa b)" and "bstate b = st (at k)" and "at k \<in> places k"
    and "optional_prefixes b = pending k" and "optional_states b = map st (skips k)" and "set (skips k) \<subseteq> places k"
    and "last_edges b = map (\<lambda>(s, i, cs). (st s, i, cs)) (lasts k)" and "fst ` set (lasts k) \<subseteq> places k"
  using assms unfolding depicts_def by blast+

subsection \<open>Edges\<close>

text \<open>An edge between places, with whatever ids the run gave out for it.\<close>

lemma models_link:
  assumes m: "models st A \<delta> (bdfa b)" and "s \<in> A"
    and run: "push_edge_from (st s) i to cs b = Inr (st' t, b')"
    and st': "\<And>x. x \<in> A \<Longrightarrow> st' x = st x" "inj_on st' (insert t A)"
    and t: "st' t < num_states (bdfa b')" "t \<notin> A \<Longrightarrow> \<forall>j. dfa_edge (bdfa b) (st' t) j = None"
  shows "models st' (insert t A) (link s (cases_of cs i) t \<delta>) (bdfa b')"
proof -
  note M = modelsD [OF m] and r = push_edge_from_Inr [OF run]
  have ws: "wf_states (b\<lparr>bstate := st s, optional_states := [], last_edges := []\<rparr>)"
    using M(1,3) assms(2) by (simp add: wf_states_def)
  have grow: "num_states (bdfa b) \<le> num_states (bdfa b')"
    using r(3,4) u16_less_Suc [of "num_states (bdfa b)"] by (auto split: if_splits)
  have wf: "wf_dfa (bdfa b')"
    unfolding wf_dfa_def
  proof (intro conjI allI impI)
    show "2 \<le> num_states (bdfa b')" using wf_dfaD(1) [OF M(1)] grow by simp
    show "distinct_keys (bdfa b')" using push_edge_from_distinct_keys [OF run wf_dfaD(2) [OF M(1)]] .
    fix s' j e assume "dfa_edge (bdfa b') s' j = Some e"
    then show "s' < num_states (bdfa b')" "edge_to e < num_states (bdfa b')"
      using r(5) [of s' j] wf_dfaD(3,4) [OF M(1), of s' j e] t(1) M(3) [OF assms(2)] grow
      by (auto split: if_splits intro: less_le_trans)
  qed
  have none: "\<delta> x j = None" if "x \<notin> A" for x j
    using M(5) [of x j] that by (cases "\<delta> x j") auto
  have row: "dfa_edge (bdfa b') (st' x) j = map_option (edge_at st') (link s (cases_of cs i) t \<delta> x j)"
    if x: "x \<in> insert t A" for x j
  proof -
    have old: "dfa_edge (bdfa b) (st' x) j = map_option (edge_at st') (\<delta> x j)"
    proof (cases "x \<in> A")
      case True
      have "map_option (edge_at st') (\<delta> x j) = map_option (edge_at st) (\<delta> x j)"
        by (rule edge_at_cong [of A]) (use st'(1) M(5) in auto)
      with M(4) [OF True] st'(1) [OF True] show ?thesis by simp
    next
      case False
      with x t(2) none show ?thesis by auto
    qed
    have "st' x = st s \<longleftrightarrow> x = s"
      using st' assms(2) x by (auto simp: inj_on_def)
    with r(5) [of "st' x" j] old show ?thesis
      by (cases "\<delta> x j") (auto simp: link_def edge_at_def merged_action_def split: prod.splits option.splits)
  qed
  show ?thesis
    unfolding models_def
  proof (intro conjI ballI allI impI)
    fix x assume "x \<in> insert t A"
    with M(3) st'(1) t(1) grow show "st' x < num_states (bdfa b')"
      by (metis insert_iff less_le_trans)
  next
    fix x j u a assume "link s (cases_of cs i) t \<delta> x j = Some (u, a)"
    with M(5) [of x j] assms(2) show "x \<in> insert t A" "u \<in> insert t A"
      by (auto simp: link_def split: if_splits)
  qed (use wf st'(2) row in auto)
qed

lemma depicts_link:
  assumes "depicts st k b" and "b' = b\<lparr>bdfa := bdfa b'\<rparr>" and "keeps_ids k st st'"
    and "models st' (insert t (places k)) (link s I t (paths k)) (bdfa b')"
  shows "depicts st' (draw_edge s I t k) b'"
proof -
  note D = depictsD [OF assms(1)]
  have f: "bstate b' = bstate b" "optional_prefixes b' = optional_prefixes b"
    "optional_states b' = optional_states b" "last_edges b' = last_edges b"
    using arg_cong [OF assms(2), of bstate] arg_cong [OF assms(2), of optional_prefixes]
      arg_cong [OF assms(2), of optional_states] arg_cong [OF assms(2), of last_edges] by simp_all
  have eq: "st' x = st x" if "x \<in> places k" for x using assms(3) that by (simp add: keeps_ids_def)
  show ?thesis
    using assms(4) D eq by (auto simp: depicts_def draw_edge_def f)
qed

lemma draw_known:
  assumes "push_edge_from (st s) i (Some (st t)) cs b = Inr (u, b')"
    and "depicts st k b" and "s \<in> places k" and "t \<in> places k"
  shows "u = st t \<and> depicts st (draw_edge s (cases_of cs i) t k) b'"
proof -
  note D = depictsD [OF assms(2)] and M = modelsD [OF depictsD(1) [OF assms(2)]]
  note r = push_edge_from_Inr [OF assms(1)]
  have u: "u = st t" using r(1) by simp
  have "num_states (bdfa b) \<le> num_states (bdfa b')"
    using r(3,4) u16_less_Suc [of "num_states (bdfa b)"] by (auto split: if_splits)
  then have "models st (insert t (places k)) (link s (cases_of cs i) t (paths k)) (bdfa b')"
    using assms(1,3,4) M(2,3) unfolding u
    by (intro models_link [OF D(1)]) (auto simp: insert_absorb intro: less_le_trans)
  with depicts_link [OF assms(2) r(2)] u show ?thesis by simp
qed

lemma draw_next:
  assumes "push_edge_from (st s) i None cs b = Inr (u, b')"
    and "depicts st k b" and "s \<in> places k" and "fits k s i t"
  obtains st' where "keeps_ids k st st'" and "u = st' t" and "depicts st' (draw_edge s (cases_of cs i) t k) b'"
proof (cases "paths k s i")
  case (Some x)
  note D = depictsD [OF assms(2)] and M = modelsD [OF depictsD(1) [OF assms(2)]]
  note r = push_edge_from_Inr [OF assms(1)]
  obtain a where x: "x = (t, a)" using assms(4) Some by (cases x) (simp add: fits_def)
  then have t: "t \<in> places k" using M(5) Some by blast
  have "u = st t"
    using r(1) M(4) [OF assms(3), of i] by (simp add: edge_target_def Some x edge_at_def)
  moreover have "push_edge_from (st s) i (Some (st t)) cs b = Inr (u, b')"
    using assms(1) M(4) [OF assms(3), of i]
    by (simp add: push_edge_from_def next_state_def Some x edge_at_def)
  ultimately show thesis using that [of st] draw_known [OF _ assms(2,3) t] by simp
next
  case None
  note D = depictsD [OF assms(2)] and M = modelsD [OF depictsD(1) [OF assms(2)]]
  note r = push_edge_from_Inr [OF assms(1)]
  have t: "t \<notin> places k" using assms(4) None by (simp add: fits_def)
  have e: "dfa_edge (bdfa b) (st s) i = None" using M(4) [OF assms(3), of i] None by simp
  then have u: "u = num_states (bdfa b)" and n: "num_states (bdfa b') = num_states (bdfa b) + 1"
    using r(1,3) by (simp_all add: edge_target_def)
  let ?st = "st(t := u)"
  have keep: "?st x = st x" if "x \<in> places k" for x using t that by auto
  have "models ?st (insert t (places k)) (link s (cases_of cs i) t (paths k)) (bdfa b')"
  proof (rule models_link [OF D(1) assms(3)])
    show "push_edge_from (st s) i None cs b = Inr (?st t, b')" using assms(1) by simp
    have "u \<notin> st ` places k" using M(3) by (force simp: u)
    with M(2) t show "inj_on ?st (insert t (places k))"
      by (auto simp: inj_on_def)
    show "?st t < num_states (bdfa b')" using u16_less_Suc [OF r(4) [OF e]] by (simp add: n u)
    show "\<forall>j. dfa_edge (bdfa b) (?st t) j = None" using fresh_row [OF M(1)] by (simp add: u)
  qed (use keep in blast)
  with depicts_link [OF assms(2) r(2)] keep that [of ?st] show thesis by (simp add: keeps_ids_def)
qed

subsection \<open>Optional prefixes\<close>

text \<open>A prefix of one input that may be repeated, from the only source, and one that may not.\<close>

definition draw_repeat :: "input \<Rightarrow> ('s, 'a) sketch \<Rightarrow> ('s, 'a) sketch" where
  "draw_repeat i k = draw_edge (at k) {i} (at k) (k\<lparr>lasts := lasts k @ [(at k, i, True)]\<rparr>)"

definition draw_once :: "input \<Rightarrow> 's \<Rightarrow> ('s, 'a) sketch \<Rightarrow> ('s, 'a) sketch" where
  "draw_once i t k = draw_edge (at k) {i} t (k\<lparr>lasts := lasts k @ [(at k, i, True)]\<rparr>)\<lparr>skips := [t]\<rparr>"

abbreviation repeated :: "input \<Rightarrow> optional_prefix" where
  "repeated i \<equiv> \<lparr>prefix_inputs = [i], prefix_case_sensitive = True, prefix_repeat = True\<rparr>"

abbreviation optional :: "input \<Rightarrow> optional_prefix" where
  "optional i \<equiv> \<lparr>prefix_inputs = [i], prefix_case_sensitive = True, prefix_repeat = False\<rparr>"

lemma draw_edge_sel [simp]:
  "places (draw_edge s I t k) = insert t (places k)" "paths (draw_edge s I t k) = link s I t (paths k)"
  "at (draw_edge s I t k) = at k" "pending (draw_edge s I t k) = pending k"
  "skips (draw_edge s I t k) = skips k" "lasts (draw_edge s I t k) = lasts k"
  by (simp_all add: draw_edge_def)

lemma draw_repeat_sel [simp]:
  "at (draw_repeat i k) = at k" "pending (draw_repeat i k) = pending k" "skips (draw_repeat i k) = skips k"
  "places (draw_repeat i k) = insert (at k) (places k)" "lasts (draw_repeat i k) = lasts k @ [(at k, i, True)]"
  "paths (draw_repeat i k) = link (at k) {i} (at k) (paths k)"
  by (simp_all add: draw_repeat_def)

lemma draw_once_sel [simp]:
  "at (draw_once i t k) = at k" "pending (draw_once i t k) = pending k" "skips (draw_once i t k) = [t]"
  "places (draw_once i t k) = insert t (places k)" "lasts (draw_once i t k) = lasts k @ [(at k, i, True)]"
  "paths (draw_once i t k) = link (at k) {i} t (paths k)"
  by (simp_all add: draw_once_def)

lemma push_repeat:
  assumes "push_prefix (repeated i) b = Inr b'" and "depicts st k b" and "skips k = []"
  shows "depicts st (draw_repeat i k) b'"
proof -
  note D = depictsD [OF assms(2)]
  let ?k = "k\<lparr>lasts := lasts k @ [(at k, i, True)]\<rparr>"
  let ?b = "b\<lparr>last_edges := last_edges b @ [(bstate b, i, True)]\<rparr>"
  have k: "depicts st ?k ?b" using D by (simp add: depicts_def)
  from assms(1) obtain u where "push_edge_from (st (at k)) i (Some (st (at k))) True ?b = Inr (u, b')"
    by (auto simp: push_prefix_def push_prefix_from_def D(2,5) assms(3) res_simps)
  from draw_known [OF this k] D(3) show ?thesis by (simp add: draw_repeat_def)
qed

lemma push_once:
  assumes "push_prefix (optional i) b = Inr b'" and "depicts st k b" and "skips k = []"
    and "fits k (at k) i t" and "t \<noteq> at k"
  obtains st' where "keeps_ids k st st'" and "depicts st' (draw_once i t k) b'"
proof -
  note D = depictsD [OF assms(2)]
  let ?k = "k\<lparr>lasts := lasts k @ [(at k, i, True)]\<rparr>"
  let ?b = "b\<lparr>last_edges := last_edges b @ [(bstate b, i, True)]\<rparr>"
  have k: "depicts st ?k ?b" using D by (simp add: depicts_def)
  have fit: "fits ?k (at k) i t" using assms(4) by simp
  from assms(1) obtain u b1 where e: "push_edge_from (st (at k)) i None True ?b = Inr (u, b1)"
    and b': "b' = (if u \<noteq> bstate b1 \<and> u \<notin> set (optional_states b1)
       then b1\<lparr>optional_states := optional_states b1 @ [u]\<rparr> else b1)"
    by (auto simp: push_prefix_def push_prefix_from_def D(2,5) assms(3) res_simps)
  obtain st' where st': "keeps_ids ?k st st'" "u = st' t"
    and k1: "depicts st' (draw_edge (at k) {i} t ?k) b1"
    by (rule draw_next [OF e k _ fit]) (use D(3) in auto)
  note D1 = depictsD [OF k1] and M1 = modelsD [OF depictsD(1) [OF k1]]
  have "st' t \<noteq> st' (at k)"
    using M1(2) D(3) assms(5) by (auto simp: inj_on_def)
  then have "b' = b1\<lparr>optional_states := [st' t]\<rparr>"
    using D1(2,5) assms(3) by (simp add: b' st'(2))
  with k1 have "depicts st' (draw_once i t k) b'"
    by (auto simp: depicts_def draw_once_def)
  moreover have "keeps_ids k st st'" using st'(1) by (simp add: keeps_ids_def)
  ultimately show thesis by (rule that [rotated])
qed

lemma depicts_done: "depicts st k b \<Longrightarrow> depicts st (k\<lparr>pending := []\<rparr>) (b\<lparr>optional_prefixes := []\<rparr>)"
  by (simp add: depicts_def)

text \<open>The three sets of prefixes the patterns have pending.\<close>

lemma prefixes_none:
  assumes "push_optional_prefixes b = Inr b'" and "depicts st k b" and "pending k = []"
  shows "b' = b"
  using assms depictsD(4) [OF assms(2)] by (cases b) (simp add: push_optional_prefixes_def)

lemma prefixes_space:
  assumes "push_optional_prefixes b = Inr b'" and "depicts st k b" and "skips k = []"
    and "pending k = [repeated i, repeated j]"
  shows "depicts st (draw_repeat j (draw_repeat i (k\<lparr>pending := []\<rparr>))) b'"
proof -
  from assms(1) obtain b1 where b1: "push_prefix (repeated i) (b\<lparr>optional_prefixes := []\<rparr>) = Inr b1"
    and b2: "push_prefix (repeated j) b1 = Inr b'"
    by (auto simp: push_optional_prefixes_def depictsD(4) [OF assms(2)] assms(4) res_simps)
  from push_repeat [OF b1 depicts_done [OF assms(2)]] assms(3)
  have "depicts st (draw_repeat i (k\<lparr>pending := []\<rparr>)) b1" by simp
  from push_repeat [OF b2 this] assms(3) show ?thesis by simp
qed

lemma prefixes_once:
  assumes "push_optional_prefixes b = Inr b'" and "depicts st k b" and "skips k = []"
    and "pending k = [optional i]" and "fits k (at k) i t" and "t \<noteq> at k"
  obtains st' where "keeps_ids k st st'" and "depicts st' (draw_once i t (k\<lparr>pending := []\<rparr>)) b'"
proof -
  from assms(1) have b: "push_prefix (optional i) (b\<lparr>optional_prefixes := []\<rparr>) = Inr b'"
    by (simp add: push_optional_prefixes_def depictsD(4) [OF assms(2)] assms(4))
  show thesis
    by (rule push_once [OF b depicts_done [OF assms(2)], of t])
      (use assms(3,5,6) that in auto)
qed

subsection \<open>Inputs\<close>

definition draw_skip :: "input \<Rightarrow> bool \<Rightarrow> 's \<Rightarrow> 's \<Rightarrow> ('s, 'a) sketch \<Rightarrow> ('s, 'a) sketch" where
  "draw_skip i cs t s k = draw_edge s (cases_of cs i) t (k\<lparr>lasts := lasts k @ [(s, i, cs)]\<rparr>)"

definition draw_push :: "input \<Rightarrow> bool \<Rightarrow> 's \<Rightarrow> ('s, 'a) sketch \<Rightarrow> ('s, 'a) sketch" where
  "draw_push i cs t k =
     (fold (draw_skip i cs t) (skips k)
       (draw_edge (at k) (cases_of cs i) t (k\<lparr>lasts := [(at k, i, cs)], skips := []\<rparr>)))\<lparr>at := t\<rparr>"

lemma draw_push_sel [simp]:
  "at (draw_push i cs t k) = t"
  "skips k = [] \<Longrightarrow> places (draw_push i cs t k) = insert t (places k)"
  "skips k = [] \<Longrightarrow> paths (draw_push i cs t k) = link (at k) (cases_of cs i) t (paths k)"
  "skips k = [] \<Longrightarrow> lasts (draw_push i cs t k) = [(at k, i, cs)]"
  "skips k = [] \<Longrightarrow> skips (draw_push i cs t k) = []"
  "skips k = [] \<Longrightarrow> pending (draw_push i cs t k) = pending k"
  "skips k = [s] \<Longrightarrow> places (draw_push i cs t k) = insert t (places k)"
  "skips k = [s] \<Longrightarrow> paths (draw_push i cs t k) = link s (cases_of cs i) t (link (at k) (cases_of cs i) t (paths k))"
  "skips k = [s] \<Longrightarrow> lasts (draw_push i cs t k) = [(at k, i, cs), (s, i, cs)]"
  "skips k = [s] \<Longrightarrow> skips (draw_push i cs t k) = []"
  "skips k = [s] \<Longrightarrow> pending (draw_push i cs t k) = pending k"
  by (simp_all add: draw_push_def draw_skip_def)

lemma push_skipped_depicts:
  assumes "push_skipped i (st t) cs (st s) b = Inr b'" and "depicts st k b" and "s \<in> places k" and "t \<in> places k"
  shows "depicts st (draw_skip i cs t s k) b'"
proof -
  from assms(1) obtain u b1 where e: "push_edge_from (st s) i (Some (st t)) cs b = Inr (u, b1)"
    and b': "b' = b1\<lparr>last_edges := last_edges b1 @ [(st s, i, cs)]\<rparr>"
    by (auto simp: push_skipped_def res_simps)
  from draw_known [OF e assms(2-4)] assms(3) show ?thesis
    by (auto simp: b' depicts_def draw_skip_def)
qed

lemma push_all_skipped_depicts:
  assumes "fold_res (push_skipped i (st t) cs) (map st ss) b = Inr b'" and "depicts st k b"
    and "set ss \<subseteq> places k" and "t \<in> places k"
  shows "depicts st (fold (draw_skip i cs t) ss k) b'"
  using assms
proof (induction ss arbitrary: b k)
  case (Cons s ss)
  then obtain b1 where b1: "push_skipped i (st t) cs (st s) b = Inr b1"
    and r: "fold_res (push_skipped i (st t) cs) (map st ss) b1 = Inr b'"
    by (auto simp: res_simps)
  have "depicts st (draw_skip i cs t s k) b1"
    using push_skipped_depicts [OF b1 Cons.prems(2)] Cons.prems(3,4) by simp
  from Cons.IH [OF r this] Cons.prems(3,4) show ?case by (auto simp: draw_skip_def)
qed simp

lemma draw_skips_places: "t \<in> places k \<Longrightarrow> t \<in> places (fold (draw_skip i cs t) ss k)"
  by (induction ss arbitrary: k) (auto simp: draw_skip_def)

lemma push_edge_finish:
  assumes "fold_res (push_skipped i (st t) cs) (optional_states b1)
        (b1\<lparr>last_edges := [(st (at k), i, cs)], optional_states := []\<rparr>) = Inr b2"
    and d1: "depicts st (draw_edge (at k) (cases_of cs i) t k) b1" and "at k \<in> places k"
  shows "depicts st (draw_push i cs t k) (b2\<lparr>bstate := st t\<rparr>)"
proof -
  let ?k = "draw_edge (at k) (cases_of cs i) t (k\<lparr>lasts := [(at k, i, cs)], skips := []\<rparr>)"
  note D = depictsD [OF d1]
  have k: "depicts st ?k (b1\<lparr>last_edges := [(st (at k), i, cs)], optional_states := []\<rparr>)"
    using D assms(3) by (auto simp: depicts_def)
  have "fold_res (push_skipped i (st t) cs) (map st (skips k))
        (b1\<lparr>last_edges := [(st (at k), i, cs)], optional_states := []\<rparr>) = Inr b2"
    using assms(1) D(5) by simp
  from push_all_skipped_depicts [OF this k] D(6)
  have r: "depicts st (fold (draw_skip i cs t) (skips k) ?k) b2" by auto
  have "t \<in> places (fold (draw_skip i cs t) (skips k) ?k)" by (rule draw_skips_places) simp
  with r show ?thesis by (auto simp: depicts_def draw_push_def)
qed

lemma push_edge_next:
  assumes "push_edge i None cs b = Inr b'" and "push_optional_prefixes b = Inr b0"
    and "depicts st k b0" and "fits k (at k) i t"
  obtains st' where "keeps_ids k st st'" and "depicts st' (draw_push i cs t k) b'"
proof -
  note D = depictsD [OF assms(3)]
  from assms(1,2) D(2) obtain u b1 b2 where e: "push_edge_from (st (at k)) i None cs b0 = Inr (u, b1)"
    and f: "fold_res (push_skipped i u cs) (optional_states b1)
        (b1\<lparr>last_edges := [(st (at k), i, cs)], optional_states := []\<rparr>) = Inr b2"
    and b': "b' = b2\<lparr>bstate := u\<rparr>"
    by (auto simp: push_edge_def res_simps)
  obtain st' where st': "keeps_ids k st st'" "u = st' t" "depicts st' (draw_edge (at k) (cases_of cs i) t k) b1"
    by (rule draw_next [OF e assms(3) D(3) assms(4)])
  have at: "st (at k) = st' (at k)" using st'(1) D(3) by (simp add: keeps_ids_def)
  from push_edge_finish [OF f [unfolded at st'(2)] st'(3) D(3)] st'(1) that show thesis
    by (simp add: b' st'(2))
qed

lemma push_edge_known:
  assumes "push_edge i (Some (st t)) cs b = Inr b'" and "push_optional_prefixes b = Inr b0"
    and "depicts st k b0" and "t \<in> places k"
  shows "depicts st (draw_push i cs t k) b'"
proof -
  note D = depictsD [OF assms(3)]
  from assms(1,2) D(2) obtain u b1 b2 where e: "push_edge_from (st (at k)) i (Some (st t)) cs b0 = Inr (u, b1)"
    and f: "fold_res (push_skipped i u cs) (optional_states b1)
        (b1\<lparr>last_edges := [(st (at k), i, cs)], optional_states := []\<rparr>) = Inr b2"
    and b': "b' = b2\<lparr>bstate := u\<rparr>"
    by (auto simp: push_edge_def res_simps)
  from draw_known [OF e assms(3) D(3) assms(4)]
  have u: "u = st t" and d: "depicts st (draw_edge (at k) (cases_of cs i) t k) b1" by simp_all
  from push_edge_finish [OF f [unfolded u] d D(3)] show ?thesis by (simp add: b' u)
qed

subsection \<open>Actions\<close>

fun draw_label :: "'a \<Rightarrow> 's \<times> input \<times> bool \<Rightarrow> ('s, 'a) sketch \<Rightarrow> ('s, 'a) sketch" where
  "draw_label a (s, i, cs) k = k\<lparr>paths := label a s (cases_of cs i) (paths k)\<rparr>"

lemma models_label:
  assumes m: "models st A \<delta> d" and "s \<in> A" and run: "add_action d (st s) i a = Inr d'"
  shows "models st A (label a s {i} \<delta>) d'"
proof -
  note M = modelsD [OF m]
  from run obtain e where e: "dfa_edge d (st s) i = Some e" and n: "num_states d' = num_states d"
    and row: "\<And>s' j. dfa_edge d' s' j = (if s' = st s \<and> j = i then Some (e\<lparr>edge_action := Some a\<rparr>) else dfa_edge d s' j)"
    by (rule add_action_Inr) blast
  have "dfa_edge d' (st x) j = map_option (edge_at st) (label a s {i} \<delta> x j)" if "x \<in> A" for x j
    using M(2) M(4) [of x j] M(4) [of s i] that e assms(2) unfolding row
    by (cases "\<delta> x j") (auto simp: label_def edge_at_def inj_on_def split: prod.splits)
  moreover have "x \<in> A \<and> t \<in> A" if "label a s {i} \<delta> x j = Some (t, c)" for x j t c
    using that M(5) [of x j] by (auto simp: label_def split: if_splits)
  ultimately show ?thesis
    using M(2,3) wf_add_action [OF run M(1)] n by (simp add: models_def)
qed

lemma add_last_action_depicts:
  assumes "add_last_action a (st s, i, cs) b = Inr b'" and "depicts st k b" and "s \<in> places k"
  shows "depicts st (draw_label a (s, i, cs) k) b'"
proof -
  note D = depictsD [OF assms(2)]
  from assms(1) obtain d1 where d1: "add_action (bdfa b) (st s) i a = Inr d1"
    and rest: "(case (if cs then None else other_case i) of None \<Rightarrow> Inr (b\<lparr>bdfa := d1\<rparr>)
       | Some other \<Rightarrow> bind_res (add_action d1 (st s) other a) (\<lambda>d2. Inr (b\<lparr>bdfa := d2\<rparr>))) = Inr b'"
    by (auto simp: add_last_action_def res_simps)
  note m1 = models_label [OF D(1) assms(3) d1]
  show ?thesis
  proof (cases "if cs then None else other_case i")
    case None
    then have "cases_of cs i = {i}" by (auto simp: cases_of_def split: if_splits)
    with None rest m1 D show ?thesis by (auto simp: depicts_def)
  next
    case (Some j)
    with rest obtain d2 where d2: "add_action d1 (st s) j a = Inr d2" and b': "b' = b\<lparr>bdfa := d2\<rparr>"
      by (auto simp: res_simps)
    have "label a s {j} (label a s {i} (paths k)) = label a s (cases_of cs i) (paths k)"
      using Some by (auto simp: fun_eq_iff label_def cases_of_def option.map_comp comp_def case_prod_unfold
          split: if_splits option.splits)
    with models_label [OF m1 assms(3) d2] D b' show ?thesis by (auto simp: depicts_def)
  qed
qed

lemma with_depicts:
  assumes "with_action a b = Inr b'" and "push_optional_prefixes b = Inr b0" and "depicts st k b0"
  shows "depicts st (fold (draw_label a) (lasts k) k) b'"
proof -
  have "depicts st (fold (draw_label a) ls k') b''"
    if "fold_res (add_last_action a) (map (\<lambda>(s, i, cs). (st s, i, cs)) ls) c = Inr b''"
      and "depicts st k' c" and "fst ` set ls \<subseteq> places k'" for ls k' c b''
    using that
  proof (induction ls arbitrary: k' c)
    case (Cons l ls)
    obtain s i cs where l: "l = (s, i, cs)" by (cases l)
    from Cons.prems(1) obtain c1 where c1: "add_last_action a (st s, i, cs) c = Inr c1"
      and r: "fold_res (add_last_action a) (map (\<lambda>(s, i, cs). (st s, i, cs)) ls) c1 = Inr b''"
      by (auto simp: res_simps l)
    have "depicts st (draw_label a l k') c1"
      using add_last_action_depicts [OF c1 Cons.prems(2)] Cons.prems(3) by (simp add: l)
    from Cons.IH [OF r this] Cons.prems(3) show ?case by (simp add: l)
  qed simp
  with assms depictsD(7,8) [OF assms(3)] show ?thesis by (simp add: with_action_def)
qed

subsection \<open>Repetition and restarts\<close>

lemma push_any_depicts:
  assumes "push_any (Included 1) Unbounded b = Inr b'" and "push_optional_prefixes b = Inr b0"
    and "depicts st k b0" and "fits k (at k) ANY_INPUT t"
  obtains st' where "keeps_ids k st st'"
    and "depicts st' (draw_repeat ANY_INPUT (draw_push ANY_INPUT True t k)) b'"
proof -
  from assms(1) obtain b1 u b2 where b1: "push_edge ANY_INPUT None True b = Inr b1"
    and e: "push_edge_from (bstate b1) ANY_INPUT (Some (bstate b1)) True b1 = Inr (u, b2)"
    and b': "b' = b2\<lparr>last_edges := last_edges b2 @ [(bstate b2, ANY_INPUT, True)]\<rparr>"
    by (auto simp: push_any_def range_min_def range_max_def Let_def res_simps)
  obtain st' where st': "keeps_ids k st st'" and d: "depicts st' (draw_push ANY_INPUT True t k) b1"
    by (rule push_edge_next [OF b1 assms(2-4)])
  note D = depictsD [OF d]
  from draw_known [OF e [unfolded D(2)] d D(3) D(3)]
  have "depicts st' (draw_edge (at (draw_push ANY_INPUT True t k)) {ANY_INPUT} (at (draw_push ANY_INPUT True t k))
      (draw_push ANY_INPUT True t k)) b2" by simp
  then have "depicts st' (draw_repeat ANY_INPUT (draw_push ANY_INPUT True t k)) b'"
    using D(3) by (auto simp: depicts_def draw_repeat_def b')
  with st' that show thesis by blast
qed

text \<open>A restart with one byte, when the fallback state has an edge for it.\<close>

lemma restart_depicts:
  assumes "restart_with [c] b = Inr b'" and "depicts st k b" and "r \<in> places k" and "st r = ANY_STATE"
    and "paths k r (input_of c) = Some (t, a)"
  obtains b1 where "depicts st (draw_edge r (cases_of False (input_of c)) t k) b1"
    and "push_edge (input_of c) (Some (st t)) False b1 = Inr b'"
proof -
  note D = depictsD [OF assms(2)] and M = modelsD [OF depictsD(1) [OF assms(2)]]
  have "dfa_edge (bdfa b) ANY_STATE (input_of c) = Some (edge_at st (t, a))"
    using M(4) [OF assms(3)] assms(4,5) by (metis option.simps(9))
  then have "next_state (bdfa b) ANY_STATE (input_of c) = Inr (st t, bdfa b)"
    by (simp add: next_state_def edge_at_def)
  with assms(1) obtain u b1 where e: "push_edge_from (st r) (input_of c) (Some (st t)) False b = Inr (u, b1)"
    and p: "push_edge (input_of c) (Some (st t)) False b1 = Inr b'"
    by (auto simp: restart_with_def restart_step_def res_simps assms(4))
  from draw_known [OF e assms(2,3)] M(5) [OF assms(5)] p that show thesis by blast
qed

lemma link_known: "(\<And>i. i \<in> I \<Longrightarrow> \<exists>a. \<delta> s i = Some (t, a)) \<Longrightarrow> link s I t \<delta> = \<delta>"
  by (fastforce simp: link_def fun_eq_iff)

lemma depicts_start:
  "models st A \<delta> d \<Longrightarrow> s \<in> A \<Longrightarrow>
     depicts st \<lparr>places = A, paths = \<delta>, at = s, pending = [], skips = [], lasts = []\<rparr> (start_pattern d (st s))"
  by (simp add: depicts_def start_pattern_def)

lemma depicts_push_optional:
  assumes "depicts st k b"
  shows "depicts st (k\<lparr>pending := pending k @ [\<lparr>prefix_inputs = map input_of bs, prefix_case_sensitive = True,
      prefix_repeat = r\<rparr>]\<rparr>) (push_optional bs r b)"
  using assms by (simp add: depicts_def push_optional_def)

end
