(* ===== verification/Header_Automaton.thy ===== *)
theory Header_Automaton
  imports Dfa_Sketch Http1_Parser
begin

section \<open>The automaton of the header fields (\<open>beeper/src/http1/parser.rs\<close>)\<close>

text \<open>
  What \<open>capture_new_hdr\<close> and \<open>done_on_hdr_end\<close> are to build, as an automaton over named
  places, and that they build it: a line is read along the prefixes of the names asked for,
  a name, its colon and the white space around it lead to the value, and the value is read
  up to the end of the line.
\<close>

subsection \<open>The automaton\<close>

datatype place =
    Start
  | Anywhere
  | After_cr
  | Name bytes
  | Val bytes
  | Inside bytes
  | Val_cr bytes
  | Inside_cr bytes
  | End_cr
  | Ended

abbreviation lf where "lf \<equiv> input_of 0x0A"
abbreviation cr where "cr \<equiv> input_of 0x0D"
abbreviation tab where "tab \<equiv> input_of 0x09"
abbreviation sp where "sp \<equiv> input_of 0x20"
abbreviation colon where "colon \<equiv> input_of 0x3A"

text \<open>
  \<open>P\<close> holds the prefixes of the names, \<open>M\<close> the ids of those that are captured, \<open>fin\<close> says
  whether the end of the header was added.
\<close>

type_synonym names = "bytes set \<times> (bytes \<rightharpoonup> match_id) \<times> bool"

fun header_edge :: "names \<Rightarrow> (place, h1_action) automaton" where
  "header_edge (P, M, fin) Start i = None"
| "header_edge (P, M, fin) Anywhere i =
     (if i = lf \<and> [] \<in> P then Some (Name [], None) else if i = cr \<and> fin then Some (After_cr, None) else None)"
| "header_edge (P, M, fin) After_cr i = (if i = lf \<and> fin then Some (Name [], None) else None)"
| "header_edge (P, M, fin) (Name p) i =
     (if i \<le> 0xFF \<and> p \<in> P \<and> p @ [to_ascii_lowercase (ucast i)] \<in> P
      then Some (Name (p @ [to_ascii_lowercase (ucast i)]), None)
      else if p = [] \<and> fin \<and> i = cr then Some (End_cr, None)
      else if p = [] \<and> fin \<and> i = lf then Some (Ended, Some Done)
      else case M p of None \<Rightarrow> None
        | Some m \<Rightarrow> if i = tab \<or> i = sp then Some (Name p, None)
            else if i = colon then Some (Val p, Some (StartCapture m)) else None)"
| "header_edge (P, M, fin) (Val p) i =
     (case M p of None \<Rightarrow> None
      | Some m \<Rightarrow> if i = tab \<or> i = sp then Some (Val p, Some (StartCapture m))
          else if i = cr then Some (Val_cr p, None) else if i = lf then Some (Name [], None)
          else if i = ANY_INPUT then Some (Inside p, Some (EndCapture m)) else None)"
| "header_edge (P, M, fin) (Inside p) i =
     (case M p of None \<Rightarrow> None
      | Some m \<Rightarrow> if i = cr then Some (Inside_cr p, None) else if i = lf then Some (Name [], None)
          else if i = ANY_INPUT then Some (Inside p, Some (EndCapture m)) else None)"
| "header_edge (P, M, fin) (Val_cr p) i = (if M p \<noteq> None \<and> i = lf then Some (Name [], None) else None)"
| "header_edge (P, M, fin) (Inside_cr p) i = (if M p \<noteq> None \<and> i = lf then Some (Name [], None) else None)"
| "header_edge (P, M, fin) End_cr i = (if fin \<and> i = lf then Some (Ended, Some Done) else None)"
| "header_edge (P, M, fin) Ended i = None"

fun header_places :: "names \<Rightarrow> place set" where
  "header_places (P, M, fin) = {Start, Anywhere} \<union> (Name ` P \<union> Val ` dom M \<union> Inside ` dom M \<union> Val_cr ` dom M \<union>
     Inside_cr ` dom M \<union> (if fin then {After_cr, End_cr, Ended} else {}))"

definition token_byte :: "u8 \<Rightarrow> bool" where
  "token_byte c \<longleftrightarrow> c \<notin> {0x09, 0x0A, 0x0D, 0x20, 0x3A}"

definition lower_name :: "bytes \<Rightarrow> bool" where
  "lower_name name \<longleftrightarrow> name \<noteq> [] \<and> (\<forall>c \<in> set name. token_byte c \<and> to_ascii_lowercase c = c)"

definition names_ok :: "names \<Rightarrow> bool" where
  "names_ok = (\<lambda>(P, M, fin). (\<forall>p \<in> P. \<forall>c \<in> set p. token_byte c) \<and> dom M \<subseteq> P \<and> [] \<notin> dom M \<and>
     (\<forall>p c. p @ [c] \<in> P \<longrightarrow> p \<in> P) \<and> (fin \<longrightarrow> [] \<in> P))"

subsection \<open>A name\<close>

lemma ascii_lower_case:
  "to_ascii_lowercase c = c \<Longrightarrow> input_of d \<in> cases_of False (input_of c) \<longleftrightarrow> to_ascii_lowercase d = c"
proof -
  assume c: "to_ascii_lowercase c = c"
  have nu: "\<not> is_ascii_uppercase c"
    using c by (auto simp: to_ascii_lowercase_def split: if_splits)
  have "d = c - 0x20 \<longleftrightarrow> d + 0x20 = c" by auto
  with nu lower_sub [of c] upper_add [of d] show ?thesis
    by (auto simp: in_cases_of other_case_input_of to_ascii_lowercase_def)
qed


lemma names_okD:
  assumes "names_ok (P, M, fin)"
  shows "p \<in> P \<Longrightarrow> c \<in> set p \<Longrightarrow> token_byte c" and "M p = Some m \<Longrightarrow> p \<in> P" and "M [] = None"
    and "p @ [c] \<in> P \<Longrightarrow> p \<in> P" and "fin \<Longrightarrow> [] \<in> P" and "p @ [c] \<in> P \<Longrightarrow> token_byte c"
  using assms unfolding names_ok_def by (auto simp: domIff)

lemma names_ok_Nil: "names_ok (P, M, fin) \<Longrightarrow> p \<in> P \<Longrightarrow> [] \<in> P"
  by (induction p rule: rev_induct) (auto dest: names_okD)

lemma lower_specials [simp]:
  "to_ascii_lowercase 0x09 = 0x09" "to_ascii_lowercase 0x0A = 0x0A" "to_ascii_lowercase 0x0D = 0x0D"
  "to_ascii_lowercase 0x20 = 0x20" "to_ascii_lowercase 0x3A = 0x3A"
  by (simp_all add: to_ascii_lowercase_def is_ascii_uppercase_def)

lemma byte_input:
  assumes "i \<le> 0xFF"
  obtains c where "i = input_of c"
  using input_of_ucast [OF assms] that by metis

text \<open>The edge a byte of a name needs, and the one the line feed before it needs.\<close>

lemma link_name_byte:
  assumes ok: "names_ok (P, M, fin)" and p: "p \<in> P" and c: "token_byte c" "to_ascii_lowercase c = c"
  shows "link (Name p) (cases_of False (input_of c)) (Name (p @ [c])) (header_edge (P, M, fin)) =
    header_edge (insert (p @ [c]) P, M, fin)"
proof (intro ext)
  fix s i
  have in_cases: "i \<in> cases_of False (input_of c) \<longleftrightarrow> i \<le> 0xFF \<and> to_ascii_lowercase (ucast i) = c"
    using ascii_lower_case [OF c(2)] input_of_le other_case_Some(2)
    by (metis byte_input in_cases_of ucast_input_of)
  show "link (Name p) (cases_of False (input_of c)) (Name (p @ [c])) (header_edge (P, M, fin)) s i =
      header_edge (insert (p @ [c]) P, M, fin) s i"
  proof (cases s)
    case (Name q)
    have special: "\<not> (i = tab \<or> i = sp \<or> i = cr \<or> i = lf \<or> i = colon)" if "i \<in> cases_of False (input_of c)"
      using that c(1) unfolding in_cases by (auto simp: token_byte_def)
    show ?thesis
    proof (cases "q = p \<and> i \<in> cases_of False (input_of c)")
      case True
      then have i: "i \<le> 0xFF" "to_ascii_lowercase (ucast i) = c" and "q = p" by (simp_all add: in_cases)
      have "i \<noteq> tab" "i \<noteq> sp" "i \<noteq> cr" "i \<noteq> lf" "i \<noteq> colon" using special True by blast+
      then have "Option.bind (header_edge (P, M, fin) (Name p) i) snd = None"
        by (simp split: option.split)
      with True i p show ?thesis by (simp add: link_def Name)
    next
      case False
      let ?x = "to_ascii_lowercase (ucast i)"
      have rows: "(i \<le> 0xFF \<and> q \<in> insert (p @ [c]) P \<and> q @ [?x] \<in> insert (p @ [c]) P) =
          (i \<le> 0xFF \<and> q \<in> P \<and> q @ [?x] \<in> P)"
        using False p names_okD(4) [OF ok, of q ?x] unfolding in_cases by auto
      have "link (Name p) (cases_of False (input_of c)) (Name (p @ [c])) (header_edge (P, M, fin)) s i =
          header_edge (P, M, fin) (Name q) i"
        unfolding link_def Name using False by (metis place.inject(1))
      then show ?thesis unfolding Name header_edge.simps rows by simp
    qed
  qed (auto simp: link_def split: option.split)
qed

lemma link_line_start:
  assumes "names_ok (P, M, fin)"
  shows "link Anywhere {lf} (Name []) (header_edge (P, M, fin)) = header_edge (insert [] P, M, fin)"
proof (intro ext)
  fix s i
  have "x \<in> insert [] P \<and> x @ [y] \<in> insert [] P \<longleftrightarrow> x \<in> P \<and> x @ [y] \<in> P" for x y
    using names_okD(4) [OF assms, of x y] by auto
  then show "link Anywhere {lf} (Name []) (header_edge (P, M, fin)) s i = header_edge (insert [] P, M, fin) s i"
    by (cases s) (simp_all add: link_def)
qed

definition sketch_of :: "names \<Rightarrow> (place, h1_action) sketch \<Rightarrow> bool" where
  "sketch_of N k \<longleftrightarrow> places k = header_places N \<and> paths k = header_edge N \<and> pending k = [] \<and> skips k = []"

lemma names_ok_insert:
  "names_ok (P, M, fin) \<Longrightarrow> p \<in> P \<Longrightarrow> token_byte c \<Longrightarrow> names_ok (insert (p @ [c]) P, M, fin)"
  unfolding names_ok_def by auto

lemma push_name:
  assumes "push_ci cs b = Inr b'" and "depicts st k b" and "sketch_of (P, M, fin) k" and "at k = Name p"
    and "names_ok (P, M, fin)" and "p \<in> P" and "\<forall>c \<in> set cs. token_byte c \<and> to_ascii_lowercase c = c"
  obtains st' k' P' where "keeps_ids k st st'" and "depicts st' k' b'" and "sketch_of (P', M, fin) k'"
    and "at k' = Name (p @ cs)" and "names_ok (P', M, fin)" and "P \<subseteq> P'" and "p @ cs \<in> P'"
proof -
  have "\<exists>st' k' P'. keeps_ids k st st' \<and> depicts st' k' b' \<and> sketch_of (P', M, fin) k' \<and>
    at k' = Name (p @ cs) \<and> names_ok (P', M, fin) \<and> P \<subseteq> P' \<and> p @ cs \<in> P'"
    using assms
  proof (induction cs arbitrary: b st k P p)
    case Nil
    then show ?case by (intro exI [of _ st] exI [of _ k] exI [of _ P]) (simp add: push_ci_def push_inner_def)
  next
    case (Cons c cs)
    note sk = Cons.prems(3) [unfolded sketch_of_def]
    from Cons.prems(1) obtain b1 where e: "push_edge (input_of c) None False b = Inr b1"
      and r: "push_ci cs b1 = Inr b'"
      by (auto simp: push_ci_def push_inner_def res_simps)
    have pre: "push_optional_prefixes b = Inr b"
      using e prefixes_none [OF _ Cons.prems(2)] sk by (auto simp: push_edge_def res_simps)
    have c: "token_byte c" "to_ascii_lowercase c = c" using Cons.prems(7) by simp_all
    have "fits k (at k) (input_of c) (Name (p @ [c]))"
      using sk Cons.prems(4,6) c input_of_le [of c] names_okD(4) [OF Cons.prems(5), of p c]
      by (auto simp: fits_def token_byte_def split: option.split)
    with push_edge_next [OF e pre Cons.prems(2)] obtain st1
      where st1: "keeps_ids k st st1" and k1: "depicts st1 (draw_push (input_of c) False (Name (p @ [c])) k) b1"
      by blast
    let ?k = "draw_push (input_of c) False (Name (p @ [c])) k" and ?P = "insert (p @ [c]) P"
    have "sketch_of (?P, M, fin) ?k"
      using sk Cons.prems(4) link_name_byte [OF Cons.prems(5,6) c] by (auto simp: sketch_of_def)
    moreover have "names_ok (?P, M, fin)" using names_ok_insert [OF Cons.prems(5,6) c(1)] .
    ultimately obtain st' k' P' where "keeps_ids ?k st1 st'" "depicts st' k' b'" "sketch_of (P', M, fin) k'"
      "at k' = Name (p @ c # cs)" "names_ok (P', M, fin)" "?P \<subseteq> P'" "p @ c # cs \<in> P'"
      using Cons.IH [OF r k1, of ?P "p @ [c]"] Cons.prems(7) by auto
    moreover have "places k \<subseteq> places ?k" using sk by auto
    ultimately show ?case using keeps_ids_trans [OF st1] by blast
  qed
  with that show thesis by blast
qed

subsection \<open>A header field\<close>

text \<open>Spaces and tabs.\<close>

lemma space_depicts:
  assumes "push_optional_prefixes (push_optional SP True (push_optional TAB True b)) = Inr c" and k: "depicts st k b"
    and "pending k = []" and "skips k = []"
  shows "depicts st (draw_repeat sp (draw_repeat tab k)) c"
proof -
  let ?k = "k\<lparr>pending := [repeated tab, repeated sp]\<rparr>"
  have "depicts st (k\<lparr>pending := [repeated tab]\<rparr>) (push_optional TAB True b)"
    using depicts_push_optional [OF k, of TAB True] assms(3) by (simp add: TAB_def)
  from depicts_push_optional [OF this, of SP True]
  have k1: "depicts st ?k (push_optional SP True (push_optional TAB True b))" by (simp add: SP_def)
  have k0: "?k\<lparr>pending := []\<rparr> = k" using assms(3) by (cases k) simp
  have "skips ?k = []" and "pending ?k = [repeated tab, repeated sp]" using assms(4) by simp_all
  from prefixes_space [OF assms(1) k1 this] show ?thesis unfolding k0 .
qed

text \<open>An optional carriage return and a line feed, after which the next line starts.\<close>

lemma line_end_depicts:
  assumes run: "run_chain [Push_optional CR False, Restart_with LF] b = Inr b'" and k: "depicts st k b"
    and "pending k = []" and "skips k = []" and "Anywhere \<in> places k" and any: "st Anywhere = ANY_STATE"
    and start: "paths k Anywhere lf = Some (Name [], a)" and free: "paths k (at k) cr = None" "x \<notin> places k"
    and "at k \<noteq> Anywhere"
  obtains st' k' where "keeps_ids k st st'" and "depicts st' k' b'" and "places k' = insert x (places k)"
    and "paths k' = link x {lf} (Name []) (link (at k) {lf} (Name []) (link (at k) {cr} x (paths k)))"
proof -
  let ?k = "k\<lparr>pending := [optional cr]\<rparr>"
  have k1: "depicts st ?k (push_optional CR False b)"
    using depicts_push_optional [OF k, of CR False] assms(3) by (simp add: CR_def)
  from run have r: "restart_with [0x0A] (push_optional CR False b) = Inr b'"
    by (simp add: LF_def res_simps)
  have lf: "cases_of False lf = {lf}" by (simp add: cases_of_def other_case_input_of is_ascii_lowercase_def is_ascii_uppercase_def)
  obtain b1 where k2: "depicts st (draw_edge Anywhere (cases_of False lf) (Name []) ?k) b1"
    and e: "push_edge lf (Some (st (Name []))) False b1 = Inr b'"
    by (rule restart_depicts [OF r k1, of Anywhere "Name []" a]) (use assms(5) any start in simp_all)
  let ?k2 = "draw_edge Anywhere (cases_of False lf) (Name []) ?k"
  from e obtain b2 where p: "push_optional_prefixes b1 = Inr b2" by (auto simp: push_edge_def res_simps)
  have paths: "paths ?k2 = paths k"
    using link_known [of "{lf}" "paths k" Anywhere "Name []"] start by (simp add: lf)
  have n: "Name [] \<in> places k" using modelsD(5) [OF depictsD(1) [OF k]] start by blast
  obtain st' where st': "keeps_ids ?k2 st st'" and k3: "depicts st' (draw_once cr x (?k2\<lparr>pending := []\<rparr>)) b2"
  proof (rule prefixes_once [OF p k2])
    show "fits ?k2 (at ?k2) cr x"
      using free n paths by (auto simp: fits_def)
    show "x \<noteq> at ?k2" using free(2) depictsD(3) [OF k] by auto
  qed (use assms(4) in simp_all)
  let ?k3 = "draw_once cr x (?k2\<lparr>pending := []\<rparr>)"
  have "st (Name []) = st' (Name [])" using st' n by (simp add: keeps_ids_def)
  with push_edge_known [OF _ p k3, of lf "Name []" False b'] e n
  have "depicts st' (draw_push lf False (Name []) ?k3) b'" by simp
  moreover have "keeps_ids k st st'" using st' by (auto simp: keeps_ids_def)
  moreover have "places (draw_push lf False (Name []) ?k3) = insert x (places k)"
    using n assms(5) by auto
  moreover have "paths (draw_push lf False (Name []) ?k3) =
      link x {lf} (Name []) (link (at k) {lf} (Name []) (link (at k) {cr} x (paths k)))"
    using paths by (simp add: lf)
  ultimately show thesis using that by blast
qed

definition name_paths :: "bytes \<Rightarrow> match_id \<Rightarrow> (place, h1_action) automaton \<Rightarrow> (place, h1_action) automaton" where
  "name_paths n m \<delta> =
     label (StartCapture m) (Val n) {sp} (label (StartCapture m) (Val n) {tab}
       (label (StartCapture m) (Name n) {colon} (link (Val n) {sp} (Val n) (link (Val n) {tab} (Val n)
         (link (Name n) {colon} (Val n) (link (Name n) {sp} (Name n) (link (Name n) {tab} (Name n) \<delta>)))))))"

lemma name_calls_depicts:
  assumes run: "run_chain (name_calls n m) (start_pattern d ANY_STATE) = Inr b"
    and models: "models st (header_places (P, M, False)) (header_edge (P, M, False)) d" and any: "st Anywhere = ANY_STATE"
    and ok: "names_ok (P, M, False)" and n: "lower_name n" "M n = None"
  obtains st' k P' where "\<And>s. s \<in> header_places (P, M, False) \<Longrightarrow> st' s = st s"
    and "depicts st' k b" and "at k = Val n" and "pending k = []" and "skips k = []"
    and "places k = insert (Val n) (header_places (P', M, False))"
    and "paths k = name_paths n m (header_edge (P', M, False))" and "names_ok (P', M, False)" and "P \<subseteq> P'" and "n \<in> P'"
proof -
  let ?k0 = "\<lparr>places = header_places (P, M, False), paths = header_edge (P, M, False),
        at = Anywhere, pending = [], skips = [], lasts = []\<rparr>"
  have k0: "depicts st ?k0 (start_pattern d ANY_STATE)"
    using depicts_start [OF models, of Anywhere] by (simp add: any)
  from run obtain b1 b2 b3 where b1: "push_edge lf None True (start_pattern d ANY_STATE) = Inr b1"
    and b2: "push_ci n b1 = Inr b2"
    and b3: "push_edge colon None False (push_optional SP True (push_optional TAB True b2)) = Inr b3"
    and b4: "with_action (StartCapture m) (push_optional SP True (push_optional TAB True b3)) = Inr b"
    by (auto simp: name_calls_def res_simps push_def push_ci_def push_inner_def LF_def bytes_of_def)
  have p0: "push_optional_prefixes (start_pattern d ANY_STATE) = Inr (start_pattern d ANY_STATE)"
    using b1 prefixes_none [OF _ k0] by (auto simp: push_edge_def res_simps)
  have none: "[] \<notin> P \<Longrightarrow> P = {}" using names_ok_Nil [OF ok] by auto
  obtain st1 where st1: "keeps_ids ?k0 st st1" and k1: "depicts st1 (draw_push lf True (Name []) ?k0) b1"
    by (rule push_edge_next [OF b1 p0 k0, of "Name []"]) (auto simp: fits_def)
  let ?k1 = "draw_push lf True (Name []) ?k0"
  have sk1: "sketch_of (insert [] P, M, False) ?k1"
    using link_line_start [OF ok] by (auto simp: sketch_of_def)
  have ok1: "names_ok (insert [] P, M, False)" using ok by (auto simp: names_ok_def)
  obtain st2 k2 P' where st2: "keeps_ids ?k1 st1 st2" and k2: "depicts st2 k2 b2" and sk2: "sketch_of (P', M, False) k2"
    and at2: "at k2 = Name n" and ok2: "names_ok (P', M, False)" and P': "insert [] P \<subseteq> P'" "n \<in> P'"
  proof (rule push_name [OF b2 k1 sk1 _ ok1, of "[]"])
    show "\<forall>c \<in> set n. token_byte c \<and> to_ascii_lowercase c = c" using n(1) by (simp add: lower_name_def)
  qed auto
  note s2 = sk2 [unfolded sketch_of_def]
  let ?c2 = "push_optional SP True (push_optional TAB True b2)" and ?k3 = "draw_repeat sp (draw_repeat tab k2)"
  from b3 obtain c3 where c3: "push_optional_prefixes ?c2 = Inr c3" by (auto simp: push_edge_def res_simps)
  have k3: "depicts st2 ?k3 c3"
    using space_depicts [OF c3 k2] s2 by simp
  have colon: "cases_of False colon = {colon}"
    by (simp add: cases_of_def other_case_input_of is_ascii_lowercase_def is_ascii_uppercase_def)
  have fit: "fits ?k3 (at ?k3) colon (Val n)"
  proof -
    have "n @ [0x3A] \<notin> P'" using names_okD(6) [OF ok2, of n "0x3A"] by (auto simp: token_byte_def)
    then have "header_edge (P', M, False) (Name n) colon = None" by (simp add: n(2))
    moreover have "Val n \<notin> header_places (P', M, False)" using n(2) by auto
    ultimately show ?thesis using s2 at2 by (simp add: fits_def link_def)
  qed
  obtain st3 where st3: "keeps_ids ?k3 st2 st3" and k4: "depicts st3 (draw_push colon False (Val n) ?k3) b3"
    by (rule push_edge_next [OF b3 c3 k3 fit])
  let ?k4 = "draw_push colon False (Val n) ?k3"
  let ?c4 = "push_optional SP True (push_optional TAB True b3)" and ?k5 = "draw_repeat sp (draw_repeat tab ?k4)"
  from b4 obtain c4 where c4: "push_optional_prefixes ?c4 = Inr c4" by (auto simp: with_action_def res_simps)
  have k5: "depicts st3 ?k5 c4"
    by (rule space_depicts [OF c4 k4]) (use s2 in simp_all)
  let ?final = "fold (draw_label (StartCapture m)) (lasts ?k5) ?k5"
  have k: "depicts st3 ?final b" by (rule with_depicts [OF b4 c4 k5])
  have labels: "?final = ?k5\<lparr>paths := name_paths n m (header_edge (P', M, False))\<rparr>"
    using s2 at2 by (simp add: name_paths_def colon)
  have "st3 s = st s" if s: "s \<in> header_places (P, M, False)" for s
  proof -
    have k: "s \<in> places ?k0" "s \<in> places ?k1" "s \<in> places ?k3" using s s2 P'(1) by auto
    have "st1 s = st s" using st1 k(1) unfolding keeps_ids_def by blast
    moreover have "st2 s = st1 s" using st2 k(2) unfolding keeps_ids_def by blast
    moreover have "st3 s = st2 s" using st3 k(3) unfolding keeps_ids_def by blast
    ultimately show ?thesis by simp
  qed
  then show thesis
    by (rule that [OF _ k, of P', unfolded labels]) (use s2 at2 ok2 P' in auto)
qed


definition value_paths :: "bytes \<Rightarrow> match_id \<Rightarrow> (place, h1_action) automaton \<Rightarrow> (place, h1_action) automaton" where
  "value_paths n m \<delta> =
     link (Val_cr n) {lf} (Name []) (link (Val n) {lf} (Name []) (link (Val n) {cr} (Val_cr n)
       (link (Inside_cr n) {lf} (Name []) (link (Inside n) {lf} (Name []) (link (Inside n) {cr} (Inside_cr n)
         (label (EndCapture m) (Inside n) {ANY_INPUT} (label (EndCapture m) (Val n) {ANY_INPUT}
           (link (Inside n) {ANY_INPUT} (Inside n) (link (Val n) {ANY_INPUT} (Inside n) \<delta>)))))))))"

lemma header_paths:
  assumes ok: "names_ok (P, M, False)" and n: "M n = None" "n \<in> P"
  shows "value_paths n m (name_paths n m (header_edge (P, M, False))) = header_edge (P, M(n \<mapsto> m), False)"
proof (intro ext)
  fix s i
  have P: "n @ [0x09] \<notin> P" "n @ [0x20] \<notin> P" "n @ [0x3A] \<notin> P"
    using names_okD(6) [OF ok, of n] by (auto simp: token_byte_def)
  show "value_paths n m (name_paths n m (header_edge (P, M, False))) s i = header_edge (P, M(n \<mapsto> m), False) s i"
  proof (cases s)
    case (Name q)
    have "value_paths n m (name_paths n m (header_edge (P, M, False))) (Name q) i =
        label (StartCapture m) (Name n) {colon} (link (Name n) {colon} (Val n)
         (link (Name n) {sp} (Name n) (link (Name n) {tab} (Name n) (header_edge (P, M, False))))) (Name q) i"
      by (simp add: value_paths_def name_paths_def label_apply link_apply)
    also have "\<dots> = header_edge (P, M(n \<mapsto> m), False) (Name q) i"
      using P n by (cases "q = n"; cases "i = colon"; cases "i = sp"; cases "i = tab") (simp_all add: link_apply label_apply)
    finally show ?thesis by (simp add: Name)
  next
    case (Val q)
    show ?thesis
      using n unfolding Val
      by (cases "q = n"; cases "i = tab"; cases "i = sp"; cases "i = cr"; cases "i = lf"; cases "i = ANY_INPUT")
        (simp_all add: value_paths_def name_paths_def link_apply label_apply)
  next
    case (Inside q)
    show ?thesis
      using n unfolding Inside
      by (cases "q = n"; cases "i = cr"; cases "i = lf"; cases "i = ANY_INPUT")
        (simp_all add: value_paths_def name_paths_def link_apply label_apply)
  qed (use n in \<open>simp_all add: value_paths_def name_paths_def link_apply label_apply\<close>)
qed


text \<open>The pattern of a header field makes the automaton of one name more.\<close>

lemma header_pattern_models:
  assumes run: "header_pattern n m d = Inr d'"
    and models: "models st (header_places (P, M, False)) (header_edge (P, M, False)) d" and any: "st Anywhere = ANY_STATE"
    and ok: "names_ok (P, M, False)" and n: "lower_name n" "M n = None"
  obtains st' P' where "models st' (header_places (P', M(n \<mapsto> m), False)) (header_edge (P', M(n \<mapsto> m), False)) d'"
    and "st' Anywhere = ANY_STATE" and "st' Start = st Start" and "names_ok (P', M(n \<mapsto> m), False)" and "P \<subseteq> P'"
proof -
  from run obtain b1 b2 b3 where b1: "run_chain (name_calls n m) (start_pattern d ANY_STATE) = Inr b1"
    and b2: "run_chain (value_calls m) b1 = Inr b2"
    and b3: "run_chain empty_value_calls (start_pattern (bdfa b2) (bstate b1)) = Inr b3" and d': "d' = bdfa b3"
    by (auto simp: header_pattern_def Let_def res_simps)
  obtain st1 k1 P' where st1: "\<And>s. s \<in> header_places (P, M, False) \<Longrightarrow> st1 s = st s"
    and k1: "depicts st1 k1 b1" and at1: "at k1 = Val n" and pend1: "pending k1 = []" "skips k1 = []"
    and pl1: "places k1 = insert (Val n) (header_places (P', M, False))"
    and pa1: "paths k1 = name_paths n m (header_edge (P', M, False))"
    and ok1: "names_ok (P', M, False)" and P': "P \<subseteq> P'" "n \<in> P'"
    by (rule name_calls_depicts [OF b1 models any ok n]) blast
  have nil: "[] \<in> P'" using names_ok_Nil [OF ok1 P'(2)] .
  from b2 obtain c1 c2 where c1: "push_any (Included 1) Unbounded b1 = Inr c1"
    and c2: "with_action (EndCapture m) c1 = Inr c2"
    and c3: "run_chain [Push_optional CR False, Restart_with LF] c2 = Inr b2"
    by (auto simp: value_calls_def res_simps)
  have any1: "st1 Anywhere = ANY_STATE" using st1 any by simp
  have p1: "push_optional_prefixes b1 = Inr b1"
    using depictsD(4) [OF k1] pend1(1) by (cases b1) (simp add: push_optional_prefixes_def)
  have row1: "paths k1 (Val n) ANY_INPUT = None"
    by (simp add: pa1 name_paths_def link_apply label_apply n(2))
  obtain st2 where st2: "keeps_ids k1 st1 st2"
    and k2: "depicts st2 (draw_repeat ANY_INPUT (draw_push ANY_INPUT True (Inside n) k1)) c1"
    by (rule push_any_depicts [OF c1 p1 k1, of "Inside n"]) (use row1 n(2) in \<open>auto simp: at1 fits_def pl1\<close>)
  let ?k2 = "draw_repeat ANY_INPUT (draw_push ANY_INPUT True (Inside n) k1)"
  have p2: "push_optional_prefixes c1 = Inr c1"
    using depictsD(4) [OF k2] pend1 by (cases c1) (simp add: push_optional_prefixes_def)
  let ?k3 = "?k2\<lparr>paths := label (EndCapture m) (Inside n) {ANY_INPUT} (label (EndCapture m) (Val n) {ANY_INPUT}
           (link (Inside n) {ANY_INPUT} (Inside n) (link (Val n) {ANY_INPUT} (Inside n) (paths k1))))\<rparr>"
  have k3: "depicts st2 ?k3 c2"
    using with_depicts [OF c2 p2 k2] pend1 by (simp add: at1)
  have start: "paths ?k3 Anywhere lf = Some (Name [], None)"
    by (simp add: pa1 name_paths_def link_apply label_apply nil)
  have any2: "st2 Anywhere = ANY_STATE" using st2 any1 by (simp add: keeps_ids_def pl1)
  obtain st3 k4 where st3: "keeps_ids ?k3 st2 st3" and k4: "depicts st3 k4 b2"
    and pl4: "places k4 = insert (Inside_cr n) (places ?k3)"
    and pa4: "paths k4 = link (Inside_cr n) {lf} (Name []) (link (at ?k3) {lf} (Name []) (link (at ?k3) {cr} (Inside_cr n) (paths ?k3)))"
  proof (rule line_end_depicts [OF c3 k3 _ _ _ any2 start, of "Inside_cr n"])
    show "paths ?k3 (at ?k3) cr = None" using n(2) by (simp add: pa1 name_paths_def link_apply label_apply)
    show "Inside_cr n \<notin> places ?k3" using n(2) pend1 by (auto simp: pl1 at1)
  qed (use pend1 in \<open>simp_all add: pl1\<close>)
  have pl4': "places k4 = insert (Inside_cr n) (insert (Inside n) (insert (Val n) (header_places (P', M, False))))"
    using pl4 pend1 by (auto simp: pl1 at1)
  let ?k5 = "\<lparr>places = places k4, paths = paths k4, at = Val n, pending = [], skips = [], lasts = []\<rparr>"
  have "st3 (Val n) = bstate b1"
    using st2 st3 depictsD(2) [OF k1] pend1 by (simp add: keeps_ids_def pl1 at1)
  then have k5: "depicts st3 ?k5 (start_pattern (bdfa b2) (bstate b1))"
    using depicts_start [OF depictsD(1) [OF k4], of "Val n"] by (simp add: pl4')
  have any3: "st3 Anywhere = ANY_STATE" using st3 any2 pend1 by (simp add: keeps_ids_def pl1)
  have pa4': "paths k4 = link (Inside_cr n) {lf} (Name []) (link (Inside n) {lf} (Name []) (link (Inside n) {cr} (Inside_cr n)
      (paths ?k3)))" using pa4 by simp
  have start5: "paths ?k5 Anywhere lf = Some (Name [], None)" using start by (simp add: pa4' link_apply)
  have c5: "run_chain [Push_optional CR False, Restart_with LF] (start_pattern (bdfa b2) (bstate b1)) = Inr b3"
    using b3 by (simp add: empty_value_calls_def)
  obtain st4 k6 where st4: "keeps_ids ?k5 st3 st4" and k6: "depicts st4 k6 b3"
    and pl6: "places k6 = insert (Val_cr n) (places ?k5)"
    and pa6: "paths k6 = link (Val_cr n) {lf} (Name []) (link (at ?k5) {lf} (Name []) (link (at ?k5) {cr} (Val_cr n) (paths ?k5)))"
  proof (rule line_end_depicts [OF c5 k5 _ _ _ any3 start5, of "Val_cr n"])
    show "paths ?k5 (at ?k5) cr = None"
      using n(2) by (simp add: pa4' pa1 name_paths_def link_apply label_apply)
    show "Val_cr n \<notin> places ?k5" using n(2) by (auto simp: pl4')
  qed (simp_all add: pl4')
  have "paths k6 = header_edge (P', M(n \<mapsto> m), False)"
    using header_paths [OF ok1 n(2) P'(2), of m] by (simp add: pa6 pa4' pa1 value_paths_def)
  moreover have "places k6 = header_places (P', M(n \<mapsto> m), False)"
    by (auto simp: pl6 pl4')
  moreover have "st4 Anywhere = ANY_STATE" using st4 any3 by (simp add: keeps_ids_def pl4')
  moreover have "st4 Start = st Start"
    using st1 [of Start] st2 st3 st4 pend1 by (simp add: keeps_ids_def pl1 pl4')
  moreover have "names_ok (P', M(n \<mapsto> m), False)" using ok1 P'(2) n(1) by (auto simp: names_ok_def lower_name_def)
  ultimately show thesis using that depictsD(1) [OF k6] P'(1) unfolding d' by metis
qed

subsection \<open>The end of the header\<close>

lemma hdr_end_paths:
  assumes "names_ok (P, M, False)"
  shows "label Done End_cr {lf} (label Done (Name []) {lf} (link End_cr {lf} Ended (link (Name []) {lf} Ended
    (link (Name []) {cr} End_cr (link After_cr {lf} (Name []) (link Anywhere {lf} (Name [])
      (link Anywhere {cr} After_cr (header_edge (P, M, False))))))))) = header_edge (insert [] P, M, True)"
    (is "?lhs = _")
proof (intro ext)
  fix s i
  have P: "[0x0A] \<notin> P" "[0x0D] \<notin> P"
    using names_okD(6) [OF assms, of "[]"] by (auto simp: token_byte_def)
  have sub: "x \<in> insert [] P \<and> x @ [y] \<in> insert [] P \<longleftrightarrow> x \<in> P \<and> x @ [y] \<in> P" for x y
    using names_okD(4) [OF assms, of x y] by auto
  note M = names_okD(3) [OF assms]
  show "?lhs s i = header_edge (insert [] P, M, True) s i"
  proof (cases s)
    case (Name q)
    show ?thesis
    proof (cases "q = [] \<and> (i = lf \<or> i = cr)")
      case True
      with P M show ?thesis by (auto simp: Name link_apply label_apply)
    next
      case False
      then have "?lhs s i = header_edge (P, M, False) (Name q) i" by (auto simp: Name link_apply label_apply)
      with False show ?thesis unfolding Name header_edge.simps sub by auto
    qed
  qed (simp_all add: link_apply label_apply)
qed

lemma optional_cr_lf_depicts:
  assumes run: "run_chain [Push_optional CR False, Push LF] b = Inr b'" and k: "depicts st k b"
    and pend: "pending k = []" "skips k = []"
    and free: "paths k (at k) cr = None" "x \<notin> places k" and fit: "fits k (at k) lf t" "t \<noteq> x"
  obtains st' where "keeps_ids k st st'" and "depicts st' (draw_push lf True t (draw_once cr x k)) b'"
proof -
  let ?k = "k\<lparr>pending := [optional cr]\<rparr>"
  have k1: "depicts st ?k (push_optional CR False b)"
    using depicts_push_optional [OF k, of CR False] pend(1) by (simp add: CR_def)
  from run have e: "push_edge lf None True (push_optional CR False b) = Inr b'"
    by (simp add: LF_def push_def push_inner_def res_simps)
  then obtain c where c: "push_optional_prefixes (push_optional CR False b) = Inr c"
    by (auto simp: push_edge_def res_simps)
  have k0: "?k\<lparr>pending := []\<rparr> = k" using pend(1) by (cases k) simp
  obtain st1 where st1: "keeps_ids ?k st st1" and k2: "depicts st1 (draw_once cr x k) c"
    by (rule prefixes_once [OF c k1, of cr x, unfolded k0])
      (use pend(2) free depictsD(3) [OF k] in \<open>auto simp: fits_def\<close>)
  have "fits (draw_once cr x k) (at (draw_once cr x k)) lf t"
    using fit by (auto simp: fits_def link_apply split: option.splits)
  from push_edge_next [OF e c k2 this] obtain st2 where st2: "keeps_ids (draw_once cr x k) st1 st2"
    and k3: "depicts st2 (draw_push lf True t (draw_once cr x k)) b'" by blast
  have "keeps_ids k st st2" using st1 st2 by (simp add: keeps_ids_def)
  with k3 that show thesis by blast
qed

lemma done_on_hdr_end_models:
  assumes run: "add_pattern ANY_STATE hdr_end_calls d = Inr d'"
    and models: "models st (header_places (P, M, False)) (header_edge (P, M, False)) d" and any: "st Anywhere = ANY_STATE"
    and ok: "names_ok (P, M, False)"
  obtains st' where "models st' (header_places (insert [] P, M, True)) (header_edge (insert [] P, M, True)) d'"
    and "st' Anywhere = ANY_STATE" and "st' Start = st Start" and "names_ok (insert [] P, M, True)"
proof -
  let ?k0 = "\<lparr>places = header_places (P, M, False), paths = header_edge (P, M, False),
        at = Anywhere, pending = [], skips = [], lasts = []\<rparr>"
  have k0: "depicts st ?k0 (start_pattern d ANY_STATE)"
    using depicts_start [OF models, of Anywhere] by (simp add: any)
  from run obtain b1 b2 b3 where b1: "run_chain [Push_optional CR False, Push LF] (start_pattern d ANY_STATE) = Inr b1"
    and b2: "run_chain [Push_optional CR False, Push LF] b1 = Inr b2"
    and b3: "with_action Done b2 = Inr b3" and d': "d' = bdfa b3"
    by (auto simp: add_pattern_def hdr_end_calls_def res_simps)
  have none: "[] \<notin> P \<Longrightarrow> P = {}" using names_ok_Nil [OF ok] by auto
  obtain st1 where st1: "keeps_ids ?k0 st st1"
    and k1: "depicts st1 (draw_push lf True (Name []) (draw_once cr After_cr ?k0)) b1"
    by (rule optional_cr_lf_depicts [OF b1 k0, of After_cr "Name []"]) (auto simp: fits_def)
  let ?k1 = "draw_push lf True (Name []) (draw_once cr After_cr ?k0)"
  have P: "[0x0A] \<notin> P" "[0x0D] \<notin> P"
    using names_okD(6) [OF ok, of "[]"] by (auto simp: token_byte_def)
  have rows: "paths ?k1 (Name []) cr = None" "paths ?k1 (Name []) lf = None"
    using P names_okD(3) [OF ok] by (simp_all add: link_apply)
  obtain st2 where st2: "keeps_ids ?k1 st1 st2"
    and k2: "depicts st2 (draw_push lf True Ended (draw_once cr End_cr ?k1)) b2"
    by (rule optional_cr_lf_depicts [OF b2 k1, of End_cr Ended]) (use rows in \<open>auto simp: fits_def\<close>)
  let ?k2 = "draw_push lf True Ended (draw_once cr End_cr ?k1)"
  have p2: "push_optional_prefixes b2 = Inr b2"
    using depictsD(4) [OF k2] by (cases b2) (simp add: push_optional_prefixes_def)
  have "models st2 (places ?k2) (paths (fold (draw_label Done) (lasts ?k2) ?k2)) (bdfa b3)"
    using depictsD(1) [OF with_depicts [OF b3 p2 k2]] by simp
  moreover have "paths (fold (draw_label Done) (lasts ?k2) ?k2) = header_edge (insert [] P, M, True)"
    using hdr_end_paths [OF ok] by simp
  moreover have "places ?k2 = header_places (insert [] P, M, True)" by auto
  moreover have "st2 Anywhere = ANY_STATE" "st2 Start = st Start" using st1 st2 any by (simp_all add: keeps_ids_def)
  moreover have "names_ok (insert [] P, M, True)" using ok by (auto simp: names_ok_def)
  ultimately show thesis using that unfolding d' by metis
qed


subsection \<open>Every parser of header fields has the automaton of its names\<close>

definition header_dfa :: "(place \<Rightarrow> state_id) \<Rightarrow> names \<Rightarrow> h1_action dfa \<Rightarrow> bool" where
  "header_dfa st N d \<longleftrightarrow> names_ok N \<and> models st (header_places N) (header_edge N) d \<and>
     st Start = INIT_STATE \<and> st Anywhere = ANY_STATE"

lemma header_dfa_new: "\<exists>st. header_dfa st ({}, Map.empty, False) dfa_new"
proof -
  let ?st = "\<lambda>s. if s = Start then INIT_STATE else ANY_STATE"
  have none: "header_edge ({}, Map.empty, False) s i = None" for s i by (cases s) simp_all
  have "models ?st (header_places ({}, Map.empty, False)) (header_edge ({}, Map.empty, False)) (dfa_new :: h1_action dfa)"
    unfolding models_def none
    by (simp add: dfa_new_def wf_reserved INIT_STATE_def ANY_STATE_def inj_on_def)
  then have "header_dfa ?st ({}, Map.empty, False) dfa_new"
    by (simp add: header_dfa_def names_ok_def)
  then show ?thesis by (intro exI [of _ ?st])
qed

lemma not_pseudo: "lower_name n \<Longrightarrow> n \<noteq> as_ref METHOD \<and> n \<noteq> as_ref PATH \<and> n \<noteq> as_ref STATUS"
proof -
  assume n: "lower_name n"
  have "0x3A \<in> set (as_ref METHOD)" "0x3A \<in> set (as_ref PATH)" "0x3A \<in> set (as_ref STATUS)"
    by (simp_all add: as_ref_def bytes_of_def pseudo_header_defs)
  with n show ?thesis by (auto simp: lower_name_def token_byte_def)
qed

lemma serve_header_dfa:
  assumes run: "h1_serve lower (Hdr name) p = (Inr (res, p') :: ('enc, 'bpf, 'plain) h1_result)"
    and hd: "header_dfa st (P, map_of (h1_captures p), False) (h1_dfa p)" and name: "lower_name (lower name)"
  shows "\<exists>st' P'. header_dfa st' (P', map_of (h1_captures p'), False) (h1_dfa p')"
proof (cases res)
  case (Inl e)
  with h1_capture_err [of lower name p e p'] run hd show ?thesis by auto
next
  case (Inr mid)
  show ?thesis
  proof (cases "map_of (h1_captures p) (lower name)")
    case (Some m)
    have "h1_capture_hdr lower name p = (Inr (Inr m, p) :: ('enc, 'bpf, 'plain) h1_result)"
      using Some by (simp add: h1_capture_known)
    with run have "p' = p" by simp
    with hd show ?thesis by blast
  next
    case None
    have "h1_capture_hdr lower name p = (Inr (Inr mid, p') :: ('enc, 'bpf, 'plain) h1_result)" using run Inr by simp
    then obtain d where d: "hdr_pattern (lower name) mid (h1_dfa p) = Inr d"
      and p': "p' = p\<lparr>h1_num_matches := h1_num_matches p + 1, h1_dfa := d,
                h1_captures := AList.update (lower name) mid (h1_captures p)\<rparr>"
      using None by (rule h1_capture_new)
    have "header_pattern (lower name) mid (h1_dfa p) = Inr d"
      using d not_pseudo [OF name] by (simp add: hdr_pattern_def)
    then obtain st' P' where "models st' (header_places (P', (map_of (h1_captures p))(lower name \<mapsto> mid), False))
        (header_edge (P', (map_of (h1_captures p))(lower name \<mapsto> mid), False)) d"
      and "st' Anywhere = ANY_STATE" "st' Start = st Start" "names_ok (P', (map_of (h1_captures p))(lower name \<mapsto> mid), False)"
      using hd None name unfolding header_dfa_def by (elim conjE) (rule header_pattern_models)
    with hd show ?thesis unfolding p' header_dfa_def by (auto simp: map_of_update)
  qed
qed

lemma serve_all_header_dfa:
  assumes "capture_all (h1_serve lower) (map Hdr names) p =
      Inr (res :: (('enc, 'bpf, 'plain) beeper_error + match_id) list, p')"
    and "header_dfa st (P, map_of (h1_captures p), False) (h1_dfa p)" and "\<forall>name \<in> set names. lower_name (lower name)"
  shows "\<exists>st' P'. header_dfa st' (P', map_of (h1_captures p'), False) (h1_dfa p')"
  using assms
proof (induction names arbitrary: p res st P)
  case (Cons name names)
  from Cons.prems(1) obtain x p1 xs where s: "h1_serve lower (Hdr name) p = (Inr (x, p1) :: ('enc, 'bpf, 'plain) h1_result)"
    and r: "capture_all (h1_serve lower) (map Hdr names) p1 =
        Inr (xs :: (('enc, 'bpf, 'plain) beeper_error + match_id) list, p')"
    by (auto simp: res_simps)
  from serve_header_dfa [OF s Cons.prems(2)] Cons.prems(3)
  obtain st1 P1 where "header_dfa st1 (P1, map_of (h1_captures p1), False) (h1_dfa p1)" by auto
  from Cons.IH [OF r this] Cons.prems(3) show ?case by simp
qed auto

lemma parser_header_dfa:
  assumes "capture_all (h1_serve lower) (map Hdr names) h1_new =
      Inr (res :: (('enc, 'bpf, 'plain) beeper_error + match_id) list, p)"
    and d: "add_pattern ANY_STATE hdr_end_calls (h1_dfa p) = Inr d" and "\<forall>name \<in> set names. lower_name (lower name)"
  obtains st P where "header_dfa st (P, map_of (h1_captures p), True) d"
proof -
  obtain st0 where "header_dfa st0 ({}, map_of (h1_captures h1_new), False) (h1_dfa h1_new)"
    using header_dfa_new by (auto simp: h1_new_def)
  from serve_all_header_dfa [OF assms(1) this assms(3)] obtain st P
    where hd: "header_dfa st (P, map_of (h1_captures p), False) (h1_dfa p)" by blast
  from hd have models: "models st (header_places (P, map_of (h1_captures p), False)) (header_edge (P, map_of (h1_captures p), False)) (h1_dfa p)"
    and any: "st Anywhere = ANY_STATE" and ok: "names_ok (P, map_of (h1_captures p), False)" and start: "st Start = INIT_STATE"
    by (simp_all add: header_dfa_def)
  obtain st' where "models st' (header_places (insert [] P, map_of (h1_captures p), True)) (header_edge (insert [] P, map_of (h1_captures p), True)) d"
    and "st' Anywhere = ANY_STATE" "st' Start = st Start" "names_ok (insert [] P, map_of (h1_captures p), True)"
    by (rule done_on_hdr_end_models [OF d models any ok])
  with start have "header_dfa st' (insert [] P, map_of (h1_captures p), True) d"
    by (simp add: header_dfa_def)
  then show thesis by (rule that)
qed

end
