(* ===== verification/Http1_Capture.thy ===== *)
theory Http1_Capture
  imports Header_Automaton Http1_Bpf
begin

section \<open>What a parser of header fields captures\<close>

text \<open>
  The program with the tables of a parser, run over a message: from the calls of
  \<open>capture_hdr\<close> to the ranges \<open>parse_msg\<close> finds. The DFA of the parser is the automaton of
  \<open>Header_Automaton\<close>, the program walks the DFA as \<open>Http1_Bpf\<close> shows, and what the walk
  captures of a message is read off the automaton, one part of a line at a time.
\<close>

subsection \<open>Steps between places\<close>

definition place_next :: "names \<Rightarrow> place \<Rightarrow> u8 \<Rightarrow> place \<times> h1_action option" where
  "place_next N s c = (case header_edge N s (input_of c) of
       Some e \<Rightarrow> e
     | None \<Rightarrow> (case header_edge N s ANY_INPUT of Some e \<Rightarrow> e | None \<Rightarrow> (Anywhere, None)))"

definition place_step :: "names \<Rightarrow> place \<Rightarrow> u8 \<Rightarrow> place \<times> h1_action option" where
  "place_step N s c = (case place_next N s c of
     (t, a) \<Rightarrow> if t = Anywhere then place_next N Anywhere c else (t, a))"

lemma base_places [simp]: "Start \<in> header_places N" "Anywhere \<in> header_places N"
  by (cases N; simp)+

lemma header_dfaD:
  assumes "header_dfa st N d"
  shows "models st (header_places N) (header_edge N) d" and "st Start = INIT_STATE" and "st Anywhere = ANY_STATE"
    and "names_ok N"
  using assms by (simp_all add: header_dfa_def)

lemma no_edge_to_start: "header_edge N s i = Some (t, a) \<Longrightarrow> t \<noteq> Start"
  by (cases N; cases s) (auto split: if_splits option.splits)

lemma live_edge_place:
  assumes "header_dfa st N d" and "s \<in> header_places N"
  shows "live_edge d (st s) i = map_option (edge_at st) (header_edge N s i)"
proof -
  note M = modelsD [OF header_dfaD(1) [OF assms(1)]]
  show ?thesis
  proof (cases "header_edge N s i")
    case (Some e)
    obtain t a where e: "e = (t, a)" by (cases e)
    have "t \<in> header_places N" "t \<noteq> Start"
      using M(5) no_edge_to_start Some unfolding e by blast+
    then have "st t \<noteq> st Start" using M(2) by (auto simp: inj_on_def)
    with header_dfaD(2) [OF assms(1)] M(4) [OF assms(2), of i] show ?thesis
      by (simp add: live_edge_def Some e edge_at_def)
  qed (use M(4) [OF assms(2), of i] in \<open>simp add: live_edge_def\<close>)
qed

lemma dfa_next_place:
  assumes "header_dfa st N d" and "s \<in> header_places N" and "place_next N s c = (t, a)"
  shows "dfa_next d (st s) c = (st t, a)" and "t \<in> header_places N"
proof -
  note M = modelsD [OF header_dfaD(1) [OF assms(1)]]
  note live = live_edge_place [OF assms(1,2)] and any = header_dfaD(3) [OF assms(1)]
  show "dfa_next d (st s) c = (st t, a)"
  proof (cases "header_edge N s (input_of c)")
    case (Some e)
    with assms(3) show ?thesis by (simp add: dfa_next_def live place_next_def edge_at_def)
  next
    case byte: None
    show ?thesis
    proof (cases "header_edge N s ANY_INPUT")
      case (Some e)
      with assms(3) byte show ?thesis by (simp add: dfa_next_def live place_next_def edge_at_def)
    next
      case None
      then have "t = Anywhere" "a = None" using assms(3) byte by (simp_all add: place_next_def)
      with None byte show ?thesis by (simp add: dfa_next_def live any)
    qed
  qed
  show "t \<in> header_places N"
    using assms(3) M(5) [of s _ t a] unfolding place_next_def by (auto split: option.splits)
qed

lemma dfa_step_place:
  assumes "header_dfa st N d" and "s \<in> header_places N" and "place_step N s c = (t, a)"
  shows "dfa_step d (st s) c = (st t, a)" and "t \<in> header_places N"
proof -
  obtain t1 a1 where 1: "place_next N s c = (t1, a1)" by (cases "place_next N s c")
  note n1 = dfa_next_place [OF assms(1,2) 1]
  note M = modelsD [OF header_dfaD(1) [OF assms(1)]] and any = header_dfaD(3) [OF assms(1)]
  have "st t1 = ANY_STATE \<longleftrightarrow> t1 = Anywhere"
    using inj_on_eq_iff [OF M(2) n1(2), of Anywhere] any by simp
  moreover have "dfa_next d ANY_STATE c = (st t, a) \<and> t \<in> header_places N" if "t1 = Anywhere"
    using dfa_next_place [OF assms(1), of Anywhere c t a] assms(3) that any by (simp add: place_step_def 1)
  ultimately show "dfa_step d (st s) c = (st t, a)" "t \<in> header_places N"
    using assms(3) n1 by (auto simp: dfa_step_def place_step_def 1 split: if_splits)
qed

subsection \<open>Walks between places\<close>

text \<open>
  \<open>walks i cs w j w'\<close>: from index \<open>i\<close> in \<open>w\<close>, the bytes \<open>cs\<close> are read without reaching the
  end of the header, and leave \<open>w'\<close>.
\<close>

definition walks :: "h1_action dfa \<Rightarrow> nat \<Rightarrow> bytes \<Rightarrow> h1_walk \<Rightarrow> h1_walk \<Rightarrow> bool" where
  "walks d i cs w w' \<longleftrightarrow> (\<forall>rest. dfa_loop d i (cs @ rest) w = dfa_loop d (i + length cs) rest w')"

lemma walks_Nil [simp]: "walks d i [] w w"
  by (simp add: walks_def)

lemma walks_append: "walks d i xs w w1 \<Longrightarrow> walks d (i + length xs) ys w1 w2 \<Longrightarrow> walks d i (xs @ ys) w w2"
  by (simp add: walks_def add.assoc)

lemma walks_Cons: "walks d i [c] w w1 \<Longrightarrow> walks d (i + 1) cs w1 w2 \<Longrightarrow> walks d i (c # cs) w w2"
  using walks_append [of d i "[c]" w w1 cs w2] by simp

definition at_place :: "(place \<Rightarrow> state_id) \<Rightarrow> names \<Rightarrow> place \<Rightarrow> h1_walk \<Rightarrow> bool" where
  "at_place st N s w \<longleftrightarrow> s \<in> header_places N \<and> w_state w = st s \<and> w_null_prefix w = None"

definition move :: "(place \<Rightarrow> state_id) \<Rightarrow> place \<Rightarrow> h1_action option \<Rightarrow> nat \<Rightarrow> h1_walk \<Rightarrow> h1_walk" where
  "move st t a i w = run_action (program_action a) i (w\<lparr>w_state := st t\<rparr>)"

lemma walks_step:
  assumes "header_dfa st N d" and "at_place st N s w" and "place_step N s c = (t, a)" and "a \<noteq> Some Done"
    and "\<And>m. a \<noteq> Some (EndCaptureAndDone m)"
  shows "walks d i [c] w (move st t a i w)" and "at_place st N t (move st t a i w)"
proof -
  note D = dfa_step_place [OF assms(1) _ assms(3)]
  from assms(2) have s: "s \<in> header_places N" "w_state w = st s" "w_null_prefix w = None" by (simp_all add: at_place_def)
  have "h1a_flags (program_action a) AND HTTP1F_DONE = 0"
    using assms(4,5) by (cases a rule: option.exhaust; cases "the a") (auto simp: program_action_def h1_no_action_def)
  with D s show "walks d i [c] w (move st t a i w)" by (simp add: walks_def move_def Let_def)
  show "at_place st N t (move st t a i w)" using D s by (simp add: at_place_def move_def)
qed


subsection \<open>The steps of a line\<close>

lemma any_not_byte [simp]: "\<not> ANY_INPUT \<le> 0xFF"
  by (simp add: ANY_INPUT_def)

lemma input_of_byte [simp]: "input_of c \<le> 0xFF"
  by (rule input_of_le)

definition text_byte :: "u8 \<Rightarrow> bool" where
  "text_byte c \<longleftrightarrow> c \<noteq> 0x0A \<and> c \<noteq> 0x0D"

definition space_byte :: "u8 \<Rightarrow> bool" where
  "space_byte c \<longleftrightarrow> c = 0x09 \<or> c = 0x20"

lemma token_byteD: "token_byte c \<Longrightarrow> c \<noteq> 0x09 \<and> c \<noteq> 0x0A \<and> c \<noteq> 0x0D \<and> c \<noteq> 0x20 \<and> c \<noteq> 0x3A"
  by (simp add: token_byte_def)

lemma step_anywhere:
  assumes "text_byte c"
  shows "place_step (P, M, True) Anywhere c = (Anywhere, None)" "place_step (P, M, True) Start c = (Anywhere, None)"
  using assms by (simp_all add: place_step_def place_next_def text_byte_def)

lemma step_line_end:
  assumes "[] \<in> P"
  shows "place_step (P, M, True) Anywhere 0x0A = (Name [], None)" "place_step (P, M, True) Start 0x0A = (Name [], None)"
    "place_step (P, M, True) Anywhere 0x0D = (After_cr, None)" "place_step (P, M, True) Start 0x0D = (After_cr, None)"
    "place_step (P, M, True) After_cr 0x0A = (Name [], None)"
  using assms by (simp_all add: place_step_def place_next_def)

lemma step_value_end:
  assumes "M p = Some m"
  shows "place_step (P, M, True) (Val p) 0x0A = (Name [], None)" "place_step (P, M, True) (Inside p) 0x0A = (Name [], None)"
    "place_step (P, M, True) (Val p) 0x0D = (Val_cr p, None)" "place_step (P, M, True) (Inside p) 0x0D = (Inside_cr p, None)"
    "place_step (P, M, True) (Val_cr p) 0x0A = (Name [], None)" "place_step (P, M, True) (Inside_cr p) 0x0A = (Name [], None)"
  using assms by (simp_all add: place_step_def place_next_def)

lemma step_value:
  assumes "M p = Some m"
  shows "space_byte c \<Longrightarrow> place_step (P, M, True) (Val p) c = (Val p, Some (StartCapture m))"
    "text_byte c \<Longrightarrow> \<not> space_byte c \<Longrightarrow> place_step (P, M, True) (Val p) c = (Inside p, Some (EndCapture m))"
    "text_byte c \<Longrightarrow> place_step (P, M, True) (Inside p) c = (Inside p, Some (EndCapture m))"
  using assms by (auto simp: place_step_def place_next_def text_byte_def space_byte_def)

lemma step_colon:
  assumes "names_ok (P, M, True)"
  shows "place_step (P, M, True) (Name p) 0x3A = (case M p of
      Some m \<Rightarrow> (Val p, Some (StartCapture m)) | None \<Rightarrow> (Anywhere, None))"
proof -
  have "p @ [0x3A] \<notin> P" using names_okD(6) [OF assms, of p "0x3A"] by (auto simp: token_byte_def)
  then show ?thesis by (simp add: place_step_def place_next_def split: option.split)
qed

lemma step_name:
  assumes "names_ok (P, M, True)" and "token_byte c"
  shows "place_step (P, M, True) (Name p) c =
    (if p @ [to_ascii_lowercase c] \<in> P then (Name (p @ [to_ascii_lowercase c]), None) else (Anywhere, None))"
  using token_byteD [OF assms(2)] names_okD(4) [OF assms(1), of p]
  by (auto simp: place_step_def place_next_def split: option.split)

lemma step_end:
  assumes "names_ok (P, M, True)"
  shows "place_step (P, M, True) (Name []) 0x0A = (Ended, Some Done)" "place_step (P, M, True) (Name []) 0x0D = (End_cr, None)"
    "place_step (P, M, True) End_cr 0x0A = (Ended, Some Done)"
proof -
  have "[0x0A] \<notin> P" "[0x0D] \<notin> P"
    using names_okD(6) [OF assms, of "[]"] by (auto simp: token_byte_def)
  then show "place_step (P, M, True) (Name []) 0x0A = (Ended, Some Done)"
    "place_step (P, M, True) (Name []) 0x0D = (End_cr, None)" "place_step (P, M, True) End_cr 0x0A = (Ended, Some Done)"
    by (simp_all add: place_step_def place_next_def)
qed

subsection \<open>A field\<close>

definition line_end :: "bool \<Rightarrow> bytes" where
  "line_end with_cr = (if with_cr then CR else []) @ LF"

text \<open>A field of a message as RFC 9112 has it: no white space before the colon.\<close>

record http_field =
  f_name :: bytes
  f_space :: bytes
  f_value :: bytes
  f_cr :: bool

definition field_bytes :: "http_field \<Rightarrow> bytes" where
  "field_bytes f = f_name f @ [0x3A] @ f_space f @ f_value f @ line_end (f_cr f)"

definition field_ok :: "http_field \<Rightarrow> bool" where
  "field_ok f \<longleftrightarrow> f_name f \<noteq> [] \<and> list_all token_byte (f_name f) \<and> list_all space_byte (f_space f) \<and>
     list_all text_byte (f_value f) \<and> (f_value f \<noteq> [] \<longrightarrow> \<not> space_byte (hd (f_value f)))"

definition captured_range :: "nat \<Rightarrow> nat \<Rightarrow> http_match" where
  "captured_range start len =
     \<lparr>hm_idx = word_of_nat start, hm_len = word_of_nat len, hm_source = HTTP_SRC_MSG, hm_huff = False\<rparr>"

text \<open>What a field at index \<open>i\<close> changes of the matches.\<close>

definition capture_field :: "(bytes \<rightharpoonup> match_id) \<Rightarrow> nat \<Rightarrow> http_field \<Rightarrow> http_match list \<Rightarrow> http_match list" where
  "capture_field M i f ms = (case M (map to_ascii_lowercase (f_name f)) of
       Some m \<Rightarrow> if f_value f = [] then ms
         else ms[unat (match_idx m) := captured_range (i + length (f_name f) + 1 + length (f_space f)) (length (f_value f))]
     | None \<Rightarrow> ms)"

lemma move_None [simp]: "move st t None i w = w\<lparr>w_state := st t\<rparr>"
  by (simp add: move_def program_action_def run_action_def h1_no_action_def Let_def http1_consts)

lemma stay: "at_place st N s w \<Longrightarrow> w\<lparr>w_state := st s\<rparr> = w"
  by (cases w) (simp add: at_place_def)

lemma walks_text:
  assumes "header_dfa st (P, M, True) d" and "at_place st (P, M, True) Anywhere w" and "list_all text_byte cs"
  shows "walks d i cs w w"
  using assms(2,3)
proof (induction cs arbitrary: i)
  case (Cons c cs)
  have "walks d i [c] w (move st Anywhere None i w)"
    by (rule walks_step(1) [OF assms(1) Cons.prems(1) step_anywhere(1)]) (use Cons.prems(2) in simp_all)
  moreover have "move st Anywhere None i w = w" using Cons.prems(1) by (simp add: at_place_def)
  ultimately show ?case using walks_Cons Cons.IH [OF Cons.prems(1), of "i + 1"] Cons.prems(2) by (metis list.pred_inject(2))
qed simp

lemma names_ok_prefix: "names_ok (P, M, fin) \<Longrightarrow> p @ q \<in> P \<Longrightarrow> p \<in> P"
proof (induction q rule: rev_induct)
  case (snoc c q)
  then show ?case using names_okD(4) [OF snoc.prems(1), of "p @ q" c] by simp
qed simp

lemma token_text: "token_byte c \<Longrightarrow> text_byte c"
  by (simp add: token_byte_def text_byte_def)

lemma walks_name:
  assumes hd: "header_dfa st (P, M, True) d" and "at_place st (P, M, True) (Name p) w" and "list_all token_byte cs"
  defines "t \<equiv> if p @ map to_ascii_lowercase cs \<in> P then Name (p @ map to_ascii_lowercase cs) else Anywhere"
  shows "walks d i cs w (w\<lparr>w_state := st t\<rparr>) \<and> at_place st (P, M, True) t (w\<lparr>w_state := st t\<rparr>)"
  using assms(2,3) unfolding t_def
proof (induction cs arbitrary: i p w)
  case Nil
  then have "p \<in> P" by (auto simp: at_place_def)
  with Nil stay [OF Nil(1)] show ?case by simp
next
  case (Cons c cs)
  note ok = header_dfaD(4) [OF hd] and step = step_name [OF header_dfaD(4) [OF hd], of c p]
  let ?q = "p @ [to_ascii_lowercase c]"
  have c: "token_byte c" "list_all token_byte cs" using Cons.prems(2) by simp_all
  show ?case
  proof (cases "?q \<in> P")
    case True
    then have s: "place_step (P, M, True) (Name p) c = (Name ?q, None)" using step c by simp
    have w: "walks d i [c] w (w\<lparr>w_state := st (Name ?q)\<rparr>)" "at_place st (P, M, True) (Name ?q) (w\<lparr>w_state := st (Name ?q)\<rparr>)"
      using walks_step [OF hd Cons.prems(1) s] by simp_all
    have "?q @ map to_ascii_lowercase cs = p @ map to_ascii_lowercase (c # cs)" by simp
    from Cons.IH [OF w(2) c(2), of "i + 1", unfolded this] walks_Cons [OF w(1)] show ?thesis by simp
  next
    case False
    then have s: "place_step (P, M, True) (Name p) c = (Anywhere, None)" using step c by simp
    let ?w = "w\<lparr>w_state := st Anywhere\<rparr>"
    have w: "walks d i [c] w ?w" "at_place st (P, M, True) Anywhere ?w"
      using walks_step [OF hd Cons.prems(1) s] by simp_all
    have "list_all text_byte cs" using c(2) by (auto simp: list_all_iff token_text)
    from walks_Cons [OF w(1) walks_text [OF hd w(2) this]] have "walks d i (c # cs) w ?w" .
    moreover have "p @ map to_ascii_lowercase (c # cs) \<notin> P"
      using False names_ok_prefix [OF ok, of ?q] by auto
    ultimately show ?thesis using w(2) by simp
  qed
qed

lemma mask_mid: "unat m < MATCHES \<Longrightarrow> m AND MAX_MATCH_MASK = m"
proof -
  assume "unat m < MATCHES"
  moreover have "m AND MAX_MATCH_MASK = take_bit 5 m"
    by (simp add: MAX_MATCH_MASK_def take_bit_eq_mask mask_eq_exp_minus_1)
  ultimately show ?thesis
    by (simp add: word_unat_eq_iff unsigned_take_bit_eq take_bit_nat_eq_self MATCHES_def)
qed

lemma move_capture:
  assumes "unat (match_idx m) < MATCHES"
  shows "move st t (Some (StartCapture m)) i w =
      w\<lparr>w_state := st t, w_cidx := (w_cidx w)[unat (match_idx m) := word_of_nat (i + 1)]\<rparr>"
    and "w_cidx w ! unat (match_idx m) = word_of_nat start \<Longrightarrow> start \<le> i \<Longrightarrow>
      move st t (Some (EndCapture m)) i w =
      w\<lparr>w_state := st t, w_ms := (w_ms w)[unat (match_idx m) := captured_range start (i + 1 - start)]\<rparr>"
proof -
  show "move st t (Some (StartCapture m)) i w =
      w\<lparr>w_state := st t, w_cidx := (w_cidx w)[unat (match_idx m) := word_of_nat (i + 1)]\<rparr>"
    using mask_mid [OF assms] by (simp add: move_def program_action_def run_action_def Let_def http1_consts)
  assume c: "w_cidx w ! unat (match_idx m) = word_of_nat start" and "start \<le> i"
  have cut: "(ucast (word_of_nat n :: u32) :: u16) = word_of_nat n" for n
    by (simp add: word_unat_eq_iff unsigned_ucast_eq unsigned_of_nat take_bit_take_bit)
  have "(word_of_nat i :: u32) - word_of_nat start + 1 = word_of_nat (i + 1 - start)"
    using \<open>start \<le> i\<close> by (simp add: of_nat_diff)
  then have "(ucast (word_of_nat i - word_of_nat start + 1 :: u32) :: u16) = word_of_nat (i + 1 - start)"
    by (simp only: cut)
  then show "move st t (Some (EndCapture m)) i w =
      w\<lparr>w_state := st t, w_ms := (w_ms w)[unat (match_idx m) := captured_range start (i + 1 - start)]\<rparr>"
    using mask_mid [OF assms] c
    by (simp add: move_def program_action_def run_action_def Let_def http1_consts captured_range_def cut)
qed


lemma walks_value_start:
  assumes hd: "header_dfa st (P, M, True) d" and m: "M p = Some m" "unat (match_idx m) < MATCHES"
    and "at_place st (P, M, True) (Val p) w" and "list_all space_byte cs" and "length (w_cidx w) = MATCHES"
    and "w_cidx w ! unat (match_idx m) = word_of_nat i"
  shows "\<exists>w'. walks d i cs w w' \<and> at_place st (P, M, True) (Val p) w' \<and> w_ms w' = w_ms w \<and>
    length (w_cidx w') = MATCHES \<and> w_cidx w' ! unat (match_idx m) = word_of_nat (i + length cs)"
  using assms(4-7)
proof (induction cs arbitrary: i w)
  case Nil
  then show ?case by (intro exI [of _ w]) simp
next
  case (Cons c cs)
  have s: "place_step (P, M, True) (Val p) c = (Val p, Some (StartCapture m))"
    using step_value(1) [of M p m, OF m(1)] Cons.prems(2) by simp
  let ?w = "move st (Val p) (Some (StartCapture m)) i w"
  have w: "walks d i [c] w ?w" "at_place st (P, M, True) (Val p) ?w"
    using walks_step [OF hd Cons.prems(1) s] by simp_all
  have "\<exists>w'. walks d (i + 1) cs ?w w' \<and> at_place st (P, M, True) (Val p) w' \<and> w_ms w' = w_ms ?w \<and>
    length (w_cidx w') = MATCHES \<and> w_cidx w' ! unat (match_idx m) = word_of_nat (i + 1 + length cs)"
    by (rule Cons.IH [OF w(2)]) (use Cons.prems(2,3) m(2) in \<open>simp_all add: move_capture(1)\<close>)
  then obtain w' where w': "walks d (i + 1) cs ?w w'" "at_place st (P, M, True) (Val p) w'" "w_ms w' = w_ms ?w"
    "length (w_cidx w') = MATCHES" "w_cidx w' ! unat (match_idx m) = word_of_nat (i + 1 + length cs)" by blast
  have "walks d i (c # cs) w w'" by (rule walks_Cons [OF w(1) w'(1)])
  with w' show ?case by (intro exI [of _ w']) (simp add: move_capture(1) [OF m(2)] add.commute)
qed

lemma walks_inside:
  assumes hd: "header_dfa st (P, M, True) d" and m: "M p = Some m" "unat (match_idx m) < MATCHES"
    and "at_place st (P, M, True) (Inside p) w" and "list_all text_byte cs"
    and "w_cidx w ! unat (match_idx m) = word_of_nat start" and "start \<le> i"
  shows "\<exists>w'. walks d i cs w w' \<and> at_place st (P, M, True) (Inside p) w' \<and> w_cidx w' = w_cidx w \<and>
    w_ms w' = (if cs = [] then w_ms w
      else (w_ms w)[unat (match_idx m) := captured_range start (i + length cs - start)])"
  using assms(4-7)
proof (induction cs arbitrary: i w)
  case Nil
  then show ?case by (intro exI [of _ w]) simp
next
  case (Cons c cs)
  have s: "place_step (P, M, True) (Inside p) c = (Inside p, Some (EndCapture m))"
    using step_value(3) [of M p m, OF m(1)] Cons.prems(2) by simp
  let ?w = "move st (Inside p) (Some (EndCapture m)) i w"
  have w: "walks d i [c] w ?w" "at_place st (P, M, True) (Inside p) ?w"
    using walks_step [OF hd Cons.prems(1) s] by simp_all
  note eq = move_capture(2) [OF m(2) Cons.prems(3,4)]
  have "\<exists>w'. walks d (i + 1) cs ?w w' \<and> at_place st (P, M, True) (Inside p) w' \<and> w_cidx w' = w_cidx ?w \<and>
    w_ms w' = (if cs = [] then w_ms ?w
      else (w_ms ?w)[unat (match_idx m) := captured_range start (i + 1 + length cs - start)])"
    by (rule Cons.IH [OF w(2)]) (use Cons.prems(2-4) eq in simp_all)
  then obtain w' where w': "walks d (i + 1) cs ?w w'" "at_place st (P, M, True) (Inside p) w'" "w_cidx w' = w_cidx ?w"
    "w_ms w' = (if cs = [] then w_ms ?w
      else (w_ms ?w)[unat (match_idx m) := captured_range start (i + 1 + length cs - start)])" by blast
  have "walks d i (c # cs) w w'" by (rule walks_Cons [OF w(1) w'(1)])
  with w' show ?case by (intro exI [of _ w']) (auto simp: eq)
qed

text \<open>The end of a line, from wherever a line may end.\<close>

lemma walks_line_end:
  assumes hd: "header_dfa st (P, M, True) d" and "at_place st (P, M, True) s w" and "[] \<in> P"
    and "s \<in> {Start, Anywhere} \<or> (\<exists>p m. M p = Some m \<and> (s = Val p \<or> s = Inside p))"
  shows "walks d i (line_end b) w (w\<lparr>w_state := st (Name [])\<rparr>) \<and>
    at_place st (P, M, True) (Name []) (w\<lparr>w_state := st (Name [])\<rparr>)"
proof -
  have lf: "walks d j [0x0A] w' (w'\<lparr>w_state := st (Name [])\<rparr>) \<and>
      at_place st (P, M, True) (Name []) (w'\<lparr>w_state := st (Name [])\<rparr>)"
    if "at_place st (P, M, True) s' w'" "place_step (P, M, True) s' 0x0A = (Name [], None)" for j s' w'
    using walks_step [OF hd that] by simp
  obtain s1 where s1: "place_step (P, M, True) s 0x0D = (s1, None)" "place_step (P, M, True) s1 0x0A = (Name [], None)"
    and s: "place_step (P, M, True) s 0x0A = (Name [], None)"
    using assms(4) step_line_end [OF assms(3), of M] step_value_end by fastforce
  show ?thesis
  proof (cases b)
    case True
    have w: "walks d i [0x0D] w (w\<lparr>w_state := st s1\<rparr>)" "at_place st (P, M, True) s1 (w\<lparr>w_state := st s1\<rparr>)"
      using walks_step [OF hd assms(2) s1(1)] by simp_all
    with lf [OF w(2) s1(2), of "i + 1"] walks_Cons [OF w(1)] show ?thesis
      by (simp add: True line_end_def CR_def LF_def)
  next
    case False
    with lf [OF assms(2) s] show ?thesis by (simp add: line_end_def LF_def)
  qed
qed


definition ids_fit :: "(bytes \<rightharpoonup> match_id) \<Rightarrow> bool" where
  "ids_fit M \<longleftrightarrow> (\<forall>p m. M p = Some m \<longrightarrow> unat (match_idx m) < MATCHES)"

lemma walks_value:
  assumes hd: "header_dfa st (P, M, True) d" and m: "M p = Some m" "unat (match_idx m) < MATCHES" and "[] \<in> P"
    and w: "at_place st (P, M, True) (Val p) w" "w_cidx w ! unat (match_idx m) = word_of_nat i"
    and v: "list_all text_byte v" "v \<noteq> [] \<longrightarrow> \<not> space_byte (hd v)"
  shows "\<exists>w'. walks d i (v @ line_end b) w w' \<and> at_place st (P, M, True) (Name []) w' \<and> w_cidx w' = w_cidx w \<and>
    w_ms w' = (if v = [] then w_ms w else (w_ms w)[unat (match_idx m) := captured_range i (length v)])"
proof (cases v)
  case Nil
  have "Val p \<in> {Start, Anywhere} \<or> (\<exists>q m. M q = Some m \<and> (Val p = Val q \<or> Val p = Inside q))" using m(1) by simp
  from walks_line_end [OF hd w(1) assms(4) this, of i b] Nil show ?thesis
    by (intro exI [of _ "w\<lparr>w_state := st (Name [])\<rparr>"]) simp
next
  case (Cons c cs)
  then have c: "text_byte c" "\<not> space_byte c" "list_all text_byte cs" using v by simp_all
  have s: "place_step (P, M, True) (Val p) c = (Inside p, Some (EndCapture m))"
    using step_value(2) [of M p m, OF m(1) c(1,2)] .
  let ?w = "move st (Inside p) (Some (EndCapture m)) i w"
  have w1: "walks d i [c] w ?w" "at_place st (P, M, True) (Inside p) ?w"
    using walks_step [OF hd w(1) s] by simp_all
  note eq = move_capture(2) [OF m(2) w(2) order.refl, of st "Inside p"]
  have "w_cidx ?w ! unat (match_idx m) = word_of_nat i" using w(2) by (simp add: eq)
  from walks_inside [OF hd m w1(2) c(3) this, of "i + 1"] obtain w2 where w2: "walks d (i + 1) cs ?w w2"
    "at_place st (P, M, True) (Inside p) w2" "w_cidx w2 = w_cidx ?w"
    "w_ms w2 = (if cs = [] then w_ms ?w else (w_ms ?w)[unat (match_idx m) := captured_range i (i + 1 + length cs - i)])"
    by auto
  have "Inside p \<in> {Start, Anywhere} \<or> (\<exists>q m. M q = Some m \<and> (Inside p = Val q \<or> Inside p = Inside q))"
    using m(1) by simp
  note e = walks_line_end [OF hd w2(2) assms(4) this, of "i + length v" b]
  have "walks d i v w w2" using walks_Cons [OF w1(1) w2(1)] by (simp add: Cons)
  with e have "walks d i (v @ line_end b) w (w2\<lparr>w_state := st (Name [])\<rparr>)" by (blast intro: walks_append)
  with e w2 show ?thesis
    by (intro exI [of _ "w2\<lparr>w_state := st (Name [])\<rparr>"]) (auto simp: eq Cons)
qed

lemma text_simps [simp]: "text_byte 0x3A" "space_byte c \<Longrightarrow> text_byte c"
  by (auto simp: text_byte_def space_byte_def)

text \<open>A field whose name is captured, and one whose name is not.\<close>

lemma walks_known_field:
  assumes hd: "header_dfa st (P, M, True) d" and w: "at_place st (P, M, True) (Name p) w"
    and m: "M p = Some m" "unat (match_idx m) < MATCHES" and len: "length (w_cidx w) = MATCHES"
    and f: "list_all space_byte ws" "list_all text_byte v" "v \<noteq> [] \<longrightarrow> \<not> space_byte (List.hd v)"
  shows "\<exists>w'. walks d i ([0x3A] @ ws @ v @ line_end b) w w' \<and> at_place st (P, M, True) (Name []) w' \<and>
    length (w_cidx w') = MATCHES \<and>
    w_ms w' = (if v = [] then w_ms w else (w_ms w)[unat (match_idx m) := captured_range (i + 1 + length ws) (length v)])"
proof -
  note ok = header_dfaD(4) [OF hd]
  have nil: "[] \<in> P" using names_okD(5) [OF ok] by simp
  have s: "place_step (P, M, True) (Name p) 0x3A = (Val p, Some (StartCapture m))"
    using step_colon [OF ok, of p] m(1) by simp
  define w1 where "w1 = move st (Val p) (Some (StartCapture m)) i w"
  have w1: "walks d i [0x3A] w w1" "at_place st (P, M, True) (Val p) w1"
    using walks_step [OF hd w s] by (simp_all add: w1_def)
  have c1: "length (w_cidx w1) = MATCHES" "w_cidx w1 ! unat (match_idx m) = word_of_nat (i + 1)" "w_ms w1 = w_ms w"
    using len m(2) by (simp_all add: move_capture(1) w1_def)
  obtain w2 where w2: "walks d (i + 1) ws w1 w2" "at_place st (P, M, True) (Val p) w2" "w_ms w2 = w_ms w1"
    "length (w_cidx w2) = MATCHES" "w_cidx w2 ! unat (match_idx m) = word_of_nat (i + 1 + length ws)"
    using walks_value_start [where M = M and m = m, OF hd m w1(2) f(1) c1(1,2)] by blast
  obtain w3 where w3: "walks d (i + 1 + length ws) (v @ line_end b) w2 w3" "at_place st (P, M, True) (Name []) w3"
    "w_cidx w3 = w_cidx w2"
    "w_ms w3 = (if v = [] then w_ms w2 else (w_ms w2)[unat (match_idx m) := captured_range (i + 1 + length ws) (length v)])"
    using walks_value [where M = M and m = m, OF hd m nil w2(2,5) f(2,3)] by blast
  have "walks d (i + 1) (ws @ v @ line_end b) w1 w3" by (rule walks_append [OF w2(1) w3(1)])
  then have "walks d i ([0x3A] @ ws @ v @ line_end b) w w3"
    using walks_Cons [OF w1(1)] by simp
  with w2 w3 c1 show ?thesis by (intro exI [of _ w3]) simp
qed

lemma walks_other_field:
  assumes hd: "header_dfa st (P, M, True) d" and w: "at_place st (P, M, True) s w"
    and s: "s = Name p \<and> M p = None \<or> s = Anywhere" and f: "list_all space_byte ws" "list_all text_byte v"
  shows "walks d i ([0x3A] @ ws @ v @ line_end b) w (w\<lparr>w_state := st (Name [])\<rparr>) \<and>
    at_place st (P, M, True) (Name []) (w\<lparr>w_state := st (Name [])\<rparr>)"
proof -
  note ok = header_dfaD(4) [OF hd]
  have nil: "[] \<in> P" using names_okD(5) [OF ok] by simp
  let ?w1 = "w\<lparr>w_state := st Anywhere\<rparr>"
  have colon: "place_step (P, M, True) s 0x3A = (Anywhere, None)"
    using s step_colon [OF ok, of p] step_anywhere(1) [of "0x3A" P M] by auto
  have w1: "walks d i [0x3A] w ?w1" "at_place st (P, M, True) Anywhere ?w1"
    using walks_step [OF hd w colon] by simp_all
  have "list_all text_byte (ws @ v)" using f by (auto simp: list_all_iff)
  then have t: "walks d (i + 1) (ws @ v) ?w1 ?w1" by (rule walks_text [OF hd w1(2)])
  have e: "walks d (i + 1 + length (ws @ v)) (line_end b) ?w1 (w\<lparr>w_state := st (Name [])\<rparr>)"
      "at_place st (P, M, True) (Name []) (w\<lparr>w_state := st (Name [])\<rparr>)"
    using walks_line_end [OF hd w1(2) nil, of _ b] by simp_all
  have "walks d (i + 1) ((ws @ v) @ line_end b) ?w1 (w\<lparr>w_state := st (Name [])\<rparr>)"
    by (rule walks_append [OF t e(1)])
  with e(2) walks_Cons [OF w1(1)] show ?thesis by simp
qed

lemma walks_field:
  assumes hd: "header_dfa st (P, M, True) d" and ids: "ids_fit M" and w: "at_place st (P, M, True) (Name []) w"
    and len: "length (w_cidx w) = MATCHES" and f: "field_ok f"
  shows "\<exists>w'. walks d i (field_bytes f) w w' \<and> at_place st (P, M, True) (Name []) w' \<and>
    length (w_cidx w') = MATCHES \<and> w_ms w' = capture_field M i f (w_ms w)"
proof -
  note ok = header_dfaD(4) [OF hd]
  define n where "n = map to_ascii_lowercase (f_name f)"
  define t where "t = (if n \<in> P then Name n else Anywhere)"
  have toks: "list_all token_byte (f_name f)" "list_all space_byte (f_space f)" "list_all text_byte (f_value f)"
    and v: "f_value f \<noteq> [] \<longrightarrow> \<not> space_byte (List.hd (f_value f))"
    using f by (auto simp: field_ok_def)
  have n: "walks d i (f_name f) w (w\<lparr>w_state := st t\<rparr>)" "at_place st (P, M, True) t (w\<lparr>w_state := st t\<rparr>)"
    using walks_name [OF hd w toks(1), of i, unfolded append_Nil, folded n_def, folded t_def] by simp_all
  have all: "walks d i (field_bytes f) w w'"
    if "walks d (i + length (f_name f)) ([0x3A] @ f_space f @ f_value f @ line_end (f_cr f)) (w\<lparr>w_state := st t\<rparr>) w'" for w'
    unfolding field_bytes_def by (rule walks_append [OF n(1) that])
  show ?thesis
  proof (cases "M n")
    case (Some m)
    then have "t = Name n" using names_okD(2) [OF ok] by (simp add: t_def)
    note n' = n(2) [unfolded this]
    have "unat (match_idx m) < MATCHES" using ids Some by (simp add: ids_fit_def)
    from walks_known_field [where M = M and m = m, OF hd n' Some this _ toks(2,3) v, of "i + length (f_name f)" "f_cr f"] len \<open>t = Name n\<close>
    obtain w' where "walks d (i + length (f_name f)) ([0x3A] @ f_space f @ f_value f @ line_end (f_cr f)) (w\<lparr>w_state := st t\<rparr>) w'"
      "at_place st (P, M, True) (Name []) w'" "length (w_cidx w') = MATCHES"
      "w_ms w' = (if f_value f = [] then w_ms w else (w_ms w)[unat (match_idx m) :=
         captured_range (i + length (f_name f) + 1 + length (f_space f)) (length (f_value f))])" by auto
    with all Some show ?thesis by (intro exI [of _ w']) (simp add: capture_field_def n_def)
  next
    case None
    then have "t = Name n \<and> M n = None \<or> t = Anywhere" by (simp add: t_def)
    from walks_other_field [OF hd n(2) this toks(2,3), of "i + length (f_name f)" "f_cr f"] all len None show ?thesis
      by (intro exI [of _ "w\<lparr>w_state := st (Name [])\<rparr>"]) (simp add: capture_field_def n_def)
  qed
qed


subsection \<open>A message\<close>

fun capture_fields :: "(bytes \<rightharpoonup> match_id) \<Rightarrow> nat \<Rightarrow> http_field list \<Rightarrow> http_match list \<Rightarrow> http_match list" where
  "capture_fields M i [] ms = ms"
| "capture_fields M i (f # fs) ms = capture_fields M (i + length (field_bytes f)) fs (capture_field M i f ms)"

definition head_bytes :: "bytes \<Rightarrow> bool \<Rightarrow> http_field list \<Rightarrow> bool \<Rightarrow> bytes" where
  "head_bytes start_line b fs b' = start_line @ line_end b @ concat (map field_bytes fs) @ line_end b'"

lemma walks_fields:
  assumes hd: "header_dfa st (P, M, True) d" and ids: "ids_fit M"
    and "at_place st (P, M, True) (Name []) w" and "length (w_cidx w) = MATCHES" and "list_all field_ok fs"
  shows "\<exists>w'. walks d i (concat (map field_bytes fs)) w w' \<and> at_place st (P, M, True) (Name []) w' \<and>
    w_ms w' = capture_fields M i fs (w_ms w)"
  using assms(3-5)
proof (induction fs arbitrary: i w)
  case Nil
  then show ?case by (intro exI [of _ w]) simp
next
  case (Cons f fs)
  obtain w1 where w1: "walks d i (field_bytes f) w w1" "at_place st (P, M, True) (Name []) w1"
    "length (w_cidx w1) = MATCHES" "w_ms w1 = capture_field M i f (w_ms w)"
    using walks_field [OF hd ids Cons.prems(1,2), of f i] Cons.prems(3) by auto
  obtain w2 where w2: "walks d (i + length (field_bytes f)) (concat (map field_bytes fs)) w1 w2"
    "at_place st (P, M, True) (Name []) w2" "w_ms w2 = capture_fields M (i + length (field_bytes f)) fs (w_ms w1)"
    using Cons.IH [OF w1(2,3), of "i + length (field_bytes f)"] Cons.prems(3) by auto
  have "walks d i (concat (map field_bytes (f # fs))) w w2"
    using walks_append [OF w1(1) w2(1)] by simp
  with w1(4) w2(2,3) show ?case by (intro exI [of _ w2]) simp
qed

lemma walks_start_line:
  assumes hd: "header_dfa st (P, M, True) d" and w: "at_place st (P, M, True) Start w" and "list_all text_byte cs"
  shows "walks d i (cs @ line_end b) w (w\<lparr>w_state := st (Name [])\<rparr>) \<and>
    at_place st (P, M, True) (Name []) (w\<lparr>w_state := st (Name [])\<rparr>)"
proof -
  have nil: "[] \<in> P" using names_okD(5) [OF header_dfaD(4) [OF hd]] by simp
  show ?thesis
  proof (cases cs)
    case Nil
    with walks_line_end [OF hd w nil, of i b] show ?thesis by simp
  next
    case (Cons c cs')
    let ?w1 = "w\<lparr>w_state := st Anywhere\<rparr>"
    have step: "place_step (P, M, True) Start c = (Anywhere, None)"
      using step_anywhere(2) assms(3) by (simp add: Cons)
    have w1: "walks d i [c] w ?w1" "at_place st (P, M, True) Anywhere ?w1"
      using walks_step [OF hd w step] by simp_all
    have t: "walks d (i + 1) cs' ?w1 ?w1"
      by (rule walks_text [OF hd w1(2)]) (use assms(3) in \<open>simp add: Cons\<close>)
    have e: "walks d (i + 1 + length cs') (line_end b) ?w1 (w\<lparr>w_state := st (Name [])\<rparr>)"
        "at_place st (P, M, True) (Name []) (w\<lparr>w_state := st (Name [])\<rparr>)"
      using walks_line_end [OF hd w1(2) nil, of _ b] by simp_all
    have "walks d (i + 1) (cs' @ line_end b) ?w1 (w\<lparr>w_state := st (Name [])\<rparr>)"
      by (rule walks_append [OF t e(1)])
    with e(2) walks_Cons [OF w1(1)] show ?thesis by (simp add: Cons)
  qed
qed

lemma loop_header_end:
  assumes hd: "header_dfa st (P, M, True) d" and w: "at_place st (P, M, True) (Name []) w"
  shows "\<exists>w'. dfa_loop d i (line_end b @ rest) w = (Some (i + length (line_end b)), w') \<and> w_ms w' = w_ms w"
proof -
  note ends = step_end [OF header_dfaD(4) [OF hd]]
  have lf: "\<exists>w'. dfa_loop d j (0x0A # rest) w1 = (Some (j + 1), w') \<and> w_ms w' = w_ms w1"
    if "at_place st (P, M, True) s w1" "place_step (P, M, True) s 0x0A = (Ended, Some Done)" for j s w1
    using that dfa_step_place(1) [OF hd _ that(2)]
    by (simp add: at_place_def program_action_def run_action_def Let_def http1_consts)
  show ?thesis
  proof (cases b)
    case True
    let ?w1 = "w\<lparr>w_state := st End_cr\<rparr>"
    have w1: "walks d i [0x0D] w ?w1" "at_place st (P, M, True) End_cr ?w1"
      using walks_step [OF hd w ends(2)] by simp_all
    have "dfa_loop d i (0x0D # 0x0A # rest) w = dfa_loop d (i + 1) (0x0A # rest) ?w1"
      using w1(1) unfolding walks_def by (metis append_Cons append_Nil length_Cons list.size(3) Suc_eq_plus1 add_0 One_nat_def)
    with lf [OF w1(2) ends(3), of "i + 1"] show ?thesis by (simp add: True line_end_def CR_def LF_def)
  next
    case False
    with lf [OF w ends(1), of i] show ?thesis by (simp add: line_end_def LF_def)
  qed
qed

lemma parse_msg_head:
  assumes hd: "header_dfa st (P, M, True) d" and ids: "ids_fit M" and load: "loaded d tables"
    and head: "head = head_bytes start_line b fs b'" "list_all text_byte start_line" "list_all field_ok fs"
      "length head \<le> MAX_BYTES"
    and data: "linear @ rest = head @ body" "linear \<noteq> []" "length linear \<noteq> MAX_BYTES"
  shows "parse_msg tables linear (length (head @ body)) (Some (head @ body)) ms =
    (int (length head), capture_fields M (length start_line + length (line_end b)) fs ms)"
proof -
  let ?w0 = "walk_start ms None" and ?j = "length start_line + length (line_end b)"
  have w0: "at_place st (P, M, True) Start ?w0" "length (w_cidx ?w0) = MATCHES" "w_ms ?w0 = ms"
    using header_dfaD(2) [OF hd] by (simp_all add: at_place_def walk_start_def)
  let ?w1 = "?w0\<lparr>w_state := st (Name [])\<rparr>"
  have w1: "walks d 0 (start_line @ line_end b) ?w0 ?w1" "at_place st (P, M, True) (Name []) ?w1"
    using walks_start_line [OF hd w0(1) head(2)] by simp_all
  have "length (w_cidx ?w1) = MATCHES" using w0(2) by simp
  from walks_fields [OF hd ids w1(2) this head(3), of ?j] obtain w2
    where w2: "walks d ?j (concat (map field_bytes fs)) ?w1 w2" "at_place st (P, M, True) (Name []) w2"
      "w_ms w2 = capture_fields M ?j fs ms"
    using w0(3) by auto
  define k where "k = ?j + length (concat (map field_bytes fs))"
  define tail where "tail = take (MAX_BYTES + 1 - length head) body"
  obtain w3 where w3: "dfa_loop d k (line_end b' @ tail) w2 = (Some (k + length (line_end b')), w3)" "w_ms w3 = w_ms w2"
    using loop_header_end [OF hd w2(2)] by blast
  have "walks d 0 ((start_line @ line_end b) @ concat (map field_bytes fs)) ?w0 w2"
    by (rule walks_append [OF w1(1)]) (use w2(1) in simp)
  then have "dfa_loop d 0 (((start_line @ line_end b) @ concat (map field_bytes fs)) @ line_end b' @ tail) ?w0 =
      dfa_loop d k (line_end b' @ tail) w2"
    unfolding walks_def k_def by (simp add: add.assoc)
  moreover have "take (MAX_BYTES + 1) (head @ body) =
      ((start_line @ line_end b) @ concat (map field_bytes fs)) @ line_end b' @ tail"
    using head(4) by (simp add: tail_def head(1) head_bytes_def add.assoc)
  moreover have len: "length head = k + length (line_end b')"
    by (simp add: head(1) head_bytes_def k_def)
  ultimately have "dfa_loop d 0 (take (MAX_BYTES + 1) (head @ body)) ?w0 = (Some (length head), w3)"
    using w3(1) by simp
  moreover have "w_state ?w0 < num_states d"
    using load wf_dfaD(5) [of d] by (simp add: walk_start_def INIT_STATE_def loaded_def)
  moreover have pos: "0 < length head" by (simp add: len line_end_def LF_def)
  ultimately have "parse_from tables (head @ body) 0 ?w0 = (int (length head), w3)"
    by (simp add: parse_from_walk parse_loop_dfa [OF load] MAX_BYTES_def)
  with parse_msg_cut [OF data(2,3), of tables rest ms] w2(3) w3(2) pos show ?thesis
    by (simp add: data(1) parse_result_of_def)
qed


subsection \<open>The values that are captured\<close>

text \<open>The values of the fields with a name, in any case, that are not empty.\<close>

definition captured_values :: "bytes \<Rightarrow> http_field list \<Rightarrow> bytes list" where
  "captured_values name fs =
     map f_value (filter (\<lambda>f. map to_ascii_lowercase (f_name f) = name \<and> f_value f \<noteq> []) fs)"

definition own_ids :: "(bytes \<rightharpoonup> match_id) \<Rightarrow> bool" where
  "own_ids M \<longleftrightarrow> (\<forall>p q m. M p = Some m \<longrightarrow> M q = Some m \<longrightarrow> p = q)"

lemma capture_field_nth:
  assumes "ids_fit M" and "own_ids M" and m: "M n = Some m" and "length ms = MATCHES"
  shows "capture_field M i f ms ! unat (match_idx m) =
    (if map to_ascii_lowercase (f_name f) = n \<and> f_value f \<noteq> []
     then captured_range (i + length (f_name f) + 1 + length (f_space f)) (length (f_value f))
     else ms ! unat (match_idx m))" and "length (capture_field M i f ms) = MATCHES"
proof -
  have other: "unat (match_idx m') \<noteq> unat (match_idx m)"
    if "M n' = Some m'" "n' \<noteq> n" for n' m'
  proof -
    have "m' \<noteq> m" using assms(2) m that unfolding own_ids_def by blast
    then show ?thesis by (cases m; cases m') (simp add: word_unat_eq_iff)
  qed
  have "unat (match_idx m) < length ms" using assms(1,4) m by (simp add: ids_fit_def)
  with other m show "capture_field M i f ms ! unat (match_idx m) =
    (if map to_ascii_lowercase (f_name f) = n \<and> f_value f \<noteq> []
     then captured_range (i + length (f_name f) + 1 + length (f_space f)) (length (f_value f))
     else ms ! unat (match_idx m))"
    by (auto simp: capture_field_def split: option.split)
  show "length (capture_field M i f ms) = MATCHES"
    using assms(4) by (simp add: capture_field_def split: option.split)
qed

text \<open>The match \<open>m\<close> is the range of \<open>v\<close> in \<open>data\<close>, which ends at \<open>limit\<close> at most.\<close>

definition range_of :: "bytes \<Rightarrow> bytes \<Rightarrow> nat \<Rightarrow> http_match \<Rightarrow> bool" where
  "range_of data v limit m \<longleftrightarrow> v \<noteq> [] \<and> (\<exists>start. m = captured_range start (length v) \<and>
     take (length v) (drop start data) = v \<and> start + length v \<le> limit)"

lemma capture_fields_nth:
  assumes "ids_fit M" and "own_ids M" and "M n = Some m" and "length ms = MATCHES" and "length pre = i"
    and "data = pre @ concat (map field_bytes fs) @ post"
  shows "(captured_values n fs = [] \<longrightarrow> capture_fields M i fs ms ! unat (match_idx m) = ms ! unat (match_idx m)) \<and>
    (captured_values n fs \<noteq> [] \<longrightarrow> range_of data (last (captured_values n fs))
       (i + length (concat (map field_bytes fs))) (capture_fields M i fs ms ! unat (match_idx m)))"
  using assms(4-6)
proof (induction fs arbitrary: i ms pre)
  case Nil
  then show ?case by (simp add: captured_values_def)
next
  case (Cons f fs)
  let ?j = "i + length (field_bytes f)" and ?ms = "capture_field M i f ms" and ?v = "f_value f"
  let ?hit = "map to_ascii_lowercase (f_name f) = n \<and> ?v \<noteq> []"
  note nth = capture_field_nth [OF assms(1-3) Cons.prems(1), of i f]
  have pre: "length (pre @ field_bytes f) = ?j" "data = (pre @ field_bytes f) @ concat (map field_bytes fs) @ post"
    using Cons.prems(2,3) by simp_all
  note IH = Cons.IH [OF nth(2) pre]
  have vals: "captured_values n (f # fs) = (if ?hit then ?v # captured_values n fs else captured_values n fs)"
    by (simp add: captured_values_def)
  show ?case
  proof (cases "captured_values n fs = []")
    case False
    then have "last (captured_values n (f # fs)) = last (captured_values n fs)" by (simp add: vals)
    with IH False show ?thesis by (simp add: vals add.assoc)
  next
    case True
    then have rest: "capture_fields M ?j fs ?ms ! unat (match_idx m) = ?ms ! unat (match_idx m)" using IH by simp
    show ?thesis
    proof (cases ?hit)
      case hit: True
      let ?start = "i + length (f_name f) + 1 + length (f_space f)"
      have "take (length ?v) (drop ?start data) = ?v"
        using Cons.prems(2,3) by (simp add: field_bytes_def)
      moreover have "?start + length ?v \<le> i + length (concat (map field_bytes (f # fs)))"
        by (simp add: field_bytes_def)
      ultimately have "range_of data ?v (i + length (concat (map field_bytes (f # fs)))) (captured_range ?start (length ?v))"
        using hit unfolding range_of_def by blast
      with True hit rest nth(1) show ?thesis by (simp add: vals)
    next
      case False
      with True rest nth(1) show ?thesis by (auto simp: vals)
    qed
  qed
qed

lemma get_match_range:
  assumes "unat m < MATCHES" and "ms ! unat m = captured_range start len" and "0 < len"
    and "start + len \<le> length data" and "start + len \<le> 0x8000"
  shows "get_match data ms m = Inr (take len (drop start data))"
proof -
  have u: "unat (word_of_nat n :: u16) = n" if "n \<le> 0x8000" for n
    using that by (simp add: unsigned_of_nat take_bit_nat_eq_self)
  have "unat (word_of_nat start :: u16) = start" "unat (word_of_nat len :: u16) = len"
    using u assms(5) by simp_all
  moreover from this(2) assms(3) have "(word_of_nat len :: u16) \<noteq> 0" by auto
  ultimately show ?thesis
    using assms by (simp add: get_match_def mask_mid Let_def captured_range_def)
qed

lemma get_captured:
  assumes M: "ids_fit M" "own_ids M" "M n = Some m"
    and head: "head = head_bytes start_line b fs b'" "length head \<le> MAX_BYTES"
  shows "get_match (head @ body) (capture_fields M (length start_line + length (line_end b)) fs (replicate MATCHES no_match))
      (match_idx m) = (case captured_values n fs of [] \<Rightarrow> Inl (- ENOENT) | vs \<Rightarrow> Inr (last vs))"
proof -
  let ?j = "length start_line + length (line_end b)"
  let ?ms = "capture_fields M ?j fs (replicate MATCHES no_match)"
  have fit: "unat (match_idx m) < MATCHES" using M(1,3) by (simp add: ids_fit_def)
  have pre: "length (start_line @ line_end b) = ?j" by simp
  have data: "head @ body = (start_line @ line_end b) @ concat (map field_bytes fs) @ (line_end b' @ body)"
    and len: "?j + length (concat (map field_bytes fs)) \<le> length head"
    by (simp_all add: head(1) head_bytes_def)
  note nth = capture_fields_nth [OF M length_replicate pre data, of no_match]
  show ?thesis
  proof (cases "captured_values n fs")
    case Nil
    with nth fit show ?thesis by (simp add: get_match_def mask_mid Let_def no_match_def)
  next
    case (Cons v vs)
    with nth obtain start where start: "?ms ! unat (match_idx m) = captured_range start (length (last (v # vs)))"
      "take (length (last (v # vs))) (drop start (head @ body)) = last (v # vs)" "last (v # vs) \<noteq> []"
      "start + length (last (v # vs)) \<le> ?j + length (concat (map field_bytes fs))" by (auto simp: range_of_def)
    have "start + length (last (v # vs)) \<le> length (head @ body)" "start + length (last (v # vs)) \<le> 0x8000"
      using start(4) len head(2) by (simp_all add: MAX_BYTES_def)
    with get_match_range [OF fit start(1)] start(2,3) show ?thesis by (simp add: Cons)
  qed
qed

section \<open>What a parser captures\<close>

lemma served_names:
  assumes run: "capture_all (h1_serve lower) (map Hdr names) h1_new =
      Inr (res :: (('enc, 'bpf, 'plain) beeper_error + match_id) list, p)"
  shows "ids_fit (map_of (h1_captures p))" and "own_ids (map_of (h1_captures p))"
    and "i < length names \<Longrightarrow> res ! i = Inr mid \<Longrightarrow> map_of (h1_captures p) (lower (names ! i)) = Some mid"
proof -
  have ids: "h1_ids.ids_ok p" using h1_serve_all_inv [OF run h1_inv_new] by (rule h1_invD)
  then have "h1_num_matches p \<le> H1_MAX_MATCHES" and lt: "\<And>k m. map_of (h1_captures p) k = Some m \<Longrightarrow> match_idx m < h1_num_matches p"
    and own: "\<And>k k' m. map_of (h1_captures p) k = Some m \<Longrightarrow> map_of (h1_captures p) k' = Some m \<Longrightarrow> k' = k"
    unfolding h1_ids.ids_ok_def by blast+
  then show "ids_fit (map_of (h1_captures p))"
    by (fastforce simp: ids_fit_def MATCHES_def word_le_nat_alt word_less_nat_alt)
  show "own_ids (map_of (h1_captures p))" using own unfolding own_ids_def by blast
  show "map_of (h1_captures p) (lower (names ! i)) = Some mid" if "i < length names" "res ! i = Inr mid"
    using h1_serve_all_handed_out [OF run] that unfolding handed_out_def by force
qed

text \<open>The tables \<open>attach\<close> loads are those of the DFA with the end of the header.\<close>

lemma attached_tables:
  assumes "h1_attach env trace_enabled order target q =
      (Inr (links, tr) :: ('enc, 'bpf, 'plain) h1_failure + prog list \<times> h1_trace)"
    and "\<And>d. set (order d) = set (iter_transitions d)" and "loaded_rodata tr = Some (consts, tables)"
  obtains d where "add_pattern ANY_STATE hdr_end_calls (h1_dfa q) = Inr d" and "wf_dfa d \<Longrightarrow> loaded d tables"
proof -
  from assms(1) obtain q' data where q': "done_on_hdr_end q = Inr q'"
    and data: "h1_inject (order (h1_dfa q')) q' = (Inr data :: ('enc, 'bpf, 'plain) h1_failure + h1_rodata)"
    and tr: "tr = parser_trace trace_enabled h1_progs target (h1_configured q') data []"
    by (rule h1_attach_trace)
  have "loaded_rodata tr = Some data"
    by (simp add: tr trace_defs parser_trace_def trace_steps silent_ops [OF log_silent] del: map_map)
  with assms(3) have "data = (consts, tables)" by simp
  with data h1_inject_result [of q', OF _ assms(2), where 'enc = 'enc and 'bpf = 'bpf and 'plain = 'plain]
  have "wf_dfa (h1_dfa q') \<Longrightarrow> loaded (h1_dfa q') tables"
    by (simp add: loaded_def fits_def h1_limits_def)
  moreover have "add_pattern ANY_STATE hdr_end_calls (h1_dfa q) = Inr (h1_dfa q')"
    using q' by (auto simp: done_on_hdr_end_def res_simps)
  ultimately show thesis using that by blast
qed

text \<open>
  C1: whatever header fields a parser is asked for, once it is
  attached, \<open>parse_msg\<close> of a message returns the length of its header, however much of the
  message is in its linear part, and \<open>get_match\<close> for the id of a field returns the value of the
  last field of that name in the message, in any case, that is not empty, without the white
  space in front of it; if there is none it returns that there is no match. Values may contain
  anything but line ends; the start line, other fields and the body do not matter.
\<close>

theorem h1_program_captures_the_values:
  assumes "capture_all (h1_serve lower) (map Hdr names) h1_new =
      Inr (res :: (('enc, 'bpf, 'plain) beeper_error + match_id) list, p)"
    and "\<forall>name \<in> set names. lower_name (lower name)" and "h1_dfa q = h1_dfa p"
    and "h1_attach env trace_enabled order target q =
      (Inr (links, tr) :: ('enc, 'bpf, 'plain) h1_failure + prog list \<times> h1_trace)"
    and "\<And>d. set (order d) = set (iter_transitions d)" and "loaded_rodata tr = Some (consts, tables)"
    and "head = head_bytes start_line b fs b'" and "list_all text_byte start_line" and "list_all field_ok fs"
    and "length head \<le> MAX_BYTES"
    and "linear @ rest = head @ body" and "linear \<noteq> []" and "length linear \<noteq> MAX_BYTES"
    and "i < length names" and "res ! i = Inr mid"
  shows "\<exists>ms. parse_msg tables linear (length (head @ body)) (Some (head @ body)) (replicate MATCHES no_match) =
      (int (length head), ms) \<and>
    get_match (head @ body) ms (match_idx mid) = (case captured_values (lower (names ! i)) fs of
        [] \<Rightarrow> Inl (- ENOENT) | vs \<Rightarrow> Inr (last vs))"
proof -
  let ?M = "map_of (h1_captures p)" and ?j = "length start_line + length (line_end b)"
  obtain d where d: "add_pattern ANY_STATE hdr_end_calls (h1_dfa p) = Inr d" and load: "wf_dfa d \<Longrightarrow> loaded d tables"
    using attached_tables [OF assms(4-6)] assms(3) by metis
  obtain st P where hd: "header_dfa st (P, ?M, True) d"
    by (rule parser_header_dfa [OF assms(1) d assms(2)])
  have load: "loaded d tables" using load modelsD(1) [OF header_dfaD(1) [OF hd]] .
  note s = served_names [OF assms(1)]
  have m: "?M (lower (names ! i)) = Some mid" using s(3) assms(14,15) .
  let ?ms = "capture_fields ?M ?j fs (replicate MATCHES no_match)"
  have "get_match (head @ body) ?ms (match_idx mid) = (case captured_values (lower (names ! i)) fs of
        [] \<Rightarrow> Inl (- ENOENT) | vs \<Rightarrow> Inr (last vs))"
    by (rule get_captured [OF s(1,2) m assms(7,10)])
  with parse_msg_head [OF hd s(1) load assms(7-13)] show ?thesis by blast
qed


text \<open>A request with a field that is captured, twice, and one that is not.\<close>

definition demo_fields :: "http_field list" where
  "demo_fields =
     [\<lparr>f_name = bytes_of ''te'', f_space = [], f_value = bytes_of ''br'', f_cr = True\<rparr>,
      \<lparr>f_name = bytes_of ''Test'', f_space = SP, f_value = bytes_of ''1'', f_cr = True\<rparr>,
      \<lparr>f_name = bytes_of ''TE'', f_space = SP @ TAB, f_value = bytes_of ''gz '', f_cr = False\<rparr>]"

definition demo_head :: bytes where
  "demo_head = head_bytes (bytes_of ''GET / HTTP/1.1'') True demo_fields True"

theorem h1_program_captures_the_values_witness:
  "\<exists>(tables :: h1_tables) ms.
     parse_msg tables demo_head (length (demo_head @ [0x21])) (Some (demo_head @ [0x21])) (replicate MATCHES no_match) =
       (int (length demo_head), ms) \<and>
     get_match (demo_head @ [0x21]) ms 0 = Inr (bytes_of ''gz '')"
proof -
  let ?names = "[bytes_of ''te'']"
  have run: "(case capture_all (h1_serve ascii_lower :: h1_request \<Rightarrow> h1_parser \<Rightarrow> (unit, unit, unit) h1_result)
        (map Hdr ?names) h1_new of
      Inr (res, q) \<Rightarrow> res = [Inr (MatchId 0)] \<and>
        (case add_pattern ANY_STATE hdr_end_calls (h1_dfa q) of Inr d \<Rightarrow> num_states d \<le> 64 | Inl _ \<Rightarrow> False)
    | Inl _ \<Rightarrow> False)"
    by code_simp
  define R :: "h1_action panic + ((unit, unit, unit) beeper_error + match_id) list \<times> h1_parser"
    where "R = capture_all (h1_serve ascii_lower) (map Hdr ?names) h1_new"
  from run [folded R_def] obtain res p where R: "R = Inr (res, p)" by (cases R) auto
  with run [folded R_def] obtain d where d: "add_pattern ANY_STATE hdr_end_calls (h1_dfa p) = Inr d" "num_states d \<le> 64"
    by (cases "add_pattern ANY_STATE hdr_end_calls (h1_dfa p)") auto
  have c: "capture_all (h1_serve ascii_lower) (map Hdr ?names) h1_new =
      Inr ([Inr (MatchId 0)] :: ((unit, unit, unit) beeper_error + match_id) list, p)"
    using run [folded R_def] R unfolding R_def by simp
  obtain links tr data where a: "h1_attach (\<lambda>_ _. None) False iter_transitions 7 (demo_parser p) =
      (Inr (links, tr) :: (unit, unit, unit) h1_failure + prog list \<times> h1_trace)" and l: "loaded_rodata tr = Some data"
    by (rule h1_attach_runs [OF c d])
  obtain cs tables where data: "data = (cs, tables)" by (cases data)
  have dfa: "h1_dfa (demo_parser p) = h1_dfa p" by (simp add: h1_get_fn_def h1_parse_fn_def)
  have names: "\<forall>name \<in> set ?names. lower_name (ascii_lower name)"
    by (simp add: bytes_of_def ascii_lower_def lower_name_def token_byte_def to_ascii_lowercase_def is_ascii_uppercase_def)
  have start: "list_all text_byte (bytes_of ''GET / HTTP/1.1'')"
    by (simp add: bytes_of_def text_byte_def)
  have fs_ok: "list_all field_ok demo_fields"
    by (simp add: demo_fields_def field_ok_def bytes_of_def token_byte_def text_byte_def space_byte_def SP_def TAB_def)
  have len: "demo_head \<noteq> []" "length demo_head < MAX_BYTES"
    by (simp_all add: demo_head_def head_bytes_def demo_fields_def field_bytes_def bytes_of_def line_end_def
        CR_def LF_def SP_def TAB_def MAX_BYTES_def)
  have vals: "captured_values (ascii_lower (bytes_of ''te'')) demo_fields = [bytes_of ''br'', bytes_of ''gz '']"
    by (simp add: captured_values_def demo_fields_def bytes_of_def ascii_lower_def to_ascii_lowercase_def is_ascii_uppercase_def)
  from h1_program_captures_the_values [where body = "[0x21]" and i = 0 and mid = "MatchId 0", OF c names dfa a refl l [unfolded data] demo_head_def start fs_ok _ refl len(1)]
    len(2) vals
  show ?thesis by auto
qed


text \<open>White space behind a captured name does not lose it.\<close>

lemma walks_name_space:
  assumes hd: "header_dfa st (P, M, True) d" and "at_place st (P, M, True) (Name p) w" and "M p \<noteq> None"
    and "list_all space_byte cs"
  shows "walks d i cs w w"
  using assms(4)
proof (induction cs arbitrary: i)
  case (Cons c cs)
  obtain m where m: "M p = Some m" using assms(3) by auto
  have "p @ [c] \<notin> P" if "c = 0x09 \<or> c = 0x20"
    using names_okD(6) [OF header_dfaD(4) [OF hd], of p c] that by (auto simp: token_byte_def)
  with Cons.prems m have s: "place_step (P, M, True) (Name p) c = (Name p, None)"
    by (auto simp: place_step_def place_next_def space_byte_def)
  have "walks d i [c] w w"
    using walks_step(1) [OF hd assms(2) s, of i] stay [OF assms(2)] by simp
  with Cons.IH [of "i + 1"] Cons.prems show ?case by (auto intro: walks_Cons)
qed simp

text \<open>
  C31: white space is skipped behind every captured name, also
  where a longer captured name goes on. A parser that was asked for a name and for a longer one
  that starts with it takes a line with white space between the two parts, which is no field,
  for a field of the longer name, and captures its value.
\<close>

theorem h1_white_space_in_a_name_is_skipped:
  assumes "capture_all (h1_serve lower) (map Hdr names) h1_new =
      Inr (res :: (('enc, 'bpf, 'plain) beeper_error + match_id) list, p)"
    and "done_on_hdr_end p = Inr p'" and "\<forall>name \<in> set names. lower_name (lower name)"
    and "i < length names" and "res ! i = Inr mid0" and "j < length names" and "res ! j = Inr mid"
    and "lower (names ! j) = lower (names ! i) @ suffix"
    and "list_all space_byte ws" and "list_all text_byte v" and "v \<noteq> []" and "\<not> space_byte (hd v)"
    and "length ms = MATCHES"
  shows "\<exists>w. dfa_loop (h1_dfa p') 0 (LF @ lower (names ! i) @ ws @ suffix @ [0x3A] @ v @ LF) (walk_start ms None) = (None, w) \<and>
    w_ms w ! unat (match_idx mid) = captured_range (length (lower (names ! j)) + length ws + 2) (length v)"
proof -
  let ?M = "map_of (h1_captures p)" and ?n = "lower (names ! i)"
  let ?w0 = "walk_start ms None"
  obtain d where d: "add_pattern ANY_STATE hdr_end_calls (h1_dfa p) = Inr d" and p': "h1_dfa p' = d"
    using assms(2) by (auto simp: done_on_hdr_end_def res_simps)
  obtain st P where hd: "header_dfa st (P, ?M, True) d"
    by (rule parser_header_dfa [OF assms(1) d assms(3)])
  note s = served_names [OF assms(1)] and ok = names_okD [OF header_dfaD(4) [OF hd]]
  have m: "?M ?n = Some mid0" "?M (?n @ suffix) = Some mid" using s(3) assms(4-7) by (auto simp: assms(8) [symmetric])
  have P: "?n \<in> P" "?n @ suffix \<in> P" using ok(2) m by simp_all
  have "lower_name ?n" "lower_name (?n @ suffix)" using assms(3,4,6) by (auto simp: assms(8) [symmetric])
  then have toks: "list_all token_byte ?n" "list_all token_byte suffix"
    and low: "map to_ascii_lowercase ?n = ?n" "map to_ascii_lowercase suffix = suffix"
    by (auto simp: lower_name_def list_all_iff intro!: map_idI)
  have w0: "at_place st (P, ?M, True) Start ?w0" "length (w_cidx ?w0) = MATCHES"
    using header_dfaD(2) [OF hd] by (simp_all add: at_place_def walk_start_def)
  let ?w1 = "?w0\<lparr>w_state := st (Name [])\<rparr>" and ?w2 = "?w0\<lparr>w_state := st (Name ?n)\<rparr>"
    and ?w3 = "?w0\<lparr>w_state := st (Name (?n @ suffix))\<rparr>"
  have w1: "walks d 0 LF ?w0 ?w1" "at_place st (P, ?M, True) (Name []) ?w1"
    using walks_start_line [OF hd w0(1), of "[]" 0 False] by (simp_all add: line_end_def)
  have w2: "walks d 1 ?n ?w1 ?w2" "at_place st (P, ?M, True) (Name ?n) ?w2"
    using walks_name [OF hd w1(2) toks(1), of 1] P(1) by (simp_all add: low)
  have sp: "walks d (1 + length ?n) ws ?w2 ?w2"
    by (rule walks_name_space [OF hd w2(2) _ assms(9)]) (use m(1) in simp)
  have w3: "walks d (1 + length ?n + length ws) suffix ?w2 ?w3" "at_place st (P, ?M, True) (Name (?n @ suffix)) ?w3"
    using walks_name [OF hd w2(2) toks(2), of "1 + length ?n + length ws"] P(2) by (simp_all add: low)
  define k where "k = 1 + length ?n + length ws + length suffix"
  have "unat (match_idx mid) < MATCHES" using s(1) m(2) by (simp add: ids_fit_def)
  moreover have "length (w_cidx ?w3) = MATCHES" using w0(2) by simp
  moreover have "v \<noteq> [] \<longrightarrow> \<not> space_byte (List.hd v)" using assms(12) by simp
  ultimately obtain w4 where w4: "walks d k ([0x3A] @ [] @ v @ line_end False) ?w3 w4"
    "w_ms w4 = ms[unat (match_idx mid) := captured_range (k + 1) (length v)]" and fit: "unat (match_idx mid) < MATCHES"
    using walks_known_field [where M = ?M and m = mid, OF hd w3(2) m(2) _ _ _ assms(10), of "[]" k False] assms(11)
    by (auto simp: walk_start_def)
  have "walks d 0 (LF @ ?n @ ws @ suffix @ [0x3A] @ v @ LF) ?w0 w4"
  proof -
    have "walks d (1 + length ?n + length ws) (suffix @ [0x3A] @ v @ LF) ?w2 w4"
      by (rule walks_append [OF w3(1)]) (use w4(1) in \<open>simp add: k_def line_end_def\<close>)
    from walks_append [OF sp this] have "walks d (1 + length ?n) (ws @ suffix @ [0x3A] @ v @ LF) ?w2 w4" .
    from walks_append [OF w2(1) this] have "walks d (0 + length LF) (?n @ ws @ suffix @ [0x3A] @ v @ LF) ?w1 w4"
      by (simp add: LF_def)
    from walks_append [OF w1(1) this] show ?thesis .
  qed
  then have "dfa_loop d 0 ((LF @ ?n @ ws @ suffix @ [0x3A] @ v @ LF) @ []) ?w0 = (None, w4)"
    unfolding walks_def by (metis dfa_loop.simps(1))
  moreover have "k + 1 = length (lower (names ! j)) + length ws + 2" by (simp add: k_def assms(8))
  ultimately show ?thesis
    using w4(2) fit assms(13) by (intro exI [of _ w4]) (simp add: p')
qed


theorem h1_white_space_in_a_name_is_skipped_witness:
  "\<exists>(d :: h1_action dfa) w.
     dfa_loop d 0 (LF @ bytes_of ''x'' @ SP @ bytes_of ''y'' @ [0x3A] @ bytes_of ''v'' @ LF)
       (walk_start (replicate MATCHES no_match) None) = (None, w) \<and> w_ms w ! 1 = captured_range (length (bytes_of ''xy'') + length SP + 2) (length (bytes_of ''v''))"
proof -
  let ?names = "[bytes_of ''x'', bytes_of ''xy'']"
  define R :: "h1_action panic + ((unit, unit, unit) beeper_error + match_id) list \<times> h1_parser"
    where "R = capture_all (h1_serve ascii_lower) (map Hdr ?names) h1_new"
  have "(case capture_all (h1_serve ascii_lower :: h1_request \<Rightarrow> h1_parser \<Rightarrow> (unit, unit, unit) h1_result)
        (map Hdr ?names) h1_new of
      Inr (res, q) \<Rightarrow> res = [Inr (MatchId 0), Inr (MatchId 1)] \<and> \<not> isl (done_on_hdr_end q)
    | Inl _ \<Rightarrow> False)"
    by code_simp
  note run = this [folded R_def]
  from run obtain res p where R: "R = Inr (res, p)" by (cases R) auto
  with run obtain p' where p': "done_on_hdr_end p = Inr p'"
    by (cases "done_on_hdr_end p") auto
  have c: "capture_all (h1_serve ascii_lower) (map Hdr ?names) h1_new =
      Inr ([Inr (MatchId 0), Inr (MatchId 1)] :: ((unit, unit, unit) beeper_error + match_id) list, p)"
    using run R unfolding R_def by simp
  have lower: "ascii_lower (bytes_of ''x'') = bytes_of ''x''" "ascii_lower (bytes_of ''xy'') = bytes_of ''x'' @ bytes_of ''y''"
    by (simp_all add: ascii_lower_def bytes_of_def to_ascii_lowercase_def is_ascii_uppercase_def)
  have names: "\<forall>name \<in> set ?names. lower_name (ascii_lower name)"
    by (simp add: lower) (simp add: bytes_of_def lower_name_def token_byte_def to_ascii_lowercase_def is_ascii_uppercase_def)
  have ok: "list_all space_byte SP" "list_all text_byte (bytes_of ''v'')" "bytes_of ''v'' \<noteq> []"
    "\<not> space_byte (hd (bytes_of ''v''))" "length (replicate MATCHES no_match) = MATCHES"
    by (simp_all add: SP_def space_byte_def text_byte_def bytes_of_def)
  have nth: "?names ! 0 = bytes_of ''x''" "?names ! 1 = bytes_of ''xy''" by simp_all
  from h1_white_space_in_a_name_is_skipped [OF c p' names, where i = 0 and j = 1 and mid = "MatchId 1"
      and mid0 = "MatchId 0" and suffix = "bytes_of ''y''", OF _ _ _ _ _ ok]
  have "\<exists>w. dfa_loop (h1_dfa p') 0 (LF @ bytes_of ''x'' @ SP @ bytes_of ''y'' @ [0x3A] @ bytes_of ''v'' @ LF)
       (walk_start (replicate MATCHES no_match) None) = (None, w) \<and>
     w_ms w ! 1 = captured_range (length (bytes_of ''xy'') + length SP + 2) (length (bytes_of ''v''))"
    unfolding nth lower by (simp add: bytes_of_def)
  then show ?thesis by blast
qed

end
