(* ===== verification/Conformance_Cases.thy ===== *)
theory Conformance_Cases
  imports Beeper_Prelude
begin

section \<open>What h2spec sends (\<open>utils/src/bin/conformance/cases.rs\<close>)\<close>

text \<open>
  The table the conformance check compares the HTTP/2 parser with: for each case of h2spec
  the header blocks it sends, or what the parser makes of the frames of a violation.
\<close>

subsection \<open>Blocks and cases\<close>

datatype sent_value = Str string | Authority | Dummy | Raw bytes

type_synonym sent_field = "string \<times> sent_value"

datatype block = Fields "sent_field list" | Malformed | Rejected

definition block_sent :: "block \<Rightarrow> sent_field list option" where
  "block_sent b = (case b of Fields fields \<Rightarrow> Some fields | Malformed \<Rightarrow> None | Rejected \<Rightarrow> None)"

datatype expect = Blocks "block list" | Violation "block list"

record h2spec_case =
  case_ids :: "string list"
  case_expect :: expect

definition case_blocks :: "h2spec_case \<Rightarrow> block list" where
  "case_blocks c = (case case_expect c of Blocks blocks \<Rightarrow> blocks | Violation blocks \<Rightarrow> blocks)"

definition DUMMY_LEN :: nat where "DUMMY_LEN = 4000"

definition request_block :: "string \<Rightarrow> sent_field list \<Rightarrow> block" where
  "request_block method fs = Fields
     ([('':method'', Str method), ('':scheme'', Str ''http''), ('':path'', Str ''/''), ('':authority'', Authority)] @
      fs)"

definition get_block :: "sent_field list \<Rightarrow> block" where
  "get_block fs = request_block ''GET'' fs"

definition head_block :: "sent_field list \<Rightarrow> block" where
  "head_block fs = request_block ''HEAD'' fs"

definition post_block :: "sent_field list \<Rightarrow> block" where
  "post_block fs = request_block ''POST'' fs"

definition fields_block :: "sent_field list \<Rightarrow> block" where
  "fields_block fs = Fields fs"

lemmas block_defs = request_block_def get_block_def head_block_def post_block_def fields_block_def

subsection \<open>The cases\<close>

text \<open>The list of the code, in four parts.\<close>

definition violation_cases :: "h2spec_case list" where
  "violation_cases = [
     \<lparr>case_ids = [''http2/4.3/2'', ''http2/6.2/1'', ''http2/6.10/2'', ''http2/6.10/3''],
       case_expect = Violation [Rejected, Rejected]\<rparr>,
     \<lparr>case_ids = [''http2/4.3/3'', ''http2/6.2/2''],
       case_expect = Violation [Rejected, fields_block [('':method'', Str ''GET''),
         ('':scheme'', Str ''http''), ('':path'', Str ''/'')], Rejected]\<rparr>,
     \<lparr>case_ids = [''http2/5.1/4'', ''http2/6.2/3'', ''http2/5.5/2''],
       case_expect = Violation [Rejected]\<rparr>,
     \<lparr>case_ids = [''http2/5.1/7'', ''http2/5.1/10'', ''http2/5.1/13'', ''http2/6.10/4''],
       case_expect = Violation [get_block [], Rejected]\<rparr>,
     \<lparr>case_ids = [''http2/6.10/5''],
       case_expect = Violation [get_block [(''x-dummy0'', Dummy)], Rejected]\<rparr>,
     \<lparr>case_ids = [''http2/6.10/6''],
       case_expect = Violation [Rejected, Rejected, Rejected]\<rparr>]"

definition general_cases :: "h2spec_case list" where
  "general_cases = [
     \<lparr>case_ids = [''generic/1/1'', ''generic/2/1'', ''generic/3.5/1'', ''generic/3.7/1'',
        ''generic/3.8/1'', ''generic/3.9/1'', ''http2/3.5/1'', ''http2/3.5/2'',
        ''http2/4.1/1'', ''http2/4.1/2'', ''http2/4.1/3'', ''http2/5.1/1'', ''http2/5.1/2'',
        ''http2/5.1/3'', ''http2/5.3.1/2'', ''http2/5.4.1/1'', ''http2/5.5/1'',
        ''http2/6.1/1'', ''http2/6.3/1'', ''http2/6.4/1'', ''http2/6.4/2'', ''http2/6.5/1'',
        ''http2/6.5/2'', ''http2/6.5/3'', ''http2/6.5.2/1'', ''http2/6.5.2/2'',
        ''http2/6.5.2/3'', ''http2/6.5.2/4'', ''http2/6.5.2/5'', ''http2/6.5.3/2'',
        ''http2/6.7/1'', ''http2/6.7/2'', ''http2/6.7/3'', ''http2/6.7/4'', ''http2/6.8/1'',
        ''http2/6.9/1'', ''http2/6.9/3'', ''http2/6.9.1/2'', ''http2/6.9.2/3'', ''http2/7/1'',
        ''http2/8.2/1''],
       case_expect = Blocks []\<rparr>,
     \<lparr>case_ids = [''generic/2/2'', ''generic/2/3'', ''generic/2/4'', ''generic/2/5'', ''generic/3.2/1'',
        ''generic/3.2/2'', ''generic/3.2/3'', ''generic/3.3/1'', ''generic/3.3/2'',
        ''generic/3.3/3'', ''generic/3.3/4'', ''generic/3.3/5'', ''generic/3.4/1'',
        ''generic/3.9/2'', ''generic/4/1'', ''generic/5/14'', ''generic/5/15'',
        ''http2/5.1/5'', ''http2/5.1/8'', ''http2/5.1/11'', ''http2/5.1.1/1'',
        ''http2/5.3.1/1'', ''http2/6.3/2'', ''http2/6.4/3'', ''http2/6.9/2'',
        ''http2/6.9.1/3'', ''hpack/2.3.3/1'', ''hpack/2.3.3/2'', ''hpack/4.2/1'',
        ''hpack/6.3/1''],
       case_expect = Blocks [get_block []]\<rparr>,
     \<lparr>case_ids = [''generic/3.1/1'', ''generic/3.1/2'', ''generic/3.1/3'', ''generic/4/3'',
        ''http2/4.2/1'', ''http2/4.2/2'', ''http2/6.1/2'', ''http2/7/2''],
       case_expect = Blocks [post_block []]\<rparr>,
     \<lparr>case_ids = [''generic/4/2''],
       case_expect = Blocks [head_block []]\<rparr>,
     \<lparr>case_ids = [''generic/4/4''],
       case_expect = Blocks [post_block [(''trailer'', Str ''x-test'')], fields_block
         [(''x-test'', Str ''ok'')]]\<rparr>,
     \<lparr>case_ids = [''generic/5/1''],
       case_expect = Blocks [get_block [(''user-agent'', Str '''')]]\<rparr>,
     \<lparr>case_ids = [''generic/5/2'', ''generic/5/3'', ''generic/5/6'', ''generic/5/7'', ''generic/5/10'',
        ''generic/5/11''],
       case_expect = Blocks [get_block [(''user-agent'', Str ''h2spec'')]]\<rparr>,
     \<lparr>case_ids = [''generic/5/4'', ''generic/5/5'', ''generic/5/8'', ''generic/5/9'', ''generic/5/12'',
        ''generic/5/13''],
       case_expect = Blocks [get_block [(''x-test'', Str ''h2spec'')]]\<rparr>,
     \<lparr>case_ids = [''http2/4.2/3''],
       case_expect = Blocks [get_block [(''x-dummy0'', Dummy), (''x-dummy1'', Dummy),
         (''x-dummy2'', Dummy), (''x-dummy3'', Dummy), (''x-dummy4'', Dummy)]]\<rparr>,
     \<lparr>case_ids = [''http2/4.3/1''],
       case_expect = Blocks [fields_block []]\<rparr>]"

definition framing_cases :: "h2spec_case list" where
  "framing_cases = [
     \<lparr>case_ids = [''http2/5.1/6'', ''http2/5.1/9'', ''http2/5.1/12'', ''http2/5.1.1/2'',
        ''http2/6.5.3/1'', ''http2/6.9.1/1'', ''http2/6.9.2/1'', ''http2/6.9.2/2''],
       case_expect = Blocks [get_block [], get_block []]\<rparr>,
     \<lparr>case_ids = [''http2/5.1.2/1''],
       case_expect = Blocks (replicate 201 (get_block []))\<rparr>,
     \<lparr>case_ids = [''http2/6.1/3''],
       case_expect = Blocks [post_block [(''content-length'', Str ''4'')]]\<rparr>,
     \<lparr>case_ids = [''http2/6.2/4'', ''hpack/6.1/1''],
       case_expect = Blocks [Malformed]\<rparr>,
     \<lparr>case_ids = [''http2/6.10/1''],
       case_expect = Blocks [get_block [(''x-dummy0'', Dummy), (''x-dummy0'', Dummy)]]\<rparr>,
     \<lparr>case_ids = [''generic/3.10/1'', ''generic/3.10/2''],
       case_expect = Blocks [fields_block [('':method'', Str ''GET''), ('':scheme'', Str
         ''http''), ('':path'', Str ''/''), ('':authority'', Authority)]]\<rparr>,
     \<lparr>case_ids = [''http2/8.1/1''],
       case_expect = Blocks [post_block [], fields_block [(''x-test'', Str ''ok'')]]\<rparr>,
     \<lparr>case_ids = [''http2/8.1.2/1''],
       case_expect = Blocks [get_block [(''X-TEST'', Str ''ok'')]]\<rparr>,
     \<lparr>case_ids = [''http2/8.1.2.1/1''],
       case_expect = Blocks [get_block [('':test'', Str ''ok'')]]\<rparr>]"

definition message_cases :: "h2spec_case list" where
  "message_cases = [
     \<lparr>case_ids = [''http2/8.1.2.1/2''],
       case_expect = Blocks [get_block [('':status'', Str ''200'')]]\<rparr>,
     \<lparr>case_ids = [''http2/8.1.2.1/3''],
       case_expect = Blocks [post_block [], fields_block [('':method'', Str ''POST'')]]\<rparr>,
     \<lparr>case_ids = [''http2/8.1.2.1/4''],
       case_expect = Blocks [fields_block [(''x-test'', Str ''ok''), ('':method'', Str
         ''GET''), ('':scheme'', Str ''http''), ('':path'', Str ''/''), ('':authority'',
         Authority)]]\<rparr>,
     \<lparr>case_ids = [''http2/8.1.2.2/1''],
       case_expect = Blocks [get_block [(''connection'', Str ''keep-alive'')]]\<rparr>,
     \<lparr>case_ids = [''http2/8.1.2.2/2''],
       case_expect = Blocks [get_block [(''trailers'', Str ''test''), (''te'', Str
         ''trailers, deflate'')]]\<rparr>,
     \<lparr>case_ids = [''http2/8.1.2.3/1''],
       case_expect = Blocks [fields_block [('':method'', Str ''GET''), ('':scheme'', Str
         ''http''), ('':path'', Str ''''), ('':authority'', Authority)]]\<rparr>,
     \<lparr>case_ids = [''http2/8.1.2.3/2''],
       case_expect = Blocks [fields_block [('':path'', Str ''/''), ('':authority'',
         Authority)]]\<rparr>,
     \<lparr>case_ids = [''http2/8.1.2.3/3''],
       case_expect = Blocks [fields_block [('':method'', Str ''GET''), ('':path'', Str
         ''/''), ('':authority'', Authority)]]\<rparr>,
     \<lparr>case_ids = [''http2/8.1.2.3/4''],
       case_expect = Blocks [fields_block [('':method'', Str ''GET''), ('':scheme'', Str
         ''http''), ('':authority'', Authority)]]\<rparr>,
     \<lparr>case_ids = [''http2/8.1.2.3/5''],
       case_expect = Blocks [get_block [('':method'', Str ''GET'')]]\<rparr>,
     \<lparr>case_ids = [''http2/8.1.2.3/6''],
       case_expect = Blocks [get_block [('':scheme'', Str ''http'')]]\<rparr>,
     \<lparr>case_ids = [''http2/8.1.2.3/7''],
       case_expect = Blocks [get_block [('':path'', Str ''/'')]]\<rparr>,
     \<lparr>case_ids = [''http2/8.1.2.6/1'', ''http2/8.1.2.6/2''],
       case_expect = Blocks [post_block [(''content-length'', Str ''1'')]]\<rparr>,
     \<lparr>case_ids = [''hpack/5.2/1''],
       case_expect = Blocks [get_block [(''x-test'', Raw [0x49, 0x50, 0x9F, 0xFF])]]\<rparr>,
     \<lparr>case_ids = [''hpack/5.2/2''],
       case_expect = Blocks [get_block [(''x-test'', Raw [0x49, 0x50, 0x90])]]\<rparr>,
     \<lparr>case_ids = [''hpack/5.2/3''],
       case_expect = Blocks [get_block [(''x-test'', Raw [0x49, 0x51, 0xFF, 0xFF, 0xFF,
         0xFA, 0x7F])]]\<rparr>]"

definition h2spec_cases :: "h2spec_case list" where
  "h2spec_cases = violation_cases @ general_cases @ framing_cases @ message_cases"

lemmas case_defs = h2spec_cases_def violation_cases_def general_cases_def framing_cases_def message_cases_def

section \<open>Properties of the table\<close>

definition is_violation :: "h2spec_case \<Rightarrow> bool" where
  "is_violation c = (case case_expect c of Violation _ \<Rightarrow> True | Blocks _ \<Rightarrow> False)"

text \<open>
  The table lists the 146 cases of h2spec, each of them once.
  A case that violates the framing rules rejects a frame and lists no malformed block; a case
  that does not rejects none.
\<close>

theorem h2spec_cases_are_consistent:
  "distinct (concat (map case_ids h2spec_cases)) \<and> length (concat (map case_ids h2spec_cases)) = 146 \<and>
   list_all (\<lambda>c. if is_violation c then Rejected \<in> set (case_blocks c) \<and> Malformed \<notin> set (case_blocks c)
     else Rejected \<notin> set (case_blocks c)) h2spec_cases"
proof (intro conjI)
  show "distinct (concat (map case_ids h2spec_cases))" by (simp add: case_defs)
  show "length (concat (map case_ids h2spec_cases)) = 146" by (simp add: case_defs)
  show "list_all (\<lambda>c. if is_violation c then Rejected \<in> set (case_blocks c) \<and> Malformed \<notin> set (case_blocks c)
     else Rejected \<notin> set (case_blocks c)) h2spec_cases"
    by (simp add: case_defs is_violation_def case_blocks_def block_defs)
qed

end
