(* ===== verification/Test_Results.thy ===== *)
theory Test_Results
  imports Http2_Conn
begin

section \<open>The results the test program reports (\<open>utils/src/test.rs\<close>)\<close>

unbundle bit_operations_syntax

text \<open>
  \<open>ParseResult::read\<close> reads an entry of the ring buffer of the test program: the bytes of a
  \<open>struct parse_result\<close>, laid out the way C does. The rest of the file loads and attaches the
  test program and is not modelled.
\<close>

subsection \<open>The layout\<close>

definition RESULT_MAX_MATCHES :: nat where "RESULT_MAX_MATCHES = 32"
definition RESULT_VAL_LEN :: nat where "RESULT_VAL_LEN = 128"

record raw_parse_result =
  raw_kind :: u32
  raw_client_port :: u32
  raw_upstream :: u32
  raw_ret :: u32
  raw_sid :: u32
  raw_frame_type :: u32
  raw_flags :: u32
  raw_captured :: u32
  raw_lens :: "u32 list"
  raw_vals :: "bytes list"

text \<open>\<open>size_of::<RawParseResult>()\<close>: eight words, a length and a value for each match.\<close>

definition raw_size :: nat where
  "raw_size = 4 * 8 + 4 * RESULT_MAX_MATCHES + RESULT_VAL_LEN * RESULT_MAX_MATCHES"

definition u32_at :: "bool \<Rightarrow> bytes \<Rightarrow> nat \<Rightarrow> u32" where
  "u32_at big_endian data off =
     (case take 4 (drop off data) of [a, b, c, d] \<Rightarrow> from_ne_bytes big_endian (a, b, c, d) | _ \<Rightarrow> 0)"

text \<open>\<open>read_unaligned\<close> of such a struct.\<close>

definition read_raw :: "bool \<Rightarrow> bytes \<Rightarrow> raw_parse_result" where
  "read_raw big_endian data =
     \<lparr>raw_kind = u32_at big_endian data 0, raw_client_port = u32_at big_endian data 4,
      raw_upstream = u32_at big_endian data 8, raw_ret = u32_at big_endian data 12,
      raw_sid = u32_at big_endian data 16, raw_frame_type = u32_at big_endian data 20,
      raw_flags = u32_at big_endian data 24, raw_captured = u32_at big_endian data 28,
      raw_lens = map (\<lambda>i. u32_at big_endian data (32 + 4 * i)) [0..<RESULT_MAX_MATCHES],
      raw_vals = map (\<lambda>i. take RESULT_VAL_LEN (drop (160 + RESULT_VAL_LEN * i) data)) [0..<RESULT_MAX_MATCHES]\<rparr>"

subsection \<open>Results\<close>

record capture =
  cap_len :: u32
  cap_head :: bytes

record frame =
  fr_client_port :: u16
  fr_upstream :: bool
  fr_ret :: int
  fr_sid :: u32
  fr_type :: u8
  fr_flags :: u8
  fr_captures :: "capture option list"

datatype parse_result = Open u16 bool | Close u16 bool | Frame frame | Mark

definition read_captures :: "raw_parse_result \<Rightarrow> capture option list" where
  "read_captures raw = map (\<lambda>i.
     if raw_captured raw AND push_bit i 1 \<noteq> 0
     then let len = raw_lens raw ! i in
       Some \<lparr>cap_len = len, cap_head = take (min (unat len) RESULT_VAL_LEN) (raw_vals raw ! i)\<rparr>
     else None) [0..<RESULT_MAX_MATCHES]"

definition parse_result_read :: "bool \<Rightarrow> bytes \<Rightarrow> parse_result option" where
  "parse_result_read big_endian data =
     (if length data < raw_size then None
      else let raw = read_raw big_endian data;
               client_port = ucast (raw_client_port raw);
               server = (raw_upstream raw \<noteq> 0)
        in if raw_kind raw = 0 then Some (Open client_port server)
           else if raw_kind raw = 1 then Some (Close client_port server)
           else if raw_kind raw = 3 then Some Mark
           else if raw_kind raw = 2 then
             Some (Frame \<lparr>fr_client_port = client_port, fr_upstream = server, fr_ret = sint (raw_ret raw),
               fr_sid = raw_sid raw, fr_type = ucast (raw_frame_type raw), fr_flags = ucast (raw_flags raw),
               fr_captures = read_captures raw\<rparr>)
           else None)"

subsection \<open>What the program writes\<close>

text \<open>
  The bytes of a struct in memory, and the struct the program fills in for a result. A value
  that was not captured is left as the ring buffer handed it out, here \<open>junk\<close>.
\<close>

definition u32_bytes :: "bool \<Rightarrow> u32 \<Rightarrow> bytes" where
  "u32_bytes big_endian w =
     (let bs = map (\<lambda>k. ucast (drop_bit (8 * k) w)) [0..<4] in if big_endian then rev bs else bs)"

definition raw_bytes :: "bool \<Rightarrow> raw_parse_result \<Rightarrow> bytes" where
  "raw_bytes big_endian raw =
     concat (map (u32_bytes big_endian)
       ([raw_kind raw, raw_client_port raw, raw_upstream raw, raw_ret raw, raw_sid raw, raw_frame_type raw,
         raw_flags raw, raw_captured raw] @ raw_lens raw)) @ concat (raw_vals raw)"

definition conn_raw :: "u32 \<Rightarrow> u16 \<Rightarrow> bool \<Rightarrow> u32 list \<Rightarrow> bytes list \<Rightarrow> raw_parse_result" where
  "conn_raw kind client_port server lens vals =
     \<lparr>raw_kind = kind, raw_client_port = ucast client_port, raw_upstream = of_bool server, raw_ret = 0,
      raw_sid = 0, raw_frame_type = 0, raw_flags = 0, raw_captured = 0, raw_lens = lens, raw_vals = vals\<rparr>"

definition fill :: "bytes \<Rightarrow> bytes \<Rightarrow> bytes" where
  "fill head junk = head @ drop (length head) junk"

definition result_raw :: "parse_result \<Rightarrow> u32 list \<Rightarrow> bytes list \<Rightarrow> raw_parse_result" where
  "result_raw res lens vals = (case res of
       Open client_port server \<Rightarrow> conn_raw 0 client_port server lens vals
     | Close client_port server \<Rightarrow> conn_raw 1 client_port server lens vals
     | Mark \<Rightarrow> conn_raw 3 0 False lens vals
     | Frame f \<Rightarrow>
         \<lparr>raw_kind = 2, raw_client_port = ucast (fr_client_port f), raw_upstream = of_bool (fr_upstream f),
          raw_ret = word_of_int (fr_ret f), raw_sid = fr_sid f, raw_frame_type = ucast (fr_type f),
          raw_flags = ucast (fr_flags f),
          raw_captured = horner_sum of_bool 2 (map (\<lambda>c. c \<noteq> None) (fr_captures f)),
          raw_lens = map (\<lambda>(c, l). case c of None \<Rightarrow> l | Some c \<Rightarrow> cap_len c) (zip (fr_captures f) lens),
          raw_vals = map (\<lambda>(c, v). case c of None \<Rightarrow> v | Some c \<Rightarrow> fill (cap_head c) v) (zip (fr_captures f) vals)\<rparr>)"

text \<open>A result the program can report: a value has its length and as much of it as there is room for.\<close>

definition wf_capture :: "capture \<Rightarrow> bool" where
  "wf_capture c \<longleftrightarrow> length (cap_head c) = min (unat (cap_len c)) RESULT_VAL_LEN"

definition wf_result :: "parse_result \<Rightarrow> bool" where
  "wf_result res \<longleftrightarrow> (case res of
       Frame f \<Rightarrow> length (fr_captures f) = RESULT_MAX_MATCHES \<and>
         (\<forall>c. Some c \<in> set (fr_captures f) \<longrightarrow> wf_capture c) \<and> - (2 ^ 31) \<le> fr_ret f \<and> fr_ret f < 2 ^ 31
     | _ \<Rightarrow> True)"

subsection \<open>Reading the layout back\<close>

lemma length_u32_bytes [simp]: "length (u32_bytes be w) = 4"
  by (simp add: u32_bytes_def Let_def)

lemma chunk:
  assumes "\<forall>c \<in> set cs. length c = k" and "i < length cs"
  shows "take k (drop (k * i) (concat cs @ rest)) = cs ! i"
  using assms
proof (induction cs arbitrary: i)
  case (Cons c cs)
  then show ?case by (cases i) (simp_all add: drop_all)
qed simp

lemma u32_byte: "unat (ucast (drop_bit n w) :: u8) = unat (w :: u32) div 2 ^ n mod 256"
proof -
  have "unat (ucast (drop_bit n w) :: u8) = unat (drop_bit n w) mod 256"
    by (simp add: unsigned_ucast_eq take_bit_eq_mod)
  also have "unat (drop_bit n w) = unat w div 2 ^ n"
    by (simp only: unat_drop_bit_eq drop_bit_eq_div [where ?'a = nat])
  finally show ?thesis .
qed

lemma digits_256:
  fixes n :: nat
  assumes "n < 2 ^ 32"
  shows "((n div 2 ^ 24 mod 256 * 256 + n div 2 ^ 16 mod 256) * 256 + n div 2 ^ 8 mod 256) * 256 +
      n div 2 ^ 0 mod 256 = n"
proof -
  define a b c where "a = n div 256" and "b = a div 256" and "c = b div 256"
  have "n div 2 ^ 8 = a" "n div 2 ^ 16 = b" "n div 2 ^ 24 = c"
    by (simp_all add: a_def b_def c_def flip: div_mult2_eq)
  moreover have "c < 256" using assms by (simp add: a_def b_def c_def flip: div_mult2_eq)
  moreover have "c * 256 + b mod 256 = b" "b * 256 + a mod 256 = a" "a * 256 + n mod 256 = n"
    by (simp_all add: a_def b_def c_def)
  ultimately show ?thesis by simp
qed

lemma u32_digits:
  fixes w :: u32
  shows "((unat w div 2 ^ 24 mod 256 * 256 + unat w div 2 ^ 16 mod 256) * 256 +
      unat w div 2 ^ 8 mod 256) * 256 + unat w div 2 ^ 0 mod 256 = unat w"
  using unsigned_less [of w, where ?'a = nat] by (intro digits_256) simp

lemma u32_bytes_read:
  "(case u32_bytes be w of [a, b, c, d] \<Rightarrow> from_ne_bytes be (a, b, c, d) | _ \<Rightarrow> 0) = w"
proof -
  have bs: "map (\<lambda>k. ucast (drop_bit (8 * k) w)) [0..<4] =
      [ucast (drop_bit 0 w), ucast (drop_bit 8 w), ucast (drop_bit 16 w), ucast (drop_bit 24 w) :: u8]"
    by (simp add: upt_rec)
  show ?thesis
    unfolding u32_bytes_def bs Let_def
    by (cases be) (simp_all only: rev.simps append.simps list.case from_ne_bytes_def prod.case if_True if_False
        u32_byte u32_digits of_nat_unat ucast_id)
qed

lemma u32_at_words:
  assumes "j < length ws" and "off = 4 * j"
  shows "u32_at be (concat (map (u32_bytes be) ws) @ rest) off = ws ! j"
  using chunk [of "map (u32_bytes be) ws" 4 j rest] assms by (simp add: u32_at_def u32_bytes_read)

lemma read_raw_bytes:
  assumes "length (raw_lens raw) = RESULT_MAX_MATCHES" and "length (raw_vals raw) = RESULT_MAX_MATCHES"
    and "\<forall>v \<in> set (raw_vals raw). length v = RESULT_VAL_LEN"
  shows "read_raw be (raw_bytes be raw @ rest) = raw" and "raw_size \<le> length (raw_bytes be raw @ rest)"
proof -
  define ws where "ws = [raw_kind raw, raw_client_port raw, raw_upstream raw, raw_ret raw, raw_sid raw,
    raw_frame_type raw, raw_flags raw, raw_captured raw] @ raw_lens raw"
  have rb: "raw_bytes be raw @ rest = concat (map (u32_bytes be) ws) @ (concat (raw_vals raw) @ rest)"
    by (simp add: raw_bytes_def ws_def)
  have len: "length ws = 40" using assms(1) by (simp add: ws_def RESULT_MAX_MATCHES_def)
  have at: "u32_at be (raw_bytes be raw @ rest) off = ws ! j" if "j < 40" "off = 4 * j" for j off
    unfolding rb using that len by (intro u32_at_words) simp_all
  have lens: "map (\<lambda>i. u32_at be (raw_bytes be raw @ rest) (32 + 4 * i)) [0..<RESULT_MAX_MATCHES] = raw_lens raw"
  proof (rule nth_equalityI)
    fix i assume "i < length (map (\<lambda>i. u32_at be (raw_bytes be raw @ rest) (32 + 4 * i)) [0..<RESULT_MAX_MATCHES])"
    then show "map (\<lambda>i. u32_at be (raw_bytes be raw @ rest) (32 + 4 * i)) [0..<RESULT_MAX_MATCHES] ! i = raw_lens raw ! i"
      using at [of "8 + i" "32 + 4 * i"] by (simp add: RESULT_MAX_MATCHES_def ws_def nth_append)
  qed (simp add: assms(1))
  have words: "length (concat (map (u32_bytes be) ws)) = 160"
    by (simp add: length_concat comp_def len sum_list_triv)
  have vals: "map (\<lambda>i. take RESULT_VAL_LEN (drop (160 + RESULT_VAL_LEN * i) (raw_bytes be raw @ rest)))
      [0..<RESULT_MAX_MATCHES] = raw_vals raw"
  proof (rule nth_equalityI)
    fix i assume "i < length (map (\<lambda>i. take RESULT_VAL_LEN (drop (160 + RESULT_VAL_LEN * i) (raw_bytes be raw @ rest)))
      [0..<RESULT_MAX_MATCHES])"
    then show "map (\<lambda>i. take RESULT_VAL_LEN (drop (160 + RESULT_VAL_LEN * i) (raw_bytes be raw @ rest)))
      [0..<RESULT_MAX_MATCHES] ! i = raw_vals raw ! i"
      using chunk [OF assms(3), of i rest] assms(2)
      by (simp add: rb words drop_append add.commute)
  qed (simp add: assms(2))
  show "read_raw be (raw_bytes be raw @ rest) = raw"
    unfolding read_raw_def lens vals
    using at [of 0 0] at [of 1 4] at [of 2 8] at [of 3 12] at [of 4 16] at [of 5 20] at [of 6 24] at [of 7 28]
    by (simp add: ws_def)
  have "length (concat (raw_vals raw)) = RESULT_VAL_LEN * RESULT_MAX_MATCHES"
    using assms(2,3) by (simp add: length_concat sum_list_triv map_cong [OF refl, of _ length "\<lambda>_. RESULT_VAL_LEN"])
  then show "raw_size \<le> length (raw_bytes be raw @ rest)"
    using words by (simp add: rb raw_size_def RESULT_MAX_MATCHES_def)
qed


subsection \<open>Round trip\<close>

lemma ucast_ucast_back [simp]:
  "(ucast (ucast (x :: u16) :: u32) :: u16) = x" "(ucast (ucast (y :: u8) :: u32) :: u8) = y"
  by (auto intro!: bit_word_eqI simp: bit_simps)

lemma captured_bit:
  assumes "length bs = 32" and "i < 32"
  shows "((horner_sum of_bool 2 bs :: u32) AND push_bit i 1 \<noteq> 0) = bs ! i"
proof -
  have "((horner_sum of_bool 2 bs :: u32) AND push_bit i 1 \<noteq> 0) = bit (horner_sum of_bool 2 bs :: u32) i"
    by (simp add: and_exp_eq_0_iff_not_bit push_bit_eq_mult)
  also have "\<dots> = bs ! i"
    using assms by (simp add: bit_horner_sum_bit_word_iff)
  finally show ?thesis .
qed

lemma length_fill [simp]: "length (fill head junk) = max (length head) (length junk)"
  by (simp add: fill_def)

lemma read_captures_result:
  assumes "wf_result (Frame f)" and "length lens = RESULT_MAX_MATCHES" and "length vals = RESULT_MAX_MATCHES"
  shows "read_captures (result_raw (Frame f) lens vals) = fr_captures f"
proof (rule nth_equalityI)
  have len: "length (fr_captures f) = RESULT_MAX_MATCHES" using assms(1) by (simp add: wf_result_def)
  then show "length (read_captures (result_raw (Frame f) lens vals)) = length (fr_captures f)"
    by (simp add: read_captures_def)
  fix i assume "i < length (read_captures (result_raw (Frame f) lens vals))"
  then have i: "i < 32" by (simp add: read_captures_def RESULT_MAX_MATCHES_def)
  have "wf_capture c" if "fr_captures f ! i = Some c" for c
    using that assms(1) i len nth_mem [of i "fr_captures f"]
    by (auto simp: wf_result_def RESULT_MAX_MATCHES_def)
  then have "take (length (cap_head c)) (fill (cap_head c) (vals ! i)) = cap_head c \<and>
      min (unat (cap_len c)) RESULT_VAL_LEN = length (cap_head c)" if "fr_captures f ! i = Some c" for c
    using that by (simp add: fill_def wf_capture_def)
  then show "read_captures (result_raw (Frame f) lens vals) ! i = fr_captures f ! i"
    using i len assms(2,3) captured_bit [of "map (\<lambda>c. c \<noteq> None) (fr_captures f)" i]
    by (cases "fr_captures f ! i") (simp_all add: read_captures_def result_raw_def RESULT_MAX_MATCHES_def Let_def)
qed

lemma result_raw_lists:
  assumes "wf_result res" and "length lens = RESULT_MAX_MATCHES" and "length vals = RESULT_MAX_MATCHES"
    and "\<forall>v \<in> set vals. length v = RESULT_VAL_LEN"
  shows "length (raw_lens (result_raw res lens vals)) = RESULT_MAX_MATCHES"
    and "length (raw_vals (result_raw res lens vals)) = RESULT_MAX_MATCHES"
    and "\<forall>v \<in> set (raw_vals (result_raw res lens vals)). length v = RESULT_VAL_LEN"
proof -
  have frame: "length (raw_lens raw) = RESULT_MAX_MATCHES \<and> length (raw_vals raw) = RESULT_MAX_MATCHES \<and>
      (\<forall>v \<in> set (raw_vals raw). length v = RESULT_VAL_LEN)"
    if "res = Frame f" "raw = result_raw res lens vals" for f raw
  proof -
    have "length (case c of None \<Rightarrow> v | Some c \<Rightarrow> fill (cap_head c) v) = RESULT_VAL_LEN"
      if "(c, v) \<in> set (zip (fr_captures f) vals)" for c v
    proof (cases c)
      case (Some d)
      with that assms(1) \<open>res = Frame f\<close> have "wf_capture d"
        by (auto simp: wf_result_def dest: set_zip_leftD)
      with that assms(4) Some show ?thesis
        by (auto simp: wf_capture_def dest: set_zip_rightD)
    qed (use that assms(4) in \<open>auto dest: set_zip_rightD\<close>)
    with that assms show ?thesis by (auto simp: result_raw_def wf_result_def)
  qed
  show "length (raw_lens (result_raw res lens vals)) = RESULT_MAX_MATCHES"
    and "length (raw_vals (result_raw res lens vals)) = RESULT_MAX_MATCHES"
    and "\<forall>v \<in> set (raw_vals (result_raw res lens vals)). length v = RESULT_VAL_LEN"
    using assms(2-4) frame by (cases res; simp add: result_raw_def conn_raw_def)+
qed

text \<open>
  C36: what the test program writes for a result, in the layout of its
  struct, is read back as that result, whatever follows it, whatever the parts of the struct it
  leaves out hold, and in either order of bytes. Anything shorter is not read.
\<close>

theorem parse_result_roundtrip:
  assumes "wf_result res" and "length lens = RESULT_MAX_MATCHES" and "length vals = RESULT_MAX_MATCHES"
    and "\<forall>v \<in> set vals. length v = RESULT_VAL_LEN" and "n < raw_size"
  shows "parse_result_read be (raw_bytes be (result_raw res lens vals) @ rest) = Some res \<and>
    parse_result_read be (take n (raw_bytes be (result_raw res lens vals))) = None"
proof -
  note raw = read_raw_bytes [OF result_raw_lists [OF assms(1-4)], of be rest]
  have "parse_result_read be (raw_bytes be (result_raw res lens vals) @ rest) = Some res"
  proof (cases res)
    case (Frame f)
    with assms(1) have "sint (word_of_int (fr_ret f) :: u32) = fr_ret f"
      by (simp add: wf_result_def sint_sbintrunc' signed_take_bit_int_eq_self)
    moreover define r where "r = result_raw res lens vals"
    moreover from this have "read_captures r = fr_captures f"
      using read_captures_result [of f lens vals] assms Frame by simp
    moreover have "raw_kind r = 2" "raw_client_port r = ucast (fr_client_port f)"
      "raw_upstream r = of_bool (fr_upstream f)" "raw_ret r = word_of_int (fr_ret f)" "raw_sid r = fr_sid f"
      "raw_frame_type r = ucast (fr_type f)" "raw_flags r = ucast (fr_flags f)"
      by (simp_all add: r_def Frame result_raw_def)
    ultimately show ?thesis
      using raw Frame by (cases f) (simp add: parse_result_read_def Let_def)
  qed (use raw in \<open>simp_all add: parse_result_read_def Let_def not_less result_raw_def conn_raw_def\<close>)
  moreover have "min (length (raw_bytes be (result_raw res lens vals))) n < raw_size" using assms(5) by simp
  ultimately show ?thesis by (simp add: parse_result_read_def [of _ "take _ _"])
qed

text \<open>A response that failed to parse, one value of 200 bytes of which 128 are reported.\<close>

definition a_result :: parse_result where
  "a_result = Frame \<lparr>fr_client_port = 40000, fr_upstream = True, fr_ret = -22, fr_sid = 1, fr_type = 1, fr_flags = 4,
     fr_captures = None # Some \<lparr>cap_len = 200, cap_head = replicate 128 65\<rparr> # replicate 30 None\<rparr>"

theorem parse_result_roundtrip_witness:
  "parse_result_read False (raw_bytes False (result_raw a_result (replicate 32 7) (replicate 32 (replicate 128 9))) @ [1])
     = Some a_result \<and>
   parse_result_read False (take 100 (raw_bytes False (result_raw a_result (replicate 32 7) (replicate 32 (replicate 128 9)))))
     = None"
  by (rule parse_result_roundtrip)
    (auto simp: a_result_def wf_result_def wf_capture_def RESULT_MAX_MATCHES_def RESULT_VAL_LEN_def raw_size_def)

end
