(* ===== verification/Conformance_Check.thy ===== *)
theory Conformance_Check
  imports Conformance_Cases Test_Results
begin

section \<open>The verdict of the conformance check (\<open>utils/src/bin/conformance/main.rs\<close>)\<close>

text \<open>
  How the conformance check turns what the test program reported for a case into the list of
  its problems: sorting the frames into blocks, the values a block is expected to carry, and
  the comparison of requests, violations and responses. A message is a value of \<open>problem\<close> with
  what it says; the text around it, and the shortening of values in it, is left out.
  The Huffman encoder of the crate \<open>httlib_huffman\<close> is the parameter \<open>encode\<close>, and \<open>EPROTO\<close> of
  \<open>libc\<close> the parameter \<open>eproto\<close>.
\<close>

subsection \<open>The names a case captures\<close>

definition RESPONSE_FIELDS :: "string list" where
  "RESPONSE_FIELDS = ['':status'', ''content-type'', ''content-length'', ''allow'']"

definition names_length :: "string list \<Rightarrow> nat" where
  "names_length names = (\<Sum>name\<leftarrow>names. length name)"

definition fields_named :: "h2spec_case \<Rightarrow> string list" where
  "fields_named c = map fst (concat (List.map_filter block_sent (case_blocks c))) @ RESPONSE_FIELDS"

text \<open>Every field of any case.\<close>

definition all_names :: "string list" where
  "all_names = ['':authority'', '':method'', '':path'', '':scheme'', '':status'', '':test'', ''X-TEST'', ''allow'', ''connection'', ''content-length'', ''content-type'', ''te'', ''trailer'', ''trailers'', ''user-agent'', ''x-dummy0'', ''x-dummy1'', ''x-dummy2'', ''x-dummy3'', ''x-dummy4'', ''x-test'']"

lemma fields_of_cases: "\<forall>c \<in> set h2spec_cases. set (fields_named c) \<subseteq> set all_names"
  by (simp add: case_defs block_defs fields_named_def case_blocks_def block_sent_def RESPONSE_FIELDS_def
      all_names_def map_filter_simps)
    (auto simp: map_filter_def block_sent_def)

subsection \<open>Problems\<close>

datatype expected = Absent | Whole bytes | As_Sent bytes

text \<open>What \<open>describe_error\<close> says, and the problems in the order \<open>main.rs\<close> has them.\<close>

datatype outcome = Parsed | Failed_Proto | Failed int

definition describe_error :: "int \<Rightarrow> int option \<Rightarrow> outcome" where
  "describe_error eproto err = (case err of
       None \<Rightarrow> Parsed
     | Some e \<Rightarrow> if e = - eproto then Failed_Proto else Failed e)"

datatype mismatch = Mismatch (mm_name: string) (mm_captured: "capture option") (mm_expected: expected)

datatype block_problem =
    Rejected_Without_Rule
  | Not_Failed outcome
  | Not_Parsed outcome
  | Not_Rejected outcome
  | Malformed_In_Violation
  | Field_Problem mismatch
  | Response_Failed int
  | No_Answer

datatype problem =
    Failed_Frame u8 u32 int
  | Block_Count nat nat
  | Frame_Count nat nat nat
  | Request_Problem nat u32 block_problem
  | Frame_Problem nat u8 u32 block_problem
  | Response_Problem nat u32 block_problem

subsection \<open>Blocks\<close>

definition HEADERS :: u8 where "HEADERS = 1"
definition CONTINUATION :: u8 where "CONTINUATION = 9"

record parsed_block =
  pb_client_port :: u16
  pb_sid :: u32
  pb_error :: "int option"
  pb_captures :: "capture option list"

definition frame_error :: "frame \<Rightarrow> int option" where
  "frame_error f = (if fr_ret f < 0 then Some (fr_ret f) else None)"

definition parsed_block_new :: "frame \<Rightarrow> parsed_block" where
  "parsed_block_new f =
     \<lparr>pb_client_port = fr_client_port f, pb_sid = fr_sid f, pb_error = frame_error f, pb_captures = fr_captures f\<rparr>"

fun blocks_loop :: "frame list \<Rightarrow> parsed_block list \<times> parsed_block list \<times> problem list \<Rightarrow>
    parsed_block list \<times> parsed_block list \<times> problem list" where
  "blocks_loop [] acc = acc"
| "blocks_loop (f # frames) (requests, responses, problems) =
     (if fr_type f \<noteq> HEADERS \<and> fr_type f \<noteq> CONTINUATION
      then blocks_loop frames (requests, responses, problems @ [Failed_Frame (fr_type f) (fr_sid f) (fr_ret f)])
      else if fr_upstream f
      then blocks_loop frames (requests, responses @ [parsed_block_new f], problems)
      else blocks_loop frames (requests @ [parsed_block_new f], responses, problems))"

definition blocks_of :: "frame list \<Rightarrow> parsed_block list \<times> parsed_block list \<times> problem list" where
  "blocks_of frames = blocks_loop frames ([], [], [])"

subsection \<open>Expected values\<close>

definition expected_new :: "sent_value \<Rightarrow> bytes \<Rightarrow> expected" where
  "expected_new v authority = (case v of
       Str s \<Rightarrow> Whole (bytes_of s)
     | Authority \<Rightarrow> Whole authority
     | Dummy \<Rightarrow> Whole (replicate DUMMY_LEN (of_char (CHR ''x'')))
     | Raw raw \<Rightarrow> As_Sent raw)"

definition starts_with :: "bytes \<Rightarrow> bytes \<Rightarrow> bool" where
  "starts_with bs pre = (take (length pre) bs = pre)"

definition matches_sent :: "capture \<Rightarrow> bytes \<Rightarrow> bool" where
  "matches_sent c sent =
     (let len = unat (cap_len c); cut = (len = RESULT_VAL_LEN \<and> length sent > len)
      in (len = length sent \<or> cut) \<and> starts_with sent (cap_head c))"

text \<open>\<open>Expected::matches\<close>, which panics if the value cannot be encoded.\<close>

definition matches :: "(bytes \<Rightarrow> 'enc + bytes) \<Rightarrow> expected \<Rightarrow> capture option \<Rightarrow> 'enc + bool" where
  "matches encode ex capture = (case (ex, capture) of
       (Absent, None) \<Rightarrow> Inr True
     | (Absent, Some _) \<Rightarrow> Inr False
     | (_, None) \<Rightarrow> Inr False
     | (As_Sent raw, Some c) \<Rightarrow> Inr (unat (cap_len c) = length raw \<and> cap_head c = raw)
     | (Whole v, Some c) \<Rightarrow> bind_res (encode v) (\<lambda>coded. Inr (list_ex (matches_sent c) [v, coded])))"

type_synonym field_values = "string \<rightharpoonup> expected"

definition expected_fields :: "sent_field list \<Rightarrow> bytes \<Rightarrow> field_values" where
  "expected_fields block authority =
     foldl (\<lambda>fs (name, v). fs(name \<mapsto> expected_new v authority)) Map.empty block"

definition BODY :: string where "BODY = ''h2spec''"

fun find_method :: "sent_field list \<Rightarrow> string option" where
  "find_method [] = None"
| "find_method ((name, v) # fs) =
     (case v of Str method \<Rightarrow> if name = '':method'' then Some method else find_method fs | _ \<Rightarrow> find_method fs)"

definition response_fields :: "sent_field list \<Rightarrow> bytes \<Rightarrow> field_values option" where
  "response_fields block authority =
     (case find_method (rev block) of
        None \<Rightarrow> None
      | Some method \<Rightarrow>
          if method = ''GET'' \<or> method = ''HEAD''
          then let fs = [
                 '':status'' \<mapsto> Whole (bytes_of ''200''),
                 ''content-type'' \<mapsto> Whole (bytes_of ''text/plain; charset=utf-8''),
                 ''content-length'' \<mapsto> Whole (bytes_of (show_nat (length BODY)))]
            in Some (foldl (\<lambda>fs (name, v). fs(name \<mapsto> expected_new v authority)) fs
                 (filter (\<lambda>(name, _). take 1 name \<noteq> '':'') block))
          else Some [
                 '':status'' \<mapsto> Whole (bytes_of ''405''),
                 ''allow'' \<mapsto> Whole (bytes_of ''GET,HEAD''),
                 ''content-length'' \<mapsto> Whole (bytes_of ''0'')])"

subsection \<open>The fields of a block\<close>

text \<open>\<open>CaseParser::check\<close>; \<open>names\<close> is the field of the case's parser, indexed by match id.\<close>

fun check_names ::
  "(bytes \<Rightarrow> 'enc + bytes) \<Rightarrow> nat \<Rightarrow> string list \<Rightarrow> capture option list \<Rightarrow> field_values \<Rightarrow> 'enc + mismatch list" where
  "check_names encode mid [] captures fs = Inr []"
| "check_names encode mid (name # names) captures fs =
     (let ex = (case fs name of Some ex \<Rightarrow> ex | None \<Rightarrow> Absent);
          capture = (if mid < length captures then captures ! mid else None)
      in bind_res (matches encode ex capture) (\<lambda>ok.
         bind_res (check_names encode (mid + 1) names captures fs) (\<lambda>problems.
         Inr (if ok then problems else Mismatch name capture ex # problems))))"

definition check_block ::
  "(bytes \<Rightarrow> 'enc + bytes) \<Rightarrow> string list \<Rightarrow> parsed_block \<Rightarrow> field_values \<Rightarrow> 'enc + mismatch list" where
  "check_block encode names b fs = check_names encode 0 names (pb_captures b) fs"

subsection \<open>Requests\<close>

fun check_request ::
  "(bytes \<Rightarrow> 'enc + bytes) \<Rightarrow> int \<Rightarrow> string list \<Rightarrow> bytes \<Rightarrow> block \<Rightarrow> parsed_block \<Rightarrow> 'enc + block_problem list" where
  "check_request encode eproto names authority Rejected b = Inr [Rejected_Without_Rule]"
| "check_request encode eproto names authority Malformed b =
     (case pb_error b of
        Some err \<Rightarrow> if err \<noteq> - eproto then Inr [] else Inr [Not_Failed (describe_error eproto (pb_error b))]
      | None \<Rightarrow> Inr [Not_Failed (describe_error eproto (pb_error b))])"
| "check_request encode eproto names authority (Fields sent) b =
     (case pb_error b of
        Some err \<Rightarrow> Inr [Not_Parsed (describe_error eproto (pb_error b))]
      | None \<Rightarrow> bind_res (check_block encode names b (expected_fields sent authority)) (\<lambda>ps.
          Inr (map Field_Problem ps)))"

fun request_problems ::
  "(bytes \<Rightarrow> 'enc + bytes) \<Rightarrow> int \<Rightarrow> string list \<Rightarrow> bytes \<Rightarrow> nat \<Rightarrow> parsed_block list \<Rightarrow> block list \<Rightarrow> 'enc + problem list" where
  "request_problems encode eproto names authority i (b # parsed) (s # sent) =
     bind_res (check_request encode eproto names authority s b) (\<lambda>ps.
     bind_res (request_problems encode eproto names authority (i + 1) parsed sent) (\<lambda>rest.
     Inr (map (Request_Problem i (pb_sid b)) ps @ rest)))"
| "request_problems encode eproto names authority i _ _ = Inr []"

definition check_requests ::
  "(bytes \<Rightarrow> 'enc + bytes) \<Rightarrow> int \<Rightarrow> string list \<Rightarrow> block list \<Rightarrow> parsed_block list \<Rightarrow> bytes \<Rightarrow> problem list \<Rightarrow>
     'enc + problem list" where
  "check_requests encode eproto names sent parsed authority problems =
     (let problems = (if length parsed \<noteq> length sent then problems @ [Block_Count (length parsed) (length sent)]
                      else problems)
      in bind_res (request_problems encode eproto names authority 0 parsed sent) (\<lambda>ps. Inr (problems @ ps)))"

subsection \<open>Violations\<close>

definition seen_frame :: "frame \<Rightarrow> bool" where
  "seen_frame f = (\<not> fr_upstream f \<and> (fr_ret f < 0 \<or> fr_type f = HEADERS \<or> fr_type f = CONTINUATION))"

fun position :: "('a \<Rightarrow> bool) \<Rightarrow> 'a list \<Rightarrow> nat option" where
  "position P [] = None"
| "position P (x # xs) = (if P x then Some 0 else map_option Suc (position P xs))"

definition up_to_violation :: "block list \<Rightarrow> nat" where
  "up_to_violation sent = (case position (\<lambda>b. b = Rejected) sent of None \<Rightarrow> length sent | Some i \<Rightarrow> i + 1)"

fun check_frame ::
  "(bytes \<Rightarrow> 'enc + bytes) \<Rightarrow> int \<Rightarrow> string list \<Rightarrow> bytes \<Rightarrow> block \<Rightarrow> frame \<Rightarrow> 'enc + block_problem list" where
  "check_frame encode eproto names authority Rejected f =
     (if fr_ret f = - eproto then Inr [] else Inr [Not_Rejected (describe_error eproto (frame_error f))])"
| "check_frame encode eproto names authority Malformed f = Inr [Malformed_In_Violation]"
| "check_frame encode eproto names authority (Fields sent) f =
     (if fr_ret f < 0 then Inr [Not_Parsed (describe_error eproto (Some (fr_ret f)))]
      else bind_res (check_block encode names
             \<lparr>pb_client_port = fr_client_port f, pb_sid = fr_sid f, pb_error = None, pb_captures = fr_captures f\<rparr>
             (expected_fields sent authority)) (\<lambda>ps.
           Inr (map Field_Problem ps)))"

fun frame_problems ::
  "(bytes \<Rightarrow> 'enc + bytes) \<Rightarrow> int \<Rightarrow> string list \<Rightarrow> bytes \<Rightarrow> nat \<Rightarrow> frame list \<Rightarrow> block list \<Rightarrow> 'enc + problem list" where
  "frame_problems encode eproto names authority i (f # seen) (s # sent) =
     bind_res (check_frame encode eproto names authority s f) (\<lambda>ps.
     bind_res (frame_problems encode eproto names authority (i + 1) seen sent) (\<lambda>rest.
     Inr (map (Frame_Problem i (fr_type f) (fr_sid f)) ps @ rest)))"
| "frame_problems encode eproto names authority i _ _ = Inr []"

definition check_violation ::
  "(bytes \<Rightarrow> 'enc + bytes) \<Rightarrow> int \<Rightarrow> string list \<Rightarrow> block list \<Rightarrow> frame list \<Rightarrow> bytes \<Rightarrow> problem list \<Rightarrow>
     'enc + problem list" where
  "check_violation encode eproto names sent frames authority problems =
     (let seen = filter seen_frame frames; up_to = up_to_violation sent;
          problems = (if length seen < up_to \<or> length seen > length sent
                      then problems @ [Frame_Count (length seen) (length sent) up_to] else problems)
      in bind_res (frame_problems encode eproto names authority 0 seen sent) (\<lambda>ps. Inr (problems @ ps)))"

subsection \<open>Responses and the verdict\<close>

text \<open>\<open>min_by_key\<close>: the first of the elements whose key is the least.\<close>

fun min_by_key :: "('a \<Rightarrow> nat) \<Rightarrow> 'a list \<Rightarrow> 'a option" where
  "min_by_key key [] = None"
| "min_by_key key (x # xs) =
     (case min_by_key key xs of None \<Rightarrow> Some x | Some y \<Rightarrow> Some (if key y < key x then y else x))"

fun map_res :: "('a \<Rightarrow> 'e + 'b) \<Rightarrow> 'a list \<Rightarrow> 'e + 'b list" where
  "map_res f [] = Inr []"
| "map_res f (x # xs) = bind_res (f x) (\<lambda>y. bind_res (map_res f xs) (\<lambda>ys. Inr (y # ys)))"

definition check_response ::
  "(bytes \<Rightarrow> 'enc + bytes) \<Rightarrow> string list \<Rightarrow> field_values list \<Rightarrow> parsed_block \<Rightarrow> 'enc + block_problem list" where
  "check_response encode names answers b =
     (case pb_error b of
        Some err \<Rightarrow> Inr [Response_Failed err]
      | None \<Rightarrow> bind_res (map_res (check_block encode names b) answers) (\<lambda>mismatches.
          case min_by_key length mismatches of
            None \<Rightarrow> Inr [No_Answer]
          | Some ps \<Rightarrow> Inr (map Field_Problem ps)))"

fun response_problems ::
  "(bytes \<Rightarrow> 'enc + bytes) \<Rightarrow> string list \<Rightarrow> field_values list \<Rightarrow> nat \<Rightarrow> parsed_block list \<Rightarrow> 'enc + problem list" where
  "response_problems encode names answers i [] = Inr []"
| "response_problems encode names answers i (b # parsed) =
     bind_res (check_response encode names answers b) (\<lambda>ps.
     bind_res (response_problems encode names answers (i + 1) parsed) (\<lambda>rest.
     Inr (map (Response_Problem i (pb_sid b)) ps @ rest)))"

definition answers_of :: "h2spec_case \<Rightarrow> bytes \<Rightarrow> field_values list" where
  "answers_of c authority =
     List.map_filter (\<lambda>block. response_fields block authority) (List.map_filter block_sent (case_blocks c))"

text \<open>\<open>check\<close>, with the three numbers of its summary.\<close>

definition check_case ::
  "(bytes \<Rightarrow> 'enc + bytes) \<Rightarrow> int \<Rightarrow> string list \<Rightarrow> h2spec_case \<Rightarrow> frame list \<Rightarrow> bytes \<Rightarrow>
     'enc + problem list \<times> nat \<times> nat \<times> nat" where
  "check_case encode eproto names c frames authority =
     (case blocks_of frames of (requests, responses, problems) \<Rightarrow>
        bind_res (case case_expect c of
             Blocks sent \<Rightarrow> check_requests encode eproto names sent requests authority problems
           | Violation sent \<Rightarrow> check_violation encode eproto names sent frames authority problems) (\<lambda>problems.
        bind_res (response_problems encode names (answers_of c authority) 0 responses) (\<lambda>ps.
        Inr (problems @ ps, length requests, length responses,
             card (set (map pb_client_port requests))))))"


subsection \<open>What a captured value matches\<close>

text \<open>What the test program reports of a value: its length, and as much of it as there is room for.\<close>

definition reported :: "bytes \<Rightarrow> capture" where
  "reported v = \<lparr>cap_len = word_of_nat (length v), cap_head = take RESULT_VAL_LEN v\<rparr>"

lemma matches_sent_iff:
  assumes "wf_capture c" and "length sent < 2 ^ 32"
  shows "matches_sent c sent \<longleftrightarrow>
    c = reported sent \<or> RESULT_VAL_LEN < length sent \<and> c = reported (take RESULT_VAL_LEN sent)"
proof -
  have len: "unat (cap_len c) = n \<longleftrightarrow> cap_len c = word_of_nat n" if "n < 2 ^ 32" for n
    using that by (simp add: word_unat_eq_iff unsigned_of_nat take_bit_nat_eq_self)
  have head: "starts_with sent (cap_head c) \<longleftrightarrow> cap_head c = take (min (unat (cap_len c)) RESULT_VAL_LEN) sent"
    using assms(1) by (auto simp: starts_with_def wf_capture_def)
  have "RESULT_VAL_LEN < 2 ^ 32" by (simp add: RESULT_VAL_LEN_def)
  with len [of "length sent"] len [of RESULT_VAL_LEN] head assms(2) show ?thesis
    by (cases c) (auto simp: matches_sent_def reported_def Let_def min_def)
qed

lemma expected_fields_last:
  "expected_fields block authority name = map_option (\<lambda>v. expected_new v authority) (map_of (rev block) name)"
proof (induction block rule: rev_induct)
  case (snoc x xs)
  then show ?case by (cases x) (simp add: expected_fields_def)
qed (simp add: expected_fields_def)

subsection \<open>What the verdict stands for\<close>

definition expects :: "field_values \<Rightarrow> string \<Rightarrow> expected" where
  "expects fs name = (case fs name of Some ex \<Rightarrow> ex | None \<Rightarrow> Absent)"

definition captured_at :: "capture option list \<Rightarrow> nat \<Rightarrow> capture option" where
  "captured_at captures mid = (if mid < length captures then captures ! mid else None)"

text \<open>The block carries the given fields, and no other one the parser captures.\<close>

definition carries ::
  "(bytes \<Rightarrow> 'enc + bytes) \<Rightarrow> string list \<Rightarrow> capture option list \<Rightarrow> field_values \<Rightarrow> bool" where
  "carries encode names captures fs \<longleftrightarrow>
     (\<forall>mid < length names. matches encode (expects fs (names ! mid)) (captured_at captures mid) = Inr True)"

definition request_ok ::
  "(bytes \<Rightarrow> 'enc + bytes) \<Rightarrow> int \<Rightarrow> string list \<Rightarrow> bytes \<Rightarrow> block \<Rightarrow> frame \<Rightarrow> bool" where
  "request_ok encode eproto names authority s f \<longleftrightarrow> (case s of
       Rejected \<Rightarrow> False
     | Malformed \<Rightarrow> fr_ret f < 0 \<and> fr_ret f \<noteq> - eproto
     | Fields sent \<Rightarrow> 0 \<le> fr_ret f \<and> carries encode names (fr_captures f) (expected_fields sent authority))"

definition violation_ok ::
  "(bytes \<Rightarrow> 'enc + bytes) \<Rightarrow> int \<Rightarrow> string list \<Rightarrow> bytes \<Rightarrow> block \<Rightarrow> frame \<Rightarrow> bool" where
  "violation_ok encode eproto names authority s f \<longleftrightarrow> (case s of
       Rejected \<Rightarrow> fr_ret f = - eproto
     | Malformed \<Rightarrow> False
     | Fields sent \<Rightarrow> 0 \<le> fr_ret f \<and> carries encode names (fr_captures f) (expected_fields sent authority))"

definition response_ok ::
  "(bytes \<Rightarrow> 'enc + bytes) \<Rightarrow> string list \<Rightarrow> field_values list \<Rightarrow> frame \<Rightarrow> bool" where
  "response_ok encode names answers f \<longleftrightarrow>
     0 \<le> fr_ret f \<and> (\<exists>fs \<in> set answers. carries encode names (fr_captures f) fs)"

definition header_frame :: "frame \<Rightarrow> bool" where
  "header_frame f \<longleftrightarrow> fr_type f = HEADERS \<or> fr_type f = CONTINUATION"

definition requests_ok ::
  "(bytes \<Rightarrow> 'enc + bytes) \<Rightarrow> int \<Rightarrow> string list \<Rightarrow> bytes \<Rightarrow> expect \<Rightarrow> frame list \<Rightarrow> bool" where
  "requests_ok encode eproto names authority ex requests \<longleftrightarrow> (case ex of
       Blocks sent \<Rightarrow> list_all2 (request_ok encode eproto names authority) sent requests
     | Violation sent \<Rightarrow>
         up_to_violation sent \<le> length requests \<and> length requests \<le> length sent \<and>
         list_all2 (violation_ok encode eproto names authority) (take (length requests) sent) requests)"

definition conforms ::
  "(bytes \<Rightarrow> 'enc + bytes) \<Rightarrow> int \<Rightarrow> string list \<Rightarrow> h2spec_case \<Rightarrow> frame list \<Rightarrow> bytes \<Rightarrow> bool" where
  "conforms encode eproto names c frames authority \<longleftrightarrow>
     list_all header_frame frames \<and>
     requests_ok encode eproto names authority (case_expect c) (filter (\<lambda>f. \<not> fr_upstream f) frames) \<and>
     list_all (response_ok encode names (answers_of c authority)) (filter fr_upstream frames)"

subsection \<open>The checks decide it\<close>

text \<open>
  A check decides a property if it does not panic, and finds no problem if and only if the
  property holds.
\<close>

definition decides :: "'enc + 'p list \<Rightarrow> bool \<Rightarrow> bool" where
  "decides r P \<longleftrightarrow> (\<exists>ps. r = Inr ps \<and> (ps = [] \<longleftrightarrow> P))"

lemma decides_Inr [simp]: "decides (Inr ps) P \<longleftrightarrow> (ps = [] \<longleftrightarrow> P)"
  by (simp add: decides_def)

lemma decides_map: "decides r P \<Longrightarrow> decides (bind_res r (\<lambda>ps. Inr (map f ps))) P"
  by (auto simp: decides_def)

lemma decides_append:
  "decides r P \<Longrightarrow> decides q Q \<Longrightarrow> decides (bind_res r (\<lambda>ps. bind_res q (\<lambda>qs. Inr (map f ps @ qs)))) (P \<and> Q)"
  by (auto simp: decides_def)

lemma decides_prepend:
  "decides q Q \<Longrightarrow> decides (bind_res q (\<lambda>qs. Inr (ps @ qs))) (ps = [] \<and> Q)"
  by (auto simp: decides_def)


definition encodes_all :: "(bytes \<Rightarrow> 'enc + bytes) \<Rightarrow> bool" where
  "encodes_all encode \<longleftrightarrow> (\<forall>v. \<not> isl (encode v))"

lemma matches_total:
  assumes "encodes_all encode"
  shows "\<exists>ok. matches encode ex capture = Inr ok"
proof (cases "\<exists>v c. ex = Whole v \<and> capture = Some c")
  case True
  then obtain v c where "ex = Whole v" "capture = Some c" by blast
  moreover obtain coded where "encode v = Inr coded"
    using assms by (cases "encode v") (auto simp: encodes_all_def dest: spec [of _ v])
  ultimately show ?thesis by (simp add: matches_def)
qed (auto simp: matches_def split: expected.split option.split)

lemma check_names_decides:
  assumes "encodes_all encode"
  shows "decides (check_names encode mid names captures fs)
    (\<forall>i < length names. matches encode (expects fs (names ! i)) (captured_at captures (mid + i)) = Inr True)"
proof (induction names arbitrary: mid)
  case (Cons name names)
  obtain ok where ok: "matches encode (expects fs name) (captured_at captures mid) = Inr ok"
    using matches_total [OF assms] by blast
  obtain ps where ps: "check_names encode (mid + 1) names captures fs = Inr ps"
    "ps = [] \<longleftrightarrow> (\<forall>i < length names. matches encode (expects fs (names ! i)) (captured_at captures (mid + 1 + i)) = Inr True)"
    using Cons [of "mid + 1"] by (auto simp: decides_def)
  from ok have "check_names encode mid (name # names) captures fs =
      Inr (if ok then ps else Mismatch name (captured_at captures mid) (expects fs name) # ps)"
    using ps(1) by (simp add: expects_def captured_at_def)
  with ok ps(2) show ?case
    by (simp add: All_less_Suc2)
qed simp

lemma check_block_decides:
  assumes "encodes_all encode"
  shows "decides (check_block encode names b fs) (carries encode names (pb_captures b) fs)"
  using check_names_decides [OF assms, of 0] by (simp add: check_block_def carries_def)

lemma check_request_decides:
  assumes "encodes_all encode"
  shows "decides (check_request encode eproto names authority s (parsed_block_new f))
    (request_ok encode eproto names authority s f)"
  using check_block_decides [OF assms, of names "parsed_block_new f"]
  by (cases s) (auto simp: request_ok_def parsed_block_new_def frame_error_def intro!: decides_map)

lemma check_frame_decides:
  assumes "encodes_all encode"
  shows "decides (check_frame encode eproto names authority s f) (violation_ok encode eproto names authority s f)"
  using check_block_decides [OF assms, of names "parsed_block_new f"]
  by (cases s) (auto simp: violation_ok_def check_block_def parsed_block_new_def intro!: decides_map)


lemma request_problems_decides:
  assumes "encodes_all encode"
  shows "decides (request_problems encode eproto names authority i (map parsed_block_new frames) sent)
    (list_all (\<lambda>(s, f). request_ok encode eproto names authority s f) (zip sent frames))"
proof (induction frames arbitrary: i sent)
  case (Cons f frames)
  show ?case
  proof (cases sent)
    case (Cons s sent')
    then show ?thesis
      using decides_append [OF check_request_decides [OF assms] Cons.IH [of "i + 1" sent']]
      by simp
  qed simp
qed simp

lemma frame_problems_decides:
  assumes "encodes_all encode"
  shows "decides (frame_problems encode eproto names authority i frames sent)
    (list_all (\<lambda>(s, f). violation_ok encode eproto names authority s f) (zip sent frames))"
proof (induction frames arbitrary: i sent)
  case (Cons f frames)
  show ?case
  proof (cases sent)
    case (Cons s sent')
    then show ?thesis
      using decides_append [OF check_frame_decides [OF assms] Cons.IH [of "i + 1" sent']]
      by simp
  qed simp
qed simp

lemma min_by_key_empty: "min_by_key length xss = Some [] \<longleftrightarrow> [] \<in> set xss"
proof (induction xss)
  case (Cons xs xss)
  then show ?case
    by (cases "min_by_key length xss") (auto simp: Suc_le_eq)
qed simp

lemma min_by_key_None: "min_by_key key xs = None \<longleftrightarrow> xs = []"
  by (cases xs) (auto split: option.split)

lemma mismatches_decides:
  assumes "encodes_all encode"
  shows "\<exists>mms. map_res (check_block encode names b) answers = Inr mms \<and>
    ([] \<in> set mms \<longleftrightarrow> (\<exists>fs \<in> set answers. carries encode names (pb_captures b) fs)) \<and> (mms = [] \<longleftrightarrow> answers = [])"
proof (induction answers)
  case (Cons fs answers)
  moreover obtain ps where "check_block encode names b fs = Inr ps" "ps = [] \<longleftrightarrow> carries encode names (pb_captures b) fs"
    using check_block_decides [OF assms, of names b fs] by (auto simp: decides_def)
  ultimately show ?case by auto
qed simp

lemma check_response_decides:
  assumes "encodes_all encode"
  shows "decides (check_response encode names answers (parsed_block_new f)) (response_ok encode names answers f)"
proof (cases "fr_ret f < 0")
  case False
  obtain mms where mms: "map_res (check_block encode names (parsed_block_new f)) answers = Inr mms"
    "[] \<in> set mms \<longleftrightarrow> (\<exists>fs \<in> set answers. carries encode names (fr_captures f) fs)"
    using mismatches_decides [OF assms, of names "parsed_block_new f" answers] by (auto simp: parsed_block_new_def)
  with False show ?thesis
    by (cases "min_by_key length mms")
      (auto simp: check_response_def response_ok_def parsed_block_new_def frame_error_def min_by_key_None
        min_by_key_empty [symmetric])
qed (simp add: check_response_def response_ok_def parsed_block_new_def frame_error_def)

lemma response_problems_decides:
  assumes "encodes_all encode"
  shows "decides (response_problems encode names answers i (map parsed_block_new frames))
    (list_all (response_ok encode names answers) frames)"
proof (induction frames arbitrary: i)
  case (Cons f frames)
  then show ?case using decides_append [OF check_response_decides [OF assms] Cons.IH] by simp
qed simp

lemma blocks_loop_eq:
  "blocks_loop frames (rq, rs, ps) =
     (rq @ map parsed_block_new (filter (\<lambda>f. header_frame f \<and> \<not> fr_upstream f) frames),
      rs @ map parsed_block_new (filter (\<lambda>f. header_frame f \<and> fr_upstream f) frames),
      ps @ map (\<lambda>f. Failed_Frame (fr_type f) (fr_sid f) (fr_ret f)) (filter (\<lambda>f. \<not> header_frame f) frames))"
  by (induction frames arbitrary: rq rs ps) (auto simp: header_frame_def)


lemma list_all_zip: "length xs = length ys \<and> list_all (\<lambda>(x, y). P x y) (zip xs ys) \<longleftrightarrow> list_all2 P xs ys"
  by (auto simp: list_all2_iff list_all_iff)

lemma zip_take_length: "zip (take (length ys) xs) ys = zip xs ys"
proof (induction ys arbitrary: xs)
  case (Cons y ys)
  then show ?case by (cases xs) simp_all
qed simp

lemma check_requests_decides:
  assumes "encodes_all encode"
  shows "decides (check_requests encode eproto names sent (map parsed_block_new frames) authority problems)
    (problems = [] \<and> list_all2 (request_ok encode eproto names authority) sent frames)"
proof -
  obtain ps where "request_problems encode eproto names authority 0 (map parsed_block_new frames) sent = Inr ps"
    and "ps = [] \<longleftrightarrow> list_all (\<lambda>(s, f). request_ok encode eproto names authority s f) (zip sent frames)"
    using request_problems_decides [OF assms, of eproto names authority 0 frames sent] by (auto simp: decides_def)
  then show ?thesis
    by (auto simp: check_requests_def decides_def simp flip: list_all_zip)
qed

lemma check_violation_decides:
  assumes "encodes_all encode" and "list_all header_frame frames \<or> problems \<noteq> []"
  shows "decides (check_violation encode eproto names sent frames authority problems)
    (problems = [] \<and>
     requests_ok encode eproto names authority (Violation sent) (filter (\<lambda>f. \<not> fr_upstream f) frames))"
proof -
  have seen: "filter seen_frame frames = filter (\<lambda>f. \<not> fr_upstream f) frames" if "problems = []"
    using assms(2) that by (intro filter_cong) (auto simp: seen_frame_def header_frame_def list_all_iff)
  let ?seen = "filter seen_frame frames"
  obtain ps where "frame_problems encode eproto names authority 0 ?seen sent = Inr ps"
    and "ps = [] \<longleftrightarrow> list_all (\<lambda>(s, f). violation_ok encode eproto names authority s f) (zip sent ?seen)"
    using frame_problems_decides [OF assms(1), of eproto names authority 0 ?seen sent] by (auto simp: decides_def)
  moreover have "list_all2 (violation_ok encode eproto names authority) (take (length ?seen) sent) ?seen \<longleftrightarrow>
      length ?seen \<le> length sent \<and>
      list_all (\<lambda>(s, f). violation_ok encode eproto names authority s f) (zip sent ?seen)"
    by (subst list_all_zip [symmetric]) (auto simp: zip_take_length)
  ultimately show ?thesis
    using seen by (auto simp: check_violation_def decides_def requests_ok_def Let_def not_less)
qed

lemma check_case_decides:
  assumes "encodes_all encode"
  shows "\<exists>problems summary. check_case encode eproto names c frames authority = Inr (problems, summary) \<and>
    (problems = [] \<longleftrightarrow> conforms encode eproto names c frames authority)"
proof -
  let ?rq = "filter (\<lambda>f. \<not> fr_upstream f) frames" and ?rs = "filter fr_upstream frames"
  let ?ps = "map (\<lambda>f. Failed_Frame (fr_type f) (fr_sid f) (fr_ret f)) (filter (\<lambda>f. \<not> header_frame f) frames)"
  let ?hrq = "filter (\<lambda>f. header_frame f \<and> \<not> fr_upstream f) frames"
  let ?hrs = "filter (\<lambda>f. header_frame f \<and> fr_upstream f) frames"
  have ps: "?ps = [] \<longleftrightarrow> list_all header_frame frames"
    by (simp add: filter_empty_conv list_all_iff)
  have fs: "?hrq = ?rq" "?hrs = ?rs" if "list_all header_frame frames"
    using that by (auto intro!: filter_cong simp: list_all_iff)
  define rq where "rq = (case case_expect c of
       Blocks sent \<Rightarrow> check_requests encode eproto names sent (map parsed_block_new ?hrq) authority ?ps
     | Violation sent \<Rightarrow> check_violation encode eproto names sent frames authority ?ps)"
  have "decides rq (?ps = [] \<and> requests_ok encode eproto names authority (case_expect c) ?rq)"
  proof (cases "case_expect c")
    case (Blocks sent)
    then show ?thesis
      using check_requests_decides [OF assms, of eproto names sent _ authority ?ps] ps fs(1)
      by (auto simp: rq_def requests_ok_def decides_def)
  next
    case (Violation sent)
    then show ?thesis
      using check_violation_decides [OF assms, of frames ?ps eproto names sent authority] ps by (simp add: rq_def)
  qed
  then obtain problems where problems: "rq = Inr problems"
    "problems = [] \<longleftrightarrow> ?ps = [] \<and> requests_ok encode eproto names authority (case_expect c) ?rq"
    by (auto simp: decides_def)
  obtain rs where rs: "response_problems encode names (answers_of c authority) 0 (map parsed_block_new ?hrs) = Inr rs"
    "rs = [] \<longleftrightarrow> list_all (response_ok encode names (answers_of c authority)) ?hrs"
    using response_problems_decides [OF assms, of names "answers_of c authority" 0 ?hrs] by (auto simp: decides_def)
  have "check_case encode eproto names c frames authority = bind_res rq (\<lambda>problems.
      bind_res (response_problems encode names (answers_of c authority) 0 (map parsed_block_new ?hrs)) (\<lambda>ps.
      Inr (problems @ ps, length (map parsed_block_new ?hrq), length (map parsed_block_new ?hrs),
        card (set (map pb_client_port (map parsed_block_new ?hrq))))))"
    unfolding check_case_def blocks_of_def blocks_loop_eq rq_def by (simp only: prod.case append_Nil)
  then have "check_case encode eproto names c frames authority = Inr (problems @ rs,
      length (map parsed_block_new ?hrq), length (map parsed_block_new ?hrs),
      card (set (map pb_client_port (map parsed_block_new ?hrq))))"
    unfolding problems(1) rs(1) by simp
  moreover have "problems @ rs = [] \<longleftrightarrow> conforms encode eproto names c frames authority"
    using problems(2) rs(2) ps fs(2) unfolding conforms_def by auto
  ultimately show ?thesis by blast
qed


subsection \<open>Properties\<close>

text \<open>
  C39: a capture of the test program is accepted for a value if
  and only if it is what the program reports of the value, plain or Huffman coded, or, for a
  value longer than 128 bytes, of its first 128 bytes, which is what the dynamic table keeps.
\<close>

theorem captured_value_matches_iff_sent:
  assumes "wf_capture c" and "encode v = Inr coded" and "length v < 2 ^ 32" and "length coded < 2 ^ 32"
  shows "matches encode (Whole v) (Some c) = Inr True \<longleftrightarrow>
    (\<exists>sent \<in> {v, coded}. c = reported sent \<or>
       RESULT_VAL_LEN < length sent \<and> c = reported (take RESULT_VAL_LEN sent))"
  using assms by (simp add: matches_def matches_sent_iff)

theorem captured_value_matches_iff_sent_witness:
  "matches (\<lambda>v. Inr (map (\<lambda>b. b + 1) v) :: unit + bytes) (Whole [1, 2]) (Some \<lparr>cap_len = 2, cap_head = [2, 3]\<rparr>)
     = Inr True \<longleftrightarrow>
   (\<exists>sent \<in> {[1, 2], [2, 3]}. \<lparr>cap_len = 2, cap_head = [2, 3]\<rparr> = reported sent \<or>
      RESULT_VAL_LEN < length sent \<and> \<lparr>cap_len = 2, cap_head = [2, 3]\<rparr> = reported (take RESULT_VAL_LEN sent))"
  by (rule captured_value_matches_iff_sent) (simp_all add: wf_capture_def RESULT_VAL_LEN_def)

text \<open>
  C33: if every value can be encoded, the check of a case does not
  panic, and it finds no problem if and only if every reported frame is a header frame, the
  requests are the ones the case sends - of a violation those up to the first rejected frame at
  least - each with the outcome the case lists and exactly the fields it sends, and every
  response carries exactly the fields of the answer to one of the requests.
\<close>

theorem check_passes_iff_conforming:
  assumes "encodes_all encode"
  shows "\<exists>problems summary. check_case encode eproto names c frames authority = Inr (problems, summary) \<and>
    (problems = [] \<longleftrightarrow> conforms encode eproto names c frames authority)"
  using assms by (rule check_case_decides)

text \<open>A request, and a frame that violates the rules.\<close>

definition a_violation :: h2spec_case where
  "a_violation = \<lparr>case_ids = [''http2/5.1/7''], case_expect = Violation [Fields [('':method'', Str ''GET'')], Rejected]\<rparr>"

definition a_frame :: "int \<Rightarrow> capture option list \<Rightarrow> frame" where
  "a_frame ret captures = \<lparr>fr_client_port = 40000, fr_upstream = False, fr_ret = ret, fr_sid = 1,
     fr_type = HEADERS, fr_flags = 4, fr_captures = captures\<rparr>"

theorem check_passes_iff_conforming_witness:
  "(\<exists>problems summary.
      check_case (Inr :: bytes \<Rightarrow> unit + bytes) 71 ['':method'', ''x-a''] a_violation
        [a_frame 30 [Some (reported (bytes_of ''GET''))], a_frame (-71) []] [] = Inr (problems, summary) \<and>
      (problems = [] \<longleftrightarrow> conforms (Inr :: bytes \<Rightarrow> unit + bytes) 71 ['':method'', ''x-a''] a_violation
        [a_frame 30 [Some (reported (bytes_of ''GET''))], a_frame (-71) []] [])) \<and>
   conforms (Inr :: bytes \<Rightarrow> unit + bytes) 71 ['':method'', ''x-a''] a_violation
     [a_frame 30 [Some (reported (bytes_of ''GET''))], a_frame (-71) []] []"
proof (rule conjI, rule check_passes_iff_conforming)
  show "encodes_all (Inr :: bytes \<Rightarrow> unit + bytes)" by (simp add: encodes_all_def)
  have "expected_fields [('':method'', Str ''GET'')] [] = ['':method'' \<mapsto> Whole (bytes_of ''GET'')]"
    by (simp add: expected_fields_def expected_new_def)
  then show "conforms (Inr :: bytes \<Rightarrow> unit + bytes) 71 ['':method'', ''x-a''] a_violation
      [a_frame 30 [Some (reported (bytes_of ''GET''))], a_frame (-71) []] []"
    by (simp add: conforms_def a_violation_def a_frame_def header_frame_def requests_ok_def up_to_violation_def
        violation_ok_def carries_def expects_def captured_at_def matches_def matches_sent_def reported_def starts_with_def
        bytes_of_def RESULT_VAL_LEN_def less_Suc_eq)
qed

end
