(* ===== verification/Conformance_Results.thy ===== *)
theory Conformance_Results
  imports Conformance_Check
begin

section \<open>Following what the test program reports (\<open>utils/src/bin/conformance/main.rs\<close>)\<close>

text \<open>
  \<open>Results\<close>, which keeps track of the ends of connections that are open, of the frames of the
  current case and of the connections to forget. The receiving end of the channel is the list
  of what the calls of \<open>recv_timeout\<close> and \<open>try_recv\<close> return, in order: a report, nothing (until
  the deadline for the former, at the moment for the latter), or that the sender is gone. A
  call that still waits when the list ends has no result.
\<close>

subsection \<open>State\<close>

datatype rx = Got parse_result | Nothing | Hung_Up

datatype rx_error = Still_Open "(u16 \<times> bool) set" | Sender_Gone | Mark_Failed

record results =
  rs_open :: "(u16 \<times> bool) set"
  rs_frames :: "frame list"
  rs_marked :: bool
  rs_closed :: "(u16 \<times> bool) list"

definition results_new :: results where
  "results_new = \<lparr>rs_open = {}, rs_frames = [], rs_marked = False, rs_closed = []\<rparr>"

subsection \<open>Operations\<close>

definition handle :: "parse_result \<Rightarrow> results \<Rightarrow> results" where
  "handle res r = (case res of
       Open client_port server \<Rightarrow> r\<lparr>rs_open := insert (client_port, server) (rs_open r)\<rparr>
     | Close client_port server \<Rightarrow>
         r\<lparr>rs_open := rs_open r - {(client_port, server)}, rs_closed := rs_closed r @ [(client_port, server)]\<rparr>
     | Frame f \<Rightarrow> r\<lparr>rs_frames := rs_frames r @ [f]\<rparr>
     | Mark \<Rightarrow> r\<lparr>rs_marked := True\<rparr>)"

definition recv :: "rx \<Rightarrow> results \<Rightarrow> rx_error option \<times> results" where
  "recv rx r = (case rx of
       Got res \<Rightarrow> (None, handle res r)
     | Nothing \<Rightarrow> (Some (Still_Open (rs_open r)), r)
     | Hung_Up \<Rightarrow> (Some Sender_Gone, r))"

text \<open>\<open>while !done { self.recv(deadline)? }\<close>, the loop of \<open>sync\<close> and of \<open>wait_closed\<close>.\<close>

fun recv_until :: "(results \<Rightarrow> bool) \<Rightarrow> rx list \<Rightarrow> results \<Rightarrow> (rx_error option \<times> results \<times> rx list) option" where
  "recv_until finished rxs r =
     (if finished r then Some (None, r, rxs)
      else case rxs of
          [] \<Rightarrow> None
        | rx # rxs \<Rightarrow>
            (case recv rx r of
               (Some e, r) \<Rightarrow> Some (Some e, r, rxs)
             | (None, r) \<Rightarrow> recv_until finished rxs r))"

declare recv_until.simps [simp del]

definition sync :: "bool \<Rightarrow> rx list \<Rightarrow> results \<Rightarrow> (rx_error option \<times> results \<times> rx list) option" where
  "sync mark_ok rxs r =
     (let r = r\<lparr>rs_marked := False\<rparr>
      in if \<not> mark_ok then Some (Some Mark_Failed, r, rxs) else recv_until rs_marked rxs r)"

fun drain :: "rx list \<Rightarrow> results \<Rightarrow> (rx_error option \<times> results \<times> rx list) option" where
  "drain [] r = None"
| "drain (Got res # rxs) r = drain rxs (handle res r)"
| "drain (Nothing # rxs) r = Some (None, r, rxs)"
| "drain (Hung_Up # rxs) r = Some (Some Sender_Gone, r, rxs)"

definition wait_closed :: "bool \<Rightarrow> rx list \<Rightarrow> results \<Rightarrow> (rx_error option \<times> results \<times> rx list) option" where
  "wait_closed mark_ok rxs r =
     (case sync mark_ok rxs r of
        Some (None, r, rxs) \<Rightarrow>
          (case recv_until (\<lambda>r. rs_open r = {}) rxs r of
             Some (None, r, rxs) \<Rightarrow> drain rxs r
           | res \<Rightarrow> res)
      | res \<Rightarrow> res)"

text \<open>The address of an end: \<open>SocketAddr::new(server.ip(), client_port)\<close> is the client's.\<close>

definition with_port :: "socket_addr \<Rightarrow> u16 \<Rightarrow> socket_addr" where
  "with_port addr p = (case addr of V4 ip _ \<Rightarrow> V4 ip p | V6 ip _ \<Rightarrow> V6 ip p)"

definition end_addrs :: "socket_addr \<Rightarrow> u16 \<times> bool \<Rightarrow> socket_addr \<times> socket_addr" where
  "end_addrs server = (\<lambda>(client_port, is_server).
     let client = with_port server client_port in if is_server then (server, client) else (client, server))"

text \<open>
  \<open>forget_closed\<close>: \<open>forget\<close> is \<open>parser.forget_conn\<close>. \<open>drain(..)\<close> empties the list even if the
  loop returns early.
\<close>

fun forget_all ::
  "(socket_addr \<Rightarrow> socket_addr \<Rightarrow> 'm \<Rightarrow> 'p + ('e + 'm)) \<Rightarrow> socket_addr \<Rightarrow> (u16 \<times> bool) list \<Rightarrow> 'm \<Rightarrow> 'p + ('e + 'm)" where
  "forget_all forget server [] m = Inr (Inr m)"
| "forget_all forget server (c # closed) m =
     (case end_addrs server c of (local, remote) \<Rightarrow>
        bind_res (forget local remote m) (\<lambda>res.
          case res of Inl e \<Rightarrow> Inr (Inl e) | Inr m \<Rightarrow> forget_all forget server closed m))"

definition forget_closed ::
  "(socket_addr \<Rightarrow> socket_addr \<Rightarrow> 'm \<Rightarrow> 'p + ('e + 'm)) \<Rightarrow> socket_addr \<Rightarrow> results \<Rightarrow> 'm \<Rightarrow> ('p + ('e + 'm)) \<times> results" where
  "forget_closed forget server r m = (forget_all forget server (rs_closed r) m, r\<lparr>rs_closed := []\<rparr>)"

definition take_frames :: "results \<Rightarrow> frame list \<times> results" where
  "take_frames r = (rs_frames r, r\<lparr>rs_frames := []\<rparr>)"

subsection \<open>What is tracked\<close>

definition handle_all :: "parse_result list \<Rightarrow> results \<Rightarrow> results" where
  "handle_all = fold handle"

lemma handle_all_simps [simp]:
  "handle_all [] r = r" "handle_all (res # reports) r = handle_all reports (handle res r)"
  "handle_all (xs @ ys) r = handle_all ys (handle_all xs r)"
  by (simp_all add: handle_all_def)

definition is_end :: "u16 \<times> bool \<Rightarrow> parse_result \<Rightarrow> bool" where
  "is_end c res \<longleftrightarrow> res = Open (fst c) (snd c) \<or> res = Close (fst c) (snd c)"

fun closes :: "parse_result list \<Rightarrow> (u16 \<times> bool) list" where
  "closes [] = []"
| "closes (Close p s # reports) = (p, s) # closes reports"
| "closes (_ # reports) = closes reports"

fun frames_of :: "parse_result list \<Rightarrow> frame list" where
  "frames_of [] = []"
| "frames_of (Frame f # reports) = f # frames_of reports"
| "frames_of (_ # reports) = frames_of reports"

text \<open>An end is open after some reports if the last one about it says so.\<close>

definition last_open :: "u16 \<times> bool \<Rightarrow> parse_result list \<Rightarrow> bool \<Rightarrow> bool" where
  "last_open c reports before =
     (case filter (is_end c) (rev reports) of [] \<Rightarrow> before | res # _ \<Rightarrow> res = Open (fst c) (snd c))"

lemma handle_all_open: "c \<in> rs_open (handle_all reports r) \<longleftrightarrow> last_open c reports (c \<in> rs_open r)"
proof (induction reports rule: rev_induct)
  case (snoc res reports)
  then show ?case by (cases res; cases c) (auto simp: handle_def last_open_def is_end_def)
qed (simp add: last_open_def)

lemma handle_all_fields:
  "rs_frames (handle_all reports r) = rs_frames r @ frames_of reports"
  "rs_closed (handle_all reports r) = rs_closed r @ closes reports"
  "rs_marked (handle_all reports r) \<longleftrightarrow> rs_marked r \<or> Mark \<in> set reports"
  by (induction reports arbitrary: r rule: closes.induct) (auto simp: handle_def)

lemma last_open_or_closed:
  assumes "\<not> last_open c reports before" and "before \<or> Open (fst c) (snd c) \<in> set reports"
  shows "c \<in> set (closes reports)"
  using assms
proof (induction reports rule: rev_induct)
  case (snoc res reports)
  have closes: "closes (xs @ [y]) = closes xs @ closes [y]" for xs y
    by (induction xs rule: closes.induct) auto
  show ?case
  proof (cases "res = Close (fst c) (snd c)")
    case False
    with snoc show ?thesis
      by (cases res) (auto simp: last_open_def is_end_def closes split: if_splits)
  qed (simp add: closes)
qed (simp add: last_open_def)

subsection \<open>The loops\<close>

lemma recv_until_done: "finished r \<Longrightarrow> recv_until finished rxs r = Some (None, r, rxs)"
  by (simp add: recv_until.simps [of finished rxs])

lemma recv_until_Got:
  "\<not> finished r \<Longrightarrow> recv_until finished (Got res # rxs) r = recv_until finished rxs (handle res r)"
  by (simp add: recv_until.simps [of finished "Got res # rxs"] recv_def)

text \<open>The reports a loop handles: the shortest ones that lead to where it is finished.\<close>

definition shortest_to :: "(results \<Rightarrow> bool) \<Rightarrow> parse_result list \<Rightarrow> results \<Rightarrow> bool" where
  "shortest_to finished reports r \<longleftrightarrow>
     finished (handle_all reports r) \<and> (\<forall>n < length reports. \<not> finished (handle_all (take n reports) r))"

lemma shortest_to_Cons:
  "shortest_to finished (res # reports) r \<longleftrightarrow> \<not> finished r \<and> shortest_to finished reports (handle res r)"
  by (auto simp: shortest_to_def All_less_Suc2)

lemma recv_until_iff:
  "recv_until finished rxs r = Some (None, r', rxs') \<longleftrightarrow>
     (\<exists>reports. rxs = map Got reports @ rxs' \<and> shortest_to finished reports r \<and> r' = handle_all reports r)"
proof
  assume "recv_until finished rxs r = Some (None, r', rxs')"
  then show "\<exists>reports. rxs = map Got reports @ rxs' \<and> shortest_to finished reports r \<and> r' = handle_all reports r"
  proof (induction rxs arbitrary: r)
    case Nil
    then have "finished r \<and> r' = r \<and> rxs' = []"
      by (simp add: recv_until.simps [of finished "[]"] split: if_splits)
    then show ?case by (intro exI [of _ "[]"]) (simp add: shortest_to_def)
  next
    case (Cons rx rxs)
    show ?case
    proof (cases "finished r")
      case True
      with Cons.prems have "r' = r \<and> rxs' = rx # rxs" by (simp add: recv_until_done)
      with True show ?thesis by (intro exI [of _ "[]"]) (simp add: shortest_to_def)
    next
      case False
      with Cons.prems obtain res where "rx = Got res" "recv_until finished rxs (handle res r) = Some (None, r', rxs')"
        by (cases rx) (simp_all add: recv_until.simps [of finished "x # rxs" for x] recv_def)
      with Cons.IH obtain reports where "rxs = map Got reports @ rxs'" "shortest_to finished reports (handle res r)"
        "r' = handle_all reports (handle res r)"
        by blast
      with False \<open>rx = Got res\<close> show ?thesis
        by (intro exI [of _ "res # reports"]) (simp add: shortest_to_Cons)
    qed
  qed
next
  assume "\<exists>reports. rxs = map Got reports @ rxs' \<and> shortest_to finished reports r \<and> r' = handle_all reports r"
  then obtain reports where "rxs = map Got reports @ rxs'" "shortest_to finished reports r" "r' = handle_all reports r"
    by blast
  then show "recv_until finished rxs r = Some (None, r', rxs')"
  proof (induction reports arbitrary: r rxs)
    case Nil
    then show ?case by (simp add: recv_until_done shortest_to_def)
  next
    case (Cons res reports)
    then show ?case by (simp add: recv_until_Got shortest_to_Cons)
  qed
qed

lemma drain_iff:
  "drain rxs r = Some (None, r', rxs') \<longleftrightarrow>
     (\<exists>reports. rxs = map Got reports @ Nothing # rxs' \<and> r' = handle_all reports r)"
proof (induction rxs r rule: drain.induct)
  case (2 res rxs r)
  have "(\<exists>reports. Got res # rxs = map Got reports @ Nothing # rxs' \<and> r' = handle_all reports r) \<longleftrightarrow>
      (\<exists>reports. rxs = map Got reports @ Nothing # rxs' \<and> r' = handle_all reports (handle res r))"
    (is "(\<exists>rs. ?P rs) \<longleftrightarrow> (\<exists>rs. ?Q rs)")
  proof
    assume "\<exists>rs. ?P rs"
    then obtain rs where rs: "?P rs" by blast
    then show "\<exists>rs. ?Q rs" by (cases rs) auto
  next
    assume "\<exists>rs. ?Q rs"
    then obtain rs where "?Q rs" by blast
    then have "?P (res # rs)" by simp
    then show "\<exists>rs. ?P rs" by blast
  qed
  with 2 show ?case by simp
qed (auto simp: Cons_eq_append_conv)


lemma sync_iff:
  "sync mark_ok rxs r = Some (None, r', rxs') \<longleftrightarrow> mark_ok \<and>
     (\<exists>reports. rxs = map Got reports @ rxs' \<and> shortest_to rs_marked reports (r\<lparr>rs_marked := False\<rparr>) \<and>
        r' = handle_all reports (r\<lparr>rs_marked := False\<rparr>))"
  by (simp add: sync_def Let_def recv_until_iff)

lemma wait_closed_iff:
  "wait_closed mark_ok rxs r = Some (None, r', rxs') \<longleftrightarrow> mark_ok \<and>
     (\<exists>marked closing queued. rxs = map Got (marked @ closing @ queued) @ Nothing # rxs' \<and>
        shortest_to rs_marked marked (r\<lparr>rs_marked := False\<rparr>) \<and>
        shortest_to (\<lambda>r. rs_open r = {}) closing (handle_all marked (r\<lparr>rs_marked := False\<rparr>)) \<and>
        r' = handle_all (marked @ closing @ queued) (r\<lparr>rs_marked := False\<rparr>))"
  (is "_ \<longleftrightarrow> ?rhs")
proof -
  have "wait_closed mark_ok rxs r = Some (None, r', rxs') \<longleftrightarrow>
      (\<exists>r1 rxs1 r2 rxs2. sync mark_ok rxs r = Some (None, r1, rxs1) \<and>
         recv_until (\<lambda>r. rs_open r = {}) rxs1 r1 = Some (None, r2, rxs2) \<and> drain rxs2 r2 = Some (None, r', rxs'))"
    by (auto simp: wait_closed_def split: option.splits prod.splits)
  also have "\<dots> \<longleftrightarrow> ?rhs"
    unfolding sync_iff recv_until_iff drain_iff by fastforce
  finally show ?thesis .
qed

subsection \<open>Properties\<close>

text \<open>
  C40: after any sequence of reports, an end of a connection is held to
  be open if and only if the last report about it says that it was opened, the closed ends and
  the frames are listed in the order they were reported, and the mark is set once it was
  reported.
\<close>

theorem results_track_the_reports:
  "(\<forall>c. c \<in> rs_open (handle_all reports results_new) \<longleftrightarrow> last_open c reports False) \<and>
   rs_frames (handle_all reports results_new) = frames_of reports \<and>
   rs_closed (handle_all reports results_new) = closes reports \<and>
   (rs_marked (handle_all reports results_new) \<longleftrightarrow> Mark \<in> set reports)"
  by (simp add: handle_all_open handle_all_fields results_new_def)

text \<open>
  C37: \<open>wait_closed\<close> succeeds if and only if the mark could
  be written, and the reports that follow are the ones up to and including a mark, then the
  least number of further ones after which no end is open, and then what is queued already; it
  handles exactly these.
\<close>

theorem wait_closed_waits_for_mark_and_close:
  "wait_closed mark_ok rxs r = Some (None, r', rxs') \<longleftrightarrow> mark_ok \<and>
     (\<exists>marked closing queued. rxs = map Got (marked @ Mark # closing @ queued) @ Nothing # rxs' \<and>
        Mark \<notin> set marked \<and>
        shortest_to (\<lambda>r. rs_open r = {}) closing (handle_all (marked @ [Mark]) r) \<and>
        r' = handle_all (marked @ Mark # closing @ queued) r)"
proof -
  have marked: "shortest_to rs_marked ms (r\<lparr>rs_marked := False\<rparr>) \<longleftrightarrow> (\<exists>xs. ms = xs @ [Mark] \<and> Mark \<notin> set xs)" for ms
  proof
    assume short: "shortest_to rs_marked ms (r\<lparr>rs_marked := False\<rparr>)"
    then have "Mark \<in> set ms" by (simp add: shortest_to_def handle_all_fields)
    then obtain xs ys where ms: "ms = xs @ Mark # ys" "Mark \<notin> set xs" by (metis split_list_first)
    with short have "\<not> length xs + 1 < length ms"
      by (auto simp: shortest_to_def handle_all_fields dest!: spec [of _ "length xs + 1"])
    with ms show "\<exists>xs. ms = xs @ [Mark] \<and> Mark \<notin> set xs" by auto
  next
    assume "\<exists>xs. ms = xs @ [Mark] \<and> Mark \<notin> set xs"
    then show "shortest_to rs_marked ms (r\<lparr>rs_marked := False\<rparr>)"
      by (auto simp: shortest_to_def handle_all_fields take_Cons' dest: in_set_takeD)
  qed
  have "handle_all (xs @ [Mark]) (r\<lparr>rs_marked := False\<rparr>) = handle_all (xs @ [Mark]) r" for xs
  proof -
    let ?r = "r\<lparr>rs_marked := False\<rparr>"
    have "rs_open (handle_all (xs @ [Mark]) ?r) = rs_open (handle_all (xs @ [Mark]) r)"
      by (simp add: set_eq_iff handle_all_open del: handle_all_simps)
    then show ?thesis
      by (intro results.equality) (simp_all add: handle_all_fields del: handle_all_simps)
  qed
  then have eq: "handle_all (xs @ [Mark] @ ys) (r\<lparr>rs_marked := False\<rparr>) = handle_all (xs @ [Mark] @ ys) r" for xs ys
    by simp
  define Q where "Q ms \<longleftrightarrow> (\<exists>closing queued. rxs = map Got (ms @ closing @ queued) @ Nothing # rxs' \<and>
        shortest_to (\<lambda>r. rs_open r = {}) closing (handle_all (ms @ []) (r\<lparr>rs_marked := False\<rparr>)) \<and>
        r' = handle_all (ms @ closing @ queued) (r\<lparr>rs_marked := False\<rparr>))" for ms
  have "wait_closed mark_ok rxs r = Some (None, r', rxs') \<longleftrightarrow>
      mark_ok \<and> (\<exists>ms. (\<exists>xs. ms = xs @ [Mark] \<and> Mark \<notin> set xs) \<and> Q ms)"
    unfolding wait_closed_iff marked Q_def by auto
  also have "\<dots> \<longleftrightarrow> mark_ok \<and> (\<exists>xs. Mark \<notin> set xs \<and> Q (xs @ [Mark]))"
    by blast
  also have "\<dots> \<longleftrightarrow> mark_ok \<and> (\<exists>marked closing queued. rxs = map Got (marked @ Mark # closing @ queued) @ Nothing # rxs' \<and>
      Mark \<notin> set marked \<and> shortest_to (\<lambda>r. rs_open r = {}) closing (handle_all (marked @ [Mark]) r) \<and>
      r' = handle_all (marked @ Mark # closing @ queued) r)"
    unfolding Q_def append_assoc eq by auto
  finally show ?thesis .
qed


text \<open>The key the parser's maps hold the state of an end of a connection under.\<close>

definition end_key :: "bool \<Rightarrow> socket_addr \<Rightarrow> u16 \<times> bool \<Rightarrow> ip4_conn \<Rightarrow> bool" where
  "end_key be server c conn \<longleftrightarrow>
     (if snd c then conn_of be server (with_port server (fst c)) else conn_of be (with_port server (fst c)) server) =
       (Inr conn :: unit panic + ip4_conn)"

lemma end_key_addrs:
  "end_key be server c conn \<longleftrightarrow>
     (conn_of be (fst (end_addrs server c)) (snd (end_addrs server c)) :: unit panic + ip4_conn) = Inr conn"
  by (cases c) (simp add: end_key_def end_addrs_def Let_def)

lemma conn_of_any: "(conn_of be l r :: unit panic + ip4_conn) = Inr conn \<longleftrightarrow> (conn_of be l r :: 'a panic + ip4_conn) = Inr conn"
  by (auto simp: conn_of_def ip4_addr_from_def split: socket_addr.splits)

lemma end_key_V4: "\<exists>conn. end_key be (V4 ip p) c conn"
  by (cases c; cases "snd c") (simp_all add: end_key_def with_port_def conn_of_def ip4_addr_from_def)

lemma forget_all_info:
  assumes "map_laws hi geti"
    and "forget_all (forget_conn hi he from_bytes be) (V4 ip p) closed (mi, me) =
      (Inr (Inr (mi', me')) :: 'a panic + (('enc, 'bpf, 'plain) beeper_error + 'i \<times> 'e))"
  shows "geti mi' conn = (if \<exists>c \<in> set closed. end_key be (V4 ip p) c conn then None else geti mi conn)"
  using assms(2)
proof (induction closed arbitrary: mi me)
  case (Cons c closed)
  obtain l r where lr: "end_addrs (V4 ip p) c = (l, r)" by force
  obtain k where k: "end_key be (V4 ip p) c k" using end_key_V4 by blast
  then have key: "(conn_of be l r :: 'a panic + ip4_conn) = Inr k"
    using conn_of_any [THEN iffD1, of be l r k] by (simp add: end_key_addrs lr)
  let ?forget = "forget_conn hi he from_bytes be ::
    _ \<Rightarrow> _ \<Rightarrow> _ \<Rightarrow> 'a panic + (('enc, 'bpf, 'plain) beeper_error + 'i \<times> 'e)"
  have "bind_res (?forget l r (mi, me)) (\<lambda>res.
      case res of Inl e \<Rightarrow> Inr (Inl e) | Inr m \<Rightarrow> forget_all ?forget (V4 ip p) closed m) = Inr (Inr (mi', me'))"
    using Cons.prems by (simp add: lr)
  then obtain res where res: "?forget l r (mi, me) = Inr res"
    "(case res of Inl e \<Rightarrow> Inr (Inl e) | Inr m \<Rightarrow> forget_all ?forget (V4 ip p) closed m) = Inr (Inr (mi', me'))"
    by (rule bind_res_InrE)
  obtain m e where "res = Inr (m, e)"
    using res(2) by (cases res) auto
  with res have step: "?forget l r (mi, me) = Inr (Inr (m, e))"
    and rest: "forget_all ?forget (V4 ip p) closed (m, e) = Inr (Inr (mi', me'))"
    by simp_all
  have "end_key be (V4 ip p) c conn \<longleftrightarrow> conn = k"
    using k by (auto simp: end_key_def)
  then show ?case
    using Cons.IH [OF rest] forget_conn_info [OF assms(1) step key] by auto
qed simp

text \<open>
  C38: when no end is left open after some reports, a call
  of \<open>forget_closed\<close> that succeeds leaves no dynamic table of an end that was open before or
  was opened since, it removes no other table than those of closed ends, and it leaves nothing
  to forget.
\<close>

theorem no_table_of_a_closed_connection_is_left:
  assumes "map_laws hi geti" and "rs_open (handle_all reports r) = {}"
    and "forget_closed (forget_conn hi he from_bytes be) (V4 ip p) (handle_all reports r) (mi, me) =
      ((Inr (Inr (mi', me')) :: 'a panic + (('enc, 'bpf, 'plain) beeper_error + 'i \<times> 'e)), r')"
  shows "(\<forall>c conn. (c \<in> rs_open r \<or> Open (fst c) (snd c) \<in> set reports) \<and> end_key be (V4 ip p) c conn \<longrightarrow>
       geti mi' conn = None) \<and>
     (\<forall>conn. geti mi' conn = geti mi conn \<or>
       (\<exists>c \<in> set (rs_closed r @ closes reports). end_key be (V4 ip p) c conn)) \<and>
     rs_closed r' = []"
proof -
  have closed: "c \<in> set (closes reports)" if "c \<in> rs_open r \<or> Open (fst c) (snd c) \<in> set reports" for c
    using last_open_or_closed [of c reports "c \<in> rs_open r"] assms(2) that
    by (simp add: handle_all_open [symmetric])
  from assms(3) have run: "forget_all (forget_conn hi he from_bytes be) (V4 ip p) (rs_closed r @ closes reports) (mi, me) =
      (Inr (Inr (mi', me')) :: 'a panic + (('enc, 'bpf, 'plain) beeper_error + 'i \<times> 'e))"
    and "rs_closed r' = []"
    by (auto simp: forget_closed_def handle_all_fields)
  with closed forget_all_info [OF assms(1) run] show ?thesis by auto
qed

theorem no_table_of_a_closed_connection_is_left_witness:
  "\<exists>conn mi' me' r'.
     forget_closed (forget_conn fun_map fun_map count_info False) (V4 (127, 0, 0, 1) 80)
       (handle_all [Open 9 True, Mark, Close 9 True] results_new) (\<lambda>_. Some [2], \<lambda>_. Some [7]) =
       ((Inr (Inr (mi', me')) :: unit panic + ((unit, unit, unit) beeper_error + _)), r') \<and>
     end_key False (V4 (127, 0, 0, 1) 80) (9, True) conn \<and> mi' conn = None \<and> rs_closed r' = []"
proof -
  let ?mi = "(\<lambda>_. Some [2]) :: ip4_conn \<Rightarrow> bytes option"
  let ?me = "(\<lambda>_. Some [7]) :: dynamic_table_key \<Rightarrow> bytes option"
  let ?r = "handle_all [Open 9 True, Mark, Close 9 True] results_new"
  obtain conn where conn: "end_key False (V4 (127, 0, 0, 1) 80) (9, True) conn"
    using end_key_V4 by blast
  have r: "rs_open ?r = {}" "rs_closed ?r = [(9, True)]"
    by (simp_all add: handle_def results_new_def)
  obtain mi' me' where "forget_all (forget_conn fun_map fun_map count_info False) (V4 (127, 0, 0, 1) 80) [(9, True)] (?mi, ?me) =
      (Inr (Inr (mi', me')) :: unit panic + ((unit, unit, unit) beeper_error + _))"
    by (simp add: end_addrs_def with_port_def forget_conn_def conn_of_def ip4_addr_from_def fun_map_def count_info_def
        entry_indices_def DYNAMIC_TABLE_BASE_def delete_if_present_def)
  then have run: "forget_closed (forget_conn fun_map fun_map count_info False) (V4 (127, 0, 0, 1) 80) ?r (?mi, ?me) =
      ((Inr (Inr (mi', me')) :: unit panic + ((unit, unit, unit) beeper_error + _)), ?r\<lparr>rs_closed := []\<rparr>)"
    by (simp only: forget_closed_def r)
  have "Open (fst (9, True)) (snd (9, True)) \<in> set [Open 9 True, Mark, Close 9 True]" by simp
  with no_table_of_a_closed_connection_is_left [OF fun_map_laws r(1) run] conn
  have "mi' conn = None" by blast
  with run conn show ?thesis by (intro exI conjI) (assumption | simp)+
qed

end
