(* ===== verification/Conformance_Session.thy ===== *)
theory Conformance_Session
  imports Conformance_Results
begin

section \<open>The commands of the conformance check (\<open>main\<close> of \<open>utils/src/bin/conformance/main.rs\<close>)\<close>

text \<open>
  The loop over the lines of the standard input. Attaching the parser of a case is the
  parameter \<open>attach\<close>, which returns the names by match id and the maps of the parser, and
  \<open>forget\<close> is its \<open>forget_conn\<close>; the rest of the environment is in \<open>conf_env\<close>. A line that is
  still waiting for reports has no result; an error ends the program.
\<close>

subsection \<open>State\<close>

record ('m, 'enc, 'p, 'e) conf_env =
  su_encode :: "bytes \<Rightarrow> 'enc + bytes"
  su_eproto :: int
  su_cases :: "h2spec_case list"
  su_server :: socket_addr
  su_authority :: bytes
  su_attach :: "h2spec_case \<Rightarrow> 'e + string list \<times> 'm"
  su_forget :: "socket_addr \<Rightarrow> socket_addr \<Rightarrow> 'm \<Rightarrow> 'p + ('e + 'm)"

record 'm session =
  se_current :: "(h2spec_case \<times> string list \<times> 'm) option"
  se_results :: results

datatype ('enc, 'p, 'e) session_error =
    Malformed_Command string
  | Unknown_Command string
  | Unknown_Case string
  | Check_Before_Case string
  | Attach_Failed 'e
  | Forget_Failed 'e
  | Reports_Failed rx_error
  | Encode_Panic 'enc
  | Forget_Panic 'p

text \<open>What a line writes: that a case is ready, or its problems, verdict and summary.\<close>

datatype answer =
    Ready string
  | Verdict "(rx_error + problem list \<times> nat \<times> nat \<times> nat)" string

definition passes :: "answer \<Rightarrow> bool" where
  "passes a \<longleftrightarrow> (\<exists>cid summary. a = Verdict (Inr ([], summary)) cid)"

subsection \<open>Lines\<close>

text \<open>\<open>str::split_once(' ')\<close>\<close>

fun split_once :: "char \<Rightarrow> string \<Rightarrow> (string \<times> string) option" where
  "split_once c [] = None"
| "split_once c (x # xs) =
     (if x = c then Some ([], xs) else map_option (\<lambda>(l, r). (x # l, r)) (split_once c xs))"

definition run_case ::
  "('m, 'enc, 'p, 'e) conf_env \<Rightarrow> string \<Rightarrow> bool \<Rightarrow> rx list \<Rightarrow> 'm session \<Rightarrow>
     (('enc, 'p, 'e) session_error + answer \<times> 'm session \<times> rx list) option" where
  "run_case su cid mark_ok rxs s =
     (case find (\<lambda>c. cid \<in> set (case_ids c)) (su_cases su) of
        None \<Rightarrow> Some (Inl (Unknown_Case cid))
      | Some c \<Rightarrow>
          (case su_attach su c of
             Inl e \<Rightarrow> Some (Inl (Attach_Failed e))
           | Inr (names, m) \<Rightarrow>
               map_option (\<lambda>(err, r, rxs).
                 case err of
                   Some e \<Rightarrow> Inl (Reports_Failed e)
                 | None \<Rightarrow>
                     let r = snd (take_frames r); r = r\<lparr>rs_closed := []\<rparr>
                     in Inr (Ready cid, \<lparr>se_current = Some (c, names, m), se_results = r\<rparr>, rxs))
                 (sync mark_ok rxs (se_results s))))"

text \<open>The end of a check: the connections that were closed are forgotten, and the verdict is written.\<close>

definition forget_and_answer ::
  "('m, 'enc, 'p, 'e) conf_env \<Rightarrow> string \<Rightarrow> h2spec_case \<times> string list \<times> 'm \<Rightarrow> rx list \<Rightarrow>
     (rx_error + problem list \<times> nat \<times> nat \<times> nat) \<Rightarrow> results \<Rightarrow>
     ('enc, 'p, 'e) session_error + answer \<times> 'm session \<times> rx list" where
  "forget_and_answer su cid = (\<lambda>(c, names, m) rxs verdict r.
     case forget_closed (su_forget su) (su_server su) r m of (res, r) \<Rightarrow>
       (case res of
          Inl e \<Rightarrow> Inl (Forget_Panic e)
        | Inr (Inl e) \<Rightarrow> Inl (Forget_Failed e)
        | Inr (Inr m) \<Rightarrow>
            Inr (Verdict verdict cid, \<lparr>se_current = Some (c, names, m), se_results = r\<rparr>, rxs)))"

definition run_check ::
  "('m, 'enc, 'p, 'e) conf_env \<Rightarrow> string \<Rightarrow> bool \<Rightarrow> rx list \<Rightarrow> 'm session \<Rightarrow>
     (('enc, 'p, 'e) session_error + answer \<times> 'm session \<times> rx list) option" where
  "run_check su cid mark_ok rxs s =
     (case se_current s of
        None \<Rightarrow> Some (Inl (Check_Before_Case cid))
      | Some (c, names, m) \<Rightarrow>
          map_option (\<lambda>(err, r, rxs).
            case err of
              Some e \<Rightarrow> forget_and_answer su cid (c, names, m) rxs (Inl e) r
            | None \<Rightarrow>
                (case take_frames r of (frames, r) \<Rightarrow>
                   (case check_case (su_encode su) (su_eproto su) names c frames (su_authority su) of
                      Inl e \<Rightarrow> Inl (Encode_Panic e)
                    | Inr verdict \<Rightarrow> forget_and_answer su cid (c, names, m) rxs (Inr verdict) r)))
            (wait_closed mark_ok rxs (se_results s)))"

definition run_line ::
  "('m, 'enc, 'p, 'e) conf_env \<Rightarrow> string \<Rightarrow> bool \<Rightarrow> rx list \<Rightarrow> 'm session \<Rightarrow>
     (('enc, 'p, 'e) session_error + answer \<times> 'm session \<times> rx list) option" where
  "run_line su line mark_ok rxs s =
     (case split_once (CHR '' '') line of
        None \<Rightarrow> Some (Inl (Malformed_Command line))
      | Some (cmd, cid) \<Rightarrow>
          if cmd = ''case'' then run_case su cid mark_ok rxs s
          else if cmd = ''check'' then run_check su cid mark_ok rxs s
          else Some (Inl (Unknown_Command line)))"


subsection \<open>A case and its check\<close>

lemma split_once_cmd [simp]:
  "split_once (CHR '' '') (''case '' @ cid) = Some (''case'', cid)"
  "split_once (CHR '' '') (''check '' @ cid) = Some (''check'', cid)"
  by simp_all

lemma run_case_InrE:
  assumes "run_case su cid mark_ok rxs s = Some (Inr (a, s', rxs'))"
  obtains c names m where "find (\<lambda>c. cid \<in> set (case_ids c)) (su_cases su) = Some c"
    and "su_attach su c = Inr (names, m)" and "se_current s' = Some (c, names, m)"
    and "rs_frames (se_results s') = []" and "rs_closed (se_results s') = []"
proof (cases "find (\<lambda>c. cid \<in> set (case_ids c)) (su_cases su)")
  case (Some c)
  show ?thesis
  proof (cases "su_attach su c")
    case (Inr nm)
    obtain names m where nm: "nm = (names, m)" by (cases nm)
    obtain err r rxs1 where sync: "sync mark_ok rxs (se_results s) = Some (err, r, rxs1)"
      using assms Some Inr nm by (auto simp: run_case_def)
    show ?thesis
    proof (cases err)
      case None
      with assms Some Inr nm sync that [OF Some, of names m] show ?thesis
        by (auto simp: run_case_def take_frames_def Let_def)
    qed (use assms Some Inr nm sync in \<open>simp add: run_case_def\<close>)
  qed (use assms Some in \<open>simp add: run_case_def\<close>)
qed (use assms in \<open>simp add: run_case_def\<close>)

lemma forget_and_answer_Inr:
  assumes "forget_and_answer su cid current rxs verdict r = Inr (a, s', rxs')"
  shows "a = Verdict verdict cid" and "rxs' = rxs"
proof -
  obtain c names m where current: "current = (c, names, m)" by (cases current)
  obtain res r' where "forget_closed (su_forget su) (su_server su) r m = (res, r')" by force
  with assms current have "a = Verdict verdict cid \<and> rxs' = rxs"
    by (cases res; cases "projr res") (auto simp: forget_and_answer_def)
  then show "a = Verdict verdict cid" and "rxs' = rxs" by simp_all
qed

lemma run_check_InrE:
  assumes "run_check su cid mark_ok rxs s = Some (Inr (a, s', rxs'))" and "se_current s = Some (c, names, m)"
  obtains err r verdict where "wait_closed mark_ok rxs (se_results s) = Some (err, r, rxs')"
    and "a = Verdict verdict cid"
    and "case err of Some e \<Rightarrow> verdict = Inl e
      | None \<Rightarrow> \<exists>v. check_case (su_encode su) (su_eproto su) names c (rs_frames r) (su_authority su) = Inr v \<and> verdict = Inr v"
proof -
  from assms obtain err r rxs1 where wait: "wait_closed mark_ok rxs (se_results s) = Some (err, r, rxs1)"
    by (auto simp: run_check_def)
  show ?thesis
  proof (cases err)
    case (Some e)
    with assms wait have "forget_and_answer su cid (c, names, m) rxs1 (Inl e) r = Inr (a, s', rxs')"
      by (simp add: run_check_def)
    from forget_and_answer_Inr [OF this] that [of err r "Inl e"] wait Some show ?thesis by simp
  next
    case None
    show ?thesis
    proof (cases "check_case (su_encode su) (su_eproto su) names c (rs_frames r) (su_authority su)")
      case (Inl e)
      with assms wait None show ?thesis by (simp add: run_check_def take_frames_def)
    next
      case (Inr v)
      with assms wait None have "forget_and_answer su cid (c, names, m) rxs1 (Inr v) (r\<lparr>rs_frames := []\<rparr>) = Inr (a, s', rxs')"
        by (simp add: run_check_def take_frames_def)
      from forget_and_answer_Inr [OF this] that [of err r "Inr v"] wait None Inr show ?thesis by (cases v) simp
    qed
  qed
qed

text \<open>
  C34: for a line \<open>case id\<close> followed by a line \<open>check id\<close>, both
  of which succeed, the verdict is that the case passes if and only if the mark and the closed
  connections could be waited for, and the frames reported since the case got ready, and no
  others, conform to the case that lists the id.
\<close>

theorem case_passes_iff_its_frames_conform:
  assumes "encodes_all (su_encode su)"
    and "run_line su (''case '' @ cid) ok1 rxs s = Some (Inr (a1, s1, rxs1))"
    and "run_line su (''check '' @ cid) ok2 rxs1 s1 = Some (Inr (a2, s2, rxs2))"
  shows "\<exists>c names m. find (\<lambda>c. cid \<in> set (case_ids c)) (su_cases su) = Some c \<and> su_attach su c = Inr (names, m) \<and>
     (passes a2 \<longleftrightarrow> (\<exists>reports r. wait_closed ok2 rxs1 (se_results s1) = Some (None, r, rxs2) \<and>
        rxs1 = map Got reports @ Nothing # rxs2 \<and>
        conforms (su_encode su) (su_eproto su) names c (frames_of reports) (su_authority su)))"
proof -
  obtain c names m where c: "find (\<lambda>c. cid \<in> set (case_ids c)) (su_cases su) = Some c"
    "su_attach su c = Inr (names, m)" "se_current s1 = Some (c, names, m)" "rs_frames (se_results s1) = []"
    using assms(2) unfolding run_line_def split_once_cmd by (auto elim: run_case_InrE)
  from assms(3) have "run_check su cid ok2 rxs1 s1 = Some (Inr (a2, s2, rxs2))"
    unfolding run_line_def split_once_cmd by simp
  then obtain err r verdict where wait: "wait_closed ok2 rxs1 (se_results s1) = Some (err, r, rxs2)"
    and a2: "a2 = Verdict verdict cid"
    and verdict: "case err of Some e \<Rightarrow> verdict = Inl e
      | None \<Rightarrow> \<exists>v. check_case (su_encode su) (su_eproto su) names c (rs_frames r) (su_authority su) = Inr v \<and> verdict = Inr v"
    using c(3) by (rule run_check_InrE)
  show ?thesis
  proof (cases err)
    case (Some e)
    with verdict a2 wait have "\<not> passes a2" by (simp add: passes_def)
    with c Some wait show ?thesis by auto
  next
    case None
    with wait obtain reports where reports: "rxs1 = map Got reports @ Nothing # rxs2"
      and r: "r = handle_all reports ((se_results s1)\<lparr>rs_marked := False\<rparr>)"
      unfolding None wait_closed_iff by blast
    have frames: "rs_frames r = frames_of reports" by (simp add: r handle_all_fields c(4))
    obtain problems summary where v: "check_case (su_encode su) (su_eproto su) names c (rs_frames r) (su_authority su) =
        Inr (problems, summary)"
      and p: "problems = [] \<longleftrightarrow> conforms (su_encode su) (su_eproto su) names c (frames_of reports) (su_authority su)"
      unfolding frames using check_case_decides [OF assms(1)] by blast
    from verdict None v a2 have "passes a2 \<longleftrightarrow> problems = []" by (cases summary) (auto simp: passes_def)
    moreover have "reports' = reports" if "rxs1 = map Got reports' @ Nothing # rxs2" for reports'
      using that reports by (auto dest: map_injective simp: inj_def)
    ultimately show ?thesis using c p wait None reports by metis
  qed
qed


text \<open>A session of one case whose maps are not used, for the witness.\<close>

definition demo_env :: "(unit, unit, unit, unit) conf_env" where
  "demo_env = \<lparr>su_encode = Inr, su_eproto = 71, su_cases = [a_violation], su_server = V4 (127, 0, 0, 1) 80,
     su_authority = [], su_attach = (\<lambda>_. Inr (['':method''], ())), su_forget = (\<lambda>_ _ m. Inr (Inr m))\<rparr>"

definition demo_rxs :: "rx list" where
  "demo_rxs = [Got (Frame (a_frame (-1) [])), Got Mark, Got (Open 9 True),
     Got (Frame (a_frame 30 [Some (reported (bytes_of ''GET''))])), Got (Frame (a_frame (-71) [])), Got Mark,
     Got (Close 9 True), Nothing]"

lemma demo_case:
  "\<exists>a s1. run_line demo_env (''case '' @ ''http2/5.1/7'') True demo_rxs \<lparr>se_current = None, se_results = results_new\<rparr> =
     Some (Inr (a, s1, drop 2 demo_rxs)) \<and> se_current s1 = Some (a_violation, ['':method''], ()) \<and>
     se_results s1 = results_new\<lparr>rs_marked := True\<rparr>"
  unfolding run_line_def split_once_cmd
  by (simp add: run_case_def demo_env_def demo_rxs_def a_violation_def sync_def recv_until_done recv_until_Got
      handle_def results_new_def take_frames_def Let_def)

lemma demo_check:
  assumes "se_current s1 = Some (a_violation, ['':method''], ())" and "se_results s1 = results_new\<lparr>rs_marked := True\<rparr>"
  shows "\<exists>a s2. run_line demo_env (''check '' @ ''http2/5.1/7'') True (drop 2 demo_rxs) s1 = Some (Inr (a, s2, []))"
proof -
  define frames where "frames = [a_frame 30 [Some (reported (bytes_of ''GET''))], a_frame (-71) []]"
  obtain problems x y z where
    v: "check_case (Inr :: bytes \<Rightarrow> unit + bytes) 71 ['':method''] a_violation frames [] = Inr (problems, x, y, z)"
    using check_case_decides [of "Inr :: bytes \<Rightarrow> unit + bytes" 71 "['':method'']" a_violation frames "[]"]
    by (auto simp: encodes_all_def)
  show ?thesis
    unfolding run_line_def split_once_cmd
    by (simp add: run_check_def assms demo_env_def demo_rxs_def wait_closed_def sync_def recv_until_done recv_until_Got
        handle_def results_new_def take_frames_def Let_def forget_and_answer_def forget_closed_def
        end_addrs_def with_port_def v [unfolded frames_def])
qed

theorem case_passes_iff_its_frames_conform_witness:
  "\<exists>a1 s1 a2 s2.
     run_line demo_env (''case '' @ ''http2/5.1/7'') True demo_rxs \<lparr>se_current = None, se_results = results_new\<rparr> =
       Some (Inr (a1, s1, drop 2 demo_rxs)) \<and>
     run_line demo_env (''check '' @ ''http2/5.1/7'') True (drop 2 demo_rxs) s1 = Some (Inr (a2, s2, [])) \<and>
     (\<exists>c names m. find (\<lambda>c. ''http2/5.1/7'' \<in> set (case_ids c)) (su_cases demo_env) = Some c \<and>
        su_attach demo_env c = Inr (names, m) \<and>
        (passes a2 \<longleftrightarrow> (\<exists>reports r. wait_closed True (drop 2 demo_rxs) (se_results s1) = Some (None, r, []) \<and>
          drop 2 demo_rxs = map Got reports @ Nothing # [] \<and>
          conforms (su_encode demo_env) (su_eproto demo_env) names c (frames_of reports) (su_authority demo_env))))"
proof -
  obtain a1 s1 where one: "run_line demo_env (''case '' @ ''http2/5.1/7'') True demo_rxs
      \<lparr>se_current = None, se_results = results_new\<rparr> = Some (Inr (a1, s1, drop 2 demo_rxs))"
    and s1: "se_current s1 = Some (a_violation, ['':method''], ())" "se_results s1 = results_new\<lparr>rs_marked := True\<rparr>"
    using demo_case by blast
  obtain a2 s2 where two: "run_line demo_env (''check '' @ ''http2/5.1/7'') True (drop 2 demo_rxs) s1 = Some (Inr (a2, s2, []))"
    using demo_check [OF s1] by blast
  have "encodes_all (su_encode demo_env)" by (simp add: demo_env_def encodes_all_def)
  note case_passes_iff_its_frames_conform [OF this one two]
  with one two show ?thesis by blast
qed

end
