(* ===== verification/Conformance_Parser.thy ===== *)
theory Conformance_Parser
  imports Conformance_Session Http2_Attach "HOL-Library.Char_ord" "HOL-Library.List_Lexorder"
begin

section \<open>The parser of a case (\<open>CaseParser::attach\<close> of \<open>utils/src/bin/conformance/main.rs\<close>)\<close>

text \<open>
  The parser that captures every field a case sends and the ones of the responses, and the
  field each match id stands for. The set of names is a \<open>BTreeSet\<close>, which is iterated in the
  order of the bytes.
\<close>

definition case_names :: "h2spec_case \<Rightarrow> string list" where
  "case_names c = sort (remdups
     (map fst (concat (List.map_filter block_sent (case_blocks c))) @ RESPONSE_FIELDS))"

fun capture_names ::
  "(bytes \<Rightarrow> 'enc + bytes) \<Rightarrow> string list \<Rightarrow> string list \<Rightarrow> h2_parser \<Rightarrow>
     h2_action panic + (('enc, 'bpf, 'plain) beeper_error + string list \<times> h2_parser)" where
  "capture_names encode [] by_mid p = Inr (Inr (by_mid, p))"
| "capture_names encode (name # names) by_mid p =
     bind_res (h2_capture_hdr encode (bytes_of name) p) (\<lambda>(r, p).
       case r of
         Inl e \<Rightarrow> Inr (Inl e)
       | Inr mid \<Rightarrow>
           if unat (u8_of_match_id mid) < length by_mid
           then capture_names encode names (by_mid[unat (u8_of_match_id mid) := name]) p
           else Inl IndexOutOfBounds)"

definition case_parser ::
  "(bytes \<Rightarrow> 'enc + bytes) \<Rightarrow> h2spec_case \<Rightarrow>
     h2_action panic + (('enc, 'bpf, 'plain) beeper_error + string list \<times> h2_parser)" where
  "case_parser encode c =
     (let names = case_names c in
      bind_res h2_new (\<lambda>p. capture_names encode names (replicate (length names) '''') p))"

definition attach_case ::
  "(bytes \<Rightarrow> 'enc + bytes) \<Rightarrow> 'bpf h2_env \<Rightarrow> bool \<Rightarrow>
     (h2_parser \<Rightarrow> (state_id \<times> input \<times> state_id \<times> h2_action option) list) \<Rightarrow> int \<Rightarrow> h2spec_case \<Rightarrow>
     (h2_action, ('enc, 'bpf, 'plain) beeper_error) failure + string list \<times> prog list \<times> h2_trace" where
  "attach_case encode env trace_enabled iter prog_fd c =
     (case case_parser encode c of
        Inl e \<Rightarrow> Inl (Panic e)
      | Inr (Inl e) \<Rightarrow> Inl (Failed e)
      | Inr (Inr (by_mid, p)) \<Rightarrow>
          (let p = h2_get_fn ''get_http2_match_msg'' Msg (h2_parse_fn ''parse_http2_msg'' Msg
                 (h2_matched ''matched_http2'' p))
           in bind_res (h2_attach encode env trace_enabled (iter p) prog_fd p) (\<lambda>(links, tr).
              Inr (by_mid, links, tr))))"

subsection \<open>Ids in the order of the names\<close>

lemma of_char_u8: "(of_char c :: u8) = of_char d \<longleftrightarrow> c = d"
proof
  assume eq: "(of_char c :: u8) = of_char d"
  have bit: "bit (of_char c :: u8) n \<longleftrightarrow> n < 8 \<and> [digit0 c, digit1 c, digit2 c, digit3 c, digit4 c, digit5 c, digit6 c, digit7 c] ! n"
    for c n
    by (simp only: of_char_def bit_horner_sum_bit_word_iff) (simp add: eval_nat_numeral)
  show "c = d"
    using bit [of c 0] bit [of c 1] bit [of c 2] bit [of c 3] bit [of c 4] bit [of c 5] bit [of c 6] bit [of c 7]
      bit [of d 0] bit [of d 1] bit [of d 2] bit [of d 3] bit [of d 4] bit [of d 5] bit [of d 6] bit [of d 7]
    by (intro char.expand) (simp add: eq)
qed simp

lemma bytes_of_inj: "bytes_of a = bytes_of b \<longleftrightarrow> a = b"
proof -
  have "inj (of_char :: char \<Rightarrow> u8)" by (simp add: inj_def of_char_u8)
  then show ?thesis by (simp add: bytes_of_def inj_map_eq_map)
qed

lemma spec_capture_all_dense:
  assumes "distinct names" and "n + length names \<le> 32"
    and "\<And>name. name \<in> set names \<Longrightarrow> ids name = None \<and> \<not> isl (encode name)"
  shows "(spec_capture_all encode names (ids, n) :: (('enc, 'bpf, 'plain) beeper_error + match_id) list \<times> id_map) =
    (map (\<lambda>i. Inr (MatchId (word_of_nat i))) [n..<n + length names],
     foldl (\<lambda>m (name, i). m(name \<mapsto> MatchId (word_of_nat i))) ids (zip names [n..<n + length names]),
     n + length names)"
  using assms
proof (induction names arbitrary: ids n)
  case (Cons name names)
  then obtain coded where "encode name = Inr coded" "ids name = None" by (cases "encode name") fastforce+
  moreover have "(spec_capture_all encode names (ids(name \<mapsto> MatchId (word_of_nat n)), n + 1) ::
      (('enc, 'bpf, 'plain) beeper_error + match_id) list \<times> id_map) =
    (map (\<lambda>i. Inr (MatchId (word_of_nat i))) [n + 1..<n + 1 + length names],
     foldl (\<lambda>m (name, i). m(name \<mapsto> MatchId (word_of_nat i))) (ids(name \<mapsto> MatchId (word_of_nat n)))
       (zip names [n + 1..<n + 1 + length names]),
     n + 1 + length names)"
    by (rule Cons.IH) (use Cons.prems in auto)
  ultimately show ?case
    using Cons.prems(2) by (simp add: spec_capture_def upt_conv_Cons del: upt_Suc fun_upd_apply)
qed simp

lemma capture_names_dense:
  assumes "capture_all (h2_capture_hdr encode) (map bytes_of names) p =
      Inr (map (\<lambda>i. Inr (MatchId (word_of_nat i))) [length pre..<length pre + length names] ::
        (('enc, 'bpf, 'plain) beeper_error + match_id) list, p')"
    and "length pre + length names \<le> 32"
  shows "capture_names encode names (pre @ replicate (length names) '''') p =
    (Inr (Inr (pre @ names, p')) :: h2_action panic + (('enc, 'bpf, 'plain) beeper_error + string list \<times> h2_parser))"
  using assms
proof (induction names arbitrary: pre p)
  case (Cons name names)
  from Cons.prems obtain p1 where c: "(h2_capture_hdr encode (bytes_of name) p ::
      h2_action panic + (('enc, 'bpf, 'plain) beeper_error + match_id) \<times> h2_parser) =
        Inr (Inr (MatchId (word_of_nat (length pre))), p1)"
    and rest: "capture_all (h2_capture_hdr encode) (map bytes_of names) p1 =
      Inr (map (\<lambda>i. Inr (MatchId (word_of_nat i))) [length (pre @ [name])..<length (pre @ [name]) + length names] ::
        (('enc, 'bpf, 'plain) beeper_error + match_id) list, p')"
    by (auto simp: res_simps upt_conv_Cons simp del: upt_Suc)
  have "unat (word_of_nat (length pre) :: u8) = length pre"
    using Cons.prems(2) by (simp add: unsigned_of_nat take_bit_nat_eq_self)
  then show ?case
    using Cons.IH [OF rest] Cons.prems(2) by (simp add: c u8_of_match_id_def)
qed simp


subsection \<open>Every case fits\<close>

lemma case_names_fit:
  assumes "c \<in> set h2spec_cases"
  shows "distinct (case_names c)" and "length (case_names c) \<le> 32" and "names_length (case_names c) \<le> 504"
proof -
  show d: "distinct (case_names c)" by (simp add: case_names_def)
  have "set (case_names c) \<subseteq> set all_names"
    using fields_of_cases assms by (simp add: case_names_def fields_named_def)
  moreover have "finite (set all_names)" by simp
  ultimately have "card (set (case_names c)) \<le> card (set all_names)"
    and "(\<Sum>name \<in> set (case_names c). length name) \<le> (\<Sum>name \<in> set all_names. length name)"
    by (simp_all add: card_mono sum_mono2)
  moreover have "card (set all_names) \<le> 32" and "(\<Sum>name \<in> set all_names. length name) \<le> 504"
    by (simp_all add: all_names_def)
  ultimately show "length (case_names c) \<le> 32" "names_length (case_names c) \<le> 504"
    using d by (simp_all add: distinct_card names_length_def sum_list_distinct_conv_sum_set)
qed

lemma case_parser_fits:
  assumes "distinct (case_names c)" and "length (case_names c) \<le> 32" and "names_length (case_names c) \<le> 504"
    and inj: "\<And>a b w. encode a = Inr w \<Longrightarrow> encode b = Inr w \<Longrightarrow> a = b"
    and enc: "\<And>name. name \<in> set (case_names c) \<Longrightarrow>
      \<exists>coded. encode (bytes_of name) = Inr coded \<and> length coded \<le> length name"
  shows "\<exists>p. case_parser encode c =
      (Inr (Inr (case_names c, p)) :: h2_action panic + (('enc, 'bpf, 'plain) beeper_error + string list \<times> h2_parser)) \<and>
    fits h2_limits (h2_dfa p) \<and>
    (\<forall>mid < length (case_names c).
       map_of (h2_captures p) (bytes_of (case_names c ! mid)) = Some (MatchId (word_of_nat mid)))"
proof -
  let ?names = "case_names c" and ?cap = "h2_capture_hdr encode ::
    bytes \<Rightarrow> h2_parser \<Rightarrow> h2_action panic + (('enc, 'bpf, 'plain) beeper_error + match_id) \<times> h2_parser"
  obtain p where p: "h2_new = Inr p" "num_states (h2_dfa p) = 16" using h2_new_total by blast
  note inv = h2_inv_new [OF p(1)]
  have "coded_length encode (bytes_of name) \<le> 2 * length name" if "name \<in> set ?names" for name
    using enc [OF that] by (auto simp: coded_length_def bytes_of_def)
  then have "(\<Sum>name\<leftarrow>?names. coded_length encode (bytes_of name)) \<le> (\<Sum>name\<leftarrow>?names. 2 * length name)"
    by (intro sum_list_mono) auto
  also have "\<dots> \<le> 1008"
    using assms(3) by (simp add: names_length_def sum_list_const_mult)
  finally have room: "(\<Sum>name\<leftarrow>map bytes_of ?names. coded_length encode name) \<le> 1008" by (simp add: comp_def)
  then obtain rs p' where run: "capture_all ?cap (map bytes_of ?names) p = Inr (rs, p')"
    using h2_capture_all_fits [where names = "map bytes_of ?names" and encode = encode, OF refl _ inv(1)] inj p(2)
    by fastforce
  have dist: "distinct (map bytes_of ?names)"
    using assms(1) by (simp add: distinct_map inj_on_def bytes_of_inj)
  have "id_map_of p = (Map.empty, 0)" using inv by (simp add: id_map_of_def)
  moreover have "\<not> isl (encode name)" if "name \<in> set (map bytes_of ?names)" for name
    using enc that by fastforce
  ultimately have dense: "(spec_capture_all encode (map bytes_of ?names) (id_map_of p) ::
      (('enc, 'bpf, 'plain) beeper_error + match_id) list \<times> id_map) =
      (map (\<lambda>i. Inr (MatchId (word_of_nat i))) [0..<length ?names],
       foldl (\<lambda>m (name, i). m(name \<mapsto> MatchId (word_of_nat i))) Map.empty
         (zip (map bytes_of ?names) [0..<length ?names]), length ?names)"
    using spec_capture_all_dense [OF dist, of 0 Map.empty encode] assms(2) by simp
  from h2_capture_all_spec [OF run] dense have rs: "rs = map (\<lambda>i. Inr (MatchId (word_of_nat i))) [0..<length ?names]"
    by simp
  have cap: "capture_names encode ?names (replicate (length ?names) '''') p =
      (Inr (Inr (?names, p')) :: h2_action panic + (('enc, 'bpf, 'plain) beeper_error + string list \<times> h2_parser))"
    using capture_names_dense [of encode ?names p "[]" p'] run rs assms(2) by simp
  have "unat (num_states (h2_dfa p')) \<le> 1024"
    using h2_capture_all_num_states [OF run inv(1)] room by (simp add: p(2))
  then have "fits h2_limits (h2_dfa p')"
    using h2_fits_iff [OF h2_inv_capture_all [OF run inv(1)]] by simp
  moreover have "map_of (h2_captures p') (bytes_of (?names ! mid)) = Some (MatchId (word_of_nat mid))"
    if "mid < length ?names" for mid
  proof -
    have "(bytes_of (?names ! mid), Inr (MatchId (word_of_nat mid))) \<in> set (zip (map bytes_of ?names) rs)"
      using that by (auto simp: rs in_set_zip intro!: exI [of _ mid])
    with h2_ids.capture_all_registered [OF run h2_invD(4) [OF inv(1)]] show ?thesis by blast
  qed
  ultimately show ?thesis
    unfolding case_parser_def Let_def p(1) bind_res_Inr cap by blast
qed

subsection \<open>Property\<close>

text \<open>
  C35: with an encoder that is injective and codes the names of a
  case in no more bytes than they have, the parser of every case of h2spec is built without a
  panic and without reaching the limit of 32 ids, its DFA fits into the tables of the program,
  and the field listed under each id is the one the parser captures with that id.
\<close>

theorem h2spec_cases_can_be_attached:
  assumes "c \<in> set h2spec_cases"
    and "\<And>a b w. encode a = Inr w \<Longrightarrow> encode b = Inr w \<Longrightarrow> a = b"
    and "\<And>name. name \<in> set (case_names c) \<Longrightarrow>
      \<exists>coded. encode (bytes_of name) = Inr coded \<and> length coded \<le> length name"
  shows "\<exists>p. case_parser encode c =
      (Inr (Inr (case_names c, p)) :: h2_action panic + (('enc, 'bpf, 'plain) beeper_error + string list \<times> h2_parser)) \<and>
    fits h2_limits (h2_dfa p) \<and>
    (\<forall>mid < length (case_names c).
       map_of (h2_captures p) (bytes_of (case_names c ! mid)) = Some (MatchId (word_of_nat mid)))"
  using case_names_fit [OF assms(1)] assms(2,3) by (rule case_parser_fits)

theorem h2spec_cases_can_be_attached_witness:
  "\<exists>p. case_parser shifted (hd h2spec_cases) =
      (Inr (Inr (case_names (hd h2spec_cases), p)) :: h2_action panic + ((unit, unit, unit) beeper_error + _)) \<and>
    fits h2_limits (h2_dfa p) \<and>
    (\<forall>mid < length (case_names (hd h2spec_cases)).
       map_of (h2_captures p) (bytes_of (case_names (hd h2spec_cases) ! mid)) = Some (MatchId (word_of_nat mid)))"
proof (rule h2spec_cases_can_be_attached)
  show "hd h2spec_cases \<in> set h2spec_cases" by (simp add: case_defs)
  show "a = b" if "shifted a = Inr w" "shifted b = Inr w" for a b w
    using that by (rule shifted_inj)
  show "\<exists>coded. shifted (bytes_of name) = Inr coded \<and> length coded \<le> length name" for name
    by (simp add: shifted_def bytes_of_def)
qed

end
