(* ===== verification/Spec2Isabelle.thy ===== *)
theory Spec2Isabelle
  imports Dfa_Patterns Http2_Session Http1_Capture Conformance_Parser
begin

text \<open>
  A verification library for Beeper, a library that loads configurable HTTP parsers into the
  kernel as eBPF programs.

  \<^bold>\<open>The program.\<close> A user configures a \<open>Parser\<close> with the header fields to capture
  (\<open>beeper/src/http1/parser.rs\<close>, \<open>beeper/src/http2/parser.rs\<close>). Each field is compiled into
  patterns of one deterministic automaton (\<open>beeper/src/dfa.rs\<close>), whose edges carry actions; the
  automaton of HTTP/2 starts as the one of the field representations of HPACK
  (\<open>beeper/src/http2/hpack.rs\<close>). \<open>attach\<close> writes the automaton into the read-only tables of a BPF
  program (\<open>parser.bpf.c\<close> of either protocol), loads it, and replaces stub functions of a target
  program with its functions. From then on the target calls \<open>parse_msg\<close> or \<open>parse_skb\<close> for each
  message, the program walks the tables over its bytes, and \<open>matched\<close> and \<open>get_match\<close> read what
  it captured. For HTTP/2 the program also mirrors the dynamic table of each connection in maps
  of the kernel, which \<open>dynamic_table_info\<close> and \<open>forget_conn\<close> of the attached parser read and
  remove. The conformance check (\<open>utils/src/bin/conformance\<close>) runs the cases of h2spec against a
  target program and compares what it reports with what each case sends.

  \<^bold>\<open>The theories.\<close>
  \<^item> \<open>Beeper_Prelude\<close>: machine integers, results (\<open>Inl\<close> a panic or an error), hash maps as
    association lists, ASCII case, and the lemmas all theories share. \<open>Lib_Types\<close> is
    \<open>beeper/src/lib.rs\<close>.
  \<^item> \<open>Dfa\<close> (\<open>Dfa\<close> of \<open>dfa.rs\<close>: state ids, edges, the invariant \<open>wf_dfa\<close> and the order in which a
    DFA grows), \<open>Dfa_Builder\<close> (every method of \<open>DfaBuilder\<close>), \<open>Trie_Walk\<close> (what a case sensitive
    pattern adds: a trie), \<open>Dfa_Patterns\<close> (what holds of any chain of builder calls) and
    \<open>Dfa_Sketch\<close> (the builder over named places, which a builder run is related to by an
    injective map of places to state ids).
  \<^item> \<open>Match_Ids\<close>, \<open>Bpf_Load\<close> and \<open>Table_Injection\<close>: what both parsers share. \<open>Match_Ids\<close> holds the
    locales of an allocator of match ids and of \<open>capture_hdr\<close>, \<open>Bpf_Load\<close> the calls of \<open>libbpf_rs\<close>
    as an environment that may fail, with the trace of what was called, and
    \<open>Table_Injection\<close> the loops of \<open>inject\<close>.
  \<^item> \<open>Http1_Action\<close>, \<open>Http1_Parser\<close>, \<open>Http1_Attach\<close>: \<open>action.rs\<close> and \<open>parser.rs\<close> of HTTP/1.1;
    \<open>Http1_Bpf\<close>: its \<open>parser.bpf.c\<close>; \<open>Header_Automaton\<close> and \<open>Http1_Capture\<close>: the automaton
    \<open>capture_hdr\<close> and \<open>done_on_hdr_end\<close> are to build, that they build it, and what the program
    captures of a message with it.
  \<^item> \<open>Http2_Action\<close>, \<open>Hpack\<close>, \<open>Http2_Parser\<close>, \<open>Http2_Attach\<close>, \<open>Http2_Conn\<close>: \<open>action.rs\<close>,
    \<open>hpack.rs\<close> and \<open>parser.rs\<close> of HTTP/2.
  \<^item> The HTTP/2 program, \<open>parser.bpf.c\<close>: \<open>Http2_Table\<close> (the dynamic table, from \<open>_get_match\<close> to
    \<open>_add_dynamic_table_entry\<close>), \<open>Http2_Walk\<close> (\<open>_parse_hdr_byte\<close> with its actions, and the two loops
    over a block) and \<open>Http2_Program\<close> (\<open>parse_msg\<close>, \<open>parse_skb\<close> and all they call, \<open>matched\<close>,
    \<open>get_match\<close>, \<open>get_dt_entry\<close>). The C structs are records; the maps of the kernel are a state that
    is passed on, and what the kernel decides, room in a map, memory that can be read, bytes that
    are pulled in, is the environment \<open>h2_prog_env\<close> or an argument.
  \<^item> The table of RFC 7541: \<open>Http2_Huffman\<close> (the Huffman code of its appendix B, and that the
    program counts the octets a coded text decodes to) and \<open>Http2_Mirror\<close> (a table of the names
    and values that were sent, with the sizes of section 4.1, and that the maps keep it). Neither
    uses a definition of the program for what a table holds.
  \<^item> What that program does: \<open>Http2_Block\<close> (header blocks of RFC 7541 as a datatype with their
    encoding, and how the walk reads integers, strings and names), \<open>Http2_Decode\<close> (each
    representation), \<open>Http2_Decoder\<close> (the decoder of RFC 7541, and that the walk is one),
    \<open>Http2_Frames\<close> and \<open>Http2_Continuation\<close> (blocks in one and in several frames), \<open>Http2_Capture\<close>
    (the program with the tables of a configured parser), \<open>Http2_Texts\<close> (the decoder of RFC 7541
    over texts, and that the entries the program makes keep the fields it has), \<open>Http2_Settings\<close>,
    \<open>Http2_Limits\<close> (what it does not decode: errors, retries, frames that are too long, the bound
    of its loop), \<open>Http2_Isolation\<close> (a call, with any bytes, writes no key of another connection)
    and \<open>Http2_Session\<close> (calls on all connections in any order, with \<open>forget_conn\<close> in between, as a
    step relation).
  \<^item> \<open>Conformance_Cases\<close> (\<open>cases.rs\<close>), \<open>Conformance_Check\<close>, \<open>Conformance_Results\<close>,
    \<open>Conformance_Session\<close>, \<open>Conformance_Parser\<close> (\<open>main.rs\<close>) and \<open>Test_Results\<close>
    (\<open>ParseResult::read\<close> of \<open>utils/src/test.rs\<close>).

  \<^bold>\<open>What the lemmas show.\<close> A chain of builder calls keeps the DFA well formed, never redirects an
  edge, and panics only for the reasons named (\<open>Dfa_Patterns\<close>); a case sensitive pattern adds
  exactly its word (\<open>Trie_Walk\<close>). The DFA of HPACK is the table of RFC 7541 (\<open>Hpack\<close>).
  \<open>capture_hdr\<close> and the other builder methods hand out ids like a map from names to ids, on every
  branch (\<open>Http1_Parser\<close>, \<open>Http2_Parser\<close>, by the locales of \<open>Match_Ids\<close>), and the DFA of HTTP/2
  captures exactly the names asked for. \<open>inject\<close> writes tables that represent the DFA, within
  the bounds of the arrays, and \<open>attach\<close> replaces exactly the functions that were configured.
  The program of HTTP/1.1 walks the DFA the tables represent, captures ranges that lie within the
  header, does not depend on how much of a message is in the linear part but for the errors named,
  and, run with a parser's tables over a message, finds the values of the fields asked for. The
  program of HTTP/2 refines the decoder of RFC 7541: the maps hold the dynamic table of the
  connection, and a header block, in one frame or in several, leaves the state the decoder leaves
  and the places of the values of exactly the names asked for, which \<open>get_match\<close> reads back
  (\<open>decode_step\<close>, \<open>decode_block\<close>, \<open>headers_frame_decodes\<close>, \<open>continued_frame_decodes\<close>); so do the
  maps in every reachable state (\<open>session_tracks\<close>), for the connections on which only what the
  program can follow has arrived; any other call takes its own connection out of this and no
  other (\<open>call_keeps\<close>). Added entries hold the names and values as they were sent, and are
  sized as RFC 7541 sizes them (\<open>new_entry_keeps\<close>, \<open>decode_all_same\<close>). The
  hypotheses of these lemmas are what the program relies on: the indices name entries, no field
  that is added is Huffman coded and longer than an entry keeps, the counters do not overflow
  (\<open>decodable_all\<close>), for the lemmas over texts also that no field is added
  whose name is an index of a longer name than an entry keeps (\<open>rd_ready_all\<close>), and the kernel has room (\<open>roomy\<close>) and delivers the
  bytes of the message (\<open>delivers\<close>). The conformance check passes exactly the
  reports that conform.

  \<^bold>\<open>Bounds.\<close> Nothing runs on fuel: every loop is a recursion over a list, over the bytes of a
  buffer, or over the count the code computes before the loop; that the count of the loop over the
  frames of a block is enough is proved (\<open>collect_loop_enough\<close>). The limits are the ones of the
  code: 512 states, 256 actions and 257 columns for HTTP/1.1, 1024 states, 1024 actions and 256
  columns for HTTP/2, 32 match ids, 128 bytes of a field, 16382 bytes of a block of several frames, and \<open>0x7FFF\<close> bytes of a message.
  State ids, indices and the counters of the dynamic table are words of the width of the code.

  \<^bold>\<open>Not modelled.\<close> The RESP2 parser, which is not a module of the crate and calls methods that do
  not exist; the example program; the build scripts; the test program \<open>utils/src/prog.bpf.c\<close>, the
  echo server, and the parts of \<open>utils/src/test.rs\<close> that load and attach the test program, which
  are calls of \<open>libbpf_rs\<close> and of \<open>axum\<close>; the text of messages. The crates \<open>httlib_huffman\<close>,
  \<open>libbpf_rs\<close> and \<open>plain\<close> are parameters.
  Of \<open>parser.bpf.c\<close> the trace output and the unused fields of a SETTINGS frame are left out, and
  the conversion of the addresses of a socket to the key of a connection, which is given.
  A read of kernel memory that fails fills its destination with zeros; the model leaves the buffer
  of the CPU as it was and returns the same error. SETTINGS count where and when the program has
  them count, for the connection they are sent on and at once. The static table is inserted in
  one order of iteration, although the hash map of the code has any (its keys differ, so the
  order does not matter), and the panic of either \<open>inject\<close> for a skeleton without read-only data,
  which the build always generates, is left out.
\<close>

end
